(* ===== verification/Sky_Prelude.thy ===== *)
theory Sky_Prelude
  imports Main "HOL-Library.Word"
begin

text \<open>
  Shared vocabulary of the development: Go's machine integers and byte slices, panics and
  errors as values, and the generic lemmas on words, lists and bit strings that the components use.

  Go's \<open>uint8\<close>, \<open>uint32\<close>, \<open>uint64\<close> (and \<open>uint\<close>, 64 bits wide on every supported platform) are
  words of that width, so that \<open>+\<close>, \<open>-\<close>, \<open>*\<close> wrap around. \<open>int64\<close> is a 64-bit word read through
  \<open>sint\<close>. A Go \<open>int\<close> that only ever holds lengths, offsets and loop counters is a \<open>nat\<close>; where
  a length is converted to a fixed-width integer the conversion is written out. \<open>*big.Int\<close> is
  \<open>int\<close>. A slice is the list of its elements; where re-slicing may reach past the length of a
  slice into its capacity, the bytes between length and capacity are kept as well.
\<close>

section \<open>Machine types\<close>

type_synonym u8 = "8 word"
type_synonym u16 = "16 word"
type_synonym u32 = "32 word"
type_synonym u64 = "64 word"
type_synonym i64 = "64 word"
type_synonym bytes = "8 word list"

named_theorems go_defs \<open>definitions of small wrappers that proofs may always unfold\<close>
named_theorems codec_rt \<open>introduction rules: a writer action and a reader action round-trip\<close>

section \<open>Errors and panics\<close>

text \<open>
  The error variables of the packages that are modelled, by their Go names, and the run-time
  panics. A Go function that may return an error or panic returns \<open>failure + 'a\<close>; a panic is kept
  apart from a returned error, because \<open>recover\<close> turns only the former into something else.
\<close>

datatype go_error =
    ErrNonCanonicalEncoding
  | ErrMalformedEncoding
  | ErrSerMalformedEvent
  | ErrUnknownTxType
  | ErrLegacyGasLimit
  | ErrZeroTime | ErrNegativeValue | ErrBasicIntrinsicGas | ErrHugeValue
  | ErrTooManyParents | ErrTooBigGasUsed | ErrWrongGasUsed | ErrUnderpriced | ErrTooBigExtra
  | ErrUnsupportedTxType | ErrNotRelevant | ErrAuth
  | ErrWrongEventSig | ErrMalformedTxSig | ErrWrongTxHash | ErrTerminated
  | ErrWrongGasPowerLeft | ErrPastTime | ErrWrongSelfParent
  | ErrAlreadyConnectedEvent | ErrSpilledEvent | ErrDuplicateEvent
  | ErrOutOfGas | ErrGasUintOverflow | ErrIntrinsicGas | ErrInsufficientFunds
  | ErrNonceTooHigh | ErrNonceTooLow | ErrGasLimitReached
  | ErrAlreadyKnown | ErrInvalidSender | ErrReplaceUnderpriced | ErrGasLimit | ErrOversizedData | ErrTxTypeNotSupported
  | OtherErr string

datatype go_panic =
    IndexOutOfRange
  | SliceOutOfRange
  | DivideByZero
  | NilDereference
  | PanicMsg string
  | PanicErr go_error

datatype failure = Panic go_panic | Err go_error

type_synonym 'a res = "failure + 'a"

definition bind_res :: "'a res \<Rightarrow> ('a \<Rightarrow> 'b res) \<Rightarrow> 'b res" where
  "bind_res m f = (case m of Inl e \<Rightarrow> Inl e | Inr x \<Rightarrow> f x)"

lemma bind_res_simps [simp]:
  "bind_res (Inl e) f = Inl e"
  "bind_res (Inr x) f = f x"
  by (simp_all add: bind_res_def)

lemma bind_res_cong [fundef_cong]:
  "m = m' \<Longrightarrow> (\<And>x. m' = Inr x \<Longrightarrow> f x = g x) \<Longrightarrow> bind_res m f = bind_res m' g"
  by (cases m') auto

lemma bind_res_Inr_iff: "bind_res m f = Inr y \<longleftrightarrow> (\<exists>x. m = Inr x \<and> f x = Inr y)"
  by (cases m) auto

lemma bind_res_assoc: "bind_res (bind_res m f) g = bind_res m (\<lambda>x. bind_res (f x) g)"
  by (cases m) auto

text \<open>A loop that may not end on top: \<open>None\<close> is not returning.\<close>

type_synonym 'a run = "'a res option"

definition bind_run :: "'a run \<Rightarrow> ('a \<Rightarrow> 'b run) \<Rightarrow> 'b run" where
  "bind_run m f = (case m of None \<Rightarrow> None | Some (Inl e) \<Rightarrow> Some (Inl e) | Some (Inr x) \<Rightarrow> f x)"

lemma bind_run_simps [simp]:
  "bind_run None f = None" "bind_run (Some (Inl e)) f = Some (Inl e)" "bind_run (Some (Inr x)) f = f x"
  by (simp_all add: bind_run_def)

section \<open>Words and bit strings\<close>

text \<open>The bits of a word, least significant first, and the word of a bit string.\<close>

definition low_bits :: "nat \<Rightarrow> 'a::len word \<Rightarrow> bool list" where
  "low_bits n v = map (bit v) [0..<n]"

definition of_bits :: "bool list \<Rightarrow> 'a::len word" where
  "of_bits bs = horner_sum of_bool 2 bs"

lemma length_low_bits [simp]: "length (low_bits n v) = n"
  by (simp add: low_bits_def)

lemma low_bits_0 [simp]: "low_bits 0 v = []"
  by (simp add: low_bits_def)

lemma nth_low_bits [simp]: "i < n \<Longrightarrow> low_bits n v ! i = bit v i"
  by (simp add: low_bits_def)

lemma bit_of_bits: "bit (of_bits bs :: 'a::len word) i \<longleftrightarrow> i < LENGTH('a) \<and> i < length bs \<and> bs ! i"
  by (auto simp: of_bits_def bit_horner_sum_bit_word_iff)

lemma of_bits_low_bits: "of_bits (low_bits n v) = take_bit n v"
  by (simp add: of_bits_def low_bits_def horner_sum_bit_eq_take_bit)

lemma low_bits_append:
  "low_bits (m + n) v = low_bits m v @ low_bits n (drop_bit m v)"
  by (rule nth_equalityI) (auto simp: nth_append bit_simps)

lemma low_bits_of_bits:
  "length bs = n \<Longrightarrow> n \<le> LENGTH('a) \<Longrightarrow> low_bits n (of_bits bs :: 'a::len word) = bs"
  by (rule nth_equalityI) (auto simp: bit_of_bits)

lemma unat_drop_bit: "unat (drop_bit n v) = unat v div 2 ^ n" for v :: "'a::len word"
proof -
  have "take_bit LENGTH('a) (unat v) = unat v"
    by (simp add: take_bit_nat_eq_self_iff)
  then show ?thesis
    unfolding unsigned_drop_bit_eq by (simp only: drop_bit_eq_div)
qed

lemma ucast_up_down:
  "LENGTH('a) \<le> LENGTH('b) \<Longrightarrow> ucast (ucast (v :: 'a::len word) :: 'b::len word) = v"
  by (rule bit_word_eqI) (auto simp: bit_simps)

lemma unat_small_nat: "n < 2 ^ LENGTH('a) \<Longrightarrow> unat (word_of_nat n :: 'a::len word) = n"
  by (simp add: unat_of_nat)

lemma unat_max_word: "unat (- 1 :: 'a::len word) = 2 ^ LENGTH('a) - 1"
  by (simp add: unsigned_minus_1_eq_mask mask_eq_exp_minus_1)

lemma unat_max_diff: "unat (- 1 - x :: 'a::len word) = 2 ^ LENGTH('a) - 1 - unat x"
proof -
  have "x \<le> - 1" by simp
  then show ?thesis using unat_sub [of x "- 1"] by (simp only: unat_max_word)
qed

lemma unat_add_small: "unat x + unat y < 2 ^ LENGTH('a) \<Longrightarrow> unat (x + y :: 'a::len word) = unat x + unat y"
  by (simp add: unat_add_lem)

lemma unat_add_le: "unat (x + y :: 'a::len word) \<le> unat x + unat y"
  by (simp add: unat_word_ariths)

lemma low_bits_take_bit: "low_bits n (take_bit n v) = low_bits n v"
  by (rule nth_equalityI) (auto simp: bit_simps)

lemma low_bits_eqD:
  "low_bits n v = low_bits n w \<Longrightarrow> i < n \<Longrightarrow> bit v i = bit w i"
  by (metis nth_low_bits)

text \<open>\<open>fits n v\<close>: the value needs at most \<open>n\<close> bits.\<close>

definition fits :: "nat \<Rightarrow> 'a::len word \<Rightarrow> bool" where
  "fits n v \<longleftrightarrow> take_bit n v = v"

lemma fits_bit: "fits n v \<Longrightarrow> bit v i \<Longrightarrow> i < n"
  by (metis fits_def bit_take_bit_iff)

lemma fitsI:
  fixes v :: "'a::len word"
  shows "(\<And>i. i < LENGTH('a) \<Longrightarrow> bit v i \<Longrightarrow> i < n) \<Longrightarrow> fits n v"
  unfolding fits_def by (rule bit_word_eqI) (auto simp: bit_take_bit_iff)

lemma fits_drop_bit: "fits (m + n) v \<Longrightarrow> fits n (drop_bit m v)"
  unfolding fits_def by (metis add.commute drop_bit_take_bit diff_add_inverse)

lemma fits_of_bits_low_bits: "fits n v \<Longrightarrow> of_bits (low_bits n v) = v"
  by (simp add: fits_def of_bits_low_bits)

lemma fits_unat: "fits n v \<longleftrightarrow> unat v < 2 ^ n" for v :: "'a::len word"
  unfolding fits_def
  by (metis take_bit_nat_eq_self_iff unsigned_take_bit_eq unsigned_word_eqI)

lemma fits_full [simp]: "LENGTH('a) \<le> n \<Longrightarrow> fits n (v :: 'a::len word)"
  by (simp add: fits_def take_bit_word_beyond_length_eq)

section \<open>Big integers and byte strings\<close>

text \<open>
  \<open>big.Int.Bytes\<close> is the big-endian byte string of the absolute value without leading zeroes,
  \<open>SetBytes\<close> reads a big-endian byte string as a non-negative number.
\<close>

fun nat_be :: "nat \<Rightarrow> bytes" where
  "nat_be n = (if n = 0 then [] else nat_be (n div 256) @ [word_of_nat n])"

declare nat_be.simps [simp del]

definition big_Bytes :: "int \<Rightarrow> bytes" where
  "big_Bytes v = nat_be (nat \<bar>v\<bar>)"

definition be_nat :: "bytes \<Rightarrow> nat" where
  "be_nat bs = foldl (\<lambda>a b. a * 256 + unat b) 0 bs"

definition big_SetBytes :: "bytes \<Rightarrow> int" where
  "big_SetBytes bs = int (be_nat bs)"

lemma be_nat_snoc [simp]: "be_nat (bs @ [b]) = be_nat bs * 256 + unat b"
  by (simp add: be_nat_def)

lemma be_nat_Nil [simp]: "be_nat [] = 0"
  by (simp add: be_nat_def)

lemma unat_word_of_nat_u8: "unat (word_of_nat n :: u8) = n mod 256"
  by (simp add: unat_of_nat)

lemma be_nat_nat_be [simp]: "be_nat (nat_be n) = n"
proof (induction n rule: nat_be.induct)
  case (1 n)
  then show ?case
    by (subst nat_be.simps) (simp add: unat_word_of_nat_u8)
qed

lemma length_nat_be_le: "n < 256 ^ k \<Longrightarrow> length (nat_be n) \<le> k"
proof (induction n arbitrary: k rule: nat_be.induct)
  case (1 n)
  show ?case
  proof (cases "n = 0")
    case True
    then show ?thesis by (simp add: nat_be.simps)
  next
    case False
    with "1.prems" obtain j where k: "k = Suc j" by (cases k) auto
    with "1.prems" have "n div 256 < 256 ^ j"
      by (metis less_mult_imp_div_less mult.commute power_Suc)
    then show ?thesis using "1.IH" [OF False] False k by (subst nat_be.simps) simp
  qed
qed

lemma nat_be_Nil_iff [simp]: "nat_be n = [] \<longleftrightarrow> n = 0"
  by (subst nat_be.simps) simp

lemma big_SetBytes_Bytes: "big_SetBytes (big_Bytes v) = \<bar>v\<bar>"
  by (simp add: big_SetBytes_def big_Bytes_def)

lemma be_nat_append: "be_nat (as @ bs) = be_nat as * 256 ^ length bs + be_nat bs"
  by (induction bs rule: rev_induct) (auto simp: append_assoc [symmetric] algebra_simps simp del: append_assoc)

lemma be_nat_zeros [simp]: "be_nat (replicate n 0) = 0"
  by (induction n) (auto simp: replicate_append_same [symmetric])

lemma be_nat_less: "be_nat bs < 256 ^ length bs"
proof (induction bs rule: rev_induct)
  case (snoc b bs)
  have "unat b < 256" using unsigned_less [of b, where 'a = nat] by simp
  with snoc show ?case by (simp add: algebra_simps)
qed simp

section \<open>Lists\<close>

lemma append_eq_lengthD:
  "xs @ ys = us @ vs \<Longrightarrow> length xs = length us \<Longrightarrow> xs = us \<and> ys = vs"
  by simp

lemma butlast_snoc_last: "xs \<noteq> [] \<Longrightarrow> xs[length xs - Suc 0 := y] = butlast xs @ [y]"
  by (metis One_nat_def append_butlast_last_id length_butlast list_update_length)

lemma length_concat_map_const:
  "(\<And>x. x \<in> set xs \<Longrightarrow> length (f x) = k) \<Longrightarrow> length (concat (map f xs)) = k * length xs"
  by (induction xs) auto

end
