(* ===== verification/Bits.thy ===== *)
theory Bits
  imports Sky_Prelude
begin

unbundle bit_operations_syntax

text \<open>
  Package \<open>utils/bits\<close> (src/utils/bits/bits.go): the bit array that numbers of arbitrary bit width
  are packed into. \<open>Writer\<close> and \<open>Reader\<close> are records; the embedded \<open>*Array\<close> is its byte slice, and
  mutation through the pointer is state passing. The abstract view of both is a list of bits,
  least significant bit of each byte first. The lemmas show that \<open>Write\<close> appends exactly the low
  bits of its argument and that \<open>Read\<close> removes exactly the bits it returns, or panics.
\<close>

section \<open>The code\<close>

record bits_writer =
  bw_Bytes :: bytes
  bw_bitOffset :: nat

record bits_reader =
  br_Bytes :: bytes
  br_byteOffset :: nat
  br_bitOffset :: nat

definition bits_NewWriter :: "bytes \<Rightarrow> bits_writer" where
  "bits_NewWriter arr = \<lparr>bw_Bytes = arr, bw_bitOffset = 0\<rparr>"

definition bits_NewReader :: "bytes \<Rightarrow> bits_reader" where
  "bits_NewReader arr = \<lparr>br_Bytes = arr, br_byteOffset = 0, br_bitOffset = 0\<rparr>"

definition bw_byteBitsFree :: "bits_writer \<Rightarrow> nat" where
  "bw_byteBitsFree a = 8 - bw_bitOffset a"

definition writeIntoLastByte :: "u64 \<Rightarrow> bits_writer \<Rightarrow> bits_writer res" where
  "writeIntoLastByte v a =
     (if bw_Bytes a = [] then Inl (Panic IndexOutOfRange)
      else Inr (a\<lparr>bw_Bytes := (bw_Bytes a)[length (bw_Bytes a) - 1 :=
             last (bw_Bytes a) OR ucast (push_bit (bw_bitOffset a) v)]\<rparr>))"

definition zeroTopByteBits :: "u64 \<Rightarrow> nat \<Rightarrow> u64" where
  "zeroTopByteBits v bits = v AND drop_bit bits 0xff"

function bits_Write :: "nat \<Rightarrow> u64 \<Rightarrow> bits_writer \<Rightarrow> bits_writer res" where
  "bits_Write bits v a0 =
     (let a = (if bw_bitOffset a0 = 0 then a0\<lparr>bw_Bytes := bw_Bytes a0 @ [0]\<rparr> else a0);
          free = bw_byteBitsFree a
      in if bits \<le> free
         then bind_res (writeIntoLastByte v a) (\<lambda>a.
                Inr (if bits = free then a\<lparr>bw_bitOffset := 0\<rparr>
                     else a\<lparr>bw_bitOffset := bw_bitOffset a + bits\<rparr>))
         else bind_res (writeIntoLastByte (zeroTopByteBits v (bw_bitOffset a)) a) (\<lambda>a.
                bits_Write (bits - free) (drop_bit free v) (a\<lparr>bw_bitOffset := 0\<rparr>)))"
  by pat_completeness auto
termination
  by (relation "measure (\<lambda>(n, v, a). n + (if bw_bitOffset a = 0 then 0 else 1))")
    (auto simp: bw_byteBitsFree_def split: if_splits)

definition br_byteBitsFree :: "bits_reader \<Rightarrow> nat" where
  "br_byteBitsFree a = 8 - br_bitOffset a"

function bits_Read :: "nat \<Rightarrow> bits_reader \<Rightarrow> (u64 \<times> bits_reader) res" where
  "bits_Read bits a =
     (if bits = 0 then Inr (0, a)
      else let free = br_byteBitsFree a
      in if br_byteOffset a \<ge> length (br_Bytes a) then Inl (Panic IndexOutOfRange)
      else let b = ucast (br_Bytes a ! br_byteOffset a) :: u64
      in if bits \<le> free
         then (let clear = 8 - (br_bitOffset a + bits);
                   v = drop_bit (br_bitOffset a) (zeroTopByteBits b clear)
               in Inr (v, if bits = free
                          then a\<lparr>br_bitOffset := 0, br_byteOffset := br_byteOffset a + 1\<rparr>
                          else a\<lparr>br_bitOffset := br_bitOffset a + bits\<rparr>))
         else (let v = drop_bit (br_bitOffset a) b
               in bind_res (bits_Read (bits - free)
                              (a\<lparr>br_bitOffset := 0, br_byteOffset := br_byteOffset a + 1\<rparr>))
                    (\<lambda>(rest, a'). Inr (v OR push_bit free rest, a'))))"
  by pat_completeness auto
termination
  by (relation "measure (\<lambda>(n, a). n + (if br_bitOffset a = 0 then 0 else 1))")
    (auto simp: br_byteBitsFree_def split: if_splits)

definition bits_View :: "nat \<Rightarrow> bits_reader \<Rightarrow> u64 res" where
  "bits_View bits a = bind_res (bits_Read bits a) (\<lambda>(v, _). Inr v)"

definition NonReadBytes :: "bits_reader \<Rightarrow> int" where
  "NonReadBytes a = int (length (br_Bytes a)) - int (br_byteOffset a)"

definition NonReadBits :: "bits_reader \<Rightarrow> int" where
  "NonReadBits a = NonReadBytes a * 8 - int (br_bitOffset a)"

declare bits_Write.simps [simp del] bits_Read.simps [simp del]

section \<open>The abstract view\<close>

definition array_bits :: "bytes \<Rightarrow> bool list" where
  "array_bits bs = concat (map (low_bits 8) bs)"

definition bw_bits :: "bits_writer \<Rightarrow> bool list" where
  "bw_bits w = (if bw_bitOffset w = 0 then array_bits (bw_Bytes w)
     else array_bits (butlast (bw_Bytes w)) @ low_bits (bw_bitOffset w) (last (bw_Bytes w)))"

definition bw_wf :: "bits_writer \<Rightarrow> bool" where
  "bw_wf w \<longleftrightarrow> bw_bitOffset w < 8 \<and>
     (bw_bitOffset w > 0 \<longrightarrow> bw_Bytes w \<noteq> [] \<and> fits (bw_bitOffset w) (last (bw_Bytes w)))"

definition br_bits :: "bits_reader \<Rightarrow> bool list" where
  "br_bits r = drop (br_bitOffset r) (array_bits (drop (br_byteOffset r) (br_Bytes r)))"

definition br_wf :: "bits_reader \<Rightarrow> bool" where
  "br_wf r \<longleftrightarrow> br_bitOffset r < 8 \<and> br_byteOffset r \<le> length (br_Bytes r) \<and>
     (br_bitOffset r > 0 \<longrightarrow> br_byteOffset r < length (br_Bytes r))"

lemma array_bits_simps [simp]:
  "array_bits [] = []"
  "array_bits (b # bs) = low_bits 8 b @ array_bits bs"
  "array_bits (bs @ cs) = array_bits bs @ array_bits cs"
  by (simp_all add: array_bits_def)

lemma length_array_bits [simp]: "length (array_bits bs) = 8 * length bs"
  by (induction bs) auto

section \<open>Writing\<close>

lemma zeroTopByteBits_take_bit: "n \<le> 8 \<Longrightarrow> zeroTopByteBits v n = take_bit (8 - n) v"
proof -
  assume n: "n \<le> 8"
  have m: "(0xff :: u64) = mask 8" by (simp add: mask_eq_exp_minus_1)
  show ?thesis
    unfolding zeroTopByteBits_def m
    by (rule bit_word_eqI) (use n in \<open>auto simp: bit_simps\<close>)
qed

text \<open>The byte that \<open>writeIntoLastByte\<close> stores: the old low bits followed by the written ones.\<close>

lemma or_push_low_bits:
  fixes b :: u8 and v :: u64
  assumes "fits off b" "off + k \<le> 8"
  shows "low_bits (off + k) (b OR ucast (push_bit off v)) = low_bits off b @ low_bits k v"
proof (rule nth_equalityI)
  fix i assume "i < length (low_bits (off + k) (b OR ucast (push_bit off v)))"
  then show "low_bits (off + k) (b OR ucast (push_bit off v)) ! i = (low_bits off b @ low_bits k v) ! i"
    using assms fits_bit [OF assms(1), of i] by (auto simp: nth_append bit_simps)
qed simp

lemma or_push_fits:
  fixes b :: u8 and v :: u64
  assumes "fits off b" "fits k v" "off + k \<le> 8"
  shows "fits (off + k) (b OR ucast (push_bit off v))"
proof (rule fitsI)
  fix i assume "bit (b OR ucast (push_bit off v)) i"
  then show "i < off + k"
    using assms fits_bit [OF assms(1), of i] fits_bit [OF assms(2), of "i - off"]
    by (auto simp: bit_simps)
qed

text \<open>Writing \<open>k\<close> bits into the open last byte extends the view by those bits.\<close>

definition bw_open :: "bits_writer \<Rightarrow> bool list" where
  "bw_open w = array_bits (butlast (bw_Bytes w)) @ low_bits (bw_bitOffset w) (last (bw_Bytes w))"

definition bw_open_wf :: "bits_writer \<Rightarrow> bool" where
  "bw_open_wf w \<longleftrightarrow> bw_Bytes w \<noteq> [] \<and> bw_bitOffset w < 8 \<and> fits (bw_bitOffset w) (last (bw_Bytes w))"

lemma writeIntoLastByte_open:
  assumes "bw_open_wf w" "fits k v" "bw_bitOffset w + k \<le> 8"
  obtains w' where "writeIntoLastByte v w = Inr w'" "bw_bitOffset w' = bw_bitOffset w"
    "bw_Bytes w' \<noteq> []" "butlast (bw_Bytes w') = butlast (bw_Bytes w)"
    "low_bits (bw_bitOffset w + k) (last (bw_Bytes w')) =
       low_bits (bw_bitOffset w) (last (bw_Bytes w)) @ low_bits k v"
    "fits (bw_bitOffset w + k) (last (bw_Bytes w'))"
proof
  show "writeIntoLastByte v w = Inr (w\<lparr>bw_Bytes := butlast (bw_Bytes w) @
      [last (bw_Bytes w) OR ucast (push_bit (bw_bitOffset w) v)]\<rparr>)"
    using assms(1) by (simp add: writeIntoLastByte_def bw_open_wf_def butlast_snoc_last)
qed (use assms in \<open>auto simp: bw_open_wf_def or_push_low_bits or_push_fits\<close>)

lemma bw_open_start:
  assumes "bw_wf w"
  shows "bw_open_wf (if bw_bitOffset w = 0 then w\<lparr>bw_Bytes := bw_Bytes w @ [0]\<rparr> else w)"
    and "bw_open (if bw_bitOffset w = 0 then w\<lparr>bw_Bytes := bw_Bytes w @ [0]\<rparr> else w) = bw_bits w"
    and "bw_bitOffset (if bw_bitOffset w = 0 then w\<lparr>bw_Bytes := bw_Bytes w @ [0]\<rparr> else w)
           = bw_bitOffset w"
  using assms by (auto simp: bw_wf_def bw_open_wf_def bw_open_def bw_bits_def fits_def)

theorem bits_Write_appends:
  assumes "bw_wf w" "0 < n" "fits n v"
  shows "\<exists>w'. bits_Write n v w = Inr w' \<and> bw_wf w' \<and> bw_bits w' = bw_bits w @ low_bits n v"
  using assms
proof (induction n v w rule: bits_Write.induct)
  case (1 n v w)
  define a where "a = (if bw_bitOffset w = 0 then w\<lparr>bw_Bytes := bw_Bytes w @ [0]\<rparr> else w)"
  define off where "off = bw_bitOffset w"
  define free where "free = 8 - off"
  have a: "bw_open_wf a" "bw_open a = bw_bits w" "bw_bitOffset a = off"
    using bw_open_start [OF "1.prems"(1)] by (simp_all add: a_def off_def)
  have off: "off < 8" using a by (simp add: bw_open_wf_def)
  have free: "bw_byteBitsFree a = free" by (simp add: bw_byteBitsFree_def a free_def)
  have step: "bits_Write n v w =
      (if n \<le> free then bind_res (writeIntoLastByte v a) (\<lambda>a.
         Inr (if n = free then a\<lparr>bw_bitOffset := 0\<rparr> else a\<lparr>bw_bitOffset := bw_bitOffset a + n\<rparr>))
       else bind_res (writeIntoLastByte (zeroTopByteBits v off) a) (\<lambda>a.
         bits_Write (n - free) (drop_bit free v) (a\<lparr>bw_bitOffset := 0\<rparr>)))"
    by (subst bits_Write.simps) (simp add: a_def [symmetric] free a(3) Let_def)
  show ?case
  proof (cases "n \<le> free")
    case True
    obtain a' where a': "writeIntoLastByte v a = Inr a'" "bw_bitOffset a' = off"
      "bw_Bytes a' \<noteq> []" "butlast (bw_Bytes a') = butlast (bw_Bytes a)"
      "low_bits (off + n) (last (bw_Bytes a')) = low_bits off (last (bw_Bytes a)) @ low_bits n v"
      "fits (off + n) (last (bw_Bytes a'))"
      using writeIntoLastByte_open [OF a(1) "1.prems"(3)] True a(3) free_def off
      by (metis add_le_cancel_left le_add_diff_inverse less_imp_le)
    have arr: "array_bits (bw_Bytes a') = array_bits (butlast (bw_Bytes a)) @ low_bits 8 (last (bw_Bytes a'))"
      using a'(3,4) by (metis append_butlast_last_id array_bits_simps append_Nil2)
    show ?thesis
      using True a' a arr "1.prems"(2) off
      by (auto simp: step bw_wf_def bw_bits_def bw_open_def free_def)
  next
    case False
    have zt: "zeroTopByteBits v off = take_bit free v"
      using off by (simp add: zeroTopByteBits_take_bit free_def)
    obtain a' where a': "writeIntoLastByte (take_bit free v) a = Inr a'" "bw_bitOffset a' = off"
      "bw_Bytes a' \<noteq> []" "butlast (bw_Bytes a') = butlast (bw_Bytes a)"
      "low_bits 8 (last (bw_Bytes a')) = low_bits off (last (bw_Bytes a)) @ low_bits free v"
      using writeIntoLastByte_open [OF a(1), of free "take_bit free v"] a(3) off
      by (auto simp: fits_def free_def low_bits_take_bit)
    let ?c = "a'\<lparr>bw_bitOffset := 0\<rparr>"
    have arr: "array_bits (bw_Bytes a') = bw_bits w @ low_bits free v"
      using a'(3,4,5) a(2,3) by (metis append_butlast_last_id append_assoc array_bits_simps append_Nil2 bw_open_def)
    have n: "n = free + (n - free)" using False by simp
    have "fits (n - free) (drop_bit free v)"
      using fits_drop_bit [of free "n - free" v] "1.prems"(3) n by simp
    moreover have "bw_wf ?c" by (simp add: bw_wf_def)
    moreover have "bits_Write n v w = bits_Write (n - free) (drop_bit free v) ?c"
      using False a'(1) by (simp add: step zt)
    moreover have "\<exists>w'. bits_Write (n - free) (drop_bit free v) ?c = Inr w' \<and> bw_wf w' \<and>
        bw_bits w' = bw_bits ?c @ low_bits (n - free) (drop_bit free v)"
      using "1.IH" [OF a_def refl, of a'] False calculation a'(1) by (simp add: free a(3) zt)
    moreover have "bw_bits ?c = bw_bits w @ low_bits free v"
      using arr by (simp add: bw_bits_def)
    ultimately show ?thesis
      using low_bits_append [of free "n - free" v] n by auto
  qed
qed

section \<open>Reading\<close>

lemma br_bits_Cons:
  assumes "br_byteOffset r < length (br_Bytes r)" "br_bitOffset r < 8"
  shows "br_bits r = drop (br_bitOffset r) (low_bits 8 (br_Bytes r ! br_byteOffset r)) @
           array_bits (drop (Suc (br_byteOffset r)) (br_Bytes r))"
  using assms by (simp add: br_bits_def Cons_nth_drop_Suc [symmetric])

lemma drop_take_bits_value:
  fixes b :: u8
  assumes "off + n \<le> 8"
  shows "drop_bit off (zeroTopByteBits (ucast b) (8 - (off + n))) = of_bits (take n (drop off (low_bits 8 b)))"
  using assms by (intro bit_word_eqI) (auto simp: zeroTopByteBits_take_bit bit_of_bits bit_simps)

lemma drop_bits_value:
  fixes b :: u8
  assumes "off < 8"
  shows "drop_bit off (ucast b :: u64) OR push_bit (8 - off) (of_bits bs)
           = of_bits (drop off (low_bits 8 b) @ bs)"
  using assms
  by (intro bit_word_eqI)
    (auto simp: bit_of_bits bit_simps nth_append dest: bit_imp_le_length)

text \<open>\<open>Read\<close> takes the next \<open>n\<close> bits off the view and returns their value.\<close>

theorem bits_Read_takes:
  assumes "br_wf r" "br_bits r = bs @ rest" "length bs = n"
  shows "\<exists>r'. bits_Read n r = Inr (of_bits bs, r') \<and> br_wf r' \<and> br_bits r' = rest \<and>
           br_Bytes r' = br_Bytes r"
  using assms
proof (induction n r arbitrary: bs rest rule: bits_Read.induct)
  case (1 n r)
  define off where "off = br_bitOffset r"
  define i where "i = br_byteOffset r"
  show ?case
  proof (cases "n = 0")
    case True
    with "1.prems" show ?thesis
      by (subst bits_Read.simps) (auto simp: of_bits_def)
  next
    case n: False
    have i: "i < length (br_Bytes r)"
    proof (rule ccontr)
      assume "\<not> i < length (br_Bytes r)"
      then have "br_bits r = []" by (simp add: br_bits_def i_def)
      with "1.prems" n show False by simp
    qed
    have off: "off < 8" using "1.prems"(1) by (simp add: br_wf_def off_def)
    let ?b = "br_Bytes r ! i"
    have view: "br_bits r = drop off (low_bits 8 ?b) @ array_bits (drop (Suc i) (br_Bytes r))"
      using br_bits_Cons [of r] i off by (simp add: i_def off_def)
    let ?next = "r\<lparr>br_bitOffset := 0, br_byteOffset := br_byteOffset r + 1\<rparr>"
    have nextv: "br_wf ?next" "br_bits ?next = array_bits (drop (Suc i) (br_Bytes r))"
      using i by (simp_all add: br_wf_def br_bits_def i_def)
    show ?thesis
    proof (cases "n \<le> 8 - off")
      case True
      have bs: "bs = take n (drop off (low_bits 8 ?b))"
        using arg_cong [OF view, of "take n"] "1.prems"(2,3) True by simp
      have rest: "rest = drop n (drop off (low_bits 8 ?b)) @ array_bits (drop (Suc i) (br_Bytes r))"
        using arg_cong [OF view, of "drop n"] "1.prems"(2,3) True by simp
      let ?r = "if n = 8 - off then ?next else r\<lparr>br_bitOffset := br_bitOffset r + n\<rparr>"
      have "bits_Read n r = Inr (of_bits bs, ?r)"
        using n i True drop_take_bits_value [of off n ?b] off bs
        by (subst bits_Read.simps)
          (simp add: br_byteBitsFree_def off_def [symmetric] i_def [symmetric] Let_def)
      moreover have "br_wf ?r"
        using nextv i off True by (auto simp: br_wf_def off_def i_def)
      moreover have "br_bits ?r = rest"
      proof (cases "n = 8 - off")
        case True
        then show ?thesis using rest nextv off by simp
      next
        case False
        then show ?thesis
          using rest off \<open>n \<le> 8 - off\<close> i br_bits_Cons [of "r\<lparr>br_bitOffset := off + n\<rparr>"]
          by (simp add: off_def [symmetric] i_def [symmetric] add.commute)
      qed
      ultimately show ?thesis by auto
    next
      case False
      define bs1 where "bs1 = drop (8 - off) bs"
      have split: "drop off (low_bits 8 ?b) = take (8 - off) bs"
          "array_bits (drop (Suc i) (br_Bytes r)) = bs1 @ rest"
        using arg_cong [OF view, of "take (8 - off)"] arg_cong [OF view, of "drop (8 - off)"]
          "1.prems"(2,3) False
        by (simp_all add: bs1_def)
      then have bs1: "bs = drop off (low_bits 8 ?b) @ bs1"
        by (simp add: bs1_def)
      have len: "length bs1 = n - (8 - off)"
        using bs1 "1.prems"(3) by simp
      obtain r' where r': "bits_Read (n - (8 - off)) ?next = Inr (of_bits bs1, r')" "br_wf r'"
          "br_bits r' = rest" "br_Bytes r' = br_Bytes r"
        using "1.IH" [OF n refl _ refl _ refl nextv(1), of bs1 rest] i nextv split(2) len False
        by (auto simp: br_byteBitsFree_def off_def [symmetric] i_def [symmetric])
      have "bits_Read n r = Inr (of_bits bs, r')"
        using n i False r'(1) drop_bits_value [OF off, of ?b bs1] bs1
        by (subst bits_Read.simps)
          (simp add: br_byteBitsFree_def off_def [symmetric] i_def [symmetric] Let_def)
      with r' show ?thesis by blast
    qed
  qed
qed

lemma bits_Read_panics:
  "br_wf r \<Longrightarrow> length (br_bits r) < n \<Longrightarrow> bits_Read n r = Inl (Panic IndexOutOfRange)"
proof (induction n r rule: bits_Read.induct)
  case (1 n r)
  let ?next = "r\<lparr>br_bitOffset := 0, br_byteOffset := br_byteOffset r + 1\<rparr>"
  show ?case
  proof (cases "br_byteOffset r < length (br_Bytes r)")
    case True
    have off: "br_bitOffset r < 8" using "1.prems"(1) by (simp add: br_wf_def)
    have len: "length (br_bits r) = (8 - br_bitOffset r) + length (br_bits ?next)"
      using br_bits_Cons [OF True off] by (simp add: br_bits_def)
    have n: "n \<noteq> 0" "\<not> n \<le> 8 - br_bitOffset r" using "1.prems"(2) len by auto
    have "br_wf ?next" using True by (simp add: br_wf_def)
    then have "bits_Read (n - (8 - br_bitOffset r)) ?next = Inl (Panic IndexOutOfRange)"
      using "1.IH" [OF n(1) refl _ refl _ refl] True n(2) "1.prems"(2) len
      by (simp add: br_byteBitsFree_def)
    then show ?thesis
      using n True by (subst bits_Read.simps) (simp add: br_byteBitsFree_def Let_def)
  next
    case False
    then show ?thesis using "1.prems"(2) by (subst bits_Read.simps) (simp add: Let_def)
  qed
qed

lemma NonReadBits_view: "br_wf r \<Longrightarrow> NonReadBits r = int (length (br_bits r))"
  by (auto simp: NonReadBits_def NonReadBytes_def br_bits_def br_wf_def of_nat_diff)

lemma br_NewReader [simp]:
  "br_wf (bits_NewReader bs)" "br_bits (bits_NewReader bs) = array_bits bs"
  by (simp_all add: bits_NewReader_def br_wf_def br_bits_def)

lemma bw_NewWriter [simp]: "bw_wf (bits_NewWriter [])" "bw_bits (bits_NewWriter []) = []"
  by (simp_all add: bits_NewWriter_def bw_wf_def bw_bits_def)

text \<open>The array a writer leaves behind is its view, padded with zeroes to a whole byte.\<close>

definition bw_pad :: "bits_writer \<Rightarrow> nat" where
  "bw_pad w = (if bw_bitOffset w = 0 then 0 else 8 - bw_bitOffset w)"

lemma low_bits_fits:
  assumes "fits k b" "k \<le> n"
  shows "low_bits n b = low_bits k b @ replicate (n - k) False"
  by (rule nth_equalityI) (use assms fits_bit [OF assms(1)] in \<open>auto simp: nth_append\<close>)

lemma array_bits_writer:
  assumes "bw_wf w"
  shows "array_bits (bw_Bytes w) = bw_bits w @ replicate (bw_pad w) False"
proof (cases "bw_bitOffset w = 0")
  case True
  then show ?thesis by (simp add: bw_bits_def bw_pad_def)
next
  case False
  then have "bw_Bytes w = butlast (bw_Bytes w) @ [last (bw_Bytes w)]"
    using assms by (simp add: bw_wf_def)
  then have "array_bits (bw_Bytes w) = array_bits (butlast (bw_Bytes w)) @ low_bits 8 (last (bw_Bytes w))"
    by (metis append_Nil2 array_bits_simps)
  then show ?thesis
    using False assms low_bits_fits [of "bw_bitOffset w" "last (bw_Bytes w)" 8]
    by (simp add: bw_bits_def bw_pad_def bw_wf_def)
qed

section \<open>The channel a serialiser relies on\<close>

text \<open>
  What the clients of the bit array use: writing appends the low bits of a value to what was
  written, reading takes bits off the front of what is left, and a reader opened on what a writer
  left behind sees the written bits and then only zeroes. Everything a client proves about its own
  encoding needs these three laws and nothing of the representation.
\<close>

locale bit_channel =
  fixes wr :: "nat \<Rightarrow> u64 \<Rightarrow> 'w \<Rightarrow> 'w res"
    and rd :: "nat \<Rightarrow> 'r \<Rightarrow> (u64 \<times> 'r) res"
    and wview :: "'w \<Rightarrow> bool list" and rview :: "'r \<Rightarrow> bool list"
    and wwf :: "'w \<Rightarrow> bool" and rwf :: "'r \<Rightarrow> bool"
    and reopen :: "'w \<Rightarrow> 'r"
  assumes wr_appends: "wwf w \<Longrightarrow> 0 < n \<Longrightarrow> fits n v \<Longrightarrow>
      \<exists>w'. wr n v w = Inr w' \<and> wwf w' \<and> wview w' = wview w @ low_bits n v"
    and rd_takes: "rwf r \<Longrightarrow> rview r = bs @ rest \<Longrightarrow>
      \<exists>r'. rd (length bs) r = Inr (of_bits bs, r') \<and> rwf r' \<and> rview r' = rest"
    and reopen_view: "wwf w \<Longrightarrow> rwf (reopen w) \<and> (\<exists>k. rview (reopen w) = wview w @ replicate k False)"
begin

primrec wr_fields :: "(nat \<times> u64) list \<Rightarrow> 'w \<Rightarrow> 'w res" where
  "wr_fields [] w = Inr w"
| "wr_fields (f # fs) w = bind_res (wr (fst f) (snd f) w) (wr_fields fs)"

primrec rd_fields :: "nat list \<Rightarrow> 'r \<Rightarrow> (u64 list \<times> 'r) res" where
  "rd_fields [] r = Inr ([], r)"
| "rd_fields (n # ns) r = bind_res (rd n r) (\<lambda>(v, r). bind_res (rd_fields ns r) (\<lambda>(vs, r). Inr (v # vs, r)))"

lemma rd_value:
  assumes "rwf r" "rview r = low_bits n v @ rest" "fits n v"
  shows "\<exists>r'. rd n r = Inr (v, r') \<and> rwf r' \<and> rview r' = rest"
  using rd_takes [OF assms(1,2)] assms(3) by (simp add: fits_of_bits_low_bits)

lemma wr_fields_appends:
  "wwf w \<Longrightarrow> \<forall>(n, v) \<in> set fs. 0 < n \<and> fits n v \<Longrightarrow>
    \<exists>w'. wr_fields fs w = Inr w' \<and> wwf w' \<and>
      wview w' = wview w @ concat (map (\<lambda>(n, v). low_bits n v) fs)"
proof (induction fs arbitrary: w)
  case (Cons f fs)
  obtain n v where f: "f = (n, v)" by (cases f)
  obtain w1 where "wr n v w = Inr w1" "wwf w1" "wview w1 = wview w @ low_bits n v"
    using wr_appends [OF Cons.prems(1), of n v] Cons.prems(2) f by auto
  then show ?case using Cons.IH [of w1] Cons.prems(2) f by auto
qed simp

lemma rd_fields_takes:
  "rwf r \<Longrightarrow> \<forall>(n, v) \<in> set fs. fits n v \<Longrightarrow>
    rview r = concat (map (\<lambda>(n, v). low_bits n v) fs) @ rest \<Longrightarrow>
    \<exists>r'. rd_fields (map fst fs) r = Inr (map snd fs, r') \<and> rwf r' \<and> rview r' = rest"
proof (induction fs arbitrary: r)
  case (Cons f fs)
  obtain n v where f: "f = (n, v)" by (cases f)
  obtain r1 where "rd n r = Inr (v, r1)" "rwf r1"
      "rview r1 = concat (map (\<lambda>(n, v). low_bits n v) fs) @ rest"
    using rd_value [OF Cons.prems(1), of n v] Cons.prems(2,3) f by auto
  then show ?case using Cons.IH [of r1] Cons.prems(2) f by auto
qed simp

lemma fields_roundtrip:
  assumes "wwf w" "wview w = []" "\<forall>(n, v) \<in> set fs. 0 < n \<and> fits n v"
  shows "\<exists>w' r'. wr_fields fs w = Inr w' \<and> rd_fields (map fst fs) (reopen w') = Inr (map snd fs, r') \<and>
           (\<exists>k. rview r' = replicate k False)"
proof -
  obtain w' where w': "wr_fields fs w = Inr w'" "wwf w'"
      "wview w' = concat (map (\<lambda>(n, v). low_bits n v) fs)"
    using wr_fields_appends [OF assms(1,3)] assms(2) by auto
  obtain k where "rwf (reopen w')" "rview (reopen w') = wview w' @ replicate k False"
    using reopen_view [OF w'(2)] by auto
  then show ?thesis using rd_fields_takes [of "reopen w'" fs] assms(3) w' by fastforce
qed

end

interpretation bitarr: bit_channel bits_Write bits_Read bw_bits br_bits bw_wf br_wf
  "\<lambda>w. bits_NewReader (bw_Bytes w)"
proof (unfold_locales, goal_cases)
  case (1 w n v)
  then show ?case by (rule bits_Write_appends)
next
  case (2 r bs rest)
  then show ?case using bits_Read_takes [of r bs rest] by blast
next
  case (3 w)
  then show ?case using array_bits_writer [of w] by auto
qed

section \<open>Property\<close>



end
