(* ===== verification/Fast_Buffer.thy ===== *)
theory Fast_Buffer
  imports Sky_Prelude
begin

text \<open>
  Package \<open>utils/fast\<close> (src/utils/fast/buffer.go): a byte buffer that grows when written, and a
  cursor over a byte slice. Go's slice expression \<open>buf[lo:hi]\<close> is checked against the capacity of
  \<open>buf\<close>, not against its length, so a reader keeps the bytes between length and capacity of the
  slice it was opened on (\<open>fr_spare\<close>): \<open>Read\<close> panics only past the capacity, \<open>ReadByte\<close>, which
  indexes, already past the length.
\<close>

record fast_reader =
  fr_buf :: bytes
  fr_spare :: bytes
  fr_offset :: nat

record fast_writer =
  fw_buf :: bytes

definition fast_NewReader :: "bytes \<Rightarrow> bytes \<Rightarrow> fast_reader" where
  "fast_NewReader bb spare = \<lparr>fr_buf = bb, fr_spare = spare, fr_offset = 0\<rparr>"

definition fast_NewWriter :: "bytes \<Rightarrow> fast_writer" where
  "fast_NewWriter bb = \<lparr>fw_buf = bb\<rparr>"

definition fast_WriteByte :: "u8 \<Rightarrow> fast_writer \<Rightarrow> fast_writer" where
  "fast_WriteByte v b = b\<lparr>fw_buf := fw_buf b @ [v]\<rparr>"

definition fast_Write :: "bytes \<Rightarrow> fast_writer \<Rightarrow> fast_writer" where
  "fast_Write v b = b\<lparr>fw_buf := fw_buf b @ v\<rparr>"

definition fast_Read :: "nat \<Rightarrow> fast_reader \<Rightarrow> (bytes \<times> fast_reader) res" where
  "fast_Read n b =
     (if fr_offset b + n \<le> length (fr_buf b) + length (fr_spare b)
      then Inr (take n (drop (fr_offset b) (fr_buf b @ fr_spare b)),
                b\<lparr>fr_offset := fr_offset b + n\<rparr>)
      else Inl (Panic SliceOutOfRange))"

definition fast_ReadByte :: "fast_reader \<Rightarrow> (u8 \<times> fast_reader) res" where
  "fast_ReadByte b =
     (if fr_offset b < length (fr_buf b)
      then Inr (fr_buf b ! fr_offset b, b\<lparr>fr_offset := fr_offset b + 1\<rparr>)
      else Inl (Panic IndexOutOfRange))"

definition fast_Position :: "fast_reader \<Rightarrow> nat" where
  "fast_Position b = fr_offset b"

definition fast_Empty :: "fast_reader \<Rightarrow> bool" where
  "fast_Empty b \<longleftrightarrow> length (fr_buf b) = fr_offset b"

section \<open>What is left to read\<close>

definition fr_wf :: "fast_reader \<Rightarrow> bool" where
  "fr_wf r \<longleftrightarrow> fr_offset r \<le> length (fr_buf r)"

definition fr_rest :: "fast_reader \<Rightarrow> bytes" where
  "fr_rest r = drop (fr_offset r) (fr_buf r)"

lemma fast_Read_rest:
  assumes "fr_wf r" "fr_rest r = ys @ rest" "length ys = n"
  shows "\<exists>r'. fast_Read n r = Inr (ys, r') \<and> fr_wf r' \<and> fr_rest r' = rest \<and>
           fr_offset r' = fr_offset r + n \<and> fr_buf r' = fr_buf r"
proof -
  have len: "n + fr_offset r \<le> length (fr_buf r)"
    using assms(1,3) arg_cong [OF assms(2), of length] unfolding fr_wf_def fr_rest_def
    by (simp del: drop_append)
  then have "take n (drop (fr_offset r) (fr_buf r @ fr_spare r)) = ys"
    using assms by (simp add: fr_rest_def)
  moreover have "drop (fr_offset r + n) (fr_buf r) = rest"
    using assms(3) arg_cong [OF assms(2) [unfolded fr_rest_def], of "drop n"]
    by (simp add: add.commute)
  ultimately show ?thesis
    using len by (simp add: fast_Read_def fr_wf_def fr_rest_def add.commute)
qed

lemma fast_ReadByte_rest:
  assumes "fr_wf r" "fr_rest r = y # rest"
  shows "\<exists>r'. fast_ReadByte r = Inr (y, r') \<and> fr_wf r' \<and> fr_rest r' = rest \<and>
           fr_offset r' = fr_offset r + 1 \<and> fr_buf r' = fr_buf r"
proof -
  have len: "fr_offset r < length (fr_buf r)"
    using assms(2) by (metis fr_rest_def drop_all leI list.distinct(1))
  with assms have "fr_buf r ! fr_offset r = y" "drop (Suc (fr_offset r)) (fr_buf r) = rest"
    by (simp_all add: fr_rest_def Cons_nth_drop_Suc [symmetric])
  then show ?thesis using len by (simp add: fast_ReadByte_def fr_wf_def fr_rest_def)
qed

lemma fast_ReadByte_shrinks:
  "fast_ReadByte r = Inr (y, r') \<Longrightarrow>
     length (fr_buf r') - fr_offset r' < length (fr_buf r) - fr_offset r"
  by (auto simp: fast_ReadByte_def split: if_splits)

lemma fast_NewReader_view [simp]:
  "fr_wf (fast_NewReader bb sp)" "fr_rest (fast_NewReader bb sp) = bb"
  by (simp_all add: fast_NewReader_def fr_wf_def fr_rest_def)

lemma fw_buf_writes [simp]:
  "fw_buf (fast_NewWriter bb) = bb"
  "fw_buf (fast_WriteByte v b) = fw_buf b @ [v]"
  "fw_buf (fast_Write vs b) = fw_buf b @ vs"
  by (simp_all add: fast_NewWriter_def fast_WriteByte_def fast_Write_def)

end
