(* ===== verification/Cser.thy ===== *)
theory Cser
  imports Bits Fast_Buffer
begin

unbundle bit_operations_syntax

text \<open>
  Package \<open>utils/cser\<close> (src/utils/cser/read_writer.go, binary.go): the compact serialisation the
  events are hashed and sent in. A \<open>Writer\<close> is a bit array and a byte buffer side by side, a
  \<open>Reader\<close> the two cursors. A writer method is a function \<open>cser_writer \<Rightarrow> cser_writer res\<close> and a
  reader method a function \<open>cser_reader \<Rightarrow> ('a \<times> cser_reader) res\<close>; \<open>wr_all\<close> runs a list of writer
  methods in order and \<open>rd_bind\<close> sequences reader methods, as the statements of the Go functions
  do. The lemmas introduce the round-trip relation \<open>rt\<close> between a writer action, a reader action
  and a value, prove it for every primitive, and lift it to the binary adapters.
\<close>

section \<open>The code: read-writer\<close>

record cser_writer =
  BitsW :: bits_writer
  BytesW :: fast_writer

record cser_reader =
  BitsR :: bits_reader
  BytesR :: fast_reader

type_synonym wr_action = "cser_writer \<Rightarrow> cser_writer res"
type_synonym 'a rd_action = "cser_reader \<Rightarrow> ('a \<times> cser_reader) res"

definition cser_NewWriter :: cser_writer where
  "cser_NewWriter = \<lparr>BitsW = bits_NewWriter [], BytesW = fast_NewWriter []\<rparr>"

fun wr_all :: "wr_action list \<Rightarrow> wr_action" where
  "wr_all [] w = Inr w"
| "wr_all (a # as) w = bind_res (a w) (wr_all as)"

definition rd_bind :: "'a rd_action \<Rightarrow> ('a \<Rightarrow> 'b rd_action) \<Rightarrow> 'b rd_action" where
  "rd_bind d f r = bind_res (d r) (\<lambda>(x, r). f x r)"

definition rd_return :: "'a \<Rightarrow> 'a rd_action" where
  "rd_return x r = Inr (x, r)"

definition rd_fail :: "failure \<Rightarrow> 'a rd_action" where
  "rd_fail e r = Inl e"

function writeUint64Compact :: "u64 \<Rightarrow> fast_writer \<Rightarrow> fast_writer" where
  "writeUint64Compact v bytesW =
     (let chunk = v AND 0b01111111;
          v' = drop_bit 7 v;
          chunk = (if v' = 0 then chunk OR 0b10000000 else chunk);
          bytesW = fast_WriteByte (ucast chunk) bytesW
      in if v' = 0 then bytesW else writeUint64Compact v' bytesW)"
  by pat_completeness auto
termination
proof (relation "measure (\<lambda>(v, _). unat v)", goal_cases)
  case (2 v bytesW chunk v' chunk' bytesW')
  then have "v \<noteq> 0" by auto
  then have "unat v > 0" by (simp add: unat_gt_0)
  then have "unat (drop_bit 7 v) < unat v" by (simp only: unat_drop_bit) simp
  with 2 show ?case by simp
qed simp

function readUint64Compact_loop :: "nat \<Rightarrow> u64 \<Rightarrow> fast_reader \<Rightarrow> (u64 \<times> fast_reader) res" where
  "readUint64Compact_loop i v bytesR =
     bind_res (fast_ReadByte bytesR) (\<lambda>(b, bytesR).
       let chunk = ucast b :: u64;
           stop = (chunk AND 0b10000000 \<noteq> 0);
           word = chunk AND 0b01111111;
           v = v OR push_bit (i * 7) word
       in if i > 0 \<and> stop \<and> word = 0 then Inl (Panic (PanicErr ErrNonCanonicalEncoding))
          else if stop then Inr (v, bytesR)
          else readUint64Compact_loop (i + 1) v bytesR)"
  by pat_completeness auto
termination
  by (relation "measure (\<lambda>(i, v, r). length (fr_buf r) - fr_offset r)")
    (auto dest: fast_ReadByte_shrinks)

definition readUint64Compact :: "fast_reader \<Rightarrow> (u64 \<times> fast_reader) res" where
  "readUint64Compact bytesR = readUint64Compact_loop 0 0 bytesR"

function writeUint64BitCompact_loop :: "nat \<Rightarrow> u64 \<Rightarrow> nat \<Rightarrow> fast_writer \<Rightarrow> nat \<times> fast_writer" where
  "writeUint64BitCompact_loop sz v minSize bytesW =
     (if sz < minSize \<or> v \<noteq> 0
      then writeUint64BitCompact_loop (sz + 1) (drop_bit 8 v) minSize (fast_WriteByte (ucast v) bytesW)
      else (sz, bytesW))"
  by pat_completeness auto
termination
proof (relation "measure (\<lambda>(sz, v, minSize, _). (minSize - sz) + unat v)", goal_cases)
  case (2 sz v minSize bytesW)
  have "unat (drop_bit 8 v) \<le> unat v" "v \<noteq> 0 \<Longrightarrow> unat (drop_bit 8 v) < unat v"
    by (simp_all only: unat_drop_bit) (simp_all add: unat_gt_0)
  with 2 show ?case by (cases "v = 0") auto
qed simp

definition writeUint64BitCompact :: "fast_writer \<Rightarrow> u64 \<Rightarrow> nat \<Rightarrow> nat \<times> fast_writer" where
  "writeUint64BitCompact bytesW v minSize = writeUint64BitCompact_loop 0 v minSize bytesW"

fun readUint64BitCompact_loop :: "nat \<Rightarrow> u64 \<Rightarrow> u8 \<Rightarrow> bytes \<Rightarrow> u64 \<times> u8" where
  "readUint64BitCompact_loop i v last_b [] = (v, last_b)"
| "readUint64BitCompact_loop i v last_b (b # bs) =
     readUint64BitCompact_loop (i + 1) (v OR push_bit (8 * i) (ucast b)) b bs"

definition readUint64BitCompact :: "nat \<Rightarrow> fast_reader \<Rightarrow> (u64 \<times> fast_reader) res" where
  "readUint64BitCompact sz bytesR =
     bind_res (fast_Read sz bytesR) (\<lambda>(buf, bytesR).
       let (v, last_b) = readUint64BitCompact_loop 0 0 0 buf
       in if sz > 1 \<and> last_b = 0 then Inl (Panic (PanicErr ErrNonCanonicalEncoding))
          else Inr (v, bytesR))"

declare writeUint64Compact.simps [simp del] readUint64Compact_loop.simps [simp del]
  writeUint64BitCompact_loop.simps [simp del]

definition r_bits :: "nat \<Rightarrow> u64 rd_action" where
  "r_bits n r = bind_res (bits_Read n (BitsR r)) (\<lambda>(v, br). Inr (v, r\<lparr>BitsR := br\<rparr>))"

definition w_bits :: "nat \<Rightarrow> u64 \<Rightarrow> wr_action" where
  "w_bits n v w = bind_res (bits_Write n v (BitsW w)) (\<lambda>bw. Inr (w\<lparr>BitsW := bw\<rparr>))"

definition r_bits_View :: "nat \<Rightarrow> u64 rd_action" where
  "r_bits_View n r = bind_res (bits_View n (BitsR r)) (\<lambda>v. Inr (v, r))"

definition r_U8 :: "u8 rd_action" where
  "r_U8 r = bind_res (fast_ReadByte (BytesR r)) (\<lambda>(b, br). Inr (b, r\<lparr>BytesR := br\<rparr>))"

definition w_U8 :: "u8 \<Rightarrow> wr_action" where
  "w_U8 v w = Inr (w\<lparr>BytesW := fast_WriteByte v (BytesW w)\<rparr>)"

definition readU64_bits :: "nat \<Rightarrow> nat \<Rightarrow> u64 rd_action" where
  "readU64_bits minSize bitsForSize =
     rd_bind (r_bits bitsForSize) (\<lambda>sz r.
       let sz = sz + word_of_nat minSize
       in bind_res (readUint64BitCompact (unat sz) (BytesR r)) (\<lambda>(v, br). Inr (v, r\<lparr>BytesR := br\<rparr>)))"

definition writeU64_bits :: "nat \<Rightarrow> nat \<Rightarrow> u64 \<Rightarrow> wr_action" where
  "writeU64_bits minSize bitsForSize v w =
     (let (sz, bw) = writeUint64BitCompact (BytesW w) v minSize
      in w_bits bitsForSize (word_of_nat (sz - minSize)) (w\<lparr>BytesW := bw\<rparr>))"

definition r_U16 :: "u16 rd_action" where
  "r_U16 = rd_bind (readU64_bits 1 1) (\<lambda>v64. rd_return (ucast v64))"

definition w_U16 :: "u16 \<Rightarrow> wr_action" where
  "w_U16 v = writeU64_bits 1 1 (ucast v)"

definition r_U32 :: "u32 rd_action" where
  "r_U32 = rd_bind (readU64_bits 1 2) (\<lambda>v64. rd_return (ucast v64))"

definition w_U32 :: "u32 \<Rightarrow> wr_action" where
  "w_U32 v = writeU64_bits 1 2 (ucast v)"

definition r_U64 :: "u64 rd_action" where
  "r_U64 = readU64_bits 1 3"

definition w_U64 :: "u64 \<Rightarrow> wr_action" where
  "w_U64 v = writeU64_bits 1 3 v"

definition r_VarUint :: "u64 rd_action" where
  "r_VarUint = readU64_bits 1 3"

definition w_VarUint :: "u64 \<Rightarrow> wr_action" where
  "w_VarUint v = writeU64_bits 1 3 v"

definition r_Bool :: "bool rd_action" where
  "r_Bool = rd_bind (r_bits 1) (\<lambda>u8. rd_return (u8 \<noteq> 0))"

definition w_Bool :: "bool \<Rightarrow> wr_action" where
  "w_Bool v = w_bits 1 (if v then 1 else 0)"

definition r_I64 :: "i64 rd_action" where
  "r_I64 = rd_bind r_Bool (\<lambda>neg. rd_bind r_U64 (\<lambda>abs_v.
     if neg \<and> abs_v = 0 then rd_fail (Panic (PanicErr ErrNonCanonicalEncoding))
     else if neg then rd_return (- abs_v)
     else rd_return abs_v))"

definition w_I64 :: "i64 \<Rightarrow> wr_action" where
  "w_I64 v = wr_all [w_Bool (sint v < 0), if sint v < 0 then w_U64 (- v) else w_U64 v]"

definition r_U56 :: "u64 rd_action" where
  "r_U56 = readU64_bits 0 3"

definition w_U56 :: "u64 \<Rightarrow> wr_action" where
  "w_U56 v w = (if v > 2 ^ (8 * 7) - 1 then Inl (Panic (PanicMsg ''Value too big''))
     else writeU64_bits 0 3 v w)"

definition r_FixedBytes :: "nat \<Rightarrow> bytes rd_action" where
  "r_FixedBytes n r = bind_res (fast_Read n (BytesR r)) (\<lambda>(buf, br). Inr (buf, r\<lparr>BytesR := br\<rparr>))"

definition w_FixedBytes :: "bytes \<Rightarrow> wr_action" where
  "w_FixedBytes v w = Inr (w\<lparr>BytesW := fast_Write v (BytesW w)\<rparr>)"

definition r_SliceBytes :: "bytes rd_action" where
  "r_SliceBytes = rd_bind r_U56 (\<lambda>sz. r_FixedBytes (unat sz))"

definition w_SliceBytes :: "bytes \<Rightarrow> wr_action" where
  "w_SliceBytes v = wr_all [w_U56 (word_of_nat (length v)), w_FixedBytes v]"

definition PaddedBytes :: "bytes \<Rightarrow> nat \<Rightarrow> bytes" where
  "PaddedBytes b n = (if length b \<ge> n then b else replicate (n - length b) 0 @ b)"

definition w_BigInt :: "int \<Rightarrow> wr_action" where
  "w_BigInt v = w_SliceBytes (if sgn v \<noteq> 0 then big_Bytes v else [])"

definition r_BigInt :: "int rd_action" where
  "r_BigInt = rd_bind r_SliceBytes (\<lambda>buf.
     rd_return (if length buf = 0 then 0 else big_SetBytes buf))"

section \<open>The code: binary adapters\<close>

fun reversed_loop :: "nat \<Rightarrow> bytes \<Rightarrow> bytes \<Rightarrow> bytes" where
  "reversed_loop n [] acc = acc"
| "reversed_loop n (v # vs) acc = reversed_loop (n - 1) vs (acc[n - 1 := v])"

definition reversed :: "bytes \<Rightarrow> bytes" where
  "reversed b = reversed_loop (length b) b (replicate (length b) 0)"

definition tail :: "bytes \<Rightarrow> nat \<Rightarrow> bytes" where
  "tail b cap = (if length b > cap then drop (length b - cap) b else b)"

definition binaryFromCSER :: "bytes \<Rightarrow> bytes \<Rightarrow> bytes" where
  "binaryFromCSER bbits bbytes =
     (let bodyBytes = fast_Write bbits (fast_NewWriter bbytes);
          sizeWriter = writeUint64Compact (word_of_nat (length bbits)) (fast_NewWriter []);
          bodyBytes = fast_Write (reversed (fw_buf sizeWriter)) bodyBytes
      in fw_buf bodyBytes)"

definition MarshalBinaryAdapter :: "wr_action \<Rightarrow> bytes res" where
  "MarshalBinaryAdapter marshalCser =
     bind_res (marshalCser cser_NewWriter) (\<lambda>w.
       Inr (binaryFromCSER (bw_Bytes (BitsW w)) (fw_buf (BytesW w))))"

text \<open>
  The result is the bit array, the body bytes and the rest of the input's backing array behind
  the body bytes: \<open>bbytes\<close> is a prefix of \<open>raw\<close> and shares its capacity. \<open>spare\<close> is what the
  backing array of \<open>raw\<close> itself holds past \<open>raw\<close>.
\<close>

definition binaryToCSER :: "bytes \<Rightarrow> bytes \<Rightarrow> (bytes \<times> bytes \<times> bytes) res" where
  "binaryToCSER raw spare =
     (let bitsSizeBuf = reversed (tail raw 9);
          bitsSizeReader = fast_NewReader bitsSizeBuf []
      in bind_res (readUint64Compact bitsSizeReader) (\<lambda>(bitsSize, bitsSizeReader).
        let raw' = take (length raw - fast_Position bitsSizeReader) raw
        in if (word_of_nat (length raw') :: u64) < bitsSize then Inl (Err ErrMalformedEncoding)
           else let cut = unat (word_of_nat (length raw') - bitsSize)
                in Inr (drop cut raw', take cut raw', drop cut raw @ spare)))"

definition recovered :: "'a res \<Rightarrow> 'a res" where
  "recovered m = (case m of Inl (Panic _) \<Rightarrow> Inl (Err ErrMalformedEncoding) | _ \<Rightarrow> m)"

definition UnmarshalBinaryAdapter :: "bytes \<Rightarrow> bytes \<Rightarrow> 'a rd_action \<Rightarrow> 'a res" where
  "UnmarshalBinaryAdapter raw spare unmarshalCser = recovered
     (bind_res (binaryToCSER raw spare) (\<lambda>(bbits, bbytes, bspare).
        bind_res (unmarshalCser \<lparr>BitsR = bits_NewReader bbits, BytesR = fast_NewReader bbytes bspare\<rparr>)
          (\<lambda>(x, bodyReader).
             if NonReadBytes (BitsR bodyReader) > 1 then Inl (Err ErrNonCanonicalEncoding)
             else bind_res (bits_Read (nat (NonReadBits (BitsR bodyReader))) (BitsR bodyReader))
               (\<lambda>(tl_bits, _).
                  if tl_bits \<noteq> 0 then Inl (Err ErrNonCanonicalEncoding)
                  else if \<not> fast_Empty (BytesR bodyReader) then Inl (Err ErrNonCanonicalEncoding)
                  else Inr x))))"

section \<open>Reversal\<close>

lemma reversed_loop_rev:
  "length vs \<le> n \<Longrightarrow> n \<le> length acc \<Longrightarrow>
     reversed_loop n vs acc = take (n - length vs) acc @ rev vs @ drop n acc"
proof (induction n vs acc rule: reversed_loop.induct)
  case (2 n v vs acc)
  then obtain m where n: "n = Suc m" by (cases n) auto
  have "drop m (acc[m := v]) = v # drop (Suc m) acc"
    using 2 n by (simp add: drop_update_swap Cons_nth_drop_Suc [symmetric])
  with 2 n show ?case by auto
qed simp

lemma reversed_rev [simp]: "reversed b = rev b"
  by (simp add: reversed_def reversed_loop_rev)

section \<open>The variable-length size\<close>

text \<open>The bytes \<open>writeUint64Compact\<close> emits, seven bits each, the last one marked.\<close>

function compact :: "u64 \<Rightarrow> bytes" where
  "compact v = (if drop_bit 7 v = 0 then [ucast (take_bit 7 v OR 128)]
     else ucast (take_bit 7 v) # compact (drop_bit 7 v))"
  by pat_completeness auto
termination
proof (relation "measure unat", goal_cases)
  case (2 v)
  then have "unat v > 0" by (auto simp: unat_gt_0)
  then show ?case by (simp only: in_measure unat_drop_bit) simp
qed simp

declare compact.simps [simp del]

lemma and_127: "(v :: u64) AND 127 = take_bit 7 v"
  by (simp add: take_bit_eq_mask mask_eq_exp_minus_1)

lemma writeUint64Compact_appends: "fw_buf (writeUint64Compact v w) = fw_buf w @ compact v"
proof (induction v w rule: writeUint64Compact.induct)
  case (1 v w)
  then show ?case
    by (subst writeUint64Compact.simps, subst compact.simps) (simp add: Let_def and_127)
qed

lemma length_compact: "fits (7 * k) v \<Longrightarrow> 0 < k \<Longrightarrow> length (compact v) \<le> k"
proof (induction v arbitrary: k rule: compact.induct)
  case (1 v)
  show ?case
  proof (cases "drop_bit 7 v = 0")
    case True
    then show ?thesis using "1.prems" by (subst compact.simps) simp
  next
    case False
    have "k \<noteq> 1"
    proof
      assume "k = 1"
      then have "fits (7 + 0) v" using "1.prems" by simp
      then have "fits 0 (drop_bit 7 v)" by (rule fits_drop_bit)
      with False show False by (simp add: fits_def)
    qed
    then obtain j where k: "k = Suc j" "0 < j" using "1.prems" by (cases k) auto
    have "fits (7 * j) (drop_bit 7 v)"
      using fits_drop_bit [of 7 "7 * j" v] "1.prems" k by simp
    then show ?thesis using "1.IH" [OF False] False k by (subst compact.simps) simp
  qed
qed

lemma bit_128: "bit (128 :: 'a::linordered_euclidean_semiring_bit_operations) n \<longleftrightarrow> n = 7"
  "bit (128 :: 'b::len word) n \<longleftrightarrow> n = 7 \<and> 7 < LENGTH('b)"
proof -
  have eq: "(128 :: 'a) = 2 ^ 7" "(128 :: 'b word) = 2 ^ 7" by simp_all
  show "bit (128 :: 'a) n \<longleftrightarrow> n = 7" "bit (128 :: 'b word) n \<longleftrightarrow> n = 7 \<and> 7 < LENGTH('b)"
    unfolding eq by (auto simp: bit_exp_iff possible_bit_def simp del: power_numeral)
qed

lemma chunk_value:
  fixes v :: u64
  defines "last_c \<equiv> ucast (ucast (take_bit 7 v OR 128) :: u8) :: u64"
    and "c \<equiv> ucast (ucast (take_bit 7 v) :: u8) :: u64"
  shows "take_bit 7 last_c = take_bit 7 v" "bit last_c 7" "take_bit 7 c = take_bit 7 v" "\<not> bit c 7"
proof -
  show "take_bit 7 last_c = take_bit 7 v" "take_bit 7 c = take_bit 7 v"
    unfolding last_c_def c_def
    by (rule bit_word_eqI, simp add: bit_simps bit_128, auto)+
  show "bit last_c 7" "\<not> bit c 7" by (auto simp: last_c_def c_def bit_simps bit_128)
qed

lemma push_take_or_push_drop:
  fixes v :: u64
  shows "push_bit m (take_bit k v) OR push_bit (m + k) (drop_bit k v) = push_bit m v"
proof (rule bit_word_eqI)
  fix n assume "n < LENGTH(64)"
  then show "bit (push_bit m (take_bit k v) OR push_bit (m + k) (drop_bit k v)) n = bit (push_bit m v) n"
    by (cases "n < m + k") (auto simp: bit_simps)
qed

lemma readUint64Compact_loop_compact:
  assumes "fr_wf r" "fr_rest r = compact v @ rest" "i > 0 \<longrightarrow> v \<noteq> 0"
  shows "\<exists>r'. readUint64Compact_loop i acc r = Inr (acc OR push_bit (i * 7) v, r') \<and> fr_wf r' \<and>
           fr_rest r' = rest \<and> fr_offset r' = fr_offset r + length (compact v)"
  using assms
proof (induction v arbitrary: i acc r rule: compact.induct)
  case (1 v)
  have stop: "(c AND 128 \<noteq> 0) = bit c 7" for c :: u64
    using and_exp_eq_0_iff_not_bit [of c 7] by simp
  note cv = chunk_value [of v]
  show ?case
  proof (cases "drop_bit 7 v = 0")
    case True
    have tv: "take_bit 7 v = v" using bits_ident [of 7 v] True by simp
    obtain r' where r': "fast_ReadByte r = Inr (ucast (take_bit 7 v OR 128), r')" "fr_wf r'"
        "fr_rest r' = rest" "fr_offset r' = fr_offset r + 1"
      using fast_ReadByte_rest [OF "1.prems"(1)] "1.prems"(2) True
      by (subst (asm) compact.simps) auto
    have "length (compact v) = 1" using True by (subst compact.simps) simp
    then show ?thesis
      using r' "1.prems"(3) cv(1,2) tv
      by (subst readUint64Compact_loop.simps) (auto simp: stop and_127 Let_def)
  next
    case False
    obtain r' where r': "fast_ReadByte r = Inr (ucast (take_bit 7 v), r')" "fr_wf r'"
        "fr_rest r' = compact (drop_bit 7 v) @ rest" "fr_offset r' = fr_offset r + 1"
      using fast_ReadByte_rest [OF "1.prems"(1)] "1.prems"(2) False
      by (subst (asm) compact.simps) auto
    obtain r2 where r2: "readUint64Compact_loop (i + 1) (acc OR push_bit (i * 7) (take_bit 7 v)) r' =
        Inr ((acc OR push_bit (i * 7) (take_bit 7 v)) OR push_bit ((i + 1) * 7) (drop_bit 7 v), r2)"
        "fr_wf r2" "fr_rest r2 = rest" "fr_offset r2 = fr_offset r' + length (compact (drop_bit 7 v))"
      using "1.IH" [OF False r'(2,3)] False by blast
    have "(acc OR push_bit (i * 7) (take_bit 7 v)) OR push_bit ((i + 1) * 7) (drop_bit 7 v)
        = acc OR push_bit (i * 7) v"
      using push_take_or_push_drop [of "i * 7" 7 v] by (simp add: or.assoc add.commute)
    moreover have "length (compact v) = Suc (length (compact (drop_bit 7 v)))"
      using False by (subst compact.simps) simp
    ultimately show ?thesis
      using r'(1,4) r2 cv(3,4)
      by (subst readUint64Compact_loop.simps) (simp add: stop and_127 Let_def)
  qed
qed

section \<open>Little-endian numbers\<close>

definition le_bytes :: "nat \<Rightarrow> u64 \<Rightarrow> bytes" where
  "le_bytes n v = map (\<lambda>i. ucast (drop_bit (8 * i) v)) [0..<n]"

lemma length_le_bytes [simp]: "length (le_bytes n v) = n"
  by (simp add: le_bytes_def)

lemma le_bytes_Suc: "le_bytes (Suc n) v = ucast v # le_bytes n (drop_bit 8 v)"
proof (rule nth_equalityI)
  fix i assume "i < length (le_bytes (Suc n) v)"
  then show "le_bytes (Suc n) v ! i = (ucast v # le_bytes n (drop_bit 8 v)) ! i"
    by (cases i) (auto simp: le_bytes_def add.commute simp del: upt_Suc)
qed simp

lemma array_bits_le_bytes: "array_bits (le_bytes n v) = low_bits (8 * n) v"
proof (induction n arbitrary: v)
  case (Suc n)
  have "low_bits 8 (ucast v :: u8) = low_bits 8 v"
    by (rule nth_equalityI) (auto simp: bit_simps)
  then show ?case
    using Suc low_bits_append [of 8 "8 * n" v] by (simp add: le_bytes_Suc)
qed (simp add: le_bytes_def)

lemma ucast_u8_eq_0: "(ucast v :: u8) = 0 \<longleftrightarrow> take_bit 8 v = 0" for v :: u64
  by (auto simp: bit_eq_iff bit_simps)

text \<open>The size the writer chooses: the least one that is at least \<open>minSize\<close> and holds the value.\<close>

lemma writeUint64BitCompact_loop_spec:
  "\<exists>k. writeUint64BitCompact_loop sz v m w = (sz + k, w\<lparr>fw_buf := fw_buf w @ le_bytes k v\<rparr>) \<and>
     m \<le> sz + k \<and> fits (8 * k) v \<and> (m < sz + k \<longrightarrow> 0 < k \<longrightarrow> last (le_bytes k v) \<noteq> 0) \<and>
     (\<forall>j. m \<le> sz + j \<longrightarrow> fits (8 * j) v \<longrightarrow> k \<le> j)"
proof (induction sz v m w rule: writeUint64BitCompact_loop.induct)
  case (1 sz v m w)
  show ?case
  proof (cases "sz < m \<or> v \<noteq> 0")
    case True
    obtain k where k: "writeUint64BitCompact_loop (sz + 1) (drop_bit 8 v) m (fast_WriteByte (ucast v) w)
          = (sz + 1 + k, w\<lparr>fw_buf := fw_buf w @ le_bytes (Suc k) v\<rparr>)"
        "m \<le> sz + 1 + k" "fits (8 * k) (drop_bit 8 v)"
        "m < sz + 1 + k \<longrightarrow> 0 < k \<longrightarrow> last (le_bytes k (drop_bit 8 v)) \<noteq> 0"
        "\<forall>j. m \<le> sz + 1 + j \<longrightarrow> fits (8 * j) (drop_bit 8 v) \<longrightarrow> k \<le> j"
      using "1.IH" [OF True] by (auto simp: fast_WriteByte_def le_bytes_Suc)
    have f: "fits (8 * Suc k) v"
    proof (rule fitsI)
      fix i assume "bit v i"
      then show "i < 8 * Suc k"
        using fits_bit [OF k(3), of "i - 8"] by (cases "i < 8") (auto simp: bit_simps)
    qed
    have l: "last (le_bytes (Suc k) v) \<noteq> 0" if "m < sz + Suc k"
    proof (cases k)
      case 0
      with k(3) have "drop_bit 8 v = 0" by (simp add: fits_def)
      then have "v = take_bit 8 v" using bits_ident [of 8 v] by simp
      moreover have "v \<noteq> 0" using True that 0 by auto
      ultimately have "(ucast v :: u8) \<noteq> 0"
        by (simp add: ucast_u8_eq_0)
      with 0 show ?thesis by (simp add: le_bytes_Suc) (simp add: le_bytes_def)
    next
      case (Suc k')
      then show ?thesis using k(4) that by (simp add: le_bytes_Suc)
    qed
    have mn: "Suc k \<le> j" if "m \<le> sz + j" "fits (8 * j) v" for j
    proof (cases j)
      case 0
      with that True show ?thesis by (simp add: fits_def)
    next
      case (Suc j')
      with that(2) have "fits (8 * j') (drop_bit 8 v)" using fits_drop_bit [of 8 "8 * j'" v] by simp
      with k(5) that(1) Suc show ?thesis by auto
    qed
    show ?thesis
      using True k(1,2) f l mn by (subst writeUint64BitCompact_loop.simps) auto
  next
    case False
    then show ?thesis
      by (subst writeUint64BitCompact_loop.simps) (auto simp: le_bytes_def fits_def)
  qed
qed

section \<open>The round-trip relation\<close>

text \<open>
  \<open>emits e bs ys\<close>: the writer action succeeds and appends the bits \<open>bs\<close> and the bytes \<open>ys\<close>.
  \<open>absorbs d x bs ys\<close>: the reader action, on any reader that has these bits and bytes in front
  of it, returns \<open>x\<close> and leaves exactly the rest. \<open>rt e d x\<close> joins the two.
\<close>

definition cw_wf :: "cser_writer \<Rightarrow> bool" where
  "cw_wf w \<longleftrightarrow> bw_wf (BitsW w)"

definition cr_wf :: "cser_reader \<Rightarrow> bool" where
  "cr_wf r \<longleftrightarrow> br_wf (BitsR r) \<and> fr_wf (BytesR r)"

definition emits :: "wr_action \<Rightarrow> bool list \<Rightarrow> bytes \<Rightarrow> bool" where
  "emits e bs ys \<longleftrightarrow> (\<forall>w. cw_wf w \<longrightarrow> (\<exists>w'. e w = Inr w' \<and> cw_wf w' \<and>
     bw_bits (BitsW w') = bw_bits (BitsW w) @ bs \<and> fw_buf (BytesW w') = fw_buf (BytesW w) @ ys))"

definition absorbs :: "'a rd_action \<Rightarrow> 'a \<Rightarrow> bool list \<Rightarrow> bytes \<Rightarrow> bool" where
  "absorbs d x bs ys \<longleftrightarrow> (\<forall>r bs' ys'. cr_wf r \<longrightarrow> br_bits (BitsR r) = bs @ bs' \<longrightarrow>
     fr_rest (BytesR r) = ys @ ys' \<longrightarrow> (\<exists>r'. d r = Inr (x, r') \<and> cr_wf r' \<and>
       br_bits (BitsR r') = bs' \<and> fr_rest (BytesR r') = ys'))"

definition rt :: "wr_action \<Rightarrow> 'a rd_action \<Rightarrow> 'a \<Rightarrow> bool" where
  "rt e d x \<longleftrightarrow> (\<exists>bs ys. emits e bs ys \<and> absorbs d x bs ys)"

lemma rtI: "emits e bs ys \<Longrightarrow> absorbs d x bs ys \<Longrightarrow> rt e d x"
  unfolding rt_def by blast

lemma rtE:
  assumes "rt e d x"
  obtains bs ys where "emits e bs ys" "absorbs d x bs ys"
  using assms unfolding rt_def by blast

lemma emitsE:
  assumes "emits e bs ys" "cw_wf w"
  obtains w' where "e w = Inr w'" "cw_wf w'" "bw_bits (BitsW w') = bw_bits (BitsW w) @ bs"
    "fw_buf (BytesW w') = fw_buf (BytesW w) @ ys"
  using assms unfolding emits_def by blast

lemma absorbsE:
  assumes "absorbs d x bs ys" "cr_wf r" "br_bits (BitsR r) = bs @ bs'" "fr_rest (BytesR r) = ys @ ys'"
  obtains r' where "d r = Inr (x, r')" "cr_wf r'" "br_bits (BitsR r') = bs'" "fr_rest (BytesR r') = ys'"
  using assms unfolding absorbs_def by blast

lemma emits_wr_all_Nil [intro!]: "emits (wr_all []) [] []"
  by (simp add: emits_def)

lemma emits_wr_all_Cons:
  assumes "emits e bs ys" "emits (wr_all es) bs' ys'"
  shows "emits (wr_all (e # es)) (bs @ bs') (ys @ ys')"
  unfolding emits_def
proof (intro allI impI)
  fix w assume w: "cw_wf w"
  obtain w1 where w1: "e w = Inr w1" "cw_wf w1" "bw_bits (BitsW w1) = bw_bits (BitsW w) @ bs"
      "fw_buf (BytesW w1) = fw_buf (BytesW w) @ ys"
    using emitsE [OF assms(1) w] .
  obtain w2 where "wr_all es w1 = Inr w2" "cw_wf w2" "bw_bits (BitsW w2) = bw_bits (BitsW w1) @ bs'"
      "fw_buf (BytesW w2) = fw_buf (BytesW w1) @ ys'"
    using emitsE [OF assms(2) w1(2)] .
  with w1 show "\<exists>w'. wr_all (e # es) w = Inr w' \<and> cw_wf w' \<and>
      bw_bits (BitsW w') = bw_bits (BitsW w) @ bs @ bs' \<and>
      fw_buf (BytesW w') = fw_buf (BytesW w) @ ys @ ys'"
    by simp
qed

lemma absorbs_return: "absorbs (rd_return x) x [] []"
  by (simp add: absorbs_def rd_return_def)

lemma absorbs_bind:
  assumes "absorbs d x bs ys" "absorbs (f x) y bs' ys'"
  shows "absorbs (rd_bind d f) y (bs @ bs') (ys @ ys')"
  unfolding absorbs_def
proof (intro allI impI)
  fix r bs2 ys2
  assume r: "cr_wf r" "br_bits (BitsR r) = (bs @ bs') @ bs2" "fr_rest (BytesR r) = (ys @ ys') @ ys2"
  obtain r1 where r1: "d r = Inr (x, r1)" "cr_wf r1" "br_bits (BitsR r1) = bs' @ bs2"
      "fr_rest (BytesR r1) = ys' @ ys2"
    using absorbsE [OF assms(1) r(1), of "bs' @ bs2" "ys' @ ys2"] r(2,3) by auto
  obtain r2 where "f x r1 = Inr (y, r2)" "cr_wf r2" "br_bits (BitsR r2) = bs2" "fr_rest (BytesR r2) = ys2"
    using absorbsE [OF assms(2) r1(2,3,4)] .
  with r1 show "\<exists>r'. rd_bind d f r = Inr (y, r') \<and> cr_wf r' \<and> br_bits (BitsR r') = bs2 \<and>
      fr_rest (BytesR r') = ys2"
    by (simp add: rd_bind_def)
qed

lemma rt_done [codec_rt]: "rt (wr_all []) (rd_return x) x"
  by (rule rtI [OF emits_wr_all_Nil absorbs_return])

lemma rt_Cons:
  assumes "rt e d x" "rt (wr_all es) (f x) y"
  shows "rt (wr_all (e # es)) (rd_bind d f) y"
  using assms by (elim rtE) (rule rtI, erule (1) emits_wr_all_Cons, erule (1) absorbs_bind)

lemma rt_map:
  assumes "rt e d x" "f x = rd_return y"
  shows "rt e (rd_bind d f) y"
proof -
  obtain bs ys where e: "emits e bs ys" "absorbs d x bs ys" using assms(1) by (rule rtE)
  have "absorbs (rd_bind d f) y (bs @ []) (ys @ [])"
    by (rule absorbs_bind [OF e(2)]) (simp add: assms(2) absorbs_return)
  with e(1) show ?thesis by (auto intro: rtI)
qed

lemma wr_all_single [simp]: "wr_all [e] = e"
  by (auto simp: wr_all.simps bind_res_def fun_eq_iff split: sum.splits)

lemma wr_all_nested: "wr_all (wr_all es # fs) = wr_all (es @ fs)"
proof (rule ext)
  show "wr_all (wr_all es # fs) w = wr_all (es @ fs) w" for w
    by (induction es arbitrary: w) (simp_all add: bind_res_assoc)
qed

lemma rt_single_Cons:
  assumes "rt e1 d x" "rt e2 (f x) y"
  shows "rt (wr_all [e1, e2]) (rd_bind d f) y"
  using rt_Cons [of e1 d x "[e2]" f y] assms by simp

declare wr_all.simps [simp del]

section \<open>The primitives round-trip\<close>

lemma emits_w_bits: "0 < n \<Longrightarrow> fits n v \<Longrightarrow> emits (w_bits n v) (low_bits n v) []"
  unfolding emits_def
proof (intro allI impI)
  fix w assume v: "0 < n" "fits n v" and w: "cw_wf w"
  then obtain bw where "bits_Write n v (BitsW w) = Inr bw" "bw_wf bw"
      "bw_bits bw = bw_bits (BitsW w) @ low_bits n v"
    using bitarr.wr_appends [of "BitsW w" n v] by (auto simp: cw_wf_def)
  then show "\<exists>w'. w_bits n v w = Inr w' \<and> cw_wf w' \<and> bw_bits (BitsW w') = bw_bits (BitsW w) @ low_bits n v \<and>
      fw_buf (BytesW w') = fw_buf (BytesW w) @ []"
    by (simp add: w_bits_def cw_wf_def)
qed

lemma absorbs_r_bits:
  assumes "fits n v" shows "absorbs (r_bits n) v (low_bits n v) []"
  unfolding absorbs_def
proof (intro allI impI)
  fix r bs' ys'
  assume r: "cr_wf r" "br_bits (BitsR r) = low_bits n v @ bs'" "fr_rest (BytesR r) = [] @ ys'"
  then obtain br where "bits_Read n (BitsR r) = Inr (v, br)" "br_wf br" "br_bits br = bs'"
    using bitarr.rd_value [of "BitsR r" n v bs'] assms by (auto simp: cr_wf_def)
  with r show "\<exists>r'. r_bits n r = Inr (v, r') \<and> cr_wf r' \<and> br_bits (BitsR r') = bs' \<and>
      fr_rest (BytesR r') = ys'"
    by (simp add: r_bits_def cr_wf_def)
qed

lemma rt_bits: "0 < n \<Longrightarrow> fits n v \<Longrightarrow> rt (w_bits n v) (r_bits n) v"
  by (rule rtI [OF emits_w_bits absorbs_r_bits])

lemma emits_w_FixedBytes: "emits (w_FixedBytes ys) [] ys"
  by (simp add: emits_def w_FixedBytes_def cw_wf_def)

lemma absorbs_r_FixedBytes:
  assumes "length ys = n" shows "absorbs (r_FixedBytes n) ys [] ys"
  unfolding absorbs_def
proof (intro allI impI)
  fix r bs' ys'
  assume r: "cr_wf r" "br_bits (BitsR r) = [] @ bs'" "fr_rest (BytesR r) = ys @ ys'"
  then obtain br where "fast_Read n (BytesR r) = Inr (ys, br)" "fr_wf br" "fr_rest br = ys'"
    using fast_Read_rest [of "BytesR r" ys ys'] assms by (auto simp: cr_wf_def)
  with r show "\<exists>r'. r_FixedBytes n r = Inr (ys, r') \<and> cr_wf r' \<and> br_bits (BitsR r') = bs' \<and>
      fr_rest (BytesR r') = ys'"
    by (simp add: r_FixedBytes_def cr_wf_def)
qed

lemma rt_FixedBytes [codec_rt]: "length ys = n \<Longrightarrow> rt (w_FixedBytes ys) (r_FixedBytes n) ys"
  by (rule rtI [OF emits_w_FixedBytes absorbs_r_FixedBytes])

lemma rt_U8 [codec_rt]: "rt (w_U8 v) r_U8 v"
proof -
  have "emits (w_U8 v) [] [v]"
    by (simp add: emits_def w_U8_def cw_wf_def)
  moreover have "absorbs r_U8 v [] [v]"
    unfolding absorbs_def
  proof (intro allI impI)
    fix r bs' ys'
    assume r: "cr_wf r" "br_bits (BitsR r) = [] @ bs'" "fr_rest (BytesR r) = [v] @ ys'"
    then obtain br where "fast_ReadByte (BytesR r) = Inr (v, br)" "fr_wf br" "fr_rest br = ys'"
      using fast_ReadByte_rest [of "BytesR r" v ys'] by (auto simp: cr_wf_def)
    with r show "\<exists>r'. r_U8 r = Inr (v, r') \<and> cr_wf r' \<and> br_bits (BitsR r') = bs' \<and>
        fr_rest (BytesR r') = ys'"
      by (simp add: r_U8_def cr_wf_def)
  qed
  ultimately show ?thesis by (rule rtI)
qed

definition bc_size :: "nat \<Rightarrow> u64 \<Rightarrow> nat" where
  "bc_size m v = (LEAST j. m \<le> j \<and> fits (8 * j) v)"

lemma writeUint64BitCompact_spec:
  "writeUint64BitCompact w v m = (bc_size m v, w\<lparr>fw_buf := fw_buf w @ le_bytes (bc_size m v) v\<rparr>)"
  "m \<le> bc_size m v" "fits (8 * bc_size m v) v"
  "m < bc_size m v \<Longrightarrow> last (le_bytes (bc_size m v) v) \<noteq> 0"
  "m \<le> j \<Longrightarrow> fits (8 * j) v \<Longrightarrow> bc_size m v \<le> j"
proof -
  obtain k where k: "writeUint64BitCompact_loop 0 v m w = (k, w\<lparr>fw_buf := fw_buf w @ le_bytes k v\<rparr>)"
      "m \<le> k" "fits (8 * k) v" "m < k \<longrightarrow> 0 < k \<longrightarrow> last (le_bytes k v) \<noteq> 0"
      "\<forall>j. m \<le> j \<longrightarrow> fits (8 * j) v \<longrightarrow> k \<le> j"
    using writeUint64BitCompact_loop_spec [of 0 v m w] by auto
  have "bc_size m v = k"
    unfolding bc_size_def by (rule Least_equality) (use k in auto)
  with k show "writeUint64BitCompact w v m = (bc_size m v, w\<lparr>fw_buf := fw_buf w @ le_bytes (bc_size m v) v\<rparr>)"
    "m \<le> bc_size m v" "fits (8 * bc_size m v) v"
    "m < bc_size m v \<Longrightarrow> last (le_bytes (bc_size m v) v) \<noteq> 0"
    "m \<le> j \<Longrightarrow> fits (8 * j) v \<Longrightarrow> bc_size m v \<le> j"
    by (auto simp: writeUint64BitCompact_def)
qed

lemma readUint64BitCompact_loop_value:
  "readUint64BitCompact_loop i acc l bs =
     (acc OR push_bit (8 * i) (of_bits (array_bits bs)), if bs = [] then l else last bs)"
proof (induction i acc l bs rule: readUint64BitCompact_loop.induct)
  case (1 i v l)
  show ?case by (simp add: of_bits_def)
next
  case (2 i v l b bs)
  have "ucast b OR push_bit 8 (of_bits (array_bits bs)) = (of_bits (array_bits (b # bs)) :: u64)"
    using drop_bits_value [of 0 b "array_bits bs"] by simp
  then have "push_bit (8 * i) (of_bits (array_bits (b # bs)) :: u64) =
      push_bit (8 * i) (ucast b OR push_bit 8 (of_bits (array_bits bs)))"
    by simp
  then show ?case using 2 by (simp add: or.assoc push_bit_or add.commute)
qed

lemma absorbs_readUint64BitCompact:
  fixes f :: "u64 \<Rightarrow> 'a rd_action"
  assumes "fits (8 * k) v" "1 < k \<longrightarrow> last (le_bytes k v) \<noteq> 0"
  shows "absorbs (\<lambda>r. bind_res (readUint64BitCompact k (BytesR r)) (\<lambda>(v, br). Inr (v, r\<lparr>BytesR := br\<rparr>)))
           v [] (le_bytes k v)"
  unfolding absorbs_def
proof (intro allI impI)
  fix r bs' ys'
  assume r: "cr_wf r" "br_bits (BitsR r) = [] @ bs'" "fr_rest (BytesR r) = le_bytes k v @ ys'"
  then obtain br where br: "fast_Read k (BytesR r) = Inr (le_bytes k v, br)" "fr_wf br" "fr_rest br = ys'"
    using fast_Read_rest [of "BytesR r" "le_bytes k v" ys' k] by (auto simp: cr_wf_def)
  have "\<not> (1 < k \<and> (if le_bytes k v = [] then 0 else last (le_bytes k v)) = 0)"
    using assms(2) by (auto simp: le_bytes_def)
  moreover have "(of_bits (array_bits (le_bytes k v)) :: u64) = v"
    using assms(1) by (simp add: array_bits_le_bytes fits_of_bits_low_bits)
  ultimately have "readUint64BitCompact k (BytesR r) = Inr (v, br)"
    using br(1) by (auto simp: readUint64BitCompact_def readUint64BitCompact_loop_value)
  with r br show "\<exists>r'. bind_res (readUint64BitCompact k (BytesR r)) (\<lambda>(v, br). Inr (v, r\<lparr>BytesR := br\<rparr>)) =
      Inr (v, r') \<and> cr_wf r' \<and> br_bits (BitsR r') = bs' \<and> fr_rest (BytesR r') = ys'"
    by (simp add: cr_wf_def)
qed

lemma writeU64_bits_explicit:
  assumes "m \<le> 1" "0 < b" "m + 2 ^ b \<le> 9" "fits (8 * (m + 2 ^ b - 1)) v"
  shows "emits (writeU64_bits m b v) (low_bits b (word_of_nat (bc_size m v - m) :: u64)) (le_bytes (bc_size m v) v)"
    "absorbs (readU64_bits m b) v (low_bits b (word_of_nat (bc_size m v - m) :: u64)) (le_bytes (bc_size m v) v)"
    "bc_size m v \<le> m + 2 ^ b - 1"
proof -
  define k where "k = bc_size m v"
  note spec = writeUint64BitCompact_spec [where v = v and m = m, folded k_def]
  have b1: "(1 :: nat) \<le> 2 ^ b" by simp
  then have "m \<le> m + 2 ^ b - 1" by linarith
  then have k: "k \<le> m + 2 ^ b - 1" using spec(5) [of "m + 2 ^ b - 1"] assms(4) by simp
  then show "bc_size m v \<le> m + 2 ^ b - 1" by (simp add: k_def)
  let ?d = "word_of_nat (k - m) :: u64"
  have "k \<le> 8" using k assms(3) by linarith
  then have ud: "unat ?d = k - m" "unat (?d + word_of_nat m) = k"
    using unat_small_nat [of "k - m", where 'a = 64] unat_small_nat [of k, where 'a = 64] spec(2)
    by (simp_all add: of_nat_diff)
  have "k - m < 2 ^ b" using k b1 by linarith
  then have fd: "fits b ?d" using ud(1) by (simp add: fits_unat)
  have "emits (writeU64_bits m b v) (low_bits b ?d) (le_bytes k v)"
    unfolding emits_def
  proof (intro allI impI)
    fix w assume w: "cw_wf w"
    let ?w = "w\<lparr>BytesW := (BytesW w)\<lparr>fw_buf := fw_buf (BytesW w) @ le_bytes k v\<rparr>\<rparr>"
    have "cw_wf ?w" using w by (simp add: cw_wf_def)
    with emits_w_bits [OF assms(2) fd] obtain w' where "w_bits b ?d ?w = Inr w'" "cw_wf w'"
        "bw_bits (BitsW w') = bw_bits (BitsW ?w) @ low_bits b ?d" "fw_buf (BytesW w') = fw_buf (BytesW ?w) @ []"
      by (rule emitsE)
    then show "\<exists>w'. writeU64_bits m b v w = Inr w' \<and> cw_wf w' \<and>
        bw_bits (BitsW w') = bw_bits (BitsW w) @ low_bits b ?d \<and> fw_buf (BytesW w') = fw_buf (BytesW w) @ le_bytes k v"
      by (simp add: writeU64_bits_def spec(1))
  qed
  then show "emits (writeU64_bits m b v) (low_bits b (word_of_nat (bc_size m v - m) :: u64)) (le_bytes (bc_size m v) v)"
    by (simp add: k_def)
  have "absorbs (readU64_bits m b) v (low_bits b ?d @ []) ([] @ le_bytes k v)"
    unfolding readU64_bits_def
    by (rule absorbs_bind [OF absorbs_r_bits [OF fd]])
      (use absorbs_readUint64BitCompact [OF spec(3)] spec(4) assms(1) ud(2) in \<open>simp add: Let_def\<close>)
  then show "absorbs (readU64_bits m b) v (low_bits b (word_of_nat (bc_size m v - m) :: u64)) (le_bytes (bc_size m v) v)"
    by (simp add: k_def)
qed

lemma rt_writeU64_bits:
  assumes "m \<le> 1" "0 < b" "m + 2 ^ b \<le> 9" "fits (8 * (m + 2 ^ b - 1)) v"
  shows "rt (writeU64_bits m b v) (readU64_bits m b) v"
  using writeU64_bits_explicit [OF assms] by (auto intro: rtI)

text \<open>A peek at the first \<open>n\<close> bits leaves them in place for what reads next.\<close>

lemma absorbs_view:
  assumes "n \<le> 64" "n \<le> length bs" "absorbs (f (of_bits (take n bs))) y bs ys"
  shows "absorbs (rd_bind (r_bits_View n) f) y bs ys"
  unfolding absorbs_def
proof (intro allI impI)
  fix r bs' ys'
  assume r: "cr_wf r" "br_bits (BitsR r) = bs @ bs'" "fr_rest (BytesR r) = ys @ ys'"
  let ?v = "of_bits (take n bs) :: u64"
  have "fits n ?v" by (rule fitsI) (simp add: bit_of_bits)
  moreover have "low_bits n ?v = take n bs"
    using assms(1,2) by (auto simp: list_eq_iff_nth_eq bit_of_bits)
  moreover have "bs @ bs' = take n bs @ (drop n bs @ bs')"
    by simp
  ultimately obtain br where "bits_Read n (BitsR r) = Inr (?v, br)"
    using bitarr.rd_value [of "BitsR r" n ?v "drop n bs @ bs'"] r by (auto simp: cr_wf_def)
  then have "r_bits_View n r = Inr (?v, r)"
    by (simp add: r_bits_View_def bits_View_def)
  moreover obtain r' where "f ?v r = Inr (y, r')" "cr_wf r'" "br_bits (BitsR r') = bs'" "fr_rest (BytesR r') = ys'"
    using absorbsE [OF assms(3) r] .
  ultimately show "\<exists>r'. rd_bind (r_bits_View n) f r = Inr (y, r') \<and> cr_wf r' \<and>
      br_bits (BitsR r') = bs' \<and> fr_rest (BytesR r') = ys'"
    by (simp add: rd_bind_def)
qed

lemma rt_U16 [codec_rt]: "rt (w_U16 v) r_U16 v"
proof -
  have "fits 16 (ucast v :: u64)" by (rule fitsI) (auto simp: bit_simps dest: bit_imp_le_length)
  then show ?thesis unfolding w_U16_def r_U16_def
    by (intro rt_map [OF rt_writeU64_bits]) (auto simp: ucast_up_down)
qed

lemma rt_U32 [codec_rt]: "rt (w_U32 v) r_U32 v"
proof -
  have "fits 32 (ucast v :: u64)" by (rule fitsI) (auto simp: bit_simps dest: bit_imp_le_length)
  then show ?thesis unfolding w_U32_def r_U32_def
    by (intro rt_map [OF rt_writeU64_bits]) (auto simp: ucast_up_down)
qed

lemma rt_U64 [codec_rt]: "rt (w_U64 v) r_U64 v"
  unfolding w_U64_def r_U64_def by (rule rt_writeU64_bits) auto

lemma rt_VarUint [codec_rt]: "rt (w_VarUint v) r_VarUint v"
  unfolding w_VarUint_def r_VarUint_def by (rule rt_writeU64_bits) auto

lemma rt_U56 [codec_rt]:
  assumes "unat v < 2 ^ 56" shows "rt (w_U56 v) r_U56 v"
proof -
  have "fits (8 * (0 + 2 ^ 3 - 1)) v" using assms by (simp add: fits_unat)
  then have "rt (writeU64_bits 0 3 v) (readU64_bits 0 3) v" by (intro rt_writeU64_bits) auto
  moreover have "\<not> v > 2 ^ (8 * 7) - 1" using assms by (simp add: word_less_nat_alt)
  then have "w_U56 v = writeU64_bits 0 3 v" by (auto simp: w_U56_def)
  ultimately show ?thesis by (simp add: r_U56_def)
qed

lemma rt_Bool [codec_rt]: "rt (w_Bool v) r_Bool v"
  unfolding w_Bool_def r_Bool_def
  by (rule rt_map [OF rt_bits]) (auto simp: fits_unat)

lemma rt_I64 [codec_rt]: "rt (w_I64 v) r_I64 v"
proof (cases "sint v < 0")
  case True
  then have "v \<noteq> 0" by auto
  then show ?thesis
    using True unfolding w_I64_def r_I64_def
    by (intro rt_single_Cons [OF rt_Bool]) (auto intro!: rt_map [OF rt_U64])
next
  case False
  then show ?thesis
    unfolding w_I64_def r_I64_def
    by (intro rt_single_Cons [OF rt_Bool]) (auto intro!: rt_map [OF rt_U64])
qed

lemma rt_SliceBytes [codec_rt]: "length ys < 2 ^ 56 \<Longrightarrow> rt (w_SliceBytes ys) r_SliceBytes ys"
  unfolding w_SliceBytes_def r_SliceBytes_def
  by (rule rt_single_Cons [OF rt_U56 rt_FixedBytes]) (auto simp: unat_of_nat)

lemma rt_BigInt [codec_rt]:
  assumes "0 \<le> v" "length (big_Bytes v) < 2 ^ 56"
  shows "rt (w_BigInt v) r_BigInt v"
  unfolding w_BigInt_def r_BigInt_def
  by (rule rt_map [OF rt_SliceBytes])
    (use assms big_SetBytes_Bytes [of v] in \<open>auto simp: big_Bytes_def sgn_if\<close>)

section \<open>Codecs\<close>

text \<open>
  The contract between a component and its serialised form: \<open>enc\<close> and \<open>dec\<close> round-trip on the
  valid values. From it the loops of the serialisers follow once and for all: writing the
  elements of a slice one after the other and reading the same number of them back.
\<close>

fun rd_times :: "nat \<Rightarrow> 'a rd_action \<Rightarrow> 'a list rd_action" where
  "rd_times 0 d = rd_return []"
| "rd_times (Suc n) d = rd_bind d (\<lambda>x. rd_bind (rd_times n d) (\<lambda>xs. rd_return (x # xs)))"

locale cser_codec =
  fixes enc :: "'a \<Rightarrow> wr_action" and dec :: "'a rd_action" and valid :: "'a \<Rightarrow> bool"
  assumes rt: "valid x \<Longrightarrow> rt (enc x) dec x"
begin

lemma absorbs_times:
  "\<forall>x \<in> set xs. valid x \<Longrightarrow>
     \<exists>bs ys. emits (wr_all (map enc xs)) bs ys \<and> absorbs (rd_times (length xs) dec) xs bs ys"
proof (induction xs)
  case Nil
  show ?case using emits_wr_all_Nil absorbs_return [of "[]"] by (metis list.simps(8) list.size(3) rd_times.simps(1))
next
  case (Cons x xs)
  then obtain bs ys where 1: "emits (wr_all (map enc xs)) bs ys"
      "absorbs (rd_times (length xs) dec) xs bs ys" by auto
  obtain bs' ys' where 2: "emits (enc x) bs' ys'" "absorbs dec x bs' ys'"
    using rt [of x] Cons.prems by (auto elim: rtE)
  have "absorbs (rd_times (length (x # xs)) dec) (x # xs) (bs' @ (bs @ [])) (ys' @ (ys @ []))"
    by (simp only: list.size add_Suc_right add_0_right rd_times.simps)
      (intro absorbs_bind [OF 2(2)] absorbs_bind [OF 1(2)] absorbs_return)
  moreover have "emits (wr_all (map enc (x # xs))) (bs' @ bs) (ys' @ ys)"
    using emits_wr_all_Cons [OF 2(1) 1(1)] by simp
  ultimately show ?case by auto
qed

lemma rt_list: "\<forall>x \<in> set xs. valid x \<Longrightarrow> length xs = n \<Longrightarrow> rt (wr_all (map enc xs)) (rd_times n dec) xs"
  using absorbs_times [of xs] by (auto intro: rtI)

end

interpretation u32_codec: cser_codec w_U32 r_U32 "\<lambda>_. True"
  by unfold_locales (rule rt_U32)

interpretation u64_codec: cser_codec w_U64 r_U64 "\<lambda>_. True"
  by unfold_locales (rule rt_U64)

interpretation bigint_codec: cser_codec w_BigInt r_BigInt "\<lambda>v. 0 \<le> v \<and> length (big_Bytes v) < 2 ^ 56"
  by unfold_locales (auto intro: rt_BigInt)

interpretation hash_codec: cser_codec w_FixedBytes "r_FixedBytes n" "\<lambda>h. length h = n" for n
  by unfold_locales (auto intro: rt_FixedBytes)

interpretation slice_codec: cser_codec w_SliceBytes r_SliceBytes "\<lambda>b. length b < 2 ^ 56"
  by unfold_locales (auto intro: rt_SliceBytes)

section \<open>The binary adapters\<close>

lemma tail_append:
  assumes "length b \<le> n" shows "\<exists>p. tail (a @ b) n = p @ b"
proof (cases "length (a @ b) > n")
  case True
  then have "tail (a @ b) n = drop (length (a @ b) - n) a @ b"
    using assms by (simp add: tail_def)
  then show ?thesis ..
next
  case False
  then show ?thesis by (auto simp: tail_def)
qed

lemma binaryToCSER_FromCSER:
  assumes "length bbits < 2 ^ 63" "length bbytes + length bbits < 2 ^ 64"
  shows "\<exists>sp. binaryToCSER (binaryFromCSER bbits bbytes) spare = Inr (bbits, bbytes, sp)"
proof -
  define n where "n = (word_of_nat (length bbits) :: u64)"
  have un: "unat n = length bbits"
    using assms(1) unfolding n_def by (intro unat_small_nat) simp
  have raw: "binaryFromCSER bbits bbytes = bbytes @ bbits @ rev (compact n)"
    by (simp add: binaryFromCSER_def writeUint64Compact_appends n_def)
  have "fits (7 * 9) n" using un assms(1) by (simp add: fits_unat)
  then have "length (rev (compact n)) \<le> 9" using length_compact [of 9 n] by simp
  then obtain p where p: "tail ((bbytes @ bbits) @ rev (compact n)) 9 = p @ rev (compact n)"
    using tail_append by blast
  then obtain r' where r': "readUint64Compact (fast_NewReader (compact n @ rev p) []) = Inr (n, r')"
      "fr_offset r' = length (compact n)"
    using readUint64Compact_loop_compact [of "fast_NewReader (compact n @ rev p) []" n "rev p" 0 0]
    by (auto simp: readUint64Compact_def) (auto simp: fast_NewReader_def)
  have ul: "unat (word_of_nat (length bbytes + length bbits) :: u64) = length bbytes + length bbits"
    using assms(2) by (intro unat_small_nat) simp
  have le: "\<not> (word_of_nat (length bbytes + length bbits) :: u64) < n"
    by (simp add: word_less_nat_alt ul un del: of_nat_add)
  have cut: "unat (word_of_nat (length bbytes + length bbits) - n) = length bbytes"
    using le by (simp add: unat_sub ul un not_less del: of_nat_add)
  show ?thesis
    using p r' le cut
    by (simp add: binaryToCSER_def raw fast_Position_def Let_def of_nat_add [symmetric] del: of_nat_add)
qed

text \<open>Bytes and bits that were emitted are read back, and nothing is left over.\<close>

theorem adapter_roundtrip:
  assumes "rt e d x"
    and small: "\<And>w. e cser_NewWriter = Inr w \<Longrightarrow>
      length (bw_Bytes (BitsW w)) + length (fw_buf (BytesW w)) < 2 ^ 63"
  shows "\<exists>raw. MarshalBinaryAdapter e = Inr raw \<and> UnmarshalBinaryAdapter raw spare d = Inr x"
proof -
  obtain bs ys where bs: "emits e bs ys" "absorbs d x bs ys" using assms(1) by (rule rtE)
  have "cw_wf cser_NewWriter" by (simp add: cser_NewWriter_def cw_wf_def)
  then obtain w where w: "e cser_NewWriter = Inr w" "bw_wf (BitsW w)"
      "bw_bits (BitsW w) = bs" "fw_buf (BytesW w) = ys"
    using emitsE [OF bs(1), of cser_NewWriter] by (auto simp: cser_NewWriter_def cw_wf_def)
  let ?bits = "bw_Bytes (BitsW w)" and ?raw = "binaryFromCSER (bw_Bytes (BitsW w)) ys"
  have len: "length ?bits < 2 ^ 63" "length ys + length ?bits < 2 ^ 64"
    using small [OF w(1)] w(4) by auto
  obtain sp where sp: "binaryToCSER ?raw spare = Inr (?bits, ys, sp)"
    using binaryToCSER_FromCSER [OF len] by blast
  let ?r = "\<lparr>BitsR = bits_NewReader ?bits, BytesR = fast_NewReader ys sp\<rparr>"
  let ?pad = "replicate (bw_pad (BitsW w)) False"
  have "cr_wf ?r" by (simp add: cr_wf_def)
  moreover have "br_bits (BitsR ?r) = bs @ ?pad" using array_bits_writer [OF w(2)] w(3) by simp
  moreover have "fr_rest (BytesR ?r) = ys @ []" by simp
  ultimately obtain r' where r': "d ?r = Inr (x, r')" "cr_wf r'" "br_bits (BitsR r') = ?pad"
      "fr_rest (BytesR r') = []"
    using absorbsE [OF bs(2)] by metis
  have pad: "bw_pad (BitsW w) < 8" by (simp add: bw_pad_def)
  have br: "br_wf (BitsR r')" using r'(2) by (simp add: cr_wf_def)
  have nb: "NonReadBits (BitsR r') = int (bw_pad (BitsW w))"
    using NonReadBits_view [OF br] r'(3) by simp
  have nby: "\<not> NonReadBytes (BitsR r') > 1"
    using nb pad br by (auto simp: NonReadBits_def br_wf_def)
  obtain r2 where r2: "bits_Read (bw_pad (BitsW w)) (BitsR r') = Inr (of_bits ?pad, r2)"
    using bits_Read_takes [OF br, of ?pad "[]"] r'(3) by auto
  have "(of_bits ?pad :: u64) = 0" by (rule bit_word_eqI) (simp add: bit_of_bits)
  moreover have "fast_Empty (BytesR r')"
    using r'(2,4) by (auto simp: fast_Empty_def fr_rest_def cr_wf_def fr_wf_def)
  ultimately have "UnmarshalBinaryAdapter ?raw spare d = Inr x"
    using sp r'(1) nby r2 nb by (simp add: UnmarshalBinaryAdapter_def recovered_def)
  moreover have "MarshalBinaryAdapter e = Inr ?raw"
    using w by (simp add: MarshalBinaryAdapter_def)
  ultimately show ?thesis by blast
qed

section \<open>Properties\<close>

text \<open>
  A value of one of the types the package writes, the writer and reader methods that go with it,
  and the values its writer takes.
\<close>

datatype cser_val = VU8 u8 | VU16 u16 | VU32 u32 | VU64 u64 | VI64 i64 | VU56 u64 | VarU u64
  | VBool bool | VFixed bytes | VSlice bytes | VBig int

fun w_val :: "cser_val \<Rightarrow> wr_action" where
  "w_val (VU8 v) = w_U8 v"
| "w_val (VU16 v) = w_U16 v"
| "w_val (VU32 v) = w_U32 v"
| "w_val (VU64 v) = w_U64 v"
| "w_val (VI64 v) = w_I64 v"
| "w_val (VU56 v) = w_U56 v"
| "w_val (VarU v) = w_VarUint v"
| "w_val (VBool v) = w_Bool v"
| "w_val (VFixed v) = w_FixedBytes v"
| "w_val (VSlice v) = w_SliceBytes v"
| "w_val (VBig v) = w_BigInt v"

text \<open>Only the constructor of the argument, and the length of fixed bytes, selects the reader.\<close>

fun r_val :: "cser_val \<Rightarrow> cser_val rd_action" where
  "r_val (VU8 _) = rd_bind r_U8 (\<lambda>v. rd_return (VU8 v))"
| "r_val (VU16 _) = rd_bind r_U16 (\<lambda>v. rd_return (VU16 v))"
| "r_val (VU32 _) = rd_bind r_U32 (\<lambda>v. rd_return (VU32 v))"
| "r_val (VU64 _) = rd_bind r_U64 (\<lambda>v. rd_return (VU64 v))"
| "r_val (VI64 _) = rd_bind r_I64 (\<lambda>v. rd_return (VI64 v))"
| "r_val (VU56 _) = rd_bind r_U56 (\<lambda>v. rd_return (VU56 v))"
| "r_val (VarU _) = rd_bind r_VarUint (\<lambda>v. rd_return (VarU v))"
| "r_val (VBool _) = rd_bind r_Bool (\<lambda>v. rd_return (VBool v))"
| "r_val (VFixed b) = rd_bind (r_FixedBytes (length b)) (\<lambda>v. rd_return (VFixed v))"
| "r_val (VSlice _) = rd_bind r_SliceBytes (\<lambda>v. rd_return (VSlice v))"
| "r_val (VBig _) = rd_bind r_BigInt (\<lambda>v. rd_return (VBig v))"

fun val_ok :: "cser_val \<Rightarrow> bool" where
  "val_ok (VU56 v) \<longleftrightarrow> unat v < 2 ^ 56"
| "val_ok (VSlice b) \<longleftrightarrow> length b < 2 ^ 56"
| "val_ok (VBig v) \<longleftrightarrow> 0 \<le> v \<and> length (big_Bytes v) < 2 ^ 56"
| "val_ok _ \<longleftrightarrow> True"

fun r_vals :: "cser_val list \<Rightarrow> cser_val list rd_action" where
  "r_vals [] = rd_return []"
| "r_vals (v # vs) = rd_bind (r_val v) (\<lambda>x. rd_bind (r_vals vs) (\<lambda>xs. rd_return (x # xs)))"

lemma rt_val: "val_ok v \<Longrightarrow> rt (w_val v) (r_val v) v"
  by (cases v) (auto intro!: rt_map [OF rt_U8] rt_map [OF rt_U16] rt_map [OF rt_U32] rt_map [OF rt_U64]
      rt_map [OF rt_I64] rt_map [OF rt_U56] rt_map [OF rt_VarUint] rt_map [OF rt_Bool]
      rt_map [OF rt_FixedBytes] rt_map [OF rt_SliceBytes] rt_map [OF rt_BigInt])

lemma rt_vals: "list_all val_ok vs \<Longrightarrow> rt (wr_all (map w_val vs)) (r_vals vs) vs"
proof (induction vs)
  case (Cons v vs)
  then show ?case by (simp, intro rt_Cons [OF rt_val] rt_map [OF Cons.IH]) auto
qed (simp add: rt_done)




text \<open>
  The encoding of a byte slice is not canonical: \<open>U56\<close> accepts the size zero written with one
  byte, so two different inputs decode to the same empty slice, though the encoder only writes
  the first.
\<close>

theorem SliceBytes_noncanonical:
  "UnmarshalBinaryAdapter [0x00, 0x81] [] r_SliceBytes = Inr []
   \<and> UnmarshalBinaryAdapter [0x00, 0x01, 0x81] [] r_SliceBytes = Inr []
   \<and> MarshalBinaryAdapter (w_SliceBytes []) = Inr [0x00, 0x81]"
  by code_simp

end
