(* ===== verification/Inter.thy ===== *)
theory Inter
  imports Sky_Prelude
begin

text \<open>
  Package \<open>inter\<close> (src/inter/event.go, gas_power_left.go, block.go, time.go, signature.go) and
  \<open>inter/validatorpk\<close>: the data the node gossips about, and the small operations on it.

  What the package takes from other modules is a parameter, gathered in \<open>dag_lib\<close>: the layout of
  an event ID (\<open>hash.Event\<close>: its lamport accessor and the constructor \<open>MutableBaseEvent\<close> applies to
  epoch, lamport and the 24 hash bytes), the hash of the empty transaction list and SHA-256.
  The plain getters and setters of \<open>dag.BaseEvent\<close> and of \<open>types.Transaction\<close> are record fields.
\<close>

section \<open>Gas power\<close>

text \<open>\<open>Gas [GasPowerConfigs]uint64\<close> is an array of exactly two elements.\<close>

record gas_power_left =
  Gas0 :: u64
  Gas1 :: u64

definition gas_list :: "gas_power_left \<Rightarrow> u64 list" where
  "gas_list g = [Gas0 g, Gas1 g]"

definition gas_index :: "gas_power_left \<Rightarrow> nat \<Rightarrow> u64 res" where
  "gas_index g i = (if i < length (gas_list g) then Inr (gas_list g ! i) else Inl (Panic IndexOutOfRange))"

text \<open>
  \<open>Add\<close> has a value receiver: it adds to a copy and returns nothing. The model returns the pair
  of the (discarded) local copy and the caller's value after the call.
\<close>

definition gpl_Add_local :: "gas_power_left \<Rightarrow> u64 \<Rightarrow> gas_power_left" where
  "gpl_Add_local g diff = \<lparr>Gas0 = Gas0 g + diff, Gas1 = Gas1 g + diff\<rparr>"

definition gpl_Add :: "gas_power_left \<Rightarrow> u64 \<Rightarrow> gas_power_left \<times> gas_power_left" where
  "gpl_Add g diff = (gpl_Add_local g diff, g)"

definition gpl_Min :: "gas_power_left \<Rightarrow> u64" where
  "gpl_Min g = fold (\<lambda>gas m. if m > gas then gas else m) (gas_list g) (Gas0 g)"

definition gpl_Max :: "gas_power_left \<Rightarrow> u64" where
  "gpl_Max g = fold (\<lambda>gas m. if m < gas then gas else m) (gas_list g) (Gas0 g)"

definition gpl_Sub :: "gas_power_left \<Rightarrow> u64 \<Rightarrow> gas_power_left" where
  "gpl_Sub g diff = \<lparr>Gas0 = Gas0 g - diff, Gas1 = Gas1 g - diff\<rparr>"

section \<open>Transactions\<close>

text \<open>
  \<open>types.Transaction\<close> as the code of the repository sees it: the type byte and the values its
  accessors return. \<open>LegacyTxType\<close> is 0, \<open>AccessListTxType\<close> is 1.
\<close>

record transaction =
  tx_Type :: u8
  tx_Nonce :: u64
  tx_Gas :: u64
  tx_GasPrice :: int
  tx_Value :: int
  tx_To :: "bytes option"
  tx_Data :: bytes
  tx_V :: int
  tx_R :: int
  tx_S :: int
  tx_ChainId :: int
  tx_AccessList :: "(bytes \<times> bytes list) list"

abbreviation LegacyTxType :: u8 where "LegacyTxType \<equiv> 0"
abbreviation AccessListTxType :: u8 where "AccessListTxType \<equiv> 1"

section \<open>Events\<close>

text \<open>
  The consensus library's event IDs: epoch and Lamport time of an ID, the ID made of epoch, Lamport
  time and 24 bytes, and the self-parent of an event with the given sequence number and parents;
  the hash of an empty transaction list and SHA-256.
\<close>

record dag_lib =
  id_Epoch :: "bytes \<Rightarrow> u32"
  id_Lamport :: "bytes \<Rightarrow> u32"
  id_make :: "u32 \<Rightarrow> u32 \<Rightarrow> bytes \<Rightarrow> bytes"
  self_parent :: "u32 \<Rightarrow> bytes list \<Rightarrow> bytes option"
  EmptyTxHash :: bytes
  sha256 :: "bytes \<Rightarrow> bytes"

text \<open>
  \<open>MutableEventPayload\<close>: base event, \<open>extEventData\<close>, \<open>sigData\<close> and \<open>payloadData\<close>.
  \<open>EventPayload\<close> adds what \<open>build\<close> computes: ID, cached hash and cached size.
\<close>

record mut_event =
  ev_Epoch :: u32
  ev_Lamport :: u32
  ev_Creator :: u32
  ev_Seq :: u32
  ev_Frame :: u32
  ev_Parents :: "bytes list"
  ev_creationTime :: u64
  ev_medianTime :: u64
  ev_prevEpochHash :: "bytes option"
  ev_txHash :: bytes
  ev_gasPowerLeft :: gas_power_left
  ev_gasPowerUsed :: u64
  ev_extra :: bytes
  ev_sig :: bytes
  ev_txs :: "transaction list"

record event_payload = mut_event +
  ep_ID :: bytes
  ep_hash :: bytes
  ep_size :: nat

definition NoTxs :: "dag_lib \<Rightarrow> 'a mut_event_scheme \<Rightarrow> bool" where
  "NoTxs L e \<longleftrightarrow> ev_txHash e = EmptyTxHash L"

definition eventHash :: "dag_lib \<Rightarrow> bytes \<Rightarrow> bytes" where
  "eventHash L eventSer = sha256 L eventSer"

definition calcEventID :: "bytes \<Rightarrow> bytes" where
  "calcEventID h = take 24 h"

definition build :: "dag_lib \<Rightarrow> mut_event \<Rightarrow> bytes \<Rightarrow> nat \<Rightarrow> event_payload" where
  "build L me h sz = mut_event.extend me
     \<lparr>ep_ID = id_make L (ev_Epoch me) (ev_Lamport me) (calcEventID h), ep_hash = h, ep_size = sz\<rparr>"

definition immutable :: "dag_lib \<Rightarrow> mut_event \<Rightarrow> event_payload" where
  "immutable L me = build L me (replicate 32 0) 0"

section \<open>Validators\<close>

text \<open>
  \<open>pos.Validators\<close> of the consensus library: weight by ID (zero for others), total weight, the
  index of an ID and the ID at an index, and the IDs in the library's order.
\<close>

record validators =
  v_Get :: "u32 \<Rightarrow> u32"
  v_TotalWeight :: u32
  v_GetIdx :: "u32 \<Rightarrow> nat"
  v_Len :: nat
  v_GetID :: "nat \<Rightarrow> u32"
  v_Exists :: "u32 \<Rightarrow> bool"
  v_SortedIDs :: "u32 list"

definition validators_ok :: "validators \<Rightarrow> bool" where
  "validators_ok vs \<longleftrightarrow> (\<forall>i < v_Len vs. v_Exists vs (v_GetID vs i) \<and> v_GetIdx vs (v_GetID vs i) = i) \<and>
     (\<forall>id. v_Exists vs id \<longrightarrow> v_GetIdx vs id < v_Len vs \<and> v_GetID vs (v_GetIdx vs id) = id)"

section \<open>Time\<close>

definition time_Second :: u64 where "time_Second = 1000000000"

definition FromUnix :: "i64 \<Rightarrow> u64" where
  "FromUnix t = t * time_Second"

text \<open>Go's signed division truncates towards zero.\<close>

definition Timestamp_Unix :: "u64 \<Rightarrow> i64" where
  "Timestamp_Unix t = word_of_int (sgn (sint t) * (\<bar>sint t\<bar> div 1000000000))"

definition MaxTimestamp :: "u64 \<Rightarrow> u64 \<Rightarrow> u64" where
  "MaxTimestamp x y = (if x > y then x else y)"

section \<open>Blocks\<close>

record block =
  blk_Time :: u64
  blk_Atropos :: bytes
  blk_Events :: "bytes list"
  blk_Txs :: "bytes list"
  blk_InternalTxs :: "bytes list"
  blk_SkippedTxs :: "u32 list"
  blk_GasUsed :: u64
  blk_Root :: bytes

definition blk_EstimateSize :: "block \<Rightarrow> nat" where
  "blk_EstimateSize b = (length (blk_Events b) + length (blk_InternalTxs b) + length (blk_Txs b) + 1 + 1) * 32
     + length (blk_SkippedTxs b) * 4 + 8 + 8"

text \<open>The loop of both filters: \<open>skipCount\<close> is the number of skipped entries already consumed.\<close>

fun skip_loop :: "nat \<Rightarrow> nat \<Rightarrow> u32 list \<Rightarrow> 'a list \<Rightarrow> 'a list" where
  "skip_loop i skipCount skipped [] = []"
| "skip_loop i skipCount skipped (tx # txs) =
     (if skipCount < length skipped \<and> skipped ! skipCount = word_of_nat i
      then skip_loop (i + 1) (skipCount + 1) skipped txs
      else tx # skip_loop (i + 1) skipCount skipped txs)"

definition FilterSkippedTxs :: "'a list \<Rightarrow> u32 list \<Rightarrow> 'a list" where
  "FilterSkippedTxs txs skippedTxs =
     (if length skippedTxs = 0 then txs else skip_loop 0 0 skippedTxs txs)"

definition NotSkippedTxs :: "block \<Rightarrow> bytes list" where
  "NotSkippedTxs b =
     (let txs = blk_InternalTxs b @ blk_Txs b
      in if length (blk_SkippedTxs b) = 0 then txs else skip_loop 0 0 (blk_SkippedTxs b) txs)"

section \<open>Signatures and public keys\<close>

definition BytesToSignature :: "bytes \<Rightarrow> bytes res" where
  "BytesToSignature b = (if length b \<noteq> 64 then Inl (Panic (PanicMsg ''invalid signature length'')) else Inr b)"

record pub_key =
  pk_Type :: u8
  pk_Raw :: bytes

definition pk_Secp256k1 :: u8 where "pk_Secp256k1 = 0xc0"

definition pk_Empty :: "pub_key \<Rightarrow> bool" where
  "pk_Empty pk \<longleftrightarrow> length (pk_Raw pk) = 0 \<and> pk_Type pk = 0"

definition pk_Bytes :: "pub_key \<Rightarrow> bytes" where
  "pk_Bytes pk = pk_Type pk # pk_Raw pk"

definition pk_FromBytes :: "bytes \<Rightarrow> pub_key res" where
  "pk_FromBytes b = (case b of [] \<Rightarrow> Inl (Err (OtherErr ''empty pubkey''))
     | t # raw \<Rightarrow> Inr \<lparr>pk_Type = t, pk_Raw = raw\<rparr>)"

section \<open>Lemmas\<close>

lemma gpl_Min_le: "gpl_Min g \<le> Gas0 g" "gpl_Min g \<le> Gas1 g" "gpl_Min g \<in> {Gas0 g, Gas1 g}"
  by (auto simp: gpl_Min_def gas_list_def)

lemma gpl_Max_ge: "Gas0 g \<le> gpl_Max g" "Gas1 g \<le> gpl_Max g" "gpl_Max g \<in> {Gas0 g, Gas1 g}"
  by (auto simp: gpl_Max_def gas_list_def)

lemma pk_roundtrip: "pk_FromBytes (pk_Bytes pk) = Inr pk"
  by (simp add: pk_FromBytes_def pk_Bytes_def)

text \<open>
  The skip filter against its reference: with the indexes ascending, as block processing produces
  them, exactly the elements at the listed positions are dropped.
\<close>

lemma skip_loop_reference:
  assumes "sorted_wrt (<) (map unat skipped)" "sc \<le> length skipped"
    and "\<forall>k < sc. unat (skipped ! k) < i" "\<forall>k. sc \<le> k \<longrightarrow> k < length skipped \<longrightarrow> i \<le> unat (skipped ! k)"
    and "i + length txs \<le> 2 ^ 32"
  shows "skip_loop i sc skipped txs =
    map snd (filter (\<lambda>(j, _). word_of_nat j \<notin> set skipped) (enumerate i txs))"
  using assms(2-)
proof (induction txs arbitrary: i sc)
  case (Cons tx txs)
  have ui: "unat (word_of_nat i :: u32) = i" using Cons.prems(4) by (intro unat_small_nat) simp
  have mono: "unat (skipped ! a) < unat (skipped ! b)" if "a < b" "b < length skipped" for a b
    using assms(1) that by (simp add: sorted_wrt_iff_nth_less)
  have mem: "word_of_nat i \<in> set skipped \<longleftrightarrow> sc < length skipped \<and> skipped ! sc = word_of_nat i"
  proof
    assume "word_of_nat i \<in> set skipped"
    then obtain k where k: "k < length skipped" "skipped ! k = word_of_nat i" by (auto simp: in_set_conv_nth)
    have "sc \<le> k" using Cons.prems(2) k ui by (metis not_le less_irrefl)
    moreover have "\<not> sc < k"
    proof
      assume "sc < k"
      then have "i \<le> unat (skipped ! sc)" "unat (skipped ! sc) < unat (skipped ! k)"
        using Cons.prems(3) mono k(1) by auto
      then show False using k(2) ui by simp
    qed
    ultimately show "sc < length skipped \<and> skipped ! sc = word_of_nat i" using k by auto
  next
    assume "sc < length skipped \<and> skipped ! sc = word_of_nat i"
    then show "word_of_nat i \<in> set skipped" by (metis nth_mem)
  qed
  have next_ge: "Suc i \<le> unat (skipped ! k)" if "sc \<le> k" "k < length skipped"
      "\<not> (sc < length skipped \<and> skipped ! sc = word_of_nat i)" for k
  proof -
    have "i \<le> unat (skipped ! k)" using Cons.prems(3) that by blast
    moreover have "unat (skipped ! k) \<noteq> i"
    proof
      assume "unat (skipped ! k) = i"
      then have "skipped ! k = word_of_nat i" by auto
      then have "word_of_nat i \<in> set skipped" using that(2) by (metis nth_mem)
      then show False using mem that(3) by blast
    qed
    ultimately show ?thesis by linarith
  qed
  show ?case
  proof (cases "sc < length skipped \<and> skipped ! sc = word_of_nat i")
    case True
    have "\<forall>k < sc + 1. unat (skipped ! k) < i + 1"
      using Cons.prems(2) True ui by (metis Suc_eq_plus1 less_Suc_eq)
    moreover have "\<forall>k. sc + 1 \<le> k \<longrightarrow> k < length skipped \<longrightarrow> i + 1 \<le> unat (skipped ! k)"
      using mono [of sc] True ui by (metis Suc_eq_plus1 Suc_le_eq)
    ultimately show ?thesis
      using Cons.IH [of "sc + 1" "i + 1"] Cons.prems(4) True mem by simp
  next
    case False
    have "\<forall>k < sc. unat (skipped ! k) < i + 1" using Cons.prems(2) by auto
    then show ?thesis
      using Cons.IH [of sc "i + 1"] Cons.prems(1,4) False mem next_ge by auto
  qed
qed simp

section \<open>Properties\<close>

lemma skip_loop_start:
  assumes "sorted_wrt (<) (map unat skipped)" "length txs \<le> 2 ^ 32"
  shows "skip_loop 0 0 skipped txs = map snd (filter (\<lambda>(j, _). word_of_nat j \<notin> set skipped) (enumerate 0 txs))"
  by (rule skip_loop_reference) (use assms in auto)

text \<open>
  Filtering the transactions of a block: with the skipped positions ascending, as block
  processing records them, \<open>FilterSkippedTxs\<close> drops exactly the transactions at these positions
  and keeps the order of the others, and \<open>NotSkippedTxs\<close> does the same on internal transactions
  followed by the others.
\<close>

theorem FilterSkippedTxs_reference:
  assumes "sorted_wrt (<) (map unat skipped)" "length txs \<le> 2 ^ 32"
    and "blk_SkippedTxs b = skipped" "blk_InternalTxs b @ blk_Txs b = hashes" "length hashes \<le> 2 ^ 32"
  shows "FilterSkippedTxs txs skipped = map snd (filter (\<lambda>(j, _). word_of_nat j \<notin> set skipped) (enumerate 0 txs))
    \<and> NotSkippedTxs b = map snd (filter (\<lambda>(j, _). word_of_nat j \<notin> set skipped) (enumerate 0 hashes))"
  using assms by (auto simp: FilterSkippedTxs_def NotSkippedTxs_def Let_def skip_loop_start)

theorem FilterSkippedTxs_reference_witness:
  "FilterSkippedTxs [True, False, False, True] [1, 3] = [True, False] \<and>
   NotSkippedTxs \<lparr>blk_Time = 0, blk_Atropos = [], blk_Events = [], blk_Txs = [[1], [2], [3]],
     blk_InternalTxs = [[0]], blk_SkippedTxs = [1, 3], blk_GasUsed = 0, blk_Root = []\<rparr> = [[0], [2]]"
  using FilterSkippedTxs_reference [of "[1, 3]" "[True, False, False, True]"
      "\<lparr>blk_Time = 0, blk_Atropos = [], blk_Events = [], blk_Txs = [[1], [2], [3]],
     blk_InternalTxs = [[0]], blk_SkippedTxs = [1, 3], blk_GasUsed = 0, blk_Root = []\<rparr>" "[[0], [1], [2], [3]]"]
  by (simp add: enumerate_eq_zip)

end
