(* ===== verification/Tx_Serializer.thy ===== *)
theory Tx_Serializer
  imports Cser Inter
begin

text \<open>
  src/inter/transaction_serializer.go: transactions inside events. A legacy transaction starts
  with the size bits of its nonce and gas limit; since a legacy gas limit above 255 needs more
  than one byte these six bits are never all zero, so six zero bits mark a typed transaction.
  The lemmas show that the decoder inverts the encoder on both kinds, and exhibit an encoding the
  encoder never produces and the decoder takes.
\<close>

section \<open>The code\<close>

definition encodeSig :: "int \<Rightarrow> int \<Rightarrow> bytes" where
  "encodeSig r s = take 32 (PaddedBytes (big_Bytes r) 32) @ take 32 (PaddedBytes (big_Bytes s) 32)"

definition decodeSig :: "bytes \<Rightarrow> int \<times> int" where
  "decodeSig sg = (big_SetBytes (take 32 sg), big_SetBytes (take 32 (drop 32 sg)))"

definition w_fail :: "failure \<Rightarrow> wr_action" where
  "w_fail e w = Inl e"

definition w_AccessTuple :: "bytes \<times> bytes list \<Rightarrow> wr_action" where
  "w_AccessTuple tuple = wr_all
     [w_FixedBytes (fst tuple), w_U32 (word_of_nat (length (snd tuple))), wr_all (map w_FixedBytes (snd tuple))]"

definition w_TxTail :: "transaction \<Rightarrow> wr_action" where
  "w_TxTail tx =
     (if tx_Type tx = LegacyTxType then wr_all []
      else if tx_Type tx = AccessListTxType
      then wr_all [w_BigInt (tx_ChainId tx), w_U32 (word_of_nat (length (tx_AccessList tx))),
                   wr_all (map w_AccessTuple (tx_AccessList tx))]
      else w_fail (Err ErrUnknownTxType))"

definition w_TxHead :: "transaction \<Rightarrow> wr_action" where
  "w_TxHead tx =
     (if tx_Type tx \<noteq> LegacyTxType then wr_all [w_bits 6 0, w_U8 (tx_Type tx)]
      else if tx_Gas tx \<le> 0xff then w_fail (Err ErrLegacyGasLimit)
      else wr_all [])"

definition w_TxTo :: "bytes option \<Rightarrow> wr_action" where
  "w_TxTo to = (case to of None \<Rightarrow> wr_all [] | Some a \<Rightarrow> w_FixedBytes a)"

definition TransactionMarshalCSER :: "transaction \<Rightarrow> wr_action" where
  "TransactionMarshalCSER tx = wr_all
     [w_TxHead tx,
      w_U64 (tx_Nonce tx),
      w_U64 (tx_Gas tx),
      w_BigInt (tx_GasPrice tx),
      w_BigInt (tx_Value tx),
      w_Bool (tx_To tx \<noteq> None),
      w_TxTo (tx_To tx),
      w_SliceBytes (tx_Data tx),
      w_BigInt (tx_V tx),
      w_FixedBytes (encodeSig (tx_R tx) (tx_S tx)),
      w_TxTail tx]"

definition r_optBytes :: "nat \<Rightarrow> bool \<Rightarrow> bytes option rd_action" where
  "r_optBytes n ex = (if ex then rd_bind (r_FixedBytes n) (\<lambda>b. rd_return (Some b)) else rd_return None)"

definition r_AccessTuple :: "(bytes \<times> bytes list) rd_action" where
  "r_AccessTuple = rd_bind (r_FixedBytes 20) (\<lambda>addr. rd_bind r_U32 (\<lambda>keysLen.
     rd_bind (rd_times (unat keysLen) (r_FixedBytes 32)) (\<lambda>keys. rd_return (addr, keys))))"

definition r_TxRest :: "u8 \<Rightarrow> u64 \<Rightarrow> u64 \<Rightarrow> transaction rd_action" where
  "r_TxRest txType nonce gasLimit =
     rd_bind r_BigInt (\<lambda>gasPrice. rd_bind r_BigInt (\<lambda>amount.
     rd_bind r_Bool (\<lambda>toExists. rd_bind (r_optBytes 20 toExists) (\<lambda>to.
     rd_bind r_SliceBytes (\<lambda>dat. rd_bind r_BigInt (\<lambda>v.
     rd_bind (r_FixedBytes 64) (\<lambda>sg.
     let (r, s) = decodeSig sg in
     if txType = LegacyTxType
     then rd_return \<lparr>tx_Type = LegacyTxType, tx_Nonce = nonce, tx_Gas = gasLimit,
            tx_GasPrice = gasPrice, tx_Value = amount, tx_To = to, tx_Data = dat,
            tx_V = v, tx_R = r, tx_S = s, tx_ChainId = 0, tx_AccessList = []\<rparr>
     else if txType = AccessListTxType
     then rd_bind r_BigInt (\<lambda>chainID. rd_bind r_U32 (\<lambda>accessListLen.
          rd_bind (rd_times (unat accessListLen) r_AccessTuple) (\<lambda>accessList.
          rd_return \<lparr>tx_Type = AccessListTxType, tx_Nonce = nonce, tx_Gas = gasLimit,
            tx_GasPrice = gasPrice, tx_Value = amount, tx_To = to, tx_Data = dat,
            tx_V = v, tx_R = r, tx_S = s, tx_ChainId = chainID, tx_AccessList = accessList\<rparr>)))
     else rd_fail (Err ErrUnknownTxType))))))))"

definition r_TxBody :: "u8 \<Rightarrow> transaction rd_action" where
  "r_TxBody txType = rd_bind r_U64 (\<lambda>nonce. rd_bind r_U64 (\<lambda>gasLimit. r_TxRest txType nonce gasLimit))"

definition TransactionUnmarshalCSER :: "transaction rd_action" where
  "TransactionUnmarshalCSER = rd_bind (r_bits_View 6) (\<lambda>peek.
     if peek = 0 then rd_bind (r_bits 6) (\<lambda>_. rd_bind r_U8 r_TxBody)
     else r_TxBody LegacyTxType)"

section \<open>Valid transactions\<close>

definition big_ok :: "int \<Rightarrow> bool" where
  "big_ok v \<longleftrightarrow> 0 \<le> v \<and> length (big_Bytes v) < 2 ^ 56"

definition sig_ok :: "int \<Rightarrow> bool" where
  "sig_ok v \<longleftrightarrow> 0 \<le> v \<and> v < 2 ^ 256"

definition access_ok :: "bytes \<times> bytes list \<Rightarrow> bool" where
  "access_ok t \<longleftrightarrow> length (fst t) = 20 \<and> length (snd t) < 2 ^ 32 \<and> (\<forall>k \<in> set (snd t). length k = 32)"

text \<open>
  What the encoder needs to be faithful: one of the two known types, a legacy transaction with a
  gas limit above 255 and without the fields its type lacks, non-negative numbers, addresses and
  keys of their fixed sizes.
\<close>

definition tx_ok :: "transaction \<Rightarrow> bool" where
  "tx_ok tx \<longleftrightarrow> big_ok (tx_GasPrice tx) \<and> big_ok (tx_Value tx) \<and> big_ok (tx_V tx) \<and>
     sig_ok (tx_R tx) \<and> sig_ok (tx_S tx) \<and> length (tx_Data tx) < 2 ^ 56 \<and>
     pred_option (\<lambda>a. length a = 20) (tx_To tx) \<and>
     (tx_Type tx = LegacyTxType \<and> 0xff < tx_Gas tx \<and> tx_ChainId tx = 0 \<and> tx_AccessList tx = [] \<or>
      tx_Type tx = AccessListTxType \<and> big_ok (tx_ChainId tx) \<and> length (tx_AccessList tx) < 2 ^ 32 \<and>
      (\<forall>t \<in> set (tx_AccessList tx). access_ok t))"

lemma rt_big [codec_rt]: "big_ok v \<Longrightarrow> rt (w_BigInt v) r_BigInt v"
  by (simp add: big_ok_def rt_BigInt)

lemma big_ok_u64: "0 \<le> v \<Longrightarrow> v < 2 ^ 64 \<Longrightarrow> big_ok v"
  using length_nat_be_le [of "nat v" 8] by (auto simp: big_ok_def big_Bytes_def nat_less_iff)

lemma PaddedBytes_value: "be_nat (PaddedBytes b n) = be_nat b"
  by (simp add: PaddedBytes_def be_nat_append)

lemma PaddedBytes_sig:
  assumes "sig_ok v"
  shows "length (PaddedBytes (big_Bytes v) 32) = 32" "big_SetBytes (PaddedBytes (big_Bytes v) 32) = v"
proof -
  have "nat v < 256 ^ 32" using assms by (auto simp: sig_ok_def nat_less_iff)
  then have "length (big_Bytes v) \<le> 32"
    using assms length_nat_be_le [of "nat v" 32] by (simp add: big_Bytes_def sig_ok_def)
  then show "length (PaddedBytes (big_Bytes v) 32) = 32" by (auto simp: PaddedBytes_def)
  show "big_SetBytes (PaddedBytes (big_Bytes v) 32) = v"
    using big_SetBytes_Bytes [of v] assms by (simp add: big_SetBytes_def PaddedBytes_value sig_ok_def)
qed

lemma decodeSig_encodeSig:
  "sig_ok r \<Longrightarrow> sig_ok s \<Longrightarrow> decodeSig (encodeSig r s) = (r, s) \<and> length (encodeSig r s) = 64"
  using PaddedBytes_sig [of r] PaddedBytes_sig [of s] by (simp add: decodeSig_def encodeSig_def)

lemma rt_optBytes [codec_rt]:
  "pred_option (\<lambda>a. length a = n) to \<Longrightarrow> rt (w_TxTo to) (r_optBytes n (to \<noteq> None)) to"
  by (cases to) (auto simp: w_TxTo_def r_optBytes_def intro!: rt_done rt_map [OF rt_FixedBytes])

lemma rt_AccessTuple: "access_ok t \<Longrightarrow> rt (w_AccessTuple t) r_AccessTuple t"
  unfolding w_AccessTuple_def r_AccessTuple_def access_ok_def
  by (rule rt_Cons [OF rt_FixedBytes] rt_single_Cons [OF rt_U32] rt_map [OF hash_codec.rt_list]
      | simp add: unat_small_nat)+

interpretation access_codec: cser_codec w_AccessTuple r_AccessTuple access_ok
  by unfold_locales (rule rt_AccessTuple)

section \<open>Round trip\<close>

text \<open>The part of the body after nonce and gas limit, written and read the same way for both types.\<close>

definition w_TxRest :: "transaction \<Rightarrow> wr_action list" where
  "w_TxRest tx =
     [w_BigInt (tx_GasPrice tx), w_BigInt (tx_Value tx), w_Bool (tx_To tx \<noteq> None), w_TxTo (tx_To tx),
      w_SliceBytes (tx_Data tx), w_BigInt (tx_V tx), w_FixedBytes (encodeSig (tx_R tx) (tx_S tx)),
      w_TxTail tx]"

lemma rt_TxRest:
  assumes "tx_ok tx"
  shows "rt (wr_all (w_TxRest tx)) (r_TxRest (tx_Type tx) (tx_Nonce tx) (tx_Gas tx)) tx"
  unfolding w_TxRest_def r_TxRest_def
proof (intro rt_Cons [OF rt_big] rt_Cons [OF rt_Bool] rt_Cons [OF rt_optBytes]
    rt_Cons [OF rt_SliceBytes] rt_Cons [OF rt_FixedBytes], goal_cases)
  case 7
  have sg: "decodeSig (encodeSig (tx_R tx) (tx_S tx)) = (tx_R tx, tx_S tx)"
    using assms decodeSig_encodeSig by (auto simp: tx_ok_def)
  have leg: "tx_Type tx = LegacyTxType \<Longrightarrow> tx_ChainId tx = 0 \<and> tx_AccessList tx = []"
    using assms by (auto simp: tx_ok_def)
  have acc: "tx_Type tx \<noteq> LegacyTxType \<Longrightarrow> tx_Type tx = AccessListTxType \<and> big_ok (tx_ChainId tx) \<and>
      length (tx_AccessList tx) < 2 ^ 32 \<and> (\<forall>t \<in> set (tx_AccessList tx). access_ok t)"
    using assms by (auto simp: tx_ok_def)
  show ?case
  proof (cases "tx_Type tx = LegacyTxType")
    case True
    with leg [OF True] have "\<lparr>tx_Type = LegacyTxType, tx_Nonce = tx_Nonce tx, tx_Gas = tx_Gas tx,
        tx_GasPrice = tx_GasPrice tx, tx_Value = tx_Value tx, tx_To = tx_To tx, tx_Data = tx_Data tx,
        tx_V = tx_V tx, tx_R = tx_R tx, tx_S = tx_S tx, tx_ChainId = 0, tx_AccessList = []\<rparr> = tx"
      by (cases tx) simp
    with True show ?thesis by (simp add: sg w_TxTail_def rt_done)
  next
    case False
    with acc [OF False] have eq: "\<lparr>tx_Type = AccessListTxType, tx_Nonce = tx_Nonce tx, tx_Gas = tx_Gas tx,
        tx_GasPrice = tx_GasPrice tx, tx_Value = tx_Value tx, tx_To = tx_To tx, tx_Data = tx_Data tx,
        tx_V = tx_V tx, tx_R = tx_R tx, tx_S = tx_S tx, tx_ChainId = tx_ChainId tx,
        tx_AccessList = tx_AccessList tx\<rparr> = tx"
      by (cases tx) simp
    with acc [OF False] show ?thesis
      by (auto simp: sg w_TxTail_def unat_small_nat eq
          intro!: rt_Cons [OF rt_big] rt_single_Cons [OF rt_U32] rt_map [OF access_codec.rt_list])
  qed
qed (use assms decodeSig_encodeSig in \<open>auto simp: tx_ok_def\<close>)

lemma TransactionMarshalCSER_parts:
  "TransactionMarshalCSER tx = wr_all (w_TxHead tx # w_U64 (tx_Nonce tx) # w_U64 (tx_Gas tx) # w_TxRest tx)"
  by (simp add: TransactionMarshalCSER_def w_TxRest_def)

text \<open>A gas limit above 255 does not fit one byte, so its three size bits are not all zero.\<close>

lemma size_bits_of_gas:
  assumes "0xff < (g :: u64)"
  shows "\<exists>i < 3. bit (word_of_nat (bc_size 1 g - 1) :: u64) i"
proof -
  have le: "bc_size 1 g \<le> 8"
    using writeU64_bits_explicit(3) [of 1 3 g] by (simp add: fits_full)
  have "\<not> fits 8 g" using assms by (simp add: fits_unat word_less_nat_alt)
  then have "bc_size 1 g \<noteq> 1" using writeUint64BitCompact_spec(3) [of 1 g] by auto
  then have ge: "1 < bc_size 1 g" using writeUint64BitCompact_spec(2) [of 1 g] by simp
  let ?d = "word_of_nat (bc_size 1 g - 1) :: u64"
  have d: "unat ?d = bc_size 1 g - 1" using le by (intro unat_small_nat) simp
  then have "fits 3 ?d" using le by (simp add: fits_unat)
  moreover have "?d \<noteq> 0" using d ge by (metis unat_0 zero_less_diff less_numeral_extra(3))
  ultimately show ?thesis using fits_bit bit_eq_iff by (metis bit_0_eq bot_apply bot_bool_def)
qed

lemma rt_Transaction_legacy:
  assumes ok: "tx_ok tx" and leg: "tx_Type tx = LegacyTxType"
  shows "rt (TransactionMarshalCSER tx) TransactionUnmarshalCSER tx"
proof -
  have gas: "0xff < tx_Gas tx" using ok leg by (auto simp: tx_ok_def)
  let ?b = "\<lambda>v. low_bits 3 (word_of_nat (bc_size 1 v - 1) :: u64)"
  let ?y = "\<lambda>v. le_bytes (bc_size 1 v) v"
  have u64: "emits (w_U64 v) (?b v) (?y v)" "absorbs r_U64 v (?b v) (?y v)" for v
    using writeU64_bits_explicit(1,2) [of 1 3 v] by (simp_all add: w_U64_def r_U64_def)
  obtain bs ys where rest: "emits (wr_all (w_TxRest tx)) bs ys"
      "absorbs (r_TxRest LegacyTxType (tx_Nonce tx) (tx_Gas tx)) tx bs ys"
    using rt_TxRest [OF ok] leg by (auto elim: rtE)
  let ?bs = "?b (tx_Nonce tx) @ ?b (tx_Gas tx) @ bs"
  let ?ys = "?y (tx_Nonce tx) @ ?y (tx_Gas tx) @ ys"
  have emit: "emits (wr_all (w_U64 (tx_Nonce tx) # w_U64 (tx_Gas tx) # w_TxRest tx)) ?bs ?ys"
    by (intro emits_wr_all_Cons u64(1) rest(1))
  have body: "absorbs (r_TxBody LegacyTxType) tx ?bs ?ys"
    unfolding r_TxBody_def
    by (rule absorbs_bind [OF u64(2)], rule absorbs_bind [OF u64(2)], rule rest(2))
  have "TransactionMarshalCSER tx = wr_all (w_U64 (tx_Nonce tx) # w_U64 (tx_Gas tx) # w_TxRest tx)"
    using leg gas wr_all_nested [of "[]"]
    by (auto simp: TransactionMarshalCSER_parts w_TxHead_def not_le [symmetric])
  moreover have "(of_bits (take 6 ?bs) :: u64) \<noteq> 0"
  proof -
    obtain i where i: "i < 3" "bit (word_of_nat (bc_size 1 (tx_Gas tx) - 1) :: u64) i"
      using size_bits_of_gas [OF gas] by auto
    then have "bit (of_bits (take 6 ?bs) :: u64) (3 + i)"
      by (simp add: bit_of_bits nth_append)
    then show ?thesis by auto
  qed
  then have "absorbs TransactionUnmarshalCSER tx ?bs ?ys"
    unfolding TransactionUnmarshalCSER_def by (intro absorbs_view) (use body in auto)
  ultimately show ?thesis using emit by (auto intro: rtI)
qed

lemma rt_Transaction_typed:
  assumes ok: "tx_ok tx" and ty: "tx_Type tx \<noteq> LegacyTxType"
  shows "rt (TransactionMarshalCSER tx) TransactionUnmarshalCSER tx"
proof -
  have fits: "fits 6 (0 :: u64)" by (simp add: fits_unat)
  have "rt (wr_all (w_U8 (tx_Type tx) # w_U64 (tx_Nonce tx) # w_U64 (tx_Gas tx) # w_TxRest tx))
      (rd_bind r_U8 r_TxBody) tx"
    by (rule rt_Cons [OF rt_U8]) (simp add: r_TxBody_def rt_Cons [OF rt_U64] rt_TxRest [OF ok])
  then obtain bs ys where b: "emits (wr_all (w_U8 (tx_Type tx) # w_U64 (tx_Nonce tx) # w_U64 (tx_Gas tx) # w_TxRest tx)) bs ys"
      "absorbs (rd_bind r_U8 r_TxBody) tx bs ys"
    by (rule rtE)
  let ?bs = "low_bits 6 (0 :: u64) @ bs"
  have "absorbs (rd_bind (r_bits 6) (\<lambda>_. rd_bind r_U8 r_TxBody)) tx ?bs ([] @ ys)"
    by (rule absorbs_bind [OF absorbs_r_bits [OF fits] b(2)])
  moreover have "(of_bits (take 6 ?bs) :: u64) = 0"
    by (simp add: of_bits_low_bits)
  ultimately have "absorbs TransactionUnmarshalCSER tx ?bs ys"
    unfolding TransactionUnmarshalCSER_def by (intro absorbs_view) auto
  moreover have "emits (TransactionMarshalCSER tx) ?bs ([] @ ys)"
    using emits_wr_all_Cons [OF emits_w_bits [OF _ fits] b(1)] ty
    by (simp add: TransactionMarshalCSER_parts w_TxHead_def wr_all_nested)
  ultimately show ?thesis by (auto intro: rtI)
qed

lemma rt_Transaction: "tx_ok tx \<Longrightarrow> rt (TransactionMarshalCSER tx) TransactionUnmarshalCSER tx"
  using rt_Transaction_legacy rt_Transaction_typed by blast

interpretation tx_codec: cser_codec TransactionMarshalCSER TransactionUnmarshalCSER tx_ok
  by unfold_locales (rule rt_Transaction)

section \<open>Properties\<close>

text \<open>
  C29. Transactions: the decoder inverts the encoder on every legacy transaction with a gas limit
  above 255 and every access-list transaction, wherever it stands in a stream: the reader takes
  exactly the bits and bytes the writer put there. This is where the six-bit marker matters.
\<close>

theorem transaction_roundtrip:
  assumes "tx_ok tx"
  shows "rt (TransactionMarshalCSER tx) TransactionUnmarshalCSER tx"
  using assms by (rule rt_Transaction)

definition wit_tx :: transaction where
  "wit_tx = \<lparr>tx_Type = 1, tx_Nonce = 3, tx_Gas = 21000, tx_GasPrice = 1000, tx_Value = 7,
     tx_To = Some (replicate 20 2), tx_Data = [1, 2, 3], tx_V = 1, tx_R = 5, tx_S = 6, tx_ChainId = 250,
     tx_AccessList = [(replicate 20 4, [replicate 32 5])]\<rparr>"

theorem transaction_roundtrip_witness: "rt (TransactionMarshalCSER wit_tx) TransactionUnmarshalCSER wit_tx"
  by (rule transaction_roundtrip)
    (simp add: wit_tx_def tx_ok_def big_ok_u64 sig_ok_def access_ok_def)

text \<open>
  The decoder takes what the encoder refuses: a legacy transaction with gas limit 1, written
  with the typed marker and type byte 0, decodes, while encoding the result is an error. So an
  event can be decoded that cannot be encoded again.
\<close>

definition small_gas_raw :: bytes where
  "small_gas_raw = [0, 0, 1] @ replicate 64 0 @ [0, 0, 0, 0, 0x84]"

definition small_gas_tx :: transaction where
  "small_gas_tx = \<lparr>tx_Type = 0, tx_Nonce = 0, tx_Gas = 1, tx_GasPrice = 0, tx_Value = 0, tx_To = None,
     tx_Data = [], tx_V = 0, tx_R = 0, tx_S = 0, tx_ChainId = 0, tx_AccessList = []\<rparr>"

theorem small_legacy_gas_accepted:
  "UnmarshalBinaryAdapter small_gas_raw [] TransactionUnmarshalCSER = Inr small_gas_tx \<and>
   MarshalBinaryAdapter (TransactionMarshalCSER small_gas_tx) = Inl (Err ErrLegacyGasLimit)"
  by code_simp

end
