(* ===== verification/Event_Serializer.thy ===== *)
theory Event_Serializer
  imports Tx_Serializer
begin

text \<open>
  src/inter/event_serializer.go and the rest of src/inter/event.go: the canonical encoding of
  events, the hash an event is signed by, and \<open>Build\<close>. A parent is stored as the difference of
  Lamport times and the last 24 bytes of its ID; the decoder rebuilds the ID from the event's own
  epoch. The theorems show that decoding inverts encoding, down to ID, hash and size of a built
  event.
\<close>

section \<open>The code\<close>

definition w_Parent :: "dag_lib \<Rightarrow> u32 \<Rightarrow> bytes \<Rightarrow> wr_action" where
  "w_Parent L lamport p =
     (if lamport < id_Lamport L p then w_fail (Err ErrSerMalformedEvent)
      else wr_all [w_U32 (lamport - id_Lamport L p), w_FixedBytes (drop 8 p)])"

definition event_MarshalCSER :: "dag_lib \<Rightarrow> 'a mut_event_scheme \<Rightarrow> wr_action" where
  "event_MarshalCSER L e = wr_all
     [w_U32 (ev_Epoch e),
      w_U32 (ev_Lamport e),
      w_U32 (ev_Creator e),
      w_U32 (ev_Seq e),
      w_U32 (ev_Frame e),
      w_U64 (ev_creationTime e),
      w_I64 (ev_creationTime e - ev_medianTime e),
      w_U64 (ev_gasPowerUsed e),
      w_U64 (Gas0 (ev_gasPowerLeft e)),
      w_U64 (Gas1 (ev_gasPowerLeft e)),
      w_U32 (word_of_nat (length (ev_Parents e))),
      wr_all (map (w_Parent L (ev_Lamport e)) (ev_Parents e)),
      w_Bool (ev_prevEpochHash e \<noteq> None),
      w_TxTo (ev_prevEpochHash e),
      w_Bool (\<not> NoTxs L e),
      if NoTxs L e then wr_all [] else w_FixedBytes (ev_txHash e),
      w_SliceBytes (ev_extra e)]"

definition event_MarshalBinary :: "dag_lib \<Rightarrow> 'a mut_event_scheme \<Rightarrow> bytes res" where
  "event_MarshalBinary L e = MarshalBinaryAdapter (event_MarshalCSER L e)"

definition r_Parent :: "dag_lib \<Rightarrow> u32 \<Rightarrow> u32 \<Rightarrow> bytes rd_action" where
  "r_Parent L epoch lamport = rd_bind r_U32 (\<lambda>lamportDiff. rd_bind (r_FixedBytes 24) (\<lambda>h.
     rd_return (id_make L epoch (lamport - lamportDiff) h)))"

definition r_txHash :: "dag_lib \<Rightarrow> bool \<Rightarrow> bytes rd_action" where
  "r_txHash L ex =
     (if ex then rd_bind (r_FixedBytes 32) (\<lambda>txHash.
        if txHash = EmptyTxHash L then rd_fail (Err ErrNonCanonicalEncoding) else rd_return txHash)
      else rd_return (EmptyTxHash L))"

definition eventUnmarshalCSER :: "dag_lib \<Rightarrow> mut_event \<Rightarrow> mut_event rd_action" where
  "eventUnmarshalCSER L e =
     rd_bind r_U32 (\<lambda>epoch. rd_bind r_U32 (\<lambda>lamport. rd_bind r_U32 (\<lambda>creator.
     rd_bind r_U32 (\<lambda>seq. rd_bind r_U32 (\<lambda>frame.
     rd_bind r_U64 (\<lambda>creationTime. rd_bind r_I64 (\<lambda>medianTimeDiff.
     rd_bind r_U64 (\<lambda>gasPowerUsed. rd_bind r_U64 (\<lambda>gasPowerLeft0. rd_bind r_U64 (\<lambda>gasPowerLeft1.
     rd_bind r_U32 (\<lambda>parentsNum.
     rd_bind (rd_times (unat parentsNum) (r_Parent L epoch lamport)) (\<lambda>parents.
     rd_bind r_Bool (\<lambda>prevEpochHashExists.
     rd_bind (r_optBytes 32 prevEpochHashExists) (\<lambda>prevEpochHash.
     rd_bind r_Bool (\<lambda>txHashExists.
     rd_bind (r_txHash L txHashExists) (\<lambda>txHash.
     rd_bind r_SliceBytes (\<lambda>extra.
     rd_return (e\<lparr>ev_Epoch := epoch, ev_Lamport := lamport, ev_Creator := creator, ev_Seq := seq,
       ev_Frame := frame, ev_creationTime := creationTime,
       ev_medianTime := creationTime - medianTimeDiff, ev_gasPowerUsed := gasPowerUsed,
       ev_gasPowerLeft := \<lparr>Gas0 = gasPowerLeft0, Gas1 = gasPowerLeft1\<rparr>, ev_Parents := parents,
       ev_prevEpochHash := prevEpochHash, ev_txHash := txHash, ev_extra := extra\<rparr>))))))))))))))))))"

definition payload_MarshalCSER :: "dag_lib \<Rightarrow> 'a mut_event_scheme \<Rightarrow> wr_action" where
  "payload_MarshalCSER L e =
     (if NoTxs L e \<noteq> (length (ev_txs e) = 0) then w_fail (Err ErrSerMalformedEvent)
      else wr_all
        [event_MarshalCSER L e,
         w_FixedBytes (ev_sig e),
         if NoTxs L e then wr_all []
         else wr_all [w_U56 (word_of_nat (length (ev_txs e))), wr_all (map TransactionMarshalCSER (ev_txs e))]])"

definition r_Txs :: "dag_lib \<Rightarrow> mut_event \<Rightarrow> transaction list rd_action" where
  "r_Txs L e =
     (if NoTxs L e then rd_return []
      else rd_bind r_U56 (\<lambda>n. rd_times (unat n) TransactionUnmarshalCSER))"

definition payload_UnmarshalCSER :: "dag_lib \<Rightarrow> mut_event \<Rightarrow> mut_event rd_action" where
  "payload_UnmarshalCSER L e =
     rd_bind (eventUnmarshalCSER L e) (\<lambda>e. rd_bind (r_FixedBytes 64) (\<lambda>sig.
       rd_bind (r_Txs L e) (\<lambda>txs. rd_return (e\<lparr>ev_sig := sig, ev_txs := txs\<rparr>))))"

definition payload_MarshalBinary :: "dag_lib \<Rightarrow> 'a mut_event_scheme \<Rightarrow> bytes res" where
  "payload_MarshalBinary L e = MarshalBinaryAdapter (payload_MarshalCSER L e)"

definition mut_UnmarshalBinary :: "dag_lib \<Rightarrow> mut_event \<Rightarrow> bytes \<Rightarrow> bytes \<Rightarrow> mut_event res" where
  "mut_UnmarshalBinary L e raw spare = UnmarshalBinaryAdapter raw spare (payload_UnmarshalCSER L e)"

text \<open>\<open>b, _ := f()\<close>: the error is dropped and the bytes are nil; a panic still propagates.\<close>

definition ignore_err :: "bytes res \<Rightarrow> bytes res" where
  "ignore_err m = (case m of Inl (Err _) \<Rightarrow> Inr [] | _ \<Rightarrow> m)"

definition zero_event :: mut_event where
  "zero_event = \<lparr>ev_Epoch = 0, ev_Lamport = 0, ev_Creator = 0, ev_Seq = 0, ev_Frame = 0, ev_Parents = [],
     ev_creationTime = 0, ev_medianTime = 0, ev_prevEpochHash = None, ev_txHash = replicate 32 0,
     ev_gasPowerLeft = \<lparr>Gas0 = 0, Gas1 = 0\<rparr>, ev_gasPowerUsed = 0, ev_extra = [],
     ev_sig = replicate 64 0, ev_txs = []\<rparr>"

definition payload_UnmarshalBinary :: "dag_lib \<Rightarrow> bytes \<Rightarrow> bytes \<Rightarrow> event_payload res" where
  "payload_UnmarshalBinary L raw spare =
     bind_res (mut_UnmarshalBinary L zero_event raw spare) (\<lambda>mutE.
       bind_res (ignore_err (event_MarshalBinary L (immutable L mutE))) (\<lambda>eventSer.
         Inr (build L mutE (eventHash L eventSer) (length raw))))"

definition panic_on_err :: "'a res \<Rightarrow> 'a res" where
  "panic_on_err m = (case m of Inl (Err e) \<Rightarrow> Inl (Panic (PanicErr e)) | _ \<Rightarrow> m)"

definition hashToSign :: "dag_lib \<Rightarrow> mut_event \<Rightarrow> bytes res" where
  "hashToSign L e = bind_res (panic_on_err (event_MarshalBinary L (immutable L e))) (\<lambda>b. Inr (eventHash L b))"

definition mut_size :: "dag_lib \<Rightarrow> mut_event \<Rightarrow> nat res" where
  "mut_size L e = bind_res (panic_on_err (payload_MarshalBinary L (immutable L e))) (\<lambda>b. Inr (length b))"

text \<open>\<open>Build\<close> also writes the transaction hash of the receiver, the first component of the result.\<close>

definition Build :: "dag_lib \<Rightarrow> mut_event \<Rightarrow> (mut_event \<times> event_payload) res" where
  "Build L e =
     (let e = (if length (ev_txs e) < 1 then e\<lparr>ev_txHash := EmptyTxHash L\<rparr> else e)
      in bind_res (ignore_err (event_MarshalBinary L (immutable L e))) (\<lambda>eventSer.
         bind_res (ignore_err (payload_MarshalBinary L (immutable L e))) (\<lambda>payloadSer.
           Inr (e, build L e (eventHash L eventSer) (length payloadSer)))))"

section \<open>Well-formed events\<close>

text \<open>
  The layout of event IDs (package \<open>hash\<close> of the consensus library): an ID is epoch, Lamport time
  and 24 bytes, and \<open>MutableBaseEvent.SetID\<close> puts the three together.
\<close>

definition ids_ok :: "dag_lib \<Rightarrow> bool" where
  "ids_ok L \<longleftrightarrow> (\<forall>p. length p = 32 \<longrightarrow> id_make L (id_Epoch L p) (id_Lamport L p) (drop 8 p) = p)"

definition parent_ok :: "dag_lib \<Rightarrow> u32 \<Rightarrow> u32 \<Rightarrow> bytes \<Rightarrow> bool" where
  "parent_ok L epoch lamport p \<longleftrightarrow> length p = 32 \<and> id_Epoch L p = epoch \<and> id_Lamport L p \<le> lamport"

definition event_ok :: "dag_lib \<Rightarrow> 'a mut_event_scheme \<Rightarrow> bool" where
  "event_ok L e \<longleftrightarrow> length (ev_Parents e) < 2 ^ 32 \<and>
     list_all (parent_ok L (ev_Epoch e) (ev_Lamport e)) (ev_Parents e) \<and>
     pred_option (\<lambda>h. length h = 32) (ev_prevEpochHash e) \<and>
     length (ev_txHash e) = 32 \<and> length (ev_extra e) < 2 ^ 56"

definition payload_ok :: "dag_lib \<Rightarrow> 'a mut_event_scheme \<Rightarrow> bool" where
  "payload_ok L e \<longleftrightarrow> event_ok L e \<and> length (ev_sig e) = 64 \<and> length (ev_txs e) < 2 ^ 56 \<and>
     list_all tx_ok (ev_txs e) \<and> NoTxs L e = (ev_txs e = [])"

section \<open>Round trip\<close>

lemma rt_Parent:
  assumes "ids_ok L" "parent_ok L epoch lamport p"
  shows "rt (w_Parent L lamport p) (r_Parent L epoch lamport) p"
proof -
  have "id_make L epoch (id_Lamport L p) (drop 8 p) = p"
    using assms by (auto simp: ids_ok_def parent_ok_def)
  moreover have "\<not> lamport < id_Lamport L p" using assms(2) by (auto simp: parent_ok_def)
  ultimately show ?thesis
    using assms(2) unfolding w_Parent_def r_Parent_def
    by (auto simp: parent_ok_def intro!: rt_single_Cons [OF rt_U32] rt_map [OF rt_FixedBytes])
qed

lemma rt_Parents:
  assumes "ids_ok L" "list_all (parent_ok L epoch lamport) ps" "length ps = n"
  shows "rt (wr_all (map (w_Parent L lamport) ps)) (rd_times n (r_Parent L epoch lamport)) ps"
proof -
  have "cser_codec (w_Parent L lamport) (r_Parent L epoch lamport) (parent_ok L epoch lamport)"
    by unfold_locales (rule rt_Parent [OF assms(1)])
  then show ?thesis using assms(2,3) by (auto intro: cser_codec.rt_list simp: list_all_iff)
qed

lemma rt_txHash:
  assumes "length (ev_txHash e) = 32"
  shows "rt (if NoTxs L e then wr_all [] else w_FixedBytes (ev_txHash e)) (r_txHash L (\<not> NoTxs L e)) (ev_txHash e)"
  using assms by (auto simp: r_txHash_def NoTxs_def intro!: rt_map [OF rt_FixedBytes] rt_done)

lemma gas_power_left_eta: "\<lparr>Gas0 = Gas0 g, Gas1 = Gas1 g\<rparr> = g" for g :: gas_power_left
  by (cases g) simp

lemma rt_event:
  fixes e e0 :: mut_event
  assumes "ids_ok L" "event_ok L e"
  shows "rt (event_MarshalCSER L e) (eventUnmarshalCSER L e0) (e\<lparr>ev_sig := ev_sig e0, ev_txs := ev_txs e0\<rparr>)"
  unfolding event_MarshalCSER_def eventUnmarshalCSER_def
proof (intro rt_Cons [OF rt_U32] rt_Cons [OF rt_U64] rt_Cons [OF rt_I64] rt_Cons [OF rt_Parents]
    rt_Cons [OF rt_Bool] rt_Cons [OF rt_optBytes] rt_Cons [OF rt_txHash], goal_cases)
  case 6
  show ?case
    unfolding wr_all_single
  proof (rule rt_map [OF rt_SliceBytes])
    show "length (ev_extra e) < 2 ^ 56" using assms(2) by (simp add: event_ok_def)
  qed (cases e; cases e0; simp add: gas_power_left_eta)
qed (use assms in \<open>auto simp: event_ok_def unat_small_nat\<close>)

lemma rt_Txs:
  fixes e :: mut_event
  assumes "list_all tx_ok (ev_txs e)" "length (ev_txs e) < 2 ^ 56" "NoTxs L e = (ev_txs e = [])" "NoTxs L e' = NoTxs L e"
  shows "rt (if NoTxs L e then wr_all []
     else wr_all [w_U56 (word_of_nat (length (ev_txs e))), wr_all (map TransactionMarshalCSER (ev_txs e))])
     (r_Txs L e') (ev_txs e)"
proof (cases "NoTxs L e")
  case True
  with assms show ?thesis by (simp add: r_Txs_def rt_done)
next
  case False
  have "unat (word_of_nat (length (ev_txs e)) :: u64) = length (ev_txs e)"
    using assms(2) by (intro unat_small_nat) simp
  with False assms show ?thesis
    by (auto simp: r_Txs_def list_all_iff intro!: rt_single_Cons [OF rt_U56] tx_codec.rt_list)
qed

lemma rt_payload:
  fixes e e0 :: mut_event
  assumes "ids_ok L" "payload_ok L e"
  shows "rt (payload_MarshalCSER L e) (payload_UnmarshalCSER L e0) e"
proof -
  have ok: "NoTxs L e = (ev_txs e = [])" "list_all tx_ok (ev_txs e)" "length (ev_txs e) < 2 ^ 56"
      "length (ev_sig e) = 64" "event_ok L e"
    using assms(2) by (auto simp: payload_ok_def)
  have "rt (wr_all [event_MarshalCSER L e, w_FixedBytes (ev_sig e),
      if NoTxs L e then wr_all []
      else wr_all [w_U56 (word_of_nat (length (ev_txs e))), wr_all (map TransactionMarshalCSER (ev_txs e))]])
      (payload_UnmarshalCSER L e0) e"
    unfolding payload_UnmarshalCSER_def
    by (rule rt_Cons [OF rt_event [OF assms(1) ok(5)]], rule rt_single_Cons [OF rt_FixedBytes [OF ok(4)]],
        rule rt_map [OF rt_Txs]) (use ok in \<open>simp_all add: NoTxs_def\<close>)
  then show ?thesis using ok(1) by (simp add: payload_MarshalCSER_def)
qed

lemma Marshal_truncate:
  "event_MarshalCSER L (mut_event.truncate e) = event_MarshalCSER L e"
  "payload_MarshalCSER L (mut_event.truncate e) = payload_MarshalCSER L e"
  by (simp_all add: event_MarshalCSER_def payload_MarshalCSER_def NoTxs_def mut_event.truncate_def)

lemma truncate_build [simp]: "mut_event.truncate (build L e h n) = e"
  by (cases e) (simp add: build_def mut_event.truncate_def mut_event.extend_def)

text \<open>The encodings do not depend on what \<open>build\<close> adds to an event.\<close>

lemma Marshal_build [simp]:
  "event_MarshalCSER L (build L e h n) = event_MarshalCSER L e"
  "payload_MarshalCSER L (build L e h n) = payload_MarshalCSER L e"
  using Marshal_truncate [of L "build L e h n"] by simp_all

definition payload_small :: "dag_lib \<Rightarrow> 'a mut_event_scheme \<Rightarrow> bool" where
  "payload_small L e \<longleftrightarrow> (case payload_MarshalCSER L e cser_NewWriter of Inl _ \<Rightarrow> True
     | Inr w \<Rightarrow> int (length (bw_Bytes (BitsW w)) + length (fw_buf (BytesW w))) < 2 ^ 63)"

lemma mut_roundtrip:
  fixes e e0 :: mut_event
  assumes "ids_ok L" "payload_ok L e" "payload_small L e"
  shows "\<exists>raw. payload_MarshalBinary L e = Inr raw \<and> mut_UnmarshalBinary L e0 raw spare = Inr e"
  unfolding payload_MarshalBinary_def mut_UnmarshalBinary_def
  by (rule adapter_roundtrip [OF rt_payload [OF assms(1,2)]]) (use assms(3) in \<open>auto simp: payload_small_def\<close>)

lemma event_Marshal_ok:
  fixes e :: mut_event
  assumes "ids_ok L" "event_ok L e"
  shows "\<exists>b. event_MarshalBinary L e = Inr b"
proof -
  obtain bs ys where "emits (event_MarshalCSER L e) bs ys"
    using rt_event [OF assms] by (rule rtE)
  moreover have "cw_wf cser_NewWriter" by (simp add: cser_NewWriter_def cw_wf_def)
  ultimately obtain w where "event_MarshalCSER L e cser_NewWriter = Inr w" by (rule emitsE)
  then show ?thesis by (simp add: event_MarshalBinary_def MarshalBinaryAdapter_def)
qed

definition built :: "dag_lib \<Rightarrow> mut_event \<Rightarrow> mut_event" where
  "built L e = (if ev_txs e = [] then e\<lparr>ev_txHash := EmptyTxHash L\<rparr> else e)"

section \<open>What the encoder refuses\<close>

definition refuses :: "wr_action \<Rightarrow> failure \<Rightarrow> bool" where
  "refuses e x \<longleftrightarrow> (\<forall>w. cw_wf w \<longrightarrow> e w = Inl x)"

lemma refuses_Cons: "refuses e x \<Longrightarrow> refuses (wr_all (e # es)) x"
  by (simp add: refuses_def wr_all.simps)

lemma refuses_skip:
  assumes "rt e d y" "refuses (wr_all es) x" shows "refuses (wr_all (e # es)) x"
  unfolding refuses_def
proof (intro allI impI)
  fix w assume w: "cw_wf w"
  obtain bs ys where "emits e bs ys" using assms(1) by (rule rtE)
  then obtain w' where "e w = Inr w'" "cw_wf w'" using w by (rule emitsE)
  then show "wr_all (e # es) w = Inl x" using assms(2) by (simp add: refuses_def wr_all.simps)
qed

lemma refuses_Parents:
  "p \<in> set ps \<Longrightarrow> lamport < id_Lamport L p \<Longrightarrow>
     refuses (wr_all (map (w_Parent L lamport) ps)) (Err ErrSerMalformedEvent)"
proof (induction ps)
  case (Cons q ps)
  show ?case
  proof (cases "lamport < id_Lamport L q")
    case True
    then show ?thesis by (simp, intro refuses_Cons) (simp add: refuses_def w_Parent_def w_fail_def)
  next
    case False
    then have "rt (w_Parent L lamport q) (rd_bind r_U32 (\<lambda>_. r_FixedBytes (length (drop 8 q)))) (drop 8 q)"
      by (auto simp: w_Parent_def intro!: rt_single_Cons [OF rt_U32] rt_FixedBytes)
    moreover have "refuses (wr_all (map (w_Parent L lamport) ps)) (Err ErrSerMalformedEvent)"
      using Cons False by auto
    ultimately show ?thesis by (auto intro: refuses_skip)
  qed
qed simp

lemma refuses_event:
  assumes "p \<in> set (ev_Parents e)" "ev_Lamport e < id_Lamport L p"
  shows "refuses (event_MarshalCSER L e) (Err ErrSerMalformedEvent)"
  unfolding event_MarshalCSER_def
  by (intro refuses_skip [OF rt_U32] refuses_skip [OF rt_U64] refuses_skip [OF rt_I64]
      refuses_Cons [OF refuses_Parents [OF assms]])

section \<open>Properties\<close>

text \<open>
  C10. Building an event, encoding it and decoding the bytes gives back the same built event: all
  fields, its ID, its hash (the one it is signed by) and its size. The library's IDs are assumed to
  consist of epoch, Lamport time and 24 bytes (\<open>ids_ok\<close>); the event is well formed and its
  encoding is shorter than 2^63 bytes.
\<close>

theorem Build_roundtrip:
  assumes "ids_ok L" "payload_ok L (built L e)" "payload_small L (built L e)"
  shows "\<exists>p raw. Build L e = Inr (built L e, p) \<and> payload_MarshalBinary L p = Inr raw \<and>
    ep_size p = length raw \<and> hashToSign L (built L e) = Inr (ep_hash p) \<and>
    payload_UnmarshalBinary L raw spare = Inr p"
proof -
  let ?e = "built L e"
  obtain raw where raw: "payload_MarshalBinary L ?e = Inr raw" "mut_UnmarshalBinary L zero_event raw spare = Inr ?e"
    using mut_roundtrip [OF assms] by blast
  obtain b where b: "event_MarshalBinary L ?e = Inr b"
    using event_Marshal_ok [OF assms(1)] assms(2) by (auto simp: payload_ok_def)
  have imm: "event_MarshalBinary L (immutable L ?e) = Inr b" "payload_MarshalBinary L (immutable L ?e) = Inr raw"
    "\<And>h n. payload_MarshalBinary L (build L ?e h n) = Inr raw"
    using raw(1) b by (simp_all add: immutable_def event_MarshalBinary_def payload_MarshalBinary_def)
  have "Build L e = Inr (?e, build L ?e (eventHash L b) (length raw))"
    using imm by (auto simp: Build_def Let_def built_def ignore_err_def)
  moreover have "ep_size (build L ?e (eventHash L b) (length raw)) = length raw"
    "ep_hash (build L ?e (eventHash L b) (length raw)) = eventHash L b"
    by (simp_all add: build_def mut_event.extend_def)
  ultimately show ?thesis
    using imm raw by (simp add: hashToSign_def panic_on_err_def payload_UnmarshalBinary_def ignore_err_def)
qed

text \<open>An instance of the library parameters: big-endian IDs.\<close>

definition be4 :: "u32 \<Rightarrow> bytes" where
  "be4 v = [ucast (drop_bit 24 v), ucast (drop_bit 16 v), ucast (drop_bit 8 v), ucast v]"

definition of_be4 :: "bytes \<Rightarrow> u32" where
  "of_be4 b = push_bit 24 (ucast (b ! 0)) OR push_bit 16 (ucast (b ! 1)) OR push_bit 8 (ucast (b ! 2)) OR ucast (b ! 3)"

definition be_lib :: dag_lib where
  "be_lib = \<lparr>id_Epoch = (\<lambda>p. of_be4 (take 4 p)), id_Lamport = (\<lambda>p. of_be4 (take 4 (drop 4 p))),
     id_make = (\<lambda>ep lam h. be4 ep @ be4 lam @ h), self_parent = (\<lambda>seq ps. if seq \<le> 1 \<or> ps = [] then None else Some (hd ps)),
     EmptyTxHash = replicate 32 1,
     sha256 = (\<lambda>b. take 32 (b @ replicate 32 0))\<rparr>"

lemma be4_of_be4: "length b = 4 \<Longrightarrow> be4 (of_be4 b) = b"
proof -
  assume "length b = 4"
  then obtain b0 b1 b2 b3 where b: "b = [b0, b1, b2, b3]"
    by (auto simp: numeral_eq_Suc length_Suc_conv)
  have "of_be4 b = push_bit 24 (ucast b0) OR push_bit 16 (ucast b1) OR push_bit 8 (ucast b2) OR ucast b3"
    by (simp add: of_be4_def b)
  then show ?thesis
    by (simp add: be4_def b) (intro conjI bit_word_eqI; auto simp: bit_simps dest: bit_imp_le_length)
qed

lemma ids_ok_be_lib: "ids_ok be_lib"
proof -
  have "be4 (of_be4 (take 4 p)) @ be4 (of_be4 (take 4 (drop 4 p))) @ drop 8 p = p" if "length p = 32" for p
    using that append_take_drop_id [of 4 "drop 4 p"] append_take_drop_id [of 4 p] by (simp add: be4_of_be4)
  then show ?thesis by (simp add: ids_ok_def be_lib_def)
qed

definition wit_event :: mut_event where
  "wit_event = zero_event\<lparr>ev_Epoch := 2, ev_Lamport := 9, ev_Creator := 1, ev_Seq := 3, ev_Frame := 4,
     ev_Parents := [be4 2 @ be4 7 @ replicate 24 8], ev_creationTime := 100, ev_medianTime := 120,
     ev_gasPowerUsed := 21000, ev_txHash := replicate 32 3, ev_txs := [wit_tx]\<rparr>"

lemma wit_event_ok: "payload_ok be_lib (built be_lib wit_event)" "payload_small be_lib (built be_lib wit_event)"
proof -
  show "payload_ok be_lib (built be_lib wit_event)"
    by (simp add: payload_ok_def event_ok_def parent_ok_def built_def wit_event_def zero_event_def wit_tx_def
        be_lib_def be4_def of_be4_def tx_ok_def big_ok_u64 sig_ok_def NoTxs_def access_ok_def)
  show "payload_small be_lib (built be_lib wit_event)" by code_simp
qed

theorem Build_roundtrip_witness:
  "ids_ok be_lib \<and> payload_ok be_lib (built be_lib wit_event) \<and> payload_small be_lib (built be_lib wit_event) \<and>
   (\<exists>p raw. Build be_lib wit_event = Inr (built be_lib wit_event, p) \<and> payload_UnmarshalBinary be_lib raw [] = Inr p)"
  using Build_roundtrip [OF ids_ok_be_lib wit_event_ok, of "[]"] ids_ok_be_lib wit_event_ok by auto


definition late_event :: mut_event where
  "late_event = wit_event\<lparr>ev_Lamport := 3\<rparr>"


end
