(* ===== verification/Evm_Core.thy ===== *)
theory Evm_Core
  imports Inter
begin

text \<open>
  src/evmcore: intrinsic gas, the gas pool, the state transition of one message and the loop over
  the transactions of a block. The state database and the EVM interpreter are go-ethereum's: they
  are the parameters of \<open>evm_lib\<close>. The theorems show that no gas is created or lost between
  message, pool and used-gas counter, that the pool never overflows, that a skipped transaction
  leaves no trace if its gas limit covers the intrinsic gas, and that receipts and skipped
  positions together account for every transaction in order.
\<close>

section \<open>Gas pool\<close>

definition MaxUint64 :: u64 where "MaxUint64 = - 1"

definition gp_AddGas :: "u64 \<Rightarrow> u64 \<Rightarrow> u64 res" where
  "gp_AddGas gp amount =
     (if gp > MaxUint64 - amount then Inl (Panic (PanicMsg ''gas pool pushed above uint64''))
      else Inr (gp + amount))"

definition gp_SubGas :: "u64 \<Rightarrow> u64 \<Rightarrow> u64 res" where
  "gp_SubGas gp amount = (if gp < amount then Inl (Err ErrGasLimitReached) else Inr (gp - amount))"

section \<open>Intrinsic gas\<close>

text \<open>The protocol constants of go-ethereum's \<open>params\<close> package.\<close>

record eth_params =
  TxGas :: u64
  TxGasContractCreation :: u64
  TxDataNonZeroGas :: u64
  TxDataZeroGas :: u64
  TxAccessListAddressGas :: u64
  TxAccessListStorageKeyGas :: u64

type_synonym access_list = "(bytes \<times> bytes list) list"

definition StorageKeys :: "access_list \<Rightarrow> nat" where
  "StorageKeys al = sum_list (map (\<lambda>t. length (snd t)) al)"

fun count_nz :: "bytes \<Rightarrow> u64 \<Rightarrow> u64" where
  "count_nz [] nz = nz"
| "count_nz (b # bs) nz = count_nz bs (if b \<noteq> 0 then nz + 1 else nz)"

definition dataGas :: "eth_params \<Rightarrow> bytes \<Rightarrow> u64 \<Rightarrow> u64 res" where
  "dataGas P dat gas =
     (if length dat > 0
      then let nz = count_nz dat 0
           in if (MaxUint64 - gas) div TxDataNonZeroGas P < nz then Inl (Err ErrOutOfGas)
              else let gas = gas + nz * TxDataNonZeroGas P;
                       z = word_of_nat (length dat) - nz
                   in if (MaxUint64 - gas) div TxDataZeroGas P < z then Inl (Err ErrGasUintOverflow)
                      else Inr (gas + z * TxDataZeroGas P)
      else Inr gas)"

definition IntrinsicGas :: "eth_params \<Rightarrow> bytes \<Rightarrow> access_list \<Rightarrow> bool \<Rightarrow> u64 res" where
  "IntrinsicGas P dat accessList isContractCreation =
     bind_res (dataGas P dat (if isContractCreation then TxGasContractCreation P else TxGas P)) (\<lambda>gas.
       Inr (gas + word_of_nat (length accessList) * TxAccessListAddressGas P
                + word_of_nat (StorageKeys accessList) * TxAccessListStorageKeyGas P))"

section \<open>State transition\<close>

record message =
  msg_From :: bytes
  msg_To :: "bytes option"
  msg_Nonce :: u64
  msg_Value :: int
  msg_Gas :: u64
  msg_GasPrice :: int
  msg_Data :: bytes
  msg_AccessList :: access_list
  msg_CheckNonce :: bool

text \<open>
  State database and interpreter. \<open>evm_Create\<close> and \<open>evm_Call\<close> get the message (the transaction
  context the interpreter was reset with), the gas and the state, and return data, the gas left,
  the interpreter's error and the new state.
\<close>

record ('s, 'l) evm_lib =
  eth :: eth_params
  GetBalance :: "'s \<Rightarrow> bytes \<Rightarrow> int"
  SubBalance :: "'s \<Rightarrow> bytes \<Rightarrow> int \<Rightarrow> 's"
  AddBalance :: "'s \<Rightarrow> bytes \<Rightarrow> int \<Rightarrow> 's"
  GetNonce :: "'s \<Rightarrow> bytes \<Rightarrow> u64"
  SetNonce :: "'s \<Rightarrow> bytes \<Rightarrow> u64 \<Rightarrow> 's"
  GetRefund :: "'s \<Rightarrow> u64"
  IsBerlin :: bool
  PrepareAccessList :: "message \<Rightarrow> 's \<Rightarrow> 's"
  evm_Create :: "message \<Rightarrow> bytes \<Rightarrow> u64 \<Rightarrow> int \<Rightarrow> 's \<Rightarrow> bytes \<times> u64 \<times> go_error option \<times> 's"
  evm_Call :: "message \<Rightarrow> bytes \<Rightarrow> bytes \<Rightarrow> u64 \<Rightarrow> int \<Rightarrow> 's \<Rightarrow> bytes \<times> u64 \<times> go_error option \<times> 's"
  AsMessage :: "transaction \<Rightarrow> go_error + message"
  tx_Hash :: "transaction \<Rightarrow> bytes"
  Prepare :: "bytes \<Rightarrow> bytes \<Rightarrow> nat \<Rightarrow> 's \<Rightarrow> 's"
  GetLogs :: "'s \<Rightarrow> bytes \<Rightarrow> 'l list"
  IsByzantium :: bool
  Finalise :: "'s \<Rightarrow> 's"
  IntermediateRoot :: "'s \<Rightarrow> bytes \<times> 's"
  CreateAddress :: "bytes \<Rightarrow> u64 \<Rightarrow> bytes"
  sd_BlockHash :: "'s \<Rightarrow> bytes"
  sd_TxIndex :: "'s \<Rightarrow> nat"

record 's transition =
  st_gp :: u64
  st_gas :: u64
  st_initialGas :: u64
  st_state :: 's

record exec_result =
  UsedGas :: u64
  res_Err :: "go_error option"
  ReturnData :: bytes

definition res_Failed :: "exec_result \<Rightarrow> bool" where
  "res_Failed r \<longleftrightarrow> res_Err r \<noteq> None"

definition res_Return :: "exec_result \<Rightarrow> bytes" where
  "res_Return r = (if res_Err r \<noteq> None then [] else ReturnData r)"

definition NewStateTransition :: "u64 \<Rightarrow> 's \<Rightarrow> 's transition" where
  "NewStateTransition gp s = \<lparr>st_gp = gp, st_gas = 0, st_initialGas = 0, st_state = s\<rparr>"

definition st_to :: "message \<Rightarrow> bytes" where
  "st_to msg = (case msg_To msg of None \<Rightarrow> replicate 20 0 | Some a \<Rightarrow> a)"

text \<open>
  An error return keeps what was changed before it: the operations return the transition next to
  the failure.
\<close>

definition buyGas :: "('s, 'l) evm_lib \<Rightarrow> message \<Rightarrow> 's transition \<Rightarrow> failure option \<times> 's transition" where
  "buyGas D msg st =
     (let mgval = uint (msg_Gas msg) * msg_GasPrice msg
      in if GetBalance D (st_state st) (msg_From msg) < mgval then (Some (Err ErrInsufficientFunds), st)
         else case gp_SubGas (st_gp st) (msg_Gas msg) of
           Inl e \<Rightarrow> (Some e, st)
         | Inr gp \<Rightarrow> (None, st\<lparr>st_gp := gp, st_gas := st_gas st + msg_Gas msg, st_initialGas := msg_Gas msg,
             st_state := SubBalance D (st_state st) (msg_From msg) mgval\<rparr>))"

definition preCheck :: "('s, 'l) evm_lib \<Rightarrow> message \<Rightarrow> 's transition \<Rightarrow> failure option \<times> 's transition" where
  "preCheck D msg st =
     (let stNonce = GetNonce D (st_state st) (msg_From msg)
      in if msg_CheckNonce msg \<and> stNonce < msg_Nonce msg then (Some (Err ErrNonceTooHigh), st)
         else if msg_CheckNonce msg \<and> stNonce > msg_Nonce msg then (Some (Err ErrNonceTooLow), st)
         else buyGas D msg st)"

definition msg_internal :: "message \<Rightarrow> bool" where
  "msg_internal msg \<longleftrightarrow> msg_From msg = replicate 20 0"

definition gasUsed :: "'s transition \<Rightarrow> u64" where
  "gasUsed st = st_initialGas st - st_gas st"

definition refundGas :: "('s, 'l) evm_lib \<Rightarrow> message \<Rightarrow> 's transition \<Rightarrow> failure option \<times> 's transition" where
  "refundGas D msg st =
     (let refund = gasUsed st div 2;
          refund = (if refund > GetRefund D (st_state st) then GetRefund D (st_state st) else refund);
          gas = st_gas st + refund;
          remaining = uint gas * msg_GasPrice msg;
          st = st\<lparr>st_gas := gas, st_state := AddBalance D (st_state st) (msg_From msg) remaining\<rparr>
      in case gp_AddGas (st_gp st) gas of Inl e \<Rightarrow> (Some e, st) | Inr gp \<Rightarrow> (None, st\<lparr>st_gp := gp\<rparr>))"

definition st_execute :: "('s, 'l) evm_lib \<Rightarrow> message \<Rightarrow> 's transition \<Rightarrow> bytes \<times> go_error option \<times> 's transition" where
  "st_execute D msg st =
     (let s = (if IsBerlin D then PrepareAccessList D msg (st_state st) else st_state st);
          (ret, gas, vmerr, s) =
            (if msg_To msg = None then evm_Create D msg (msg_Data msg) (st_gas st) (msg_Value msg) s
             else let s = SetNonce D s (msg_From msg) (GetNonce D s (msg_From msg) + 1)
                  in evm_Call D msg (st_to msg) (msg_Data msg) (st_gas st) (msg_Value msg) s);
          gas = (if \<not> msg_internal msg then gas - gas div 10 else gas)
      in (ret, vmerr, st\<lparr>st_gas := gas, st_state := s\<rparr>))"

definition TransitionDb :: "('s, 'l) evm_lib \<Rightarrow> message \<Rightarrow> 's transition \<Rightarrow> exec_result res \<times> 's transition" where
  "TransitionDb D msg st =
     (case preCheck D msg st of
        (Some e, st) \<Rightarrow> (Inl e, st)
      | (None, st) \<Rightarrow>
          (case IntrinsicGas (eth D) (msg_Data msg) (msg_AccessList msg) (msg_To msg = None) of
             Inl e \<Rightarrow> (Inl e, st)
           | Inr gas \<Rightarrow>
               if st_gas st < gas then (Inl (Err ErrIntrinsicGas), st)
               else let (ret, vmerr, st) = st_execute D msg (st\<lparr>st_gas := st_gas st - gas\<rparr>)
                    in case refundGas D msg st of
                         (Some e, st) \<Rightarrow> (Inl e, st)
                       | (None, st) \<Rightarrow> (Inr \<lparr>UsedGas = gasUsed st, res_Err = vmerr, ReturnData = ret\<rparr>, st)))"

definition ApplyMessage :: "('s, 'l) evm_lib \<Rightarrow> message \<Rightarrow> u64 \<Rightarrow> 's \<Rightarrow> exec_result res \<times> 's transition" where
  "ApplyMessage D msg gp s = TransitionDb D msg (NewStateTransition gp s)"

section \<open>The transactions of a block\<close>

record 'l receipt =
  rc_Type :: u8
  rc_PostState :: bytes
  rc_CumulativeGasUsed :: u64
  rc_Success :: bool
  rc_TxHash :: bytes
  rc_GasUsed :: u64
  rc_ContractAddress :: bytes
  rc_Logs :: "'l list"
  rc_BlockHash :: bytes
  rc_BlockNumber :: u64
  rc_TransactionIndex :: nat

text \<open>
  What the loop threads through: gas pool, state database, the caller's used-gas counter and the
  state of the log callback. \<open>onNewLog\<close> gets a log and may change the state database and its own
  state.
\<close>

record ('s, 'c) proc_state =
  ps_gp :: u64
  ps_db :: 's
  ps_usedGas :: u64
  ps_cb :: 'c

type_synonym ('s, 'l, 'c) log_fn = "'l \<Rightarrow> 's \<times> 'c \<Rightarrow> 's \<times> 'c"

definition applyTransaction ::
  "('s, 'l) evm_lib \<Rightarrow> ('s, 'l, 'c) log_fn \<Rightarrow> u64 \<Rightarrow> message \<Rightarrow> transaction \<Rightarrow> ('s, 'c) proc_state \<Rightarrow>
     'l receipt res \<times> ('s, 'c) proc_state" where
  "applyTransaction D onNewLog blockNumber msg tx p =
     (case ApplyMessage D msg (ps_gp p) (ps_db p) of
        (Inl e, st) \<Rightarrow> (Inl e, p\<lparr>ps_gp := st_gp st, ps_db := st_state st\<rparr>)
      | (Inr result, st) \<Rightarrow>
          let logs = GetLogs D (st_state st) (tx_Hash D tx);
              (db, cb) = fold onNewLog logs (st_state st, ps_cb p);
              (root, db) = (if IsByzantium D then ([], Finalise D db) else IntermediateRoot D db);
              used = ps_usedGas p + UsedGas result
          in (Inr \<lparr>rc_Type = tx_Type tx, rc_PostState = root, rc_CumulativeGasUsed = used,
                rc_Success = (\<not> res_Failed result), rc_TxHash = tx_Hash D tx, rc_GasUsed = UsedGas result,
                rc_ContractAddress = (if msg_To msg = None then CreateAddress D (msg_From msg) (tx_Nonce tx)
                                      else replicate 20 0),
                rc_Logs = logs, rc_BlockHash = sd_BlockHash D db, rc_BlockNumber = blockNumber,
                rc_TransactionIndex = sd_TxIndex D db\<rparr>,
              p\<lparr>ps_gp := st_gp st, ps_db := db, ps_usedGas := used, ps_cb := cb\<rparr>))"

definition internal_msg :: "transaction \<Rightarrow> message" where
  "internal_msg tx = \<lparr>msg_From = replicate 20 0, msg_To = tx_To tx, msg_Nonce = tx_Nonce tx,
     msg_Value = tx_Value tx, msg_Gas = tx_Gas tx, msg_GasPrice = tx_GasPrice tx, msg_Data = tx_Data tx,
     msg_AccessList = tx_AccessList tx, msg_CheckNonce = False\<rparr>"

definition tx_message :: "('s, 'l) evm_lib \<Rightarrow> bool \<Rightarrow> transaction \<Rightarrow> message res" where
  "tx_message D internal tx =
     (if \<not> internal then (case AsMessage D tx of Inl e \<Rightarrow> Inl (Err e) | Inr msg \<Rightarrow> Inr msg)
      else Inr (internal_msg tx))"

text \<open>
  The loop at position \<open>i\<close>. \<open>result == nil\<close> on every error of \<open>ApplyMessage\<close>, so an error always
  skips the transaction; a panic ends the call.
\<close>

fun Process_loop ::
  "('s, 'l) evm_lib \<Rightarrow> ('s, 'l, 'c) log_fn \<Rightarrow> u64 \<Rightarrow> bytes \<Rightarrow> bool \<Rightarrow> nat \<Rightarrow> transaction list \<Rightarrow>
     ('s, 'c) proc_state \<Rightarrow> ('l receipt list \<times> u32 list) res \<times> ('s, 'c) proc_state" where
  "Process_loop D onNewLog num bh internal i [] p = (Inr ([], []), p)"
| "Process_loop D onNewLog num bh internal i (tx # txs) p =
     (case tx_message D internal tx of
        Inl e \<Rightarrow> (Inl e, p)
      | Inr msg \<Rightarrow>
          let p = p\<lparr>ps_db := Prepare D (tx_Hash D tx) bh i (ps_db p)\<rparr>
          in case applyTransaction D onNewLog num msg tx p of
               (Inl (Panic e), p) \<Rightarrow> (Inl (Panic e), p)
             | (Inl (Err e), p) \<Rightarrow>
                 (case Process_loop D onNewLog num bh internal (i + 1) txs p of
                    (Inl e, p) \<Rightarrow> (Inl e, p)
                  | (Inr (receipts, skipped), p) \<Rightarrow> (Inr (receipts, word_of_nat i # skipped), p))
             | (Inr receipt, p) \<Rightarrow>
                 (case Process_loop D onNewLog num bh internal (i + 1) txs p of
                    (Inl e, p) \<Rightarrow> (Inl e, p)
                  | (Inr (receipts, skipped), p) \<Rightarrow> (Inr (receipt # receipts, skipped), p)))"

definition Process ::
  "('s, 'l) evm_lib \<Rightarrow> ('s, 'l, 'c) log_fn \<Rightarrow> u64 \<Rightarrow> bytes \<Rightarrow> u64 \<Rightarrow> bool \<Rightarrow> transaction list \<Rightarrow> 's \<Rightarrow> u64 \<Rightarrow> 'c \<Rightarrow>
     ('l receipt list \<times> 'l list \<times> u32 list) res \<times> ('s, 'c) proc_state" where
  "Process D onNewLog num bh gasLimit internal txs db usedGas cb =
     (case gp_AddGas 0 gasLimit of
        Inl e \<Rightarrow> (Inl e, \<lparr>ps_gp = 0, ps_db = db, ps_usedGas = usedGas, ps_cb = cb\<rparr>)
      | Inr gp \<Rightarrow>
          (case Process_loop D onNewLog num bh internal 0 txs
                  \<lparr>ps_gp = gp, ps_db = db, ps_usedGas = usedGas, ps_cb = cb\<rparr> of
             (Inl e, p) \<Rightarrow> (Inl e, p)
           | (Inr (receipts, skipped), p) \<Rightarrow> (Inr (receipts, concat (map rc_Logs receipts), skipped), p)))"

section \<open>Gas accounting\<close>

text \<open>What is documented of the interpreter: it returns at most the gas it was given.\<close>

definition evm_ok :: "('s, 'l) evm_lib \<Rightarrow> bool" where
  "evm_ok D \<longleftrightarrow> (\<forall>msg dat g v s. fst (snd (evm_Create D msg dat g v s)) \<le> g)
     \<and> (\<forall>msg to dat g v s. fst (snd (evm_Call D msg to dat g v s)) \<le> g)"

lemma st_execute_gas:
  assumes "evm_ok D" "st_execute D msg st = (ret, vmerr, st')"
  shows "st_gas st' \<le> st_gas st" "st_gp st' = st_gp st" "st_initialGas st' = st_initialGas st"
proof -
  let ?s = "if IsBerlin D then PrepareAccessList D msg (st_state st) else st_state st"
  let ?call = "if msg_To msg = None then evm_Create D msg (msg_Data msg) (st_gas st) (msg_Value msg) ?s
             else let s = SetNonce D ?s (msg_From msg) (GetNonce D ?s (msg_From msg) + 1)
                  in evm_Call D msg (st_to msg) (msg_Data msg) (st_gas st) (msg_Value msg) s"
  obtain r g e s where c: "?call = (r, g, e, s)" by (cases ?call) auto
  have "fst (snd ?call) \<le> st_gas st" using assms(1) by (simp add: evm_ok_def Let_def)
  then have g: "g \<le> st_gas st" using c by simp
  have st': "st' = st\<lparr>st_gas := (if \<not> msg_internal msg then g - g div 10 else g), st_state := s\<rparr>"
    using assms(2) c by (auto simp: st_execute_def Let_def split: prod.splits if_splits)
  have "g - g div 10 \<le> g" by (simp add: word_le_nat_alt unat_sub_if_size unat_div)
  then show "st_gas st' \<le> st_gas st" "st_gp st' = st_gp st" "st_initialGas st' = st_initialGas st"
    using g st' by auto
qed

text \<open>
  A finished transition: what the message bought is split between used gas and what went back
  to the pool, so the pool lost exactly the used gas; the addition to the pool cannot overflow.
\<close>

lemma refundGas_gas:
  assumes "st_gas st \<le> st_initialGas st" "unat (st_gp st) + unat (st_initialGas st) < 2 ^ 64"
  obtains st' where "refundGas D msg st = (None, st')" "st_gas st \<le> st_gas st'" "st_gas st' \<le> st_initialGas st'"
    "st_initialGas st' = st_initialGas st" "unat (st_gp st') = unat (st_gp st) + unat (st_gas st')"
    "unat (gasUsed st) \<le> 2 * unat (gasUsed st') + 1"
proof -
  define refund where "refund = (let r = gasUsed st div 2
      in if r > GetRefund D (st_state st) then GetRefund D (st_state st) else r)"
  have used: "unat (gasUsed st) = unat (st_initialGas st) - unat (st_gas st)"
    using assms(1) by (simp add: gasUsed_def unat_sub)
  have "refund \<le> gasUsed st div 2" by (auto simp: refund_def Let_def)
  then have r2: "unat refund \<le> unat (gasUsed st) div 2" by (simp add: word_le_nat_alt unat_div)
  have le: "unat (st_gas st) \<le> unat (st_initialGas st)" using assms(1) by (simp add: word_le_nat_alt)
  have "unat (st_gas st) + unat refund < 2 ^ 64" using r2 used le assms(2) by linarith
  then have g: "unat (st_gas st + refund) = unat (st_gas st) + unat refund" by (intro unat_add_lem [THEN iffD1]) simp
  have ub: "unat (st_gas st + refund) \<le> unat (st_initialGas st)" using g r2 used le by linarith
  have sum: "unat (st_gp st) + unat (st_gas st + refund) < 2 ^ 64" using ub assms(2) by linarith
  have "\<not> st_gp st > MaxUint64 - (st_gas st + refund)"
  proof -
    have "unat (MaxUint64 - (st_gas st + refund)) = 2 ^ 64 - 1 - unat (st_gas st + refund)"
      by (simp add: MaxUint64_def unat_max_diff)
    then show ?thesis using sum by (simp add: word_less_nat_alt)
  qed
  then have add: "gp_AddGas (st_gp st) (st_gas st + refund) = Inr (st_gp st + (st_gas st + refund))"
    by (simp add: gp_AddGas_def)
  have gp: "unat (st_gp st + (st_gas st + refund)) = unat (st_gp st) + unat (st_gas st + refund)"
    using sum by (intro unat_add_lem [THEN iffD1]) simp
  show thesis
  proof
    show "refundGas D msg st = (None, st\<lparr>st_gas := st_gas st + refund,
        st_state := AddBalance D (st_state st) (msg_From msg) (uint (st_gas st + refund) * msg_GasPrice msg),
        st_gp := st_gp st + (st_gas st + refund)\<rparr>)"
      using add by (simp add: refundGas_def refund_def Let_def)
    have "unat (st_initialGas st - (st_gas st + refund)) = unat (st_initialGas st) - unat (st_gas st + refund)"
      using ub by (simp add: unat_sub word_le_nat_alt)
    then show "unat (gasUsed st) \<le> 2 * unat (gasUsed (st\<lparr>st_gas := st_gas st + refund,
        st_state := AddBalance D (st_state st) (msg_From msg) (uint (st_gas st + refund) * msg_GasPrice msg),
        st_gp := st_gp st + (st_gas st + refund)\<rparr>)) + 1"
      using r2 used g le by (simp add: gasUsed_def)
  qed (use g ub gp in \<open>simp_all add: word_le_nat_alt\<close>)
qed

lemma preCheck_cases:
  obtains (fail) e where "preCheck D msg st = (Some (Err e), st)"
  | (bought) "msg_Gas msg \<le> st_gp st" "preCheck D msg st = (None, st\<lparr>st_gp := st_gp st - msg_Gas msg,
      st_gas := st_gas st + msg_Gas msg, st_initialGas := msg_Gas msg,
      st_state := SubBalance D (st_state st) (msg_From msg) (uint (msg_Gas msg) * msg_GasPrice msg)\<rparr>)"
proof -
  consider (a) "msg_CheckNonce msg" "GetNonce D (st_state st) (msg_From msg) < msg_Nonce msg"
    | (b) "msg_CheckNonce msg" "msg_Nonce msg < GetNonce D (st_state st) (msg_From msg)"
    | (c) "preCheck D msg st = buyGas D msg st"
    by (fastforce simp: preCheck_def Let_def)
  then show thesis
  proof cases
    case a then show thesis by (intro fail) (simp add: preCheck_def)
  next
    case b then show thesis by (intro fail [of ErrNonceTooLow]) (auto simp: preCheck_def Let_def)
  next
    case c
    consider "GetBalance D (st_state st) (msg_From msg) < uint (msg_Gas msg) * msg_GasPrice msg"
      | "st_gp st < msg_Gas msg" "\<not> GetBalance D (st_state st) (msg_From msg) < uint (msg_Gas msg) * msg_GasPrice msg"
      | "msg_Gas msg \<le> st_gp st" "\<not> GetBalance D (st_state st) (msg_From msg) < uint (msg_Gas msg) * msg_GasPrice msg"
      by fastforce
    then show thesis
      by cases (use c in \<open>auto intro: fail bought simp: buyGas_def gp_SubGas_def\<close>)
  qed
qed

lemma ApplyMessage_cases:
  assumes "evm_ok D"
  obtains (refused) e where "ApplyMessage D msg gp s = (Inl (Err e), NewStateTransition gp s)"
  | (late) e where "ApplyMessage D msg gp s = (Inl e, \<lparr>st_gp = gp - msg_Gas msg, st_gas = msg_Gas msg,
        st_initialGas = msg_Gas msg,
        st_state = SubBalance D s (msg_From msg) (uint (msg_Gas msg) * msg_GasPrice msg)\<rparr>)"
      "IntrinsicGas (eth D) (msg_Data msg) (msg_AccessList msg) (msg_To msg = None) = Inl e \<or>
       e = Err ErrIntrinsicGas \<and>
       (\<exists>g. IntrinsicGas (eth D) (msg_Data msg) (msg_AccessList msg) (msg_To msg = None) = Inr g \<and> msg_Gas msg < g)"
  | (finished) r st where "ApplyMessage D msg gp s = (Inr r, st)" "unat (st_gp st) + unat (UsedGas r) = unat gp"
      "UsedGas r \<le> msg_Gas msg"
proof (cases rule: preCheck_cases [of D msg "NewStateTransition gp s"])
  case (fail e)
  then show thesis by (intro refused) (simp add: ApplyMessage_def TransitionDb_def)
next
  case bought
  let ?st = "\<lparr>st_gp = gp - msg_Gas msg, st_gas = msg_Gas msg, st_initialGas = msg_Gas msg,
        st_state = SubBalance D s (msg_From msg) (uint (msg_Gas msg) * msg_GasPrice msg)\<rparr>"
  have pre: "preCheck D msg (NewStateTransition gp s) = (None, ?st)" and le: "msg_Gas msg \<le> gp"
    using bought by (simp_all add: NewStateTransition_def)
  show thesis
  proof (cases "IntrinsicGas (eth D) (msg_Data msg) (msg_AccessList msg) (msg_To msg = None)")
    case (Inl e)
    then show thesis using pre by (intro late [of e]) (simp_all add: ApplyMessage_def TransitionDb_def)
  next
    case (Inr g)
    show thesis
    proof (cases "msg_Gas msg < g")
      case True
      then show thesis using pre Inr by (intro late [of "Err ErrIntrinsicGas"]) (simp_all add: ApplyMessage_def TransitionDb_def)
    next
      case False
      let ?st1 = "?st\<lparr>st_gas := msg_Gas msg - g\<rparr>"
      obtain ret vmerr st2 where ex: "st_execute D msg ?st1 = (ret, vmerr, st2)"
        by (cases "st_execute D msg ?st1") auto
      note g2 = st_execute_gas [OF assms ex]
      have "msg_Gas msg - g \<le> msg_Gas msg" using False by (simp add: word_le_nat_alt unat_sub not_less)
      then have "st_gas st2 \<le> st_initialGas st2" using g2 by auto
      moreover have gp2: "unat (st_gp st2) + unat (st_initialGas st2) = unat gp"
        using g2 le by (simp add: unat_sub word_le_nat_alt)
      moreover have "unat gp < 2 ^ 64" using unsigned_less [of gp] by simp
      ultimately obtain st3 where st3: "refundGas D msg st2 = (None, st3)" "st_gas st3 \<le> st_initialGas st3"
          "st_initialGas st3 = st_initialGas st2" "unat (st_gp st3) = unat (st_gp st2) + unat (st_gas st3)"
        by (metis refundGas_gas)
      have used: "unat (gasUsed st3) = unat (st_initialGas st3) - unat (st_gas st3)"
        using st3(2) by (simp add: gasUsed_def unat_sub)
      show thesis
      proof (rule finished)
        show "ApplyMessage D msg gp s = (Inr \<lparr>UsedGas = gasUsed st3, res_Err = vmerr, ReturnData = ret\<rparr>, st3)"
          using pre Inr False ex st3(1) by (simp add: ApplyMessage_def TransitionDb_def)
      qed (use used st3 gp2 g2 in \<open>auto simp: word_le_nat_alt\<close>)
    qed
  qed
qed

text \<open>A failed message whose gas limit covers the intrinsic gas has changed nothing.\<close>

lemma ApplyMessage_skip:
  assumes "evm_ok D" "IntrinsicGas (eth D) (msg_Data msg) (msg_AccessList msg) (msg_To msg = None) = Inr g"
    "g \<le> msg_Gas msg" "ApplyMessage D msg gp s = (Inl e, st)"
  shows "st = NewStateTransition gp s"
  using assms(2-) by (cases rule: ApplyMessage_cases [OF assms(1), of msg gp s]) auto

lemma IntrinsicGas_no_panic: "IntrinsicGas P d al c \<noteq> Inl (Panic x)"
  by (auto simp: IntrinsicGas_def dataGas_def bind_res_def Let_def split: sum.splits if_splits)

lemma ApplyMessage_no_panic: "evm_ok D \<Longrightarrow> fst (ApplyMessage D msg gp s) \<noteq> Inl (Panic x)"
  by (erule ApplyMessage_cases [of D msg gp s]) (auto simp: IntrinsicGas_no_panic)

lemma applyTransaction_ok:
  assumes "evm_ok D" "applyTransaction D onNewLog num msg tx p = (Inr rc, p')"
  shows "unat (ps_gp p') + unat (rc_GasUsed rc) = unat (ps_gp p)" "ps_usedGas p' = ps_usedGas p + rc_GasUsed rc"
    "rc_CumulativeGasUsed rc = ps_usedGas p'" "rc_TxHash rc = tx_Hash D tx" "rc_GasUsed rc \<le> msg_Gas msg"
  using assms(2)
  by (cases rule: ApplyMessage_cases [OF assms(1), of msg "ps_gp p" "ps_db p"];
      auto simp: applyTransaction_def Let_def split: prod.splits if_splits)+

text \<open>The gas limit of a message covers its intrinsic gas; what the event checks establish.\<close>

definition covered :: "eth_params \<Rightarrow> message \<Rightarrow> bool" where
  "covered P msg = (case IntrinsicGas P (msg_Data msg) (msg_AccessList msg) (msg_To msg = None) of
     Inl _ \<Rightarrow> False | Inr g \<Rightarrow> g \<le> msg_Gas msg)"

lemma applyTransaction_err:
  assumes "evm_ok D" "covered (eth D) msg" "applyTransaction D onNewLog num msg tx p = (Inl e, p')"
  shows "p' = p \<and> (\<exists>e'. e = Err e')"
proof -
  obtain st where st: "ApplyMessage D msg (ps_gp p) (ps_db p) = (Inl e, st)"
      "p' = p\<lparr>ps_gp := st_gp st, ps_db := st_state st\<rparr>"
    using assms(3) by (auto simp: applyTransaction_def Let_def split: prod.splits sum.splits if_splits)
  moreover have "st = NewStateTransition (ps_gp p) (ps_db p)"
    using assms(2) ApplyMessage_skip [OF assms(1) _ _ st(1)] by (auto simp: covered_def split: sum.splits)
  moreover have "\<exists>e'. e = Err e'"
    using ApplyMessage_no_panic [OF assms(1), of msg "ps_gp p" "ps_db p"] st(1) by (cases e) auto
  ultimately show ?thesis by (simp add: NewStateTransition_def)
qed

definition tx_covered :: "('s, 'l) evm_lib \<Rightarrow> bool \<Rightarrow> transaction \<Rightarrow> bool" where
  "tx_covered D internal tx = (case tx_message D internal tx of Inl _ \<Rightarrow> False | Inr msg \<Rightarrow> covered (eth D) msg)"

text \<open>The transactions the loop keeps, by position.\<close>

definition kept :: "nat \<Rightarrow> u32 list \<Rightarrow> 'a list \<Rightarrow> 'a list" where
  "kept i skipped txs = map snd (filter (\<lambda>(j, _). word_of_nat j \<notin> set skipped) (enumerate i txs))"

lemma kept_Nil [simp]: "kept i skipped [] = []"
  by (simp add: kept_def)

lemma kept_skip:
  assumes "i + Suc (length txs) \<le> 2 ^ 32" shows "kept i (word_of_nat i # skipped) (tx # txs) = kept (Suc i) skipped txs"
proof -
  have "j \<noteq> i \<Longrightarrow> j < 2 ^ 32 \<Longrightarrow> (word_of_nat j :: u32) \<noteq> word_of_nat i" for j
    using assms unat_small_nat [of j, where 'a = 32] unat_small_nat [of i, where 'a = 32] by auto
  then have "filter (\<lambda>(j, _). word_of_nat j \<notin> set (word_of_nat i # skipped)) (enumerate (Suc i) txs) =
      filter (\<lambda>(j, _). word_of_nat j \<notin> set skipped) (enumerate (Suc i) txs)"
    using assms by (intro filter_cong) (auto simp: in_set_enumerate_eq)
  then show ?thesis by (simp add: kept_def)
qed

lemma kept_keep: "word_of_nat i \<notin> set skipped \<Longrightarrow> kept i skipped (tx # txs) = tx # kept (Suc i) skipped txs"
  by (simp add: kept_def)

lemma Process_loop_accounts:
  assumes "evm_ok D" "\<forall>tx \<in> set txs. tx_covered D internal tx" "i + length txs \<le> 2 ^ 32"
  shows "\<exists>rcs skipped p'. Process_loop D onNewLog num bh internal i txs p = (Inr (rcs, skipped), p') \<and>
     unat (ps_gp p') + sum_list (map (\<lambda>r. unat (rc_GasUsed r)) rcs) = unat (ps_gp p) \<and>
     ps_usedGas p' = ps_usedGas p + sum_list (map rc_GasUsed rcs) \<and>
     map rc_TxHash rcs = map (tx_Hash D) (kept i skipped txs) \<and>
     sorted_wrt (<) (map unat skipped) \<and> (\<forall>k \<in> set skipped. i \<le> unat k)"
  using assms(2,3)
proof (induction txs arbitrary: i p)
  case (Cons tx txs)
  obtain msg where msg: "tx_message D internal tx = Inr msg" "covered (eth D) msg"
    using Cons.prems(1) by (auto simp: tx_covered_def split: sum.splits)
  let ?p = "p\<lparr>ps_db := Prepare D (tx_Hash D tx) bh i (ps_db p)\<rparr>"
  have ui: "unat (word_of_nat i :: u32) = i" using Cons.prems(2) by (intro unat_small_nat) simp
  obtain r p1 where ap: "applyTransaction D onNewLog num msg tx ?p = (r, p1)"
    by (cases "applyTransaction D onNewLog num msg tx ?p") auto
  obtain rcs skipped p' where ih: "Process_loop D onNewLog num bh internal (Suc i) txs p1 = (Inr (rcs, skipped), p')"
      "unat (ps_gp p') + sum_list (map (\<lambda>r. unat (rc_GasUsed r)) rcs) = unat (ps_gp p1)"
      "ps_usedGas p' = ps_usedGas p1 + sum_list (map rc_GasUsed rcs)"
      "map rc_TxHash rcs = map (tx_Hash D) (kept (Suc i) skipped txs)"
      "sorted_wrt (<) (map unat skipped)" "\<forall>k \<in> set skipped. Suc i \<le> unat k"
    using Cons.IH [of "Suc i" p1] Cons.prems by auto
  have notin: "word_of_nat i \<notin> set skipped" using ih(6) ui by force
  show ?case
  proof (cases r)
    case (Inl e)
    then obtain e' where e: "r = Inl (Err e')" "p1 = ?p"
      using applyTransaction_err [OF assms(1) msg(2) ap [unfolded Inl]] by blast
    then have "Process_loop D onNewLog num bh internal i (tx # txs) p = (Inr (rcs, word_of_nat i # skipped), p')"
      using msg ap ih(1) by simp
    then show ?thesis
      using ih e(2) ui Cons.prems(2) kept_skip [of i txs skipped tx] by (auto simp: Suc_le_eq)
  next
    case (Inr rc)
    then have "Process_loop D onNewLog num bh internal i (tx # txs) p = (Inr (rc # rcs, skipped), p')"
      using msg ap ih(1) by simp
    then show ?thesis
      using ih applyTransaction_ok [OF assms(1) ap [unfolded Inr]] kept_keep [OF notin, of tx txs]
      by (auto simp: add.assoc)
  qed
qed simp

lemma Process_accounts_helper:
  assumes "evm_ok D" "\<forall>tx \<in> set txs. tx_covered D internal tx" "length txs \<le> 2 ^ 32"
  shows "\<exists>rcs skipped p. Process D onNewLog num bh gasLimit internal txs db usedGas cb =
       (Inr (rcs, concat (map rc_Logs rcs), skipped), p) \<and>
     unat (ps_gp p) + sum_list (map (\<lambda>r. unat (rc_GasUsed r)) rcs) = unat gasLimit \<and>
     ps_usedGas p = usedGas + sum_list (map rc_GasUsed rcs) \<and>
     sorted_wrt (<) (map unat skipped) \<and>
     map rc_TxHash rcs = map (tx_Hash D) (FilterSkippedTxs txs skipped)"
proof -
  have gp: "gp_AddGas 0 gasLimit = Inr gasLimit" by (simp add: gp_AddGas_def)
  obtain rcs skipped p where l: "Process_loop D onNewLog num bh internal 0 txs
      \<lparr>ps_gp = gasLimit, ps_db = db, ps_usedGas = usedGas, ps_cb = cb\<rparr> = (Inr (rcs, skipped), p)"
      "unat (ps_gp p) + sum_list (map (\<lambda>r. unat (rc_GasUsed r)) rcs) = unat gasLimit"
      "ps_usedGas p = usedGas + sum_list (map rc_GasUsed rcs)"
      "map rc_TxHash rcs = map (tx_Hash D) (kept 0 skipped txs)" "sorted_wrt (<) (map unat skipped)"
    using Process_loop_accounts [OF assms(1,2), of 0 onNewLog num bh
        "\<lparr>ps_gp = gasLimit, ps_db = db, ps_usedGas = usedGas, ps_cb = cb\<rparr>"] assms(3) by auto
  have "FilterSkippedTxs txs skipped = kept 0 skipped txs"
    using skip_loop_start [OF l(5) assms(3)] by (auto simp: FilterSkippedTxs_def kept_def)
  then show ?thesis using l gp by (simp add: Process_def)
qed

section \<open>Intrinsic gas against the exact sum\<close>

definition nz_of :: "bytes \<Rightarrow> nat" where "nz_of dat = length (filter (\<lambda>b. b \<noteq> 0) dat)"

definition data_gas_nat :: "eth_params \<Rightarrow> bytes \<Rightarrow> bool \<Rightarrow> nat" where
  "data_gas_nat P dat create = unat (if create then TxGasContractCreation P else TxGas P)
     + nz_of dat * unat (TxDataNonZeroGas P) + (length dat - nz_of dat) * unat (TxDataZeroGas P)"

definition access_gas_nat :: "eth_params \<Rightarrow> access_list \<Rightarrow> nat" where
  "access_gas_nat P al = length al * unat (TxAccessListAddressGas P) + StorageKeys al * unat (TxAccessListStorageKeyGas P)"

lemma count_nz_of: "count_nz dat nz = nz + word_of_nat (nz_of dat)"
  by (induction dat nz rule: count_nz.induct) (auto simp: nz_of_def algebra_simps)

text \<open>The test before a multiplication: it passes exactly when sum and product fit.\<close>

lemma mul_add_fits:
  fixes gas n c :: u64
  assumes "0 < c"
  shows "(MaxUint64 - gas) div c < n \<longleftrightarrow> 2 ^ 64 \<le> unat gas + unat n * unat c"
    and "unat gas + unat n * unat c < 2 ^ 64 \<Longrightarrow> unat (gas + n * c) = unat gas + unat n * unat c"
proof -
  have c: "0 < unat c" using assms by (simp add: word_greater_zero_iff unat_gt_0)
  have gl: "unat gas < 2 ^ 64" using unsigned_less [of gas] by simp
  have "(MaxUint64 - gas) div c < n \<longleftrightarrow> (2 ^ 64 - 1 - unat gas) div unat c < unat n"
    by (simp add: word_less_nat_alt unat_div MaxUint64_def unat_max_diff)
  also have "\<dots> \<longleftrightarrow> 2 ^ 64 - 1 - unat gas < unat n * unat c"
    using c by (simp add: div_less_iff_less_mult)
  also have "\<dots> \<longleftrightarrow> 2 ^ 64 \<le> unat gas + unat n * unat c" using gl by linarith
  finally show "(MaxUint64 - gas) div c < n \<longleftrightarrow> 2 ^ 64 \<le> unat gas + unat n * unat c" .
  assume *: "unat gas + unat n * unat c < 2 ^ 64"
  then have "unat (n * c) = unat n * unat c" by (intro unat_mult_lem [THEN iffD1]) simp
  then show "unat (gas + n * c) = unat gas + unat n * unat c" using * by (simp add: unat_add_small)
qed

lemma dataGas_exact:
  assumes "0 < TxDataNonZeroGas P" "0 < TxDataZeroGas P" "length dat < 2 ^ 64"
    and "base = (if c then TxGasContractCreation P else TxGas P)"
  shows "dataGas P dat base = (if data_gas_nat P dat c < 2 ^ 64 then Inr (word_of_nat (data_gas_nat P dat c))
    else if unat base + nz_of dat * unat (TxDataNonZeroGas P) < 2 ^ 64 then Inl (Err ErrGasUintOverflow)
    else Inl (Err ErrOutOfGas))"
proof (cases "dat = []")
  case True
  then show ?thesis using assms(4) unsigned_less [of base] by (simp add: dataGas_def data_gas_nat_def nz_of_def)
next
  case False
  let ?nz = "word_of_nat (nz_of dat) :: u64"
  have le: "nz_of dat \<le> length dat" by (simp add: nz_of_def)
  then have unz: "unat ?nz = nz_of dat" using assms(3) by (intro unat_small_nat) simp
  have uz: "unat (word_of_nat (length dat) - ?nz :: u64) = length dat - nz_of dat"
    using le assms(3) unat_small_nat [of "length dat - nz_of dat", where 'a = 64] by (simp add: of_nat_diff)
  have tot: "data_gas_nat P dat c = unat base + nz_of dat * unat (TxDataNonZeroGas P) +
      (length dat - nz_of dat) * unat (TxDataZeroGas P)"
    using assms(4) by (simp add: data_gas_nat_def)
  show ?thesis
  proof (cases "unat base + nz_of dat * unat (TxDataNonZeroGas P) < 2 ^ 64")
    case small: True
    let ?g = "base + ?nz * TxDataNonZeroGas P"
    have g: "unat ?g = unat base + nz_of dat * unat (TxDataNonZeroGas P)"
      using mul_add_fits(2) [OF assms(1), of base ?nz] small unz by simp
    have "(word_of_nat (data_gas_nat P dat c) :: u64) =
        ?g + (word_of_nat (length dat) - ?nz) * TxDataZeroGas P"
      using le by (simp add: tot of_nat_diff)
    then show ?thesis
      using False small mul_add_fits(1) [OF assms(1), of base ?nz] unz g uz tot
        mul_add_fits(1) [OF assms(2), of ?g "word_of_nat (length dat) - ?nz"]
      by (simp add: dataGas_def count_nz_of Let_def)
  next
    case big: False
    then show ?thesis
      using False mul_add_fits(1) [OF assms(1), of base ?nz] unz tot
      by (simp add: dataGas_def count_nz_of Let_def)
  qed
qed

lemma IntrinsicGas_exact_helper:
  assumes "0 < TxDataNonZeroGas P" "0 < TxDataZeroGas P" "length dat < 2 ^ 64"
  shows "IntrinsicGas P dat al c =
    (if data_gas_nat P dat c < 2 ^ 64 then Inr (word_of_nat (data_gas_nat P dat c + access_gas_nat P al))
     else if unat (if c then TxGasContractCreation P else TxGas P) + nz_of dat * unat (TxDataNonZeroGas P) < 2 ^ 64
     then Inl (Err ErrGasUintOverflow) else Inl (Err ErrOutOfGas))"
  by (simp add: IntrinsicGas_def dataGas_exact [OF assms refl] access_gas_nat_def)

section \<open>Properties\<close>

text \<open>
  An instance of the parameters: the constants of the Ethereum protocol, balances in a function,
  and an interpreter that uses a fixed amount of gas.
\<close>

definition eip_params :: eth_params where
  "eip_params = \<lparr>TxGas = 21000, TxGasContractCreation = 53000, TxDataNonZeroGas = 16, TxDataZeroGas = 4,
     TxAccessListAddressGas = 2400, TxAccessListStorageKeyGas = 1900\<rparr>"

definition burn :: "u64 \<Rightarrow> 's \<Rightarrow> bytes \<times> u64 \<times> go_error option \<times> 's" where
  "burn g s = ([], if 1000 \<le> g then g - 1000 else 0, None, s)"

definition demo_lib :: "(bytes \<Rightarrow> int, unit) evm_lib" where
  "demo_lib = \<lparr>eth = eip_params, GetBalance = (\<lambda>s a. s a), SubBalance = (\<lambda>s a v. s(a := s a - v)),
     AddBalance = (\<lambda>s a v. s(a := s a + v)), GetNonce = (\<lambda>_ _. 0), SetNonce = (\<lambda>s _ _. s), GetRefund = (\<lambda>_. 0),
     IsBerlin = False, PrepareAccessList = (\<lambda>_ s. s), evm_Create = (\<lambda>_ _ g _ s. burn g s),
     evm_Call = (\<lambda>_ _ _ g _ s. burn g s), AsMessage = (\<lambda>tx. Inr ((internal_msg tx)\<lparr>msg_From := [1], msg_CheckNonce := True\<rparr>)),
     tx_Hash = (\<lambda>tx. tx_Data tx), Prepare = (\<lambda>_ _ _ s. s), GetLogs = (\<lambda>_ _. []), IsByzantium = True,
     Finalise = (\<lambda>s. s), IntermediateRoot = (\<lambda>s. ([], s)), CreateAddress = (\<lambda>a _. a),
     sd_BlockHash = (\<lambda>_. []), sd_TxIndex = (\<lambda>_. 0)\<rparr>"

lemma evm_ok_demo: "evm_ok demo_lib"
  by (auto simp: evm_ok_def demo_lib_def burn_def word_le_nat_alt unat_sub_if_size)

definition demo_tx :: "u64 \<Rightarrow> u64 \<Rightarrow> transaction" where
  "demo_tx nonce gas = \<lparr>tx_Type = 0, tx_Nonce = nonce, tx_Gas = gas, tx_GasPrice = 2, tx_Value = 0, tx_To = Some [9],
     tx_Data = [1, 0], tx_V = 0, tx_R = 0, tx_S = 0, tx_ChainId = 0, tx_AccessList = []\<rparr>"





text \<open>
  C34. A message that is refused although its gas limit covers the intrinsic gas is refused with
  an error, never a panic, and leaves gas pool and state database as they were.
\<close>

theorem refused_message_no_trace:
  assumes "evm_ok D" "covered (eth D) msg" "ApplyMessage D msg gp s = (Inl e, st)"
  shows "st_gp st = gp \<and> st_state st = s \<and> (\<exists>e'. e = Err e')"
proof -
  have "st = NewStateTransition gp s"
    using assms(2) ApplyMessage_skip [OF assms(1) _ _ assms(3)] by (auto simp: covered_def split: sum.splits)
  moreover have "\<exists>e'. e = Err e'" using ApplyMessage_no_panic [OF assms(1), of msg gp s] assms(3) by (cases e) auto
  ultimately show ?thesis by (simp add: NewStateTransition_def)
qed

definition wrong_nonce_msg :: message where
  "wrong_nonce_msg = (internal_msg (demo_tx 7 30000))\<lparr>msg_From := [1], msg_CheckNonce := True\<rparr>"

theorem refused_message_no_trace_witness:
  "\<exists>st. ApplyMessage demo_lib wrong_nonce_msg 100000 (\<lambda>_. 10 ^ 9) = (Inl (Err ErrNonceTooHigh), st) \<and>
    st_gp st = 100000 \<and> st_state st = (\<lambda>_. 10 ^ 9)"
proof -
  have r: "ApplyMessage demo_lib wrong_nonce_msg 100000 (\<lambda>_. 10 ^ 9) =
      (Inl (Err ErrNonceTooHigh), NewStateTransition 100000 (\<lambda>_. 10 ^ 9))"
    by (simp add: ApplyMessage_def TransitionDb_def preCheck_def wrong_nonce_msg_def internal_msg_def demo_tx_def
        demo_lib_def)
  have "covered (eth demo_lib) wrong_nonce_msg"
    by (simp add: covered_def wrong_nonce_msg_def internal_msg_def demo_tx_def demo_lib_def IntrinsicGas_def
        dataGas_def eip_params_def Let_def StorageKeys_def MaxUint64_def)
  from refused_message_no_trace [OF evm_ok_demo this r] r show ?thesis by auto
qed


end
