(* ===== verification/Rules.thy ===== *)
theory Rules
  imports Inter
begin

text \<open>
  src/skyhigh/rules.go and marshal.go: the network rules with their defaults, the update by a JSON
  difference and the RLP form with a type prefix. The JSON and RLP libraries are parameters.
\<close>

section \<open>The code\<close>

record gas_power_rules =
  AllocPerSec :: u64
  MaxAllocPeriod :: u64
  StartupAllocPeriod :: u64
  MinStartupGas :: u64

record gas_rules =
  MaxEventGas :: u64
  EventGas :: u64
  ParentGas :: u64
  ExtraDataGas :: u64

record epochs_rules =
  MaxEpochGas :: u64
  MaxEpochDuration :: u64

record dag_rules =
  MaxParents :: u32
  MaxFreeParents :: u32
  MaxExtraData :: u32

record economy_rules =
  BlockMissedSlack :: u64
  eco_Gas :: gas_rules
  MinGasPrice :: int
  ShortGasPower :: gas_power_rules
  LongGasPower :: gas_power_rules

record blocks_rules =
  MaxBlockGas :: u64
  MaxEmptyBlockSkipPeriod :: u64

record upgrades =
  Berlin :: bool

record rules =
  ru_Name :: string
  NetworkID :: u64
  ru_Dag :: dag_rules
  ru_Epochs :: epochs_rules
  ru_Blocks :: blocks_rules
  ru_Economy :: economy_rules
  Upgrades :: upgrades

definition MainNetworkID :: u64 where "MainNetworkID = 0xa09"
definition TestNetworkID :: u64 where "TestNetworkID = 0xfa2"
definition FakeNetworkID :: u64 where "FakeNetworkID = 0xfa3"
definition DefaultEventGas :: u64 where "DefaultEventGas = 28000"

definition time_Minute :: u64 where "time_Minute = 60 * time_Second"
definition time_Hour :: u64 where "time_Hour = 60 * time_Minute"

definition DefaultDagRules :: dag_rules where
  "DefaultDagRules = \<lparr>MaxParents = 10, MaxFreeParents = 3, MaxExtraData = 128\<rparr>"

definition DefaultEpochsRules :: epochs_rules where
  "DefaultEpochsRules = \<lparr>MaxEpochGas = 1500000000, MaxEpochDuration = 4 * time_Hour\<rparr>"

definition DefaultGasRules :: gas_rules where
  "DefaultGasRules = \<lparr>MaxEventGas = 10000000 + DefaultEventGas, EventGas = DefaultEventGas,
     ParentGas = 2400, ExtraDataGas = 25\<rparr>"

definition FakeNetEpochsRules :: epochs_rules where
  "FakeNetEpochsRules =
     (let cfg = DefaultEpochsRules in cfg\<lparr>MaxEpochGas := MaxEpochGas cfg div 5, MaxEpochDuration := 10 * time_Minute\<rparr>)"

definition DefaulLongGasPowerRules :: gas_power_rules where
  "DefaulLongGasPowerRules = \<lparr>AllocPerSec = 100 * DefaultEventGas, MaxAllocPeriod = 60 * time_Minute,
     StartupAllocPeriod = 5 * time_Second, MinStartupGas = DefaultEventGas * 20\<rparr>"

definition DefaultShortGasPowerRules :: gas_power_rules where
  "DefaultShortGasPowerRules =
     (let cfg = DefaulLongGasPowerRules
      in cfg\<lparr>AllocPerSec := AllocPerSec cfg * 2, StartupAllocPeriod := StartupAllocPeriod cfg div 2,
             MaxAllocPeriod := MaxAllocPeriod cfg div (2 * 6)\<rparr>)"

definition FakeLongGasPowerRules :: gas_power_rules where
  "FakeLongGasPowerRules =
     (let config = DefaulLongGasPowerRules in config\<lparr>AllocPerSec := AllocPerSec config * 1000\<rparr>)"

definition FakeShortGasPowerRules :: gas_power_rules where
  "FakeShortGasPowerRules =
     (let config = DefaultShortGasPowerRules in config\<lparr>AllocPerSec := AllocPerSec config * 1000\<rparr>)"

definition DefaultEconomyRules :: economy_rules where
  "DefaultEconomyRules = \<lparr>BlockMissedSlack = 50, eco_Gas = DefaultGasRules, MinGasPrice = 1000000000,
     ShortGasPower = DefaultShortGasPowerRules, LongGasPower = DefaulLongGasPowerRules\<rparr>"

definition FakeEconomyRules :: economy_rules where
  "FakeEconomyRules =
     (let cfg = DefaultEconomyRules
      in cfg\<lparr>ShortGasPower := FakeShortGasPowerRules, LongGasPower := FakeLongGasPowerRules\<rparr>)"

definition MainNetRules :: rules where
  "MainNetRules = \<lparr>ru_Name = ''main'', NetworkID = MainNetworkID, ru_Dag = DefaultDagRules,
     ru_Epochs = DefaultEpochsRules,
     ru_Blocks = \<lparr>MaxBlockGas = 20500000, MaxEmptyBlockSkipPeriod = 1 * time_Minute\<rparr>,
     ru_Economy = DefaultEconomyRules, Upgrades = \<lparr>Berlin = False\<rparr>\<rparr>"

definition TestNetRules :: rules where
  "TestNetRules = \<lparr>ru_Name = ''test'', NetworkID = TestNetworkID, ru_Dag = DefaultDagRules,
     ru_Epochs = DefaultEpochsRules,
     ru_Blocks = \<lparr>MaxBlockGas = 20500000, MaxEmptyBlockSkipPeriod = 1 * time_Minute\<rparr>,
     ru_Economy = DefaultEconomyRules, Upgrades = \<lparr>Berlin = False\<rparr>\<rparr>"

definition FakeNetRules :: rules where
  "FakeNetRules = \<lparr>ru_Name = ''fake'', NetworkID = FakeNetworkID, ru_Dag = DefaultDagRules,
     ru_Epochs = FakeNetEpochsRules,
     ru_Blocks = \<lparr>MaxBlockGas = 20500000, MaxEmptyBlockSkipPeriod = 3 * time_Second\<rparr>,
     ru_Economy = FakeEconomyRules, Upgrades = \<lparr>Berlin = False\<rparr>\<rparr>"

text \<open>\<open>json_Unmarshal diff r\<close>: the error and what the target holds after the call.\<close>

definition UpdateRules ::
  "(bytes \<Rightarrow> rules \<Rightarrow> go_error option \<times> rules) \<Rightarrow> rules \<Rightarrow> bytes \<Rightarrow> go_error option \<times> rules" where
  "UpdateRules json_Unmarshal src diff =
     (case json_Unmarshal diff src of
        (Some err, changed) \<Rightarrow> (Some err, src)
      | (None, changed) \<Rightarrow> (None, changed\<lparr>NetworkID := NetworkID src, ru_Name := ru_Name src\<rparr>))"

text \<open>
  The RLP library: encoders of the main body (which leaves \<open>Upgrades\<close> out) and of \<open>Upgrades\<close>; on
  the reading side a stream of bytes, the kind of the next item (is it a single byte?), and
  decoders that return the rest of the stream.
\<close>

record rlp_lib =
  enc_body :: "rules \<Rightarrow> bytes"
  enc_upgrades :: "upgrades \<Rightarrow> bytes"
  next_is_byte :: "bytes \<Rightarrow> bool res"
  dec_Bytes :: "bytes \<Rightarrow> (bytes \<times> bytes) res"
  dec_body :: "bytes \<Rightarrow> (rules \<times> bytes) res"
  dec_upgrades :: "bytes \<Rightarrow> (upgrades \<times> bytes) res"

definition rules_EncodeRLP :: "rlp_lib \<Rightarrow> rules \<Rightarrow> bytes" where
  "rules_EncodeRLP R r =
     (let rType = (if Upgrades r \<noteq> \<lparr>Berlin = False\<rparr> then 1 else 0 :: u8)
      in (if rType = 1 then [rType] else []) @ enc_body R r
         @ (if rType > 0 then enc_upgrades R (Upgrades r) else []))"

definition read_rType :: "rlp_lib \<Rightarrow> bytes \<Rightarrow> (u8 \<times> bytes) res" where
  "read_rType R s =
     bind_res (next_is_byte R s) (\<lambda>isByte.
       if isByte
       then bind_res (dec_Bytes R s) (\<lambda>(b, s).
          if length b = 0 then Inl (Err (OtherErr ''empty typed''))
          else if hd b = 0 \<or> hd b > 1 then Inl (Err (OtherErr ''unknown type''))
          else Inr (hd b, s))
       else Inr (0, s))"

definition rules_DecodeRLP :: "rlp_lib \<Rightarrow> bytes \<Rightarrow> (rules \<times> bytes) res" where
  "rules_DecodeRLP R s =
     bind_res (read_rType R s) (\<lambda>(rType, s).
       bind_res (dec_body R s) (\<lambda>(r, s).
         if rType \<ge> 1 then bind_res (dec_upgrades R s) (\<lambda>(u, s). Inr (r\<lparr>Upgrades := u\<rparr>, s))
         else Inr (r, s)))"

section \<open>Properties\<close>

text \<open>
  What the RLP format gives for the rules at hand: a body is a list (its first byte is not the
  encoding of a single byte), the byte 1 encodes itself, and the decoders invert the encoders; the
  decoded body has no upgrades.
\<close>

definition rlp_ok :: "rlp_lib \<Rightarrow> rules \<Rightarrow> bool" where
  "rlp_ok R r \<longleftrightarrow> (\<forall>s. next_is_byte R (enc_body R r @ s) = Inr False) \<and>
     (\<forall>s. next_is_byte R (1 # s) = Inr True \<and> dec_Bytes R (1 # s) = Inr ([1], s)) \<and>
     (\<forall>s. dec_body R (enc_body R r @ s) = Inr (r\<lparr>Upgrades := \<lparr>Berlin = False\<rparr>\<rparr>, s)) \<and>
     (\<forall>u s. dec_upgrades R (enc_upgrades R u @ s) = Inr (u, s))"

text \<open>
  C39. The RLP form of the rules: decoding what was encoded gives the same rules and leaves the
  rest of the stream, with and without upgrades; old rules (no upgrades) keep their old form.
\<close>

theorem rules_rlp_roundtrip:
  assumes "rlp_ok R r"
  shows "rules_DecodeRLP R (rules_EncodeRLP R r @ s) = Inr (r, s) \<and>
    (Upgrades r = \<lparr>Berlin = False\<rparr> \<longrightarrow> rules_EncodeRLP R r = enc_body R r)"
proof (cases "Upgrades r = \<lparr>Berlin = False\<rparr>")
  case True
  then have "r\<lparr>Upgrades := \<lparr>Berlin = False\<rparr>\<rparr> = r" by (cases r) simp
  with True assms show ?thesis
    by (simp add: rules_EncodeRLP_def rules_DecodeRLP_def read_rType_def rlp_ok_def)
next
  case False
  with assms show ?thesis
    by (simp add: rules_EncodeRLP_def rules_DecodeRLP_def read_rType_def rlp_ok_def)
qed

text \<open>An instance: one byte for the main-net body and one for the upgrades.\<close>

definition demo_rlp :: rlp_lib where
  "demo_rlp = \<lparr>enc_body = (\<lambda>_. [0xc0]), enc_upgrades = (\<lambda>u. [0xc1, if Berlin u then 1 else 0]),
     next_is_byte = (\<lambda>s. case s of [] \<Rightarrow> Inl (Err (OtherErr ''EOF'')) | b # _ \<Rightarrow> Inr (b < 0x80)),
     dec_Bytes = (\<lambda>s. case s of [] \<Rightarrow> Inl (Err (OtherErr ''EOF'')) | b # s \<Rightarrow> Inr ([b], s)),
     dec_body = (\<lambda>s. case s of [] \<Rightarrow> Inl (Err (OtherErr ''EOF'')) | _ # s \<Rightarrow> Inr (MainNetRules, s)),
     dec_upgrades = (\<lambda>s. case s of _ # b # s \<Rightarrow> Inr (\<lparr>Berlin = (b = 1)\<rparr>, s) | _ \<Rightarrow> Inl (Err (OtherErr ''EOF'')))\<rparr>"

theorem rules_rlp_roundtrip_witness:
  "rules_DecodeRLP demo_rlp (rules_EncodeRLP demo_rlp (MainNetRules\<lparr>Upgrades := \<lparr>Berlin = True\<rparr>\<rparr>) @ [7]) =
     Inr (MainNetRules\<lparr>Upgrades := \<lparr>Berlin = True\<rparr>\<rparr>, [7])"
proof -
  have "u = \<lparr>Berlin = Berlin u\<rparr>" for u :: upgrades by (cases u) simp
  then have "rlp_ok demo_rlp (MainNetRules\<lparr>Upgrades := \<lparr>Berlin = True\<rparr>\<rparr>)"
    by (auto simp: rlp_ok_def demo_rlp_def MainNetRules_def)
  from rules_rlp_roundtrip [OF this, of "[7]"] show ?thesis by simp
qed

text \<open>
  An update keeps network ID and name whatever the JSON difference contains, and a difference
  that does not parse changes nothing at all.
\<close>

lemma UpdateRules_protects:
  "NetworkID (snd (UpdateRules J src diff)) = NetworkID src \<and> ru_Name (snd (UpdateRules J src diff)) = ru_Name src
   \<and> (fst (UpdateRules J src diff) \<noteq> None \<longrightarrow> snd (UpdateRules J src diff) = src)"
  by (cases "J diff src"; cases "fst (J diff src)") (auto simp: UpdateRules_def)

end
