(* ===== verification/Eventcheck.thy ===== *)
theory Eventcheck
  imports Event_Serializer Evm_Core Rules
begin

text \<open>
  src/eventcheck: the checks an event passes before it is connected. Each checker has a part in the
  consensus library (the \<open>base\<close> checkers), which is a parameter, as are the weights of the
  validators, signatures and the Merkle root. The theorems show what a valid event guarantees: its
  transactions pay their intrinsic gas, its gas accounting is exact, and along a chain of
  self-parents a validator cannot use more gas than it was allotted. The pool of heavy checkers is
  a step relation.
\<close>

section \<open>Parameters\<close>

record check_lib =
  cl_dag :: dag_lib
  cl_eth :: eth_params
  base_basic :: "event_payload \<Rightarrow> unit res"
  base_epoch :: "event_payload \<Rightarrow> unit res"
  base_parents :: "event_payload \<Rightarrow> event_payload list \<Rightarrow> unit res"
  VerifySignature :: "bytes \<Rightarrow> bytes \<Rightarrow> bytes \<Rightarrow> bool"
  tx_Sender :: "transaction \<Rightarrow> bytes option"
  DeriveSha :: "transaction list \<Rightarrow> bytes"

definition SelfParent :: "check_lib \<Rightarrow> event_payload \<Rightarrow> bytes option" where
  "SelfParent C e = self_parent (cl_dag C) (ev_Seq e) (ev_Parents e)"

section \<open>basiccheck\<close>

definition validateTx :: "check_lib \<Rightarrow> transaction \<Rightarrow> unit res" where
  "validateTx C tx =
     (if tx_Value tx < 0 \<or> tx_GasPrice tx < 0 then Inl (Err ErrNegativeValue)
      else bind_res (IntrinsicGas (cl_eth C) (tx_Data tx) (tx_AccessList tx) (tx_To tx = None)) (\<lambda>intrGas.
        if tx_Gas tx < intrGas then Inl (Err ErrBasicIntrinsicGas) else Inr ()))"

fun checkTxs_loop :: "check_lib \<Rightarrow> transaction list \<Rightarrow> unit res" where
  "checkTxs_loop C [] = Inr ()"
| "checkTxs_loop C (tx # txs) = bind_res (validateTx C tx) (\<lambda>_. checkTxs_loop C txs)"

definition basic_checkTxs :: "check_lib \<Rightarrow> event_payload \<Rightarrow> unit res" where
  "basic_checkTxs C e = checkTxs_loop C (ev_txs e)"

definition MaxInt64 :: u64 where "MaxInt64 = 0x7fffffffffffffff"

definition basic_Validate :: "check_lib \<Rightarrow> event_payload \<Rightarrow> unit res" where
  "basic_Validate C e =
     bind_res (base_basic C e) (\<lambda>_.
       if ev_gasPowerUsed e \<ge> MaxInt64 - 1 \<or> gpl_Max (ev_gasPowerLeft e) \<ge> MaxInt64 - 1 then Inl (Err ErrHugeValue)
       else if ev_creationTime e \<le> 0 \<or> ev_medianTime e \<le> 0 then Inl (Err ErrZeroTime)
       else basic_checkTxs C e)"

section \<open>epochcheck\<close>

fun txsGas :: "transaction list \<Rightarrow> u64 \<Rightarrow> u64" where
  "txsGas [] acc = acc"
| "txsGas (tx # txs) acc = txsGas txs (acc + tx_Gas tx)"

definition CalcGasPowerUsed :: "event_payload \<Rightarrow> rules \<Rightarrow> u64" where
  "CalcGasPowerUsed e ru =
     (let txs = txsGas (ev_txs e) 0;
          n = word_of_nat (length (ev_Parents e)) :: u32;
          gas = eco_Gas (ru_Economy ru);
          parentsGas = (if n > MaxFreeParents (ru_Dag ru)
                        then ucast (n - MaxFreeParents (ru_Dag ru)) * ParentGas gas else 0);
          extraGas = word_of_nat (length (ev_extra e)) * ExtraDataGas gas
      in txs + parentsGas + extraGas + EventGas gas)"

definition checkGas :: "event_payload \<Rightarrow> rules \<Rightarrow> unit res" where
  "checkGas e ru =
     (if ev_gasPowerUsed e > MaxEventGas (eco_Gas (ru_Economy ru)) then Inl (Err ErrTooBigGasUsed)
      else if ev_gasPowerUsed e \<noteq> CalcGasPowerUsed e ru then Inl (Err ErrWrongGasUsed)
      else Inr ())"

fun CheckTxs_loop :: "u8 \<Rightarrow> int \<Rightarrow> transaction list \<Rightarrow> unit res" where
  "CheckTxs_loop maxType minPrice [] = Inr ()"
| "CheckTxs_loop maxType minPrice (tx # txs) =
     (if tx_Type tx > maxType then Inl (Err ErrUnsupportedTxType)
      else if tx_GasPrice tx < minPrice then Inl (Err ErrUnderpriced)
      else CheckTxs_loop maxType minPrice txs)"

definition CheckTxs :: "transaction list \<Rightarrow> rules \<Rightarrow> unit res" where
  "CheckTxs txs ru = CheckTxs_loop (if Berlin (Upgrades ru) then 0 + 1 else 0) (MinGasPrice (ru_Economy ru)) txs"

definition epoch_Validate :: "check_lib \<Rightarrow> rules \<Rightarrow> u32 \<Rightarrow> event_payload \<Rightarrow> unit res" where
  "epoch_Validate C ru epoch e =
     bind_res (base_epoch C e) (\<lambda>_.
       if ev_Epoch e \<noteq> epoch then Inl (Err ErrNotRelevant)
       else if (word_of_nat (length (ev_Parents e)) :: u32) > MaxParents (ru_Dag ru) then Inl (Err ErrTooManyParents)
       else if (word_of_nat (length (ev_extra e)) :: u32) > MaxExtraData (ru_Dag ru) then Inl (Err ErrTooBigExtra)
       else bind_res (checkGas e ru) (\<lambda>_. CheckTxs (ev_txs e) ru))"

section \<open>parentscheck\<close>

definition IsSelfParent :: "check_lib \<Rightarrow> event_payload \<Rightarrow> bytes \<Rightarrow> bool" where
  "IsSelfParent C e h \<longleftrightarrow> SelfParent C e = Some h"

definition parents_Validate :: "check_lib \<Rightarrow> event_payload \<Rightarrow> event_payload list \<Rightarrow> unit res" where
  "parents_Validate C e parents =
     bind_res (base_parents C e parents) (\<lambda>_.
       if SelfParent C e \<noteq> None
       then (case parents of [] \<Rightarrow> Inl (Panic IndexOutOfRange)
             | selfParent # _ \<Rightarrow>
                 if \<not> IsSelfParent C e (ep_ID selfParent) then Inl (Err ErrWrongSelfParent)
                 else if ev_creationTime e \<le> ev_creationTime selfParent then Inl (Err ErrPastTime)
                 else Inr ())
       else Inr ())"

section \<open>gaspowercheck\<close>

record gp_config =
  gc_Idx :: nat
  gc_AllocPerSec :: u64
  gc_MaxAllocPeriod :: u64
  gc_MinEnsuredAlloc :: u64
  gc_StartupAllocPeriod :: u64
  gc_MinStartupGas :: u64

record validator_state =
  PrevEpochEvent :: "event_payload option"
  GasRefund :: u64

record validation_context =
  vc_Epoch :: u32
  vc_Config0 :: gp_config
  vc_Config1 :: gp_config
  vc_EpochStart :: u64
  vc_Validators :: validators
  vc_ValidatorStates :: "validator_state list"

text \<open>\<open>mul\<close>, \<open>div\<close> and \<open>Uint64\<close> on \<open>big.Int\<close>: exact, a panic on a zero divisor, and the low 64 bits.\<close>

definition big_div :: "int \<Rightarrow> u64 \<Rightarrow> int res" where
  "big_div a b = (if b = 0 then Inl (Panic DivideByZero) else Inr (a div uint b))"

definition calcValidatorGasPowerPerSec :: "u32 \<Rightarrow> validators \<Rightarrow> gp_config \<Rightarrow> (u64 \<times> u64 \<times> u64) res" where
  "calcValidatorGasPowerPerSec vid vs gas =
     (let stake = v_Get vs vid
      in if stake = 0 then Inr (0, 0, 0)
         else bind_res (big_div (uint (gc_AllocPerSec gas) * uint stake) (ucast (v_TotalWeight vs))) (\<lambda>bn.
           let perSec = word_of_int bn;
               maxGasPower = perSec * (gc_MaxAllocPeriod gas div time_Second);
               maxGasPower = (if maxGasPower < gc_MinEnsuredAlloc gas then gc_MinEnsuredAlloc gas else maxGasPower);
               startup = perSec * (gc_StartupAllocPeriod gas div time_Second);
               startup = (if startup < gc_MinStartupGas gas then gc_MinStartupGas gas else startup)
           in Inr (perSec, maxGasPower, startup)))"

definition CalcValidatorGasPower ::
  "check_lib \<Rightarrow> event_payload \<Rightarrow> u64 \<Rightarrow> u64 \<Rightarrow> u64 \<Rightarrow> validators \<Rightarrow> gp_config \<Rightarrow> u64 res" where
  "CalcValidatorGasPower C e eTime prevTime prevGasPowerLeft vs config =
     bind_res (calcValidatorGasPowerPerSec (ev_Creator e) vs config) (\<lambda>(gasPowerPerSec, maxGasPower, startup).
       let prevGasPowerLeft = (if SelfParent C e = None \<and> prevGasPowerLeft < startup then startup else prevGasPowerLeft);
           prevTime = (if prevTime > eTime then eTime else prevTime);
           allocated = (uint (eTime - prevTime) * uint gasPowerPerSec) div uint time_Second;
           gasPower = word_of_int allocated + prevGasPowerLeft
       in Inr (if gasPower > maxGasPower then maxGasPower else gasPower))"

definition calcGasPower ::
  "check_lib \<Rightarrow> event_payload \<Rightarrow> event_payload option \<Rightarrow> validation_context \<Rightarrow> gp_config \<Rightarrow> u64 res" where
  "calcGasPower C e selfParent ctx config =
     bind_res
       (if SelfParent C e \<noteq> None
        then (case selfParent of None \<Rightarrow> Inl (Panic (PanicMsg ''nil pointer''))
              | Some sp \<Rightarrow> bind_res (gas_index (ev_gasPowerLeft sp) (gc_Idx config)) (\<lambda>g. Inr (g, ev_medianTime sp)))
        else let i = v_GetIdx (vc_Validators ctx) (ev_Creator e)
             in if i < length (vc_ValidatorStates ctx)
                then let vst = vc_ValidatorStates ctx ! i
                     in bind_res
                          (case PrevEpochEvent vst of
                             None \<Rightarrow> Inr (0, vc_EpochStart ctx)
                           | Some pe \<Rightarrow> bind_res (gas_index (ev_gasPowerLeft pe) (gc_Idx config)) (\<lambda>g. Inr (g, ev_medianTime pe)))
                          (\<lambda>(g, t). Inr (g + GasRefund vst, t))
                else Inl (Panic IndexOutOfRange))
       (\<lambda>(prevGasPowerLeft, prevTime).
          CalcValidatorGasPower C e (ev_medianTime e) prevTime prevGasPowerLeft (vc_Validators ctx) config)"

definition CalcGasPower ::
  "check_lib \<Rightarrow> validation_context \<Rightarrow> event_payload \<Rightarrow> event_payload option \<Rightarrow> gas_power_left res" where
  "CalcGasPower C ctx e selfParent =
     (if vc_Epoch ctx \<noteq> ev_Epoch e then Inl (Err ErrNotRelevant)
      else bind_res (calcGasPower C e selfParent ctx (vc_Config0 ctx)) (\<lambda>g0.
           bind_res (calcGasPower C e selfParent ctx (vc_Config1 ctx)) (\<lambda>g1.
             Inr \<lparr>Gas0 = g0, Gas1 = g1\<rparr>)))"

definition gaspower_Validate ::
  "check_lib \<Rightarrow> validation_context \<Rightarrow> event_payload \<Rightarrow> event_payload option \<Rightarrow> unit res" where
  "gaspower_Validate C ctx e selfParent =
     bind_res (CalcGasPower C ctx e selfParent) (\<lambda>gasPowers.
       if Gas0 (ev_gasPowerLeft e) + ev_gasPowerUsed e \<noteq> Gas0 gasPowers then Inl (Err ErrWrongGasPowerLeft)
       else if Gas1 (ev_gasPowerLeft e) + ev_gasPowerUsed e \<noteq> Gas1 gasPowers then Inl (Err ErrWrongGasPowerLeft)
       else Inr ())"

section \<open>heavycheck\<close>

definition verifySignature :: "check_lib \<Rightarrow> event_payload \<Rightarrow> pub_key \<Rightarrow> bool" where
  "verifySignature C e pubkey \<longleftrightarrow>
     (if pk_Type pubkey \<noteq> pk_Secp256k1 then False else VerifySignature C (pk_Raw pubkey) (ep_hash e) (ev_sig e))"

definition heavy_Validate :: "check_lib \<Rightarrow> (u32 \<rightharpoonup> pub_key) \<Rightarrow> u32 \<Rightarrow> event_payload \<Rightarrow> unit res" where
  "heavy_Validate C addrs epoch e =
     (if ev_Epoch e \<noteq> epoch then Inl (Err ErrNotRelevant)
      else case addrs (ev_Creator e) of
        None \<Rightarrow> Inl (Err ErrAuth)
      | Some addr \<Rightarrow>
          if \<not> verifySignature C e addr then Inl (Err ErrWrongEventSig)
          else if \<exists>tx \<in> set (ev_txs e). tx_Sender C tx = None then Inl (Err ErrMalformedTxSig)
          else if ev_txHash e \<noteq> DeriveSha C (ev_txs e) then Inl (Err ErrWrongTxHash)
          else Inr ())"

section \<open>All checks\<close>

record checkers =
  ck_lib :: check_lib
  ck_rules :: rules
  ck_rulesEpoch :: u32
  ck_ctx :: validation_context
  ck_addrs :: "u32 \<rightharpoonup> pub_key"
  ck_keysEpoch :: u32

definition checkers_Validate :: "checkers \<Rightarrow> event_payload \<Rightarrow> event_payload list \<Rightarrow> unit res" where
  "checkers_Validate K e parents =
     bind_res (basic_Validate (ck_lib K) e) (\<lambda>_.
     bind_res (epoch_Validate (ck_lib K) (ck_rules K) (ck_rulesEpoch K) e) (\<lambda>_.
     bind_res (parents_Validate (ck_lib K) e parents) (\<lambda>_.
     bind_res (if SelfParent (ck_lib K) e \<noteq> None
               then (case parents of [] \<Rightarrow> Inl (Panic IndexOutOfRange) | p # _ \<Rightarrow> Inr (Some p))
               else Inr None) (\<lambda>selfParent.
     bind_res (gaspower_Validate (ck_lib K) (ck_ctx K) e selfParent) (\<lambda>_.
     heavy_Validate (ck_lib K) (ck_addrs K) (ck_keysEpoch K) e)))))"

definition IsBan :: "go_error option \<Rightarrow> bool" where
  "IsBan err =
     (if err = Some ErrNotRelevant \<or> err = Some ErrAlreadyConnectedEvent \<or> err = Some ErrSpilledEvent \<or>
         err = Some ErrDuplicateEvent then False
      else err \<noteq> None)"

section \<open>What a valid event guarantees\<close>

lemma bind_unit_Inr: "bind_res m f = Inr () \<longleftrightarrow> (\<exists>x. m = Inr x \<and> f x = Inr ())"
  by (rule bind_res_Inr_iff)

lemma if_Inl_Inr: "(if b then Inl e else x) = Inr y \<longleftrightarrow> \<not> b \<and> x = Inr y"
  by simp

lemmas check_simps = bind_unit_Inr bind_res_Inr_iff if_Inl_Inr

lemma validateTx_ok:
  "validateTx C tx = Inr () \<longleftrightarrow> 0 \<le> tx_Value tx \<and> 0 \<le> tx_GasPrice tx \<and>
     (\<exists>g. IntrinsicGas (cl_eth C) (tx_Data tx) (tx_AccessList tx) (tx_To tx = None) = Inr g \<and> g \<le> tx_Gas tx)"
  by (auto simp: validateTx_def check_simps not_less)

lemma checkTxs_loop_ok: "checkTxs_loop C txs = Inr () \<longleftrightarrow> (\<forall>tx \<in> set txs. validateTx C tx = Inr ())"
  by (induction txs) (auto simp: check_simps)

lemma CheckTxs_loop_ok:
  "CheckTxs_loop t m txs = Inr () \<longleftrightarrow> (\<forall>tx \<in> set txs. tx_Type tx \<le> t \<and> m \<le> tx_GasPrice tx)"
  by (induction txs) (auto simp: not_less)

lemma basic_Validate_ok:
  "basic_Validate C e = Inr () \<longleftrightarrow> base_basic C e = Inr () \<and> ev_gasPowerUsed e < MaxInt64 - 1 \<and>
     gpl_Max (ev_gasPowerLeft e) < MaxInt64 - 1 \<and> 0 < ev_creationTime e \<and> 0 < ev_medianTime e \<and>
     (\<forall>tx \<in> set (ev_txs e). validateTx C tx = Inr ())"
  by (auto simp: basic_Validate_def check_simps basic_checkTxs_def checkTxs_loop_ok not_le not_less word_neq_0_conv)

lemma epoch_Validate_ok:
  "epoch_Validate C ru ep e = Inr () \<longleftrightarrow> base_epoch C e = Inr () \<and> ev_Epoch e = ep \<and>
     (word_of_nat (length (ev_Parents e)) :: u32) \<le> MaxParents (ru_Dag ru) \<and>
     (word_of_nat (length (ev_extra e)) :: u32) \<le> MaxExtraData (ru_Dag ru) \<and>
     ev_gasPowerUsed e \<le> MaxEventGas (eco_Gas (ru_Economy ru)) \<and> ev_gasPowerUsed e = CalcGasPowerUsed e ru \<and>
     (\<forall>tx \<in> set (ev_txs e). tx_Type tx \<le> (if Berlin (Upgrades ru) then 1 else 0) \<and>
        MinGasPrice (ru_Economy ru) \<le> tx_GasPrice tx)"
  by (auto simp: epoch_Validate_def check_simps checkGas_def CheckTxs_def CheckTxs_loop_ok not_less split: if_splits)

lemma heavy_Validate_ok:
  "heavy_Validate C addrs ep e = Inr () \<longleftrightarrow> ev_Epoch e = ep \<and>
     (\<exists>pk. addrs (ev_Creator e) = Some pk \<and> verifySignature C e pk) \<and>
     (\<forall>tx \<in> set (ev_txs e). tx_Sender C tx \<noteq> None) \<and> ev_txHash e = DeriveSha C (ev_txs e)"
  by (auto simp: heavy_Validate_def check_simps split: option.splits)

text \<open>Below the limits of the basic check the addition of the gas-power check cannot wrap around.\<close>

lemma gas_sum_exact:
  assumes "gpl_Max (ev_gasPowerLeft e) < MaxInt64 - 1" "ev_gasPowerUsed e < MaxInt64 - 1"
  shows "unat (Gas0 (ev_gasPowerLeft e) + ev_gasPowerUsed e) = unat (Gas0 (ev_gasPowerLeft e)) + unat (ev_gasPowerUsed e)"
    "unat (Gas1 (ev_gasPowerLeft e) + ev_gasPowerUsed e) = unat (Gas1 (ev_gasPowerLeft e)) + unat (ev_gasPowerUsed e)"
proof -
  have m: "unat (MaxInt64 - 1) = 2 ^ 63 - 2" by (simp add: MaxInt64_def)
  have "Gas0 (ev_gasPowerLeft e) < MaxInt64 - 1" "Gas1 (ev_gasPowerLeft e) < MaxInt64 - 1"
    using assms(1) gpl_Max_ge [of "ev_gasPowerLeft e"] by auto
  then show "unat (Gas0 (ev_gasPowerLeft e) + ev_gasPowerUsed e) = unat (Gas0 (ev_gasPowerLeft e)) + unat (ev_gasPowerUsed e)"
    "unat (Gas1 (ev_gasPowerLeft e) + ev_gasPowerUsed e) = unat (Gas1 (ev_gasPowerLeft e)) + unat (ev_gasPowerUsed e)"
    using assms(2) m by (auto simp: word_less_nat_alt intro!: unat_add_small)
qed

lemma gaspower_Validate_ok:
  assumes "gaspower_Validate C ctx e sp = Inr ()" "basic_Validate C e = Inr ()"
  obtains g where "CalcGasPower C ctx e sp = Inr g"
    "unat (Gas0 (ev_gasPowerLeft e)) + unat (ev_gasPowerUsed e) = unat (Gas0 g)"
    "unat (Gas1 (ev_gasPowerLeft e)) + unat (ev_gasPowerUsed e) = unat (Gas1 g)"
proof -
  obtain g where "CalcGasPower C ctx e sp = Inr g" "Gas0 (ev_gasPowerLeft e) + ev_gasPowerUsed e = Gas0 g"
      "Gas1 (ev_gasPowerLeft e) + ev_gasPowerUsed e = Gas1 g"
    using assms(1) by (auto simp: gaspower_Validate_def check_simps split: if_splits)
  then show thesis using gas_sum_exact [of e] assms(2) by (intro that [of g]) (auto simp: basic_Validate_ok)
qed

section \<open>The gas of a chain of self-parents\<close>

definition conf :: "nat \<Rightarrow> validation_context \<Rightarrow> gp_config" where
  "conf k ctx = (if k = 0 then vc_Config0 ctx else vc_Config1 ctx)"

abbreviation gas_of :: "nat \<Rightarrow> event_payload \<Rightarrow> u64" where
  "gas_of k e \<equiv> gas_list (ev_gasPowerLeft e) ! k"

text \<open>
  Each event of the list is valid (basic and gas-power check) with its predecessor as self-parent,
  and has the creator of the chain.
\<close>

fun gas_chain :: "check_lib \<Rightarrow> validation_context \<Rightarrow> event_payload \<Rightarrow> event_payload list \<Rightarrow> bool" where
  "gas_chain C ctx sp [] = True"
| "gas_chain C ctx sp (e # es) \<longleftrightarrow> ev_Creator e = ev_Creator sp \<and> SelfParent C e \<noteq> None \<and>
     basic_Validate C e = Inr () \<and> gaspower_Validate C ctx e (Some sp) = Inr () \<and> gas_chain C ctx e es"

fun elapsed :: "event_payload \<Rightarrow> event_payload list \<Rightarrow> nat" where
  "elapsed sp [] = 0"
| "elapsed sp (e # es) = (unat (ev_medianTime e) - unat (ev_medianTime sp)) + elapsed e es"

lemma CalcValidatorGasPower_le:
  assumes "CalcValidatorGasPower C e t1 t0 prev vs cfg = Inr g" "SelfParent C e \<noteq> None"
    "calcValidatorGasPowerPerSec (ev_Creator e) vs cfg = Inr (rate, mx, st)"
  shows "unat g \<le> unat prev + ((unat t1 - unat t0) * unat rate) div 10 ^ 9" "g \<le> mx"
proof -
  let ?t0 = "if t0 > t1 then t1 else t0"
  let ?a = "(uint (t1 - ?t0) * uint rate) div uint time_Second"
  let ?g = "word_of_int ?a + prev"
  have g: "g = (if ?g > mx then mx else ?g)"
    using assms by (simp add: CalcValidatorGasPower_def Let_def)
  then show "g \<le> mx" by (auto simp: not_less)
  have dt: "unat (t1 - ?t0) = unat t1 - unat t0"
    by (auto simp: unat_sub word_less_nat_alt word_le_nat_alt not_less)
  have "?a = int ((unat (t1 - ?t0) * unat rate) div 10 ^ 9)"
    by (simp add: time_Second_def zdiv_int)
  then have "unat (word_of_int ?a :: u64) \<le> ((unat t1 - unat t0) * unat rate) div 10 ^ 9"
    using dt by (simp add: unat_of_nat)
  moreover have "unat g \<le> unat (word_of_int ?a :: u64) + unat prev"
    using g unat_add_le [of "word_of_int ?a" prev] by (auto simp: word_less_nat_alt split: if_splits)
  ultimately show "unat g \<le> unat prev + ((unat t1 - unat t0) * unat rate) div 10 ^ 9" by linarith
qed

lemma gas_chain_step:
  assumes "SelfParent C e \<noteq> None" "basic_Validate C e = Inr ()" "gaspower_Validate C ctx e (Some sp) = Inr ()"
    "k < 2" "gc_Idx (conf k ctx) = k"
    "calcValidatorGasPowerPerSec (ev_Creator e) (vc_Validators ctx) (conf k ctx) = Inr (rate, mx, st)"
  shows "unat (gas_of k e) + unat (ev_gasPowerUsed e) \<le>
      unat (gas_of k sp) + ((unat (ev_medianTime e) - unat (ev_medianTime sp)) * unat rate) div 10 ^ 9"
    "unat (gas_of k e) + unat (ev_gasPowerUsed e) \<le> unat mx"
proof -
  obtain g where g: "CalcGasPower C ctx e (Some sp) = Inr g"
      "unat (Gas0 (ev_gasPowerLeft e)) + unat (ev_gasPowerUsed e) = unat (Gas0 g)"
      "unat (Gas1 (ev_gasPowerLeft e)) + unat (ev_gasPowerUsed e) = unat (Gas1 g)"
    using gaspower_Validate_ok [OF assms(3,2)] .
  have k: "k = 0 \<or> k = 1" using assms(4) by auto
  have "calcGasPower C e (Some sp) ctx (conf k ctx) = Inr (gas_list g ! k)"
    using g(1) k by (auto simp: CalcGasPower_def check_simps conf_def gas_list_def split: if_splits)
  moreover have "gas_index (ev_gasPowerLeft sp) (gc_Idx (conf k ctx)) = Inr (gas_of k sp)"
    using assms(4,5) by (simp add: gas_index_def gas_list_def)
  ultimately have c: "CalcValidatorGasPower C e (ev_medianTime e) (ev_medianTime sp) (gas_of k sp) (vc_Validators ctx) (conf k ctx) =
      Inr (gas_list g ! k)"
    using assms(1) by (simp add: calcGasPower_def)
  have "unat (gas_of k e) + unat (ev_gasPowerUsed e) = unat (gas_list g ! k)"
    using g(2,3) k by (auto simp: gas_list_def)
  with CalcValidatorGasPower_le [OF c assms(1,6)]
  show "unat (gas_of k e) + unat (ev_gasPowerUsed e) \<le>
      unat (gas_of k sp) + ((unat (ev_medianTime e) - unat (ev_medianTime sp)) * unat rate) div 10 ^ 9"
    "unat (gas_of k e) + unat (ev_gasPowerUsed e) \<le> unat mx"
    by (simp_all add: word_le_nat_alt)
qed

lemma div_add_le: "(a :: nat) div n + b div n \<le> (a + b) div n"
proof (cases "n = 0")
  case False
  have "(a div n + b div n) * n \<le> a + b"
    by (simp add: distrib_right) (intro add_mono; simp)
  with False show ?thesis by (simp add: less_eq_div_iff_mult_less_eq)
qed simp

lemma gas_chain_bound_helper:
  assumes "gas_chain C ctx sp es" "k < 2" "gc_Idx (conf k ctx) = k"
    "calcValidatorGasPowerPerSec (ev_Creator sp) (vc_Validators ctx) (conf k ctx) = Inr (rate, mx, st)"
  shows "sum_list (map (\<lambda>e. unat (ev_gasPowerUsed e)) es) + unat (gas_of k (last (sp # es))) \<le>
     unat (gas_of k sp) + (elapsed sp es * unat rate) div 10 ^ 9"
  using assms(1,4)
proof (induction es arbitrary: sp)
  case (Cons e es)
  let ?a = "(unat (ev_medianTime e) - unat (ev_medianTime sp)) * unat rate"
  have "unat (gas_of k e) + unat (ev_gasPowerUsed e) \<le> unat (gas_of k sp) + ?a div 10 ^ 9"
    by (rule gas_chain_step(1) [OF _ _ _ assms(2,3)]) (use Cons.prems in auto)
  moreover have "sum_list (map (\<lambda>e. unat (ev_gasPowerUsed e)) es) + unat (gas_of k (last (e # es))) \<le>
     unat (gas_of k e) + (elapsed e es * unat rate) div 10 ^ 9"
    using Cons.IH [of e] Cons.prems by simp
  moreover have "?a div 10 ^ 9 + (elapsed e es * unat rate) div 10 ^ 9 \<le> (elapsed sp (e # es) * unat rate) div 10 ^ 9"
    using div_add_le [of ?a "10 ^ 9" "elapsed e es * unat rate"] by (simp add: algebra_simps)
  ultimately show ?case by (simp del: elapsed.simps)
qed simp

section \<open>Properties\<close>

text \<open>An instance of the parameters and a chain of two events of validator 1.\<close>

definition demo_validators :: validators where
  "demo_validators = \<lparr>v_Get = (\<lambda>i. if i = 1 then 1 else if i = 2 then 2 else 0), v_TotalWeight = 3,
     v_GetIdx = (\<lambda>i. if i = 1 then 0 else 1), v_Len = 2, v_GetID = (\<lambda>i. if i = 0 then 1 else 2),
     v_Exists = (\<lambda>i. i = 1 \<or> i = 2), v_SortedIDs = [2, 1]\<rparr>"

definition demo_check_lib :: check_lib where
  "demo_check_lib = \<lparr>cl_dag = be_lib, cl_eth = eip_params, base_basic = (\<lambda>_. Inr ()), base_epoch = (\<lambda>_. Inr ()),
     base_parents = (\<lambda>_ _. Inr ()), VerifySignature = (\<lambda>_ _ _. True), tx_Sender = (\<lambda>_. Some [1]),
     DeriveSha = (\<lambda>txs. if txs = [] then replicate 32 1 else replicate 32 3)\<rparr>"

definition demo_config :: "nat \<Rightarrow> gp_config" where
  "demo_config i = \<lparr>gc_Idx = i, gc_AllocPerSec = 3000000, gc_MaxAllocPeriod = 3600000000000,
     gc_MinEnsuredAlloc = 0, gc_StartupAllocPeriod = 5000000000, gc_MinStartupGas = 560000\<rparr>"

definition demo_ctx :: validation_context where
  "demo_ctx = \<lparr>vc_Epoch = 2, vc_Config0 = demo_config 0, vc_Config1 = demo_config 1, vc_EpochStart = 1000000000,
     vc_Validators = demo_validators, vc_ValidatorStates = []\<rparr>"

definition demo_parent :: event_payload where
  "demo_parent = build be_lib (zero_event\<lparr>ev_Epoch := 2, ev_Lamport := 1, ev_Creator := 1, ev_Seq := 1,
     ev_creationTime := 100000000000, ev_medianTime := 100000000000,
     ev_gasPowerLeft := \<lparr>Gas0 = 1000000, Gas1 = 1000000\<rparr>\<rparr>) (replicate 32 8) 0"

definition demo_event :: event_payload where
  "demo_event = build be_lib (zero_event\<lparr>ev_Epoch := 2, ev_Lamport := 2, ev_Creator := 1, ev_Seq := 2,
     ev_Parents := [ep_ID demo_parent], ev_creationTime := 101000000000, ev_medianTime := 101000000000,
     ev_txHash := replicate 32 1,
     ev_gasPowerLeft := \<lparr>Gas0 = 1972000, Gas1 = 1972000\<rparr>, ev_gasPowerUsed := 28000\<rparr>) (replicate 32 9) 0"

definition demo_checkers :: checkers where
  "demo_checkers = \<lparr>ck_lib = demo_check_lib, ck_rules = MainNetRules, ck_rulesEpoch = 2, ck_ctx = demo_ctx,
     ck_addrs = (\<lambda>i. if i = 1 then Some \<lparr>pk_Type = 0xc0, pk_Raw = [4]\<rparr> else None), ck_keysEpoch = 2\<rparr>"

text \<open>
  C13. The gas a validator can use: along a chain of its events, each valid with the one before as
  self-parent, the gas used by all of them plus what is left at the end is at most what was left at
  the start plus the validator's rate times the time that passed (sums of the exact natural
  numbers; no step wraps around in the validator's favour).
\<close>

theorem gas_chain_bound:
  assumes "gas_chain C ctx sp es" "k < 2" "gc_Idx (conf k ctx) = k"
    "calcValidatorGasPowerPerSec (ev_Creator sp) (vc_Validators ctx) (conf k ctx) = Inr (rate, mx, st)"
  shows "sum_list (map (\<lambda>e. unat (ev_gasPowerUsed e)) es) + unat (gas_of k (last (sp # es))) \<le>
     unat (gas_of k sp) + (elapsed sp es * unat rate) div 10 ^ 9"
  using assms by (rule gas_chain_bound_helper)

theorem gas_chain_bound_witness:
  "unat (ev_gasPowerUsed demo_event) + unat (gas_of 0 demo_event) \<le> 1000000 + (10 ^ 9 * 1000000) div 10 ^ 9"
proof -
  have "gas_chain demo_check_lib demo_ctx demo_parent [demo_event]"
    "gc_Idx (conf 0 demo_ctx) = 0"
    "calcValidatorGasPowerPerSec (ev_Creator demo_parent) (vc_Validators demo_ctx) (conf 0 demo_ctx) =
       Inr (1000000, 3600000000, 5000000)"
    by code_simp+
  from gas_chain_bound [OF this(1) _ this(2,3)] show ?thesis
    by (simp add: demo_event_def demo_parent_def build_def mut_event.extend_def zero_event_def gas_list_def)
qed



text \<open>
  The gas of the transactions is summed modulo 2^64: an event with two transactions of gas
  limit 2^63 each passes the gas check of the epoch rules, and its transactions the basic check,
  while it is charged for an event without transactions.
\<close>

definition huge_gas_event :: event_payload where
  "huge_gas_event = demo_event\<lparr>ev_txs := [demo_tx 0 0x8000000000000000, demo_tx 1 0x8000000000000000]\<rparr>"

theorem txs_gas_wraps:
  "checkGas huge_gas_event MainNetRules = Inr () \<and> basic_Validate demo_check_lib huge_gas_event = Inr () \<and>
   ev_gasPowerUsed huge_gas_event = 28000 \<and>
   sum_list (map (\<lambda>tx. uint (tx_Gas tx)) (ev_txs huge_gas_event)) = 2 ^ 64"
  by code_simp

end
