(* ===== verification/Heavycheck.thy ===== *)
theory Heavycheck
  imports Eventcheck "HOL-Library.Multiset"
begin

text \<open>
  The concurrent part of src/eventcheck: \<open>parentlesscheck\<close> filters a batch and hands the rest to
  \<open>heavycheck\<close>, whose \<open>Enqueue\<close> cuts it into smaller batches for a bounded channel, and whose
  worker threads take them, check every task and call back. Producers, channel and threads are the
  step relation \<open>hstep\<close>. The theorems show that every batch is delivered at most once and none is
  lost unless the checker is stopped, that a delivered batch has a result of \<open>heavy_Validate\<close> for
  each task, and that a running checker can always finish what it has accepted.
\<close>

section \<open>Cutting into batches\<close>

text \<open>
  The loop of \<open>Enqueue\<close> from position \<open>start\<close>; it never ends when the batch size is zero and there
  is a task.
\<close>

partial_function (option) enqueue_batches :: "nat \<Rightarrow> nat \<Rightarrow> 'a list \<Rightarrow> 'a list list option" where
  "enqueue_batches maxBatch start tasks =
     (if start < length tasks
      then let stop = (if length tasks > start + maxBatch then start + maxBatch else length tasks)
           in Option.bind (enqueue_batches maxBatch (start + maxBatch) tasks)
                (\<lambda>bs. Some (take (stop - start) (drop start tasks) # bs))
      else Some [])"

lemma enqueue_batches_spec:
  assumes "0 < m"
  shows "\<exists>bs. enqueue_batches m start tasks = Some bs \<and> concat bs = drop start tasks \<and>
    (\<forall>b \<in> set bs. b \<noteq> [] \<and> length b \<le> m)"
proof (induction "length tasks - start" arbitrary: start rule: less_induct)
  case less
  show ?case
  proof (cases "start < length tasks")
    case True
    let ?stop = "if length tasks > start + m then start + m else length tasks"
    obtain bs where bs: "enqueue_batches m (start + m) tasks = Some bs" "concat bs = drop (start + m) tasks"
        "\<forall>b \<in> set bs. b \<noteq> [] \<and> length b \<le> m"
    proof -
      have "length tasks - (start + m) < length tasks - start" using True assms by linarith
      from less [OF this] show thesis using that by blast
    qed
    let ?b = "take (?stop - start) (drop start tasks)"
    have "enqueue_batches m start tasks = Some (?b # bs)"
      using True bs(1) by (subst enqueue_batches.simps) simp
    moreover have "?b @ drop (start + m) tasks = drop start tasks"
    proof (cases "length tasks > start + m")
      case True
      then show ?thesis using append_take_drop_id [of m "drop start tasks"] by (simp add: add.commute)
    qed simp
    moreover have "?b \<noteq> [] \<and> length ?b \<le> m" using True assms by auto
    ultimately show ?thesis using bs by auto
  next
    case False
    then show ?thesis by (subst enqueue_batches.simps) simp
  qed
qed

lemma enqueue_batches_zero: "start < length tasks \<Longrightarrow> enqueue_batches 0 start tasks = None"
proof -
  have "m = 0 \<longrightarrow> \<not> start < length tasks" if "enqueue_batches m start tasks = Some bs" for m start and tasks :: "'a list" and bs
  proof (rule enqueue_batches.raw_induct [where P = "\<lambda>m start tasks bs. m = 0 \<longrightarrow> \<not> start < length tasks", OF _ that])
    fix f m start and tasks :: "'a list" and bs
    assume ih: "\<And>m start tasks bs. f m start tasks = Some bs \<Longrightarrow> m = 0 \<longrightarrow> \<not> start < length tasks"
      and eq: "(if start < length tasks
        then let stop = (if length tasks > start + m then start + m else length tasks)
             in Option.bind (f m (start + m) tasks) (\<lambda>bs. Some (take (stop - start) (drop start tasks) # bs))
        else Some []) = Some bs"
    show "m = 0 \<longrightarrow> \<not> start < length tasks"
    proof (intro impI notI)
      assume "m = 0" "start < length tasks"
      then obtain bs' where "f m (start + m) tasks = Some bs'"
        using eq by (auto simp: Let_def Option.bind_eq_Some_conv split: if_splits)
      from ih [OF this] \<open>m = 0\<close> \<open>start < length tasks\<close> show False by simp
    qed
  qed
  then show "start < length tasks \<Longrightarrow> enqueue_batches 0 start tasks = None" by fastforce
qed

section \<open>parentlesscheck\<close>

text \<open>
  The loop over the tasks: the calls of \<open>checked\<close> it makes, in order, and the tasks that passed.
\<close>

fun parentless_loop ::
  "('e \<Rightarrow> bool) \<Rightarrow> ('e \<Rightarrow> unit res) \<Rightarrow> 'e list \<Rightarrow> ('e \<times> unit res) list \<times> 'e list" where
  "parentless_loop interested light [] = ([], [])"
| "parentless_loop interested light (t # ts) =
     (let (calls, passed) = parentless_loop interested light ts
      in if \<not> interested t then ((t, Inl (Err ErrNotRelevant)) # calls, passed)
         else case light t of
           Inl err \<Rightarrow> ((t, Inl err) # calls, passed)
         | Inr _ \<Rightarrow> (calls, t # passed))"

definition parentless_Enqueue ::
  "('e \<Rightarrow> bool) \<Rightarrow> ('e \<Rightarrow> unit res) \<Rightarrow> nat \<Rightarrow> 'e list \<Rightarrow> (('e \<times> unit res) list \<times> 'e list list) option" where
  "parentless_Enqueue interested light maxBatch tasks =
     (let (calls, passed) = parentless_loop interested light tasks
      in map_option (\<lambda>bs. (calls, bs)) (enqueue_batches maxBatch 0 passed))"

lemma parentless_loop_spec:
  "parentless_loop interested light ts =
     (map (\<lambda>t. (t, if interested t then light t else Inl (Err ErrNotRelevant)))
        (filter (\<lambda>t. \<not> (interested t \<and> light t = Inr ())) ts),
      filter (\<lambda>t. interested t \<and> light t = Inr ()) ts)"
  by (induction ts) (auto split: sum.splits)

section \<open>The checker pool\<close>

record heavy_config =
  MaxQueuedBatches :: nat
  MaxBatch :: nat
  cfg_Threads :: nat

definition heavy_DefaultConfig :: heavy_config where
  "heavy_DefaultConfig = \<lparr>MaxQueuedBatches = 128, MaxBatch = 8, cfg_Threads = 0\<rparr>"

text \<open>The number of threads \<open>New\<close> settles on, given what \<open>runtime.NumCPU\<close> returns.\<close>

definition heavy_Threads :: "heavy_config \<Rightarrow> nat \<Rightarrow> nat" where
  "heavy_Threads config numCPU =
     (if cfg_Threads config = 0
      then let t = numCPU; t = (if t > 1 then t - 1 else t) in if t < 1 then 1 else t
      else cfg_Threads config)"

type_synonym batch = "event_payload list"
type_synonym key_env = "(u32 \<rightharpoonup> pub_key) \<times> u32"

text \<open>
  \<open>pending\<close>: for each running call of \<open>Enqueue\<close> the batches it still has to send; \<open>queue\<close>: the
  channel; \<open>running\<close>: for each busy thread its batch and the results set so far; \<open>idle\<close>: the
  threads that wait; \<open>dropped\<close>: the batches of calls that returned \<open>errTerminated\<close>. \<open>env\<close> is what
  the reader of the checker returns at the moment and \<open>envs\<close> all it has returned.
\<close>

record pool =
  pl_pending :: "batch list list"
  pl_queue :: "batch list"
  pl_running :: "(batch \<times> unit res list) list"
  pl_idle :: nat
  pl_delivered :: "(event_payload \<times> unit res) list list"
  pl_dropped :: "batch list"
  pl_quit :: bool
  pl_env :: key_env
  pl_envs :: "key_env list"
  pl_submitted :: "batch list"

definition pool_New :: "nat \<Rightarrow> key_env \<Rightarrow> pool" where
  "pool_New threads env = \<lparr>pl_pending = [], pl_queue = [], pl_running = [], pl_idle = threads, pl_delivered = [],
     pl_dropped = [], pl_quit = False, pl_env = env, pl_envs = [env], pl_submitted = []\<rparr>"

definition Overloaded :: "heavy_config \<Rightarrow> pool \<Rightarrow> bool" where
  "Overloaded config s \<longleftrightarrow> length (pl_queue s) > MaxQueuedBatches config div 2"

inductive hstep :: "check_lib \<Rightarrow> nat \<Rightarrow> nat \<Rightarrow> pool \<Rightarrow> pool \<Rightarrow> bool"
  for C :: check_lib and maxBatch maxQueued :: nat where
  hs_call: "enqueue_batches maxBatch 0 tasks = Some bs \<Longrightarrow>
    hstep C maxBatch maxQueued s (s\<lparr>pl_pending := pl_pending s @ [bs], pl_submitted := pl_submitted s @ bs\<rparr>)"
| hs_send: "pl_pending s = ps @ (b # bs) # ps' \<Longrightarrow> length (pl_queue s) < maxQueued \<Longrightarrow>
    hstep C maxBatch maxQueued s (s\<lparr>pl_pending := ps @ bs # ps', pl_queue := pl_queue s @ [b]\<rparr>)"
| hs_return: "pl_pending s = ps @ [] # ps' \<Longrightarrow> hstep C maxBatch maxQueued s (s\<lparr>pl_pending := ps @ ps'\<rparr>)"
| hs_terminated: "pl_pending s = ps @ bs # ps' \<Longrightarrow> bs \<noteq> [] \<Longrightarrow> pl_quit s \<Longrightarrow>
    hstep C maxBatch maxQueued s (s\<lparr>pl_pending := ps @ ps', pl_dropped := pl_dropped s @ bs\<rparr>)"
| hs_take: "pl_queue s = b # q \<Longrightarrow> pl_idle s = Suc n \<Longrightarrow>
    hstep C maxBatch maxQueued s (s\<lparr>pl_queue := q, pl_idle := n, pl_running := pl_running s @ [(b, [])]\<rparr>)"
| hs_check: "pl_running s = rs @ (b, ds) # rs' \<Longrightarrow> length ds < length b \<Longrightarrow>
    r = heavy_Validate C (fst (pl_env s)) (snd (pl_env s)) (b ! length ds) \<Longrightarrow>
    hstep C maxBatch maxQueued s (s\<lparr>pl_running := rs @ (b, ds @ [r]) # rs'\<rparr>)"
| hs_deliver: "pl_running s = rs @ (b, ds) # rs' \<Longrightarrow> length ds = length b \<Longrightarrow>
    hstep C maxBatch maxQueued s (s\<lparr>pl_running := rs @ rs', pl_idle := Suc (pl_idle s),
      pl_delivered := pl_delivered s @ [zip b ds]\<rparr>)"
| hs_env: "hstep C maxBatch maxQueued s (s\<lparr>pl_env := env, pl_envs := env # pl_envs s\<rparr>)"
| hs_quit: "hstep C maxBatch maxQueued s (s\<lparr>pl_quit := True\<rparr>)"
| hs_stop: "pl_quit s \<Longrightarrow> pl_idle s = Suc n \<Longrightarrow> hstep C maxBatch maxQueued s (s\<lparr>pl_idle := n\<rparr>)"

inductive_cases hstepE: "hstep C m q s s'"

definition good_result :: "check_lib \<Rightarrow> key_env list \<Rightarrow> event_payload \<Rightarrow> unit res \<Rightarrow> bool" where
  "good_result C envs e r \<longleftrightarrow> (\<exists>env \<in> set envs. r = heavy_Validate C (fst env) (snd env) e)"

definition run_ok :: "check_lib \<Rightarrow> key_env list \<Rightarrow> batch \<times> unit res list \<Rightarrow> bool" where
  "run_ok C envs x \<longleftrightarrow> length (snd x) \<le> length (fst x) \<and>
     (\<forall>i < length (snd x). good_result C envs (fst x ! i) (snd x ! i))"

definition pool_inv :: "check_lib \<Rightarrow> nat \<Rightarrow> nat \<Rightarrow> nat \<Rightarrow> pool \<Rightarrow> bool" where
  "pool_inv C threads maxBatch maxQueued s \<longleftrightarrow>
     length (pl_running s) + pl_idle s \<le> threads \<and> (\<not> pl_quit s \<longrightarrow> length (pl_running s) + pl_idle s = threads) \<and>
     length (pl_queue s) \<le> maxQueued \<and>
     mset (pl_submitted s) = mset (concat (pl_pending s)) + mset (pl_queue s) + mset (map fst (pl_running s)) +
       mset (map (map fst) (pl_delivered s)) + mset (pl_dropped s) \<and>
     (\<not> pl_quit s \<longrightarrow> pl_dropped s = []) \<and> pl_env s \<in> set (pl_envs s) \<and>
     (\<forall>x \<in> set (pl_running s). run_ok C (pl_envs s) x) \<and>
     (\<forall>d \<in> set (pl_delivered s). \<forall>x \<in> set d. good_result C (pl_envs s) (fst x) (snd x))"

lemma good_result_mono: "good_result C envs e r \<Longrightarrow> good_result C (env # envs) e r"
  by (auto simp: good_result_def)

lemma run_ok_mono: "run_ok C envs x \<Longrightarrow> run_ok C (env # envs) x"
  by (simp add: run_ok_def good_result_mono)

lemma pool_inv_New: "pool_inv C threads m q (pool_New threads env)"
  by (simp add: pool_inv_def pool_New_def)

lemma nth_append_result:
  assumes "\<forall>i < length ds. P (b ! i) (ds ! i)" "P (b ! length ds) r" "i < Suc (length ds)"
  shows "P (b ! i) ((ds @ [r]) ! i)"
  using assms by (auto simp: nth_append less_Suc_eq)

lemma pool_inv_step:
  assumes "hstep C m q s s'" "pool_inv C threads m q s"
  shows "pool_inv C threads m q s'"
  using assms
proof (cases rule: hstep.cases)
  case (hs_check rs b ds rs' r)
  have ds: "run_ok C (pl_envs s) (b, ds)" using assms(2) hs_check(2) by (simp add: pool_inv_def)
  moreover have "good_result C (pl_envs s) (b ! length ds) r"
    using assms(2) hs_check by (auto simp: good_result_def pool_inv_def)
  ultimately have "run_ok C (pl_envs s) (b, ds @ [r])"
    using hs_check(3) nth_append_result [of ds "good_result C (pl_envs s)" b r] by (simp add: run_ok_def)
  with assms(2) hs_check show ?thesis by (simp add: pool_inv_def)
next
  case (hs_deliver rs b ds rs')
  have "run_ok C (pl_envs s) (b, ds)" using assms(2) hs_deliver by (simp add: pool_inv_def)
  then have "\<forall>x \<in> set (zip b ds). good_result C (pl_envs s) (fst x) (snd x)"
    by (auto simp: run_ok_def set_zip)
  moreover have "map fst (zip b ds) = b" using hs_deliver by simp
  ultimately show ?thesis using assms(2) hs_deliver by (simp add: pool_inv_def)
next
  case (hs_env env)
  with assms(2) show ?thesis by (simp add: pool_inv_def run_ok_mono good_result_mono)
next
  case (hs_take b qs n)
  with assms(2) show ?thesis by (simp add: pool_inv_def run_ok_def)
qed (auto simp: pool_inv_def)

lemma pool_inv_reachable:
  assumes "(hstep C m q)\<^sup>*\<^sup>* (pool_New threads env) s" shows "pool_inv C threads m q s"
  using assms by (induction rule: rtranclp_induct) (auto intro: pool_inv_New pool_inv_step)

section \<open>The pool can finish\<close>

definition idle_pool :: "pool \<Rightarrow> bool" where
  "idle_pool s \<longleftrightarrow> pl_pending s = [] \<and> pl_queue s = [] \<and> pl_running s = []"

definition work :: "pool \<Rightarrow> nat" where
  "work s = sum_list (map (\<lambda>x. length (fst x) - length (snd x) + 1) (pl_running s))
     + sum_list (map (\<lambda>b. length b + 2) (pl_queue s))
     + sum_list (map (\<lambda>bs. 1 + sum_list (map (\<lambda>b. length b + 3) bs)) (pl_pending s))"

lemma pool_progress:
  assumes inv: "pool_inv C threads m q s" and "\<not> pl_quit s" "0 < threads" "0 < q" "\<not> idle_pool s"
  obtains s' where "hstep C m q s s'" "\<not> pl_quit s'" "work s' < work s"
proof (cases "pl_running s")
  case (Cons x rs)
  obtain b ds where x: "x = (b, ds)" by (cases x)
  have le: "length ds \<le> length b" using inv Cons x by (auto simp: pool_inv_def run_ok_def)
  show thesis
  proof (cases "length ds < length b")
    case True
    let ?r = "heavy_Validate C (fst (pl_env s)) (snd (pl_env s)) (b ! length ds)"
    have "hstep C m q s (s\<lparr>pl_running := [] @ (b, ds @ [?r]) # rs\<rparr>)"
      by (rule hs_check [OF _ True refl]) (simp add: Cons x)
    then show thesis by (rule that) (use assms(2) True Cons x in \<open>auto simp: work_def\<close>)
  next
    case False
    then have "hstep C m q s (s\<lparr>pl_running := [] @ rs, pl_idle := Suc (pl_idle s),
        pl_delivered := pl_delivered s @ [zip b ds]\<rparr>)"
      by (intro hs_deliver) (use Cons x le in auto)
    then show thesis by (rule that) (use assms(2) Cons x in \<open>auto simp: work_def\<close>)
  qed
next
  case Nil
  then obtain n where n: "pl_idle s = Suc n"
    using inv assms(2,3) by (cases "pl_idle s") (auto simp: pool_inv_def)
  show thesis
  proof (cases "pl_queue s")
    case (Cons b qs)
    from hs_take [OF this n, of C m q] show thesis
      by (rule that) (use assms(2) Cons Nil in \<open>auto simp: work_def\<close>)
  next
    case qNil: Nil
    then obtain bs ps where p: "pl_pending s = bs # ps"
      using assms(5) Nil by (cases "pl_pending s") (auto simp: idle_pool_def)
    show thesis
    proof (cases bs)
      case bNil: Nil
      have "hstep C m q s (s\<lparr>pl_pending := [] @ ps\<rparr>)" by (rule hs_return) (simp add: p bNil)
      then show thesis by (rule that) (use assms(2) p bNil in \<open>auto simp: work_def\<close>)
    next
      case (Cons b bs')
      have "hstep C m q s (s\<lparr>pl_pending := [] @ bs' # ps, pl_queue := pl_queue s @ [b]\<rparr>)"
        by (rule hs_send) (use p Cons qNil assms(4) in auto)
      then show thesis by (rule that) (use assms(2) p Cons qNil in \<open>auto simp: work_def\<close>)
    qed
  qed
qed

lemma pool_finishes_helper:
  assumes "pool_inv C threads m q s" "\<not> pl_quit s" "0 < threads" "0 < q"
  shows "\<exists>s'. (hstep C m q)\<^sup>*\<^sup>* s s' \<and> idle_pool s' \<and> \<not> pl_quit s'"
  using assms(1,2)
proof (induction "work s" arbitrary: s rule: less_induct)
  case less
  show ?case
  proof (cases "idle_pool s")
    case False
    then obtain s1 where s1: "hstep C m q s s1" "\<not> pl_quit s1" "work s1 < work s"
      using pool_progress [OF less.prems assms(3,4)] by blast
    then obtain s' where "(hstep C m q)\<^sup>*\<^sup>* s1 s'" "idle_pool s'" "\<not> pl_quit s'"
      using less.hyps [OF s1(3) pool_inv_step [OF s1(1) less.prems(1)] s1(2)] by blast
    with s1(1) show ?thesis by (meson converse_rtranclp_into_rtranclp)
  qed (use less.prems in blast)
qed

lemma idle_delivered:
  assumes "pool_inv C threads m q s" "\<not> pl_quit s" "idle_pool s"
  shows "mset (map (map fst) (pl_delivered s)) = mset (pl_submitted s)"
  using assms by (simp add: pool_inv_def idle_pool_def)

section \<open>Properties\<close>

text \<open>
  C18. The checker pool, in every state it can reach, whatever the interleaving of callers,
  threads, changes of epoch and stop: the channel and the threads stay within their bounds; every
  batch that was submitted is in exactly one place (waiting to be sent, in the channel, with a
  thread, delivered, or refused after a stop), and none is refused before a stop; and every
  delivered task has the result of \<open>heavy_Validate\<close> under some key set the reader has returned.
\<close>

theorem pool_safe:
  assumes "(hstep C m q)\<^sup>*\<^sup>* (pool_New threads env) s"
  shows "length (pl_running s) + pl_idle s \<le> threads \<and> length (pl_queue s) \<le> q \<and>
    mset (pl_submitted s) = mset (concat (pl_pending s)) + mset (pl_queue s) + mset (map fst (pl_running s)) +
      mset (map (map fst) (pl_delivered s)) + mset (pl_dropped s) \<and>
    (\<not> pl_quit s \<longrightarrow> pl_dropped s = []) \<and>
    (\<forall>d \<in> set (pl_delivered s). \<forall>x \<in> set d.
       \<exists>env \<in> set (pl_envs s). snd x = heavy_Validate C (fst env) (snd env) (fst x))"
  using pool_inv_reachable [OF assms] by (auto simp: pool_inv_def good_result_def)

definition demo_env :: key_env where
  "demo_env = (ck_addrs demo_checkers, 2)"

lemma demo_batches: "enqueue_batches 8 0 [demo_event] = Some [[demo_event]]"
  using enqueue_batches.simps [of 8 0 "[demo_event]"] enqueue_batches.simps [of 8 8 "[demo_event]"] by simp

theorem pool_safe_witness:
  "\<exists>s. (hstep demo_check_lib 8 128)\<^sup>*\<^sup>* (pool_New 2 demo_env) s \<and> pl_submitted s = [[demo_event]] \<and>
    length (pl_running s) + pl_idle s \<le> 2"
proof -
  have "hstep demo_check_lib 8 128 (pool_New 2 demo_env)
      ((pool_New 2 demo_env)\<lparr>pl_pending := pl_pending (pool_New 2 demo_env) @ [[[demo_event]]],
        pl_submitted := pl_submitted (pool_New 2 demo_env) @ [[demo_event]]\<rparr>)" (is "hstep _ _ _ _ ?s")
    by (rule hs_call [OF demo_batches])
  then have r: "(hstep demo_check_lib 8 128)\<^sup>*\<^sup>* (pool_New 2 demo_env) ?s" by blast
  from pool_safe [OF r] r show ?thesis by (intro exI [of _ ?s]) (simp add: pool_New_def)
qed

text \<open>
  C19. Liveness: as long as the checker is not stopped and has a thread and a channel, from every
  reachable state it can reach one in which no call waits, channel and threads are empty and
  exactly the submitted batches have been delivered, each once.
\<close>

theorem pool_finishes:
  assumes "(hstep C m q)\<^sup>*\<^sup>* (pool_New threads env) s" "\<not> pl_quit s" "0 < threads" "0 < q"
  shows "\<exists>s'. (hstep C m q)\<^sup>*\<^sup>* s s' \<and> idle_pool s' \<and>
    mset (map (map fst) (pl_delivered s')) = mset (pl_submitted s')"
proof -
  obtain s' where s': "(hstep C m q)\<^sup>*\<^sup>* s s'" "idle_pool s'" "\<not> pl_quit s'"
    using pool_finishes_helper [OF pool_inv_reachable [OF assms(1)] assms(2-)] by blast
  have "pool_inv C threads m q s'" using assms(1) s'(1) by (intro pool_inv_reachable) (rule rtranclp_trans)
  with s' idle_delivered show ?thesis by blast
qed

theorem pool_finishes_witness:
  "\<exists>s'. (hstep demo_check_lib 8 128)\<^sup>*\<^sup>* (pool_New 2 demo_env) s' \<and> idle_pool s'"
  using pool_finishes [of demo_check_lib 8 128 2 demo_env "pool_New 2 demo_env"] by (auto simp: pool_New_def)



end
