(* ===== verification/Blockproc.thy ===== *)
theory Blockproc
  imports Eventcheck
begin

text \<open>
  src/gossip/blockproc: the state decided by the consensus (block state and epoch state), the
  module that accounts confirmed events to validators and the module that seals epochs; from
  src/gossip/c_block_callbacks.go the merging of cheaters and the spilling of events over the
  block's gas limit.

  A validator's \<open>Originated\<close> is a pointer to a big integer that is changed in place, so the model
  keeps these integers in a heap (a list, an address is a position) and the states hold addresses.
\<close>

section \<open>Decided state\<close>

type_synonym big_heap = "int list"

record vblock_state =
  vb_Cheater :: bool
  vb_LastEvent :: bytes
  vb_Uptime :: u64
  vb_LastOnlineTime :: u64
  vb_LastGasPowerLeft :: gas_power_left
  vb_LastBlock :: u64
  vb_DirtyGasRefund :: u64
  vb_Originated :: nat

record vepoch_state =
  ve_GasRefund :: u64
  ve_PrevEpochEvent :: bytes

record block_ctx =
  bc_Idx :: u64
  bc_Time :: u64
  bc_Atropos :: bytes

record validator_profile =
  vp_Weight :: int
  vp_PubKey :: pub_key

type_synonym profiles = "u32 \<rightharpoonup> validator_profile"

record block_state =
  bs_LastBlock :: block_ctx
  bs_FinalizedStateRoot :: bytes
  bs_EpochGas :: u64
  bs_EpochCheaters :: "u32 list"
  bs_ValidatorStates :: "vblock_state list"
  bs_NextValidatorProfiles :: profiles
  bs_DirtyRules :: rules
  bs_AdvanceEpochs :: u32

record epoch_state =
  es_Epoch :: u32
  es_EpochStart :: u64
  es_PrevEpochStart :: u64
  es_EpochStateRoot :: bytes
  es_Validators :: validators
  es_ValidatorStates :: "vepoch_state list"
  es_ValidatorProfiles :: profiles
  es_Rules :: rules

text \<open>
  \<open>Copy\<close> copies slices, map and rules; the elements of \<open>ValidatorStates\<close> are copied as structs, so
  the pointers in them stay the same.
\<close>

definition bs_Copy :: "block_state \<Rightarrow> block_state" where
  "bs_Copy bs = bs"

definition es_Duration :: "epoch_state \<Rightarrow> u64" where
  "es_Duration es = es_EpochStart es - es_PrevEpochStart es"

definition bs_GetValidatorState :: "block_state \<Rightarrow> u32 \<Rightarrow> validators \<Rightarrow> vblock_state res" where
  "bs_GetValidatorState bs vid vs =
     (let i = v_GetIdx vs vid
      in if i < length (bs_ValidatorStates bs) then Inr (bs_ValidatorStates bs ! i) else Inl (Panic IndexOutOfRange))"

section \<open>Cheaters and spilled events\<close>

definition mergeCheaters :: "u32 list \<Rightarrow> u32 list \<Rightarrow> u32 list" where
  "mergeCheaters a b =
     (if length b = 0 then a else if length a = 0 then b
      else a @ filter (\<lambda>v. v \<notin> set a) b)"

text \<open>
  The reverse loop over the events: \<open>rest\<close> are the events before the current one in reverse order,
  \<open>full\<close> the ones behind it. \<open>gasOf\<close> is the gas power used of a stored event.
\<close>

fun spill_loop :: "('e \<Rightarrow> u64) \<Rightarrow> u64 \<Rightarrow> 'e list \<Rightarrow> u64 \<Rightarrow> 'e list \<Rightarrow> 'e list" where
  "spill_loop gasOf maxGas [] acc full = full"
| "spill_loop gasOf maxGas (e # rest) acc full =
     (let acc = acc + gasOf e
      in if acc > maxGas then full else spill_loop gasOf maxGas rest acc (e # full))"

definition spillBlockEvents :: "('e \<Rightarrow> u64) \<Rightarrow> rules \<Rightarrow> 'e list \<Rightarrow> 'e list" where
  "spillBlockEvents gasOf network events = spill_loop gasOf (MaxBlockGas (ru_Blocks network)) (rev events) 0 []"

section \<open>Confirmed events\<close>

record events_processor =
  evp_es :: epoch_state
  evp_bs :: block_state
  evp_highest :: "event_payload option list"

definition events_Start :: "block_state \<Rightarrow> epoch_state \<Rightarrow> events_processor" where
  "events_Start bs es = \<lparr>evp_es = es, evp_bs = bs, evp_highest = replicate (v_Len (es_Validators es)) None\<rparr>"

definition ProcessConfirmedEvent :: "event_payload \<Rightarrow> events_processor \<Rightarrow> events_processor res" where
  "ProcessConfirmedEvent e p =
     (let creatorIdx = v_GetIdx (es_Validators (evp_es p)) (ev_Creator e)
      in if creatorIdx < length (evp_highest p)
         then let prev = evp_highest p ! creatorIdx;
                  p = (if prev = None \<or> ev_Seq e > ev_Seq (the prev)
                       then p\<lparr>evp_highest := (evp_highest p)[creatorIdx := Some e]\<rparr> else p)
              in Inr (p\<lparr>evp_bs := (evp_bs p)\<lparr>bs_EpochGas := bs_EpochGas (evp_bs p) + ev_gasPowerUsed e\<rparr>\<rparr>)
         else Inl (Panic IndexOutOfRange))"

fun clear_cheaters :: "validators \<Rightarrow> u32 list \<Rightarrow> event_payload option list \<Rightarrow> event_payload option list res" where
  "clear_cheaters vs [] hi = Inr hi"
| "clear_cheaters vs (v # cs) hi =
     (let i = v_GetIdx vs v
      in if i < length hi then clear_cheaters vs cs (hi[i := None]) else Inl (Panic IndexOutOfRange))"

definition account_event :: "epoch_state \<Rightarrow> block_ctx \<Rightarrow> event_payload \<Rightarrow> vblock_state \<Rightarrow> vblock_state" where
  "account_event es blk e info =
     (let info =
        (if bc_Idx blk \<le> vb_LastBlock info + BlockMissedSlack (ru_Economy (es_Rules es))
         then let prevOnlineTime = (if Berlin (Upgrades (es_Rules es))
                    then MaxTimestamp (vb_LastOnlineTime info) (es_EpochStart es) else vb_LastOnlineTime info)
              in if ev_medianTime e > prevOnlineTime
                 then info\<lparr>vb_Uptime := vb_Uptime info + (ev_medianTime e - prevOnlineTime)\<rparr> else info
         else info)
      in info\<lparr>vb_LastGasPowerLeft := ev_gasPowerLeft e, vb_LastOnlineTime := ev_medianTime e,
              vb_LastBlock := bc_Idx blk, vb_LastEvent := ep_ID e\<rparr>)"

fun account_loop ::
  "epoch_state \<Rightarrow> block_ctx \<Rightarrow> nat \<Rightarrow> event_payload option list \<Rightarrow> vblock_state list \<Rightarrow> vblock_state list res" where
  "account_loop es blk i [] vss = Inr vss"
| "account_loop es blk i (None # hs) vss = account_loop es blk (i + 1) hs vss"
| "account_loop es blk i (Some e # hs) vss =
     (if i < length vss then account_loop es blk (i + 1) hs (vss[i := account_event es blk e (vss ! i)])
      else Inl (Panic IndexOutOfRange))"

definition events_Finalize :: "block_ctx \<Rightarrow> events_processor \<Rightarrow> block_state res" where
  "events_Finalize blk p =
     bind_res (clear_cheaters (es_Validators (evp_es p)) (bs_EpochCheaters (evp_bs p)) (evp_highest p)) (\<lambda>hi.
       bind_res (account_loop (evp_es p) blk 0 hi (bs_ValidatorStates (evp_bs p))) (\<lambda>vss.
         Inr ((evp_bs p)\<lparr>bs_ValidatorStates := vss\<rparr>)))"

section \<open>Sealing\<close>

record sealer =
  sl_block :: block_ctx
  sl_es :: epoch_state
  sl_bs :: block_state

definition sealer_Start :: "block_ctx \<Rightarrow> block_state \<Rightarrow> epoch_state \<Rightarrow> sealer" where
  "sealer_Start blk bs es = \<lparr>sl_block = blk, sl_es = es, sl_bs = bs\<rparr>"

definition EpochSealing :: "sealer \<Rightarrow> bool" where
  "EpochSealing s \<longleftrightarrow>
     bs_EpochGas (sl_bs s) \<ge> MaxEpochGas (ru_Epochs (es_Rules (sl_es s)))
     \<or> bc_Time (sl_block s) - es_EpochStart (sl_es s) \<ge> MaxEpochDuration (ru_Epochs (es_Rules (sl_es s)))
     \<or> bs_AdvanceEpochs (sl_bs s) > 0
     \<or> length (bs_EpochCheaters (sl_bs s)) \<noteq> 0"

definition sealer_Update :: "block_state \<Rightarrow> epoch_state \<Rightarrow> sealer \<Rightarrow> sealer" where
  "sealer_Update bs es s = s\<lparr>sl_bs := bs, sl_es := es\<rparr>"

definition zero_vblock :: "nat \<Rightarrow> vblock_state" where
  "zero_vblock originated = \<lparr>vb_Cheater = False, vb_LastEvent = replicate 32 0, vb_Uptime = 0, vb_LastOnlineTime = 0,
     vb_LastGasPowerLeft = \<lparr>Gas0 = 0, Gas1 = 0\<rparr>, vb_LastBlock = 0, vb_DirtyGasRefund = 0, vb_Originated = originated\<rparr>"

definition zero_vepoch :: vepoch_state where
  "zero_vepoch = \<lparr>ve_GasRefund = 0, ve_PrevEpochEvent = replicate 32 0\<rparr>"

text \<open>
  The state of one validator of the new epoch. \<open>new(big.Int)\<close> allocates an integer for every new
  validator, also for one that inherits its old state and drops the new integer again.
\<close>

definition seal_validator ::
  "validators \<Rightarrow> vblock_state list \<Rightarrow> block_ctx \<Rightarrow> u32 \<Rightarrow> big_heap \<Rightarrow> ((vblock_state \<times> vepoch_state) \<times> big_heap) res" where
  "seal_validator old vss blk valID h =
     (let fresh = zero_vblock (length h); h = h @ [0]
      in if \<not> v_Exists old valID
         then Inr ((fresh\<lparr>vb_LastBlock := bc_Idx blk, vb_LastOnlineTime := bc_Time blk\<rparr>, zero_vepoch), h)
         else let oldIdx = v_GetIdx old valID
              in if oldIdx < length vss
                 then let st = vss ! oldIdx
                      in Inr ((st\<lparr>vb_DirtyGasRefund := 0, vb_Uptime := 0\<rparr>,
                          \<lparr>ve_GasRefund = vb_DirtyGasRefund st, ve_PrevEpochEvent = vb_LastEvent st\<rparr>), h)
                 else Inl (Panic IndexOutOfRange))"

fun seal_loop ::
  "validators \<Rightarrow> vblock_state list \<Rightarrow> block_ctx \<Rightarrow> u32 list \<Rightarrow> big_heap \<Rightarrow>
     ((vblock_state \<times> vepoch_state) list \<times> big_heap) res" where
  "seal_loop old vss blk [] h = Inr ([], h)"
| "seal_loop old vss blk (valID # ids) h =
     bind_res (seal_validator old vss blk valID h) (\<lambda>(x, h).
       bind_res (seal_loop old vss blk ids h) (\<lambda>(xs, h). Inr (x # xs, h)))"

text \<open>\<open>buildVals\<close>: the library's builder, filled with the weights of the next validators, and \<open>Build\<close>.\<close>

definition SealEpoch ::
  "((u32 \<rightharpoonup> int) \<Rightarrow> validators) \<Rightarrow> sealer \<Rightarrow> big_heap \<Rightarrow> ((block_state \<times> epoch_state) \<times> big_heap) res" where
  "SealEpoch buildVals s h =
     (let bs = sl_bs s; es = sl_es s;
          newVals = buildVals (\<lambda>v. map_option vp_Weight (bs_NextValidatorProfiles bs v))
      in bind_res (seal_loop (es_Validators es) (bs_ValidatorStates bs) (sl_block s)
                     (map (v_GetID newVals) [0..<v_Len newVals]) h) (\<lambda>(sts, h).
         let es = es\<lparr>es_Validators := newVals, es_ValidatorProfiles := bs_NextValidatorProfiles bs,
                     es_ValidatorStates := map snd sts,
                     es_PrevEpochStart := es_EpochStart es, es_EpochStart := bc_Time (sl_block s),
                     es_Rules := bs_DirtyRules bs, es_EpochStateRoot := bs_FinalizedStateRoot bs,
                     es_Epoch := es_Epoch es + 1\<rparr>;
             bs = bs\<lparr>bs_ValidatorStates := map fst sts, bs_EpochGas := 0, bs_EpochCheaters := [],
                     bs_AdvanceEpochs := (if bs_AdvanceEpochs bs > 0 then bs_AdvanceEpochs bs - 1 else bs_AdvanceEpochs bs)\<rparr>
         in Inr ((bs, es), h)))"

section \<open>Cheaters and spilling\<close>

lemma mergeCheaters_spec:
  "set (mergeCheaters a b) = set a \<union> set b"
  "distinct a \<Longrightarrow> distinct b \<Longrightarrow> distinct (mergeCheaters a b)"
  "take (length a) (mergeCheaters a b) = a"
  by (auto simp: mergeCheaters_def)

text \<open>The gas of a list of events, as a natural number.\<close>

definition gas_sum :: "('e \<Rightarrow> u64) \<Rightarrow> 'e list \<Rightarrow> nat" where
  "gas_sum gasOf es = sum_list (map (\<lambda>e. unat (gasOf e)) es)"

lemma gas_sum_simps [simp]:
  "gas_sum g [] = 0" "gas_sum g (e # es) = unat (g e) + gas_sum g es" "gas_sum g (es @ fs) = gas_sum g es + gas_sum g fs"
  by (simp_all add: gas_sum_def)

text \<open>The longest suffix within the limit; no suffix that starts earlier is within it.\<close>

lemma spill_loop_spec:
  assumes "\<forall>e \<in> set rest. unat (gasOf e) + unat maxGas < 2 ^ 64" "unat acc = gas_sum gasOf full" "acc \<le> maxGas"
  shows "\<exists>pre suf. rev rest = pre @ suf \<and> spill_loop gasOf maxGas rest acc full = suf @ full \<and>
     gas_sum gasOf (suf @ full) \<le> unat maxGas \<and>
     (pre = [] \<or> unat maxGas < gas_sum gasOf (last pre # suf @ full))"
  using assms
proof (induction rest arbitrary: acc full)
  case Nil
  then show ?case by (simp add: word_le_nat_alt)
next
  case (Cons e rest)
  have add: "unat (acc + gasOf e) = gas_sum gasOf (e # full)"
    using Cons.prems by (subst unat_add_small) (auto simp: word_le_nat_alt)
  show ?case
  proof (cases "acc + gasOf e > maxGas")
    case True
    then have "unat maxGas < gas_sum gasOf (e # full)" using add by (simp add: word_less_nat_alt)
    with True Cons.prems show ?thesis
      by (intro exI [of _ "rev (e # rest)"] exI [of _ "[]"]) (auto simp: word_le_nat_alt)
  next
    case False
    then obtain pre suf where "rev rest = pre @ suf"
        "spill_loop gasOf maxGas rest (acc + gasOf e) (e # full) = suf @ e # full"
        "gas_sum gasOf (suf @ e # full) \<le> unat maxGas"
        "pre = [] \<or> unat maxGas < gas_sum gasOf (last pre # suf @ e # full)"
      using Cons.IH [of "acc + gasOf e" "e # full"] Cons.prems(1) add by (auto simp: not_less)
    with False show ?thesis by (intro exI [of _ pre] exI [of _ "suf @ [e]"]) auto
  qed
qed

section \<open>Well-formed decided state\<close>

text \<open>
  One state per validator, in the order of the indexes, and every \<open>Originated\<close> an allocated integer
  of its own.
\<close>

definition decided_ok :: "block_state \<Rightarrow> epoch_state \<Rightarrow> big_heap \<Rightarrow> bool" where
  "decided_ok bs es h \<longleftrightarrow> validators_ok (es_Validators es) \<and>
     length (bs_ValidatorStates bs) = v_Len (es_Validators es) \<and>
     length (es_ValidatorStates es) = v_Len (es_Validators es) \<and>
     distinct (map vb_Originated (bs_ValidatorStates bs)) \<and>
     (\<forall>a \<in> set (map vb_Originated (bs_ValidatorStates bs)). a < length h)"

lemma account_event_Originated [simp]: "vb_Originated (account_event es blk e info) = vb_Originated info"
  by (simp add: account_event_def Let_def)

lemma account_loop_ok:
  "i + length hs \<le> length vss \<Longrightarrow>
     \<exists>vss'. account_loop es blk i hs vss = Inr vss' \<and> length vss' = length vss \<and>
       map vb_Originated vss' = map vb_Originated vss \<and>
       (\<forall>j < length vss. vss' ! j = (if i \<le> j \<and> j < i + length hs
          then (case hs ! (j - i) of None \<Rightarrow> vss ! j | Some e \<Rightarrow> account_event es blk e (vss ! j)) else vss ! j))"
proof (induction hs arbitrary: i vss)
  case (Cons x hs)
  let ?vss = "case x of None \<Rightarrow> vss | Some e \<Rightarrow> vss[i := account_event es blk e (vss ! i)]"
  have len: "length ?vss = length vss" by (auto split: option.splits)
  have orig: "map vb_Originated ?vss = map vb_Originated vss"
    using Cons.prems by (auto simp: map_update list_update_same_conv split: option.splits)
  have step: "account_loop es blk i (x # hs) vss = account_loop es blk (i + 1) hs ?vss"
    using Cons.prems by (cases x) auto
  obtain vss' where vss': "account_loop es blk (i + 1) hs ?vss = Inr vss'" "length vss' = length vss"
      "map vb_Originated vss' = map vb_Originated vss"
      "\<forall>j < length vss. vss' ! j = (if i + 1 \<le> j \<and> j < i + 1 + length hs
          then (case hs ! (j - (i + 1)) of None \<Rightarrow> ?vss ! j | Some e \<Rightarrow> account_event es blk e (?vss ! j)) else ?vss ! j)"
    using Cons.IH [of "i + 1" ?vss] Cons.prems len orig by auto
  have "vss' ! j = (if i \<le> j \<and> j < i + length (x # hs)
      then (case (x # hs) ! (j - i) of None \<Rightarrow> vss ! j | Some e \<Rightarrow> account_event es blk e (vss ! j)) else vss ! j)"
    if "j < length vss" for j
  proof (cases "j = i")
    case True
    then show ?thesis using vss'(4) that by (cases x) auto
  next
    case False
    then have eq: "?vss ! j = vss ! j" by (auto split: option.splits)
    show ?thesis
      using vss'(4) that False unfolding eq by (auto simp: nth_Cons' Suc_le_eq split: option.splits)
  qed
  with vss' step show ?case by auto
qed auto

lemma clear_cheaters_ok:
  assumes "validators_ok vs" "length hi = v_Len vs" "\<forall>v \<in> set cs. v_Exists vs v"
  shows "\<exists>hi'. clear_cheaters vs cs hi = Inr hi' \<and> length hi' = length hi \<and>
    (\<forall>j < length hi. hi' ! j = (if v_GetID vs j \<in> set cs then None else hi ! j))"
  using assms(2,3)
proof (induction cs arbitrary: hi)
  case (Cons v cs)
  let ?i = "v_GetIdx vs v"
  have i: "?i < length hi" "v_GetID vs ?i = v" using assms(1) Cons.prems by (auto simp: validators_ok_def)
  obtain hi' where hi': "clear_cheaters vs cs (hi[?i := None]) = Inr hi'" "length hi' = length hi"
      "\<forall>j < length hi. hi' ! j = (if v_GetID vs j \<in> set cs then None else hi[?i := None] ! j)"
    using Cons.IH [of "hi[?i := None]"] Cons.prems by auto
  have "hi' ! j = (if v_GetID vs j \<in> set (v # cs) then None else hi ! j)" if "j < length hi" for j
  proof (cases "j = ?i")
    case True
    then show ?thesis using hi'(3) i by auto
  next
    case False
    have "v_GetIdx vs (v_GetID vs j) = j" using assms(1) that Cons.prems(1) by (simp add: validators_ok_def)
    with False have "v_GetID vs j \<noteq> v" by auto
    with False hi'(3) that show ?thesis by simp
  qed
  with hi'(1,2) i show ?case by simp
qed simp

section \<open>Confirmed events\<close>

fun process_events :: "event_payload list \<Rightarrow> events_processor \<Rightarrow> events_processor res" where
  "process_events [] p = Inr p"
| "process_events (e # es) p = bind_res (ProcessConfirmedEvent e p) (process_events es)"

text \<open>\<open>best evs x\<close>: the event kept after processing \<open>evs\<close> with \<open>x\<close> kept before.\<close>

fun best :: "event_payload list \<Rightarrow> event_payload option \<Rightarrow> event_payload option" where
  "best [] x = x"
| "best (e # evs) x = best evs (if x = None \<or> ev_Seq e > ev_Seq (the x) then Some e else x)"

lemma best_spec:
  "(best evs x = None) = (evs = [] \<and> x = None)"
  "best evs x = Some e \<Longrightarrow> e \<in> set evs \<or> x = Some e"
  "best evs x = Some e \<Longrightarrow> (\<forall>y \<in> set evs. ev_Seq y \<le> ev_Seq e) \<and> (\<forall>y. x = Some y \<longrightarrow> ev_Seq y \<le> ev_Seq e)"
proof (induction evs arbitrary: x)
  case (Cons d evs)
  { case 1 show ?case using Cons.IH(1) by simp }
  { case 2 then show ?case using Cons.IH(2) by (auto split: if_splits) }
  { case 3
    then show ?case
      using Cons.IH(3) [of "if x = None \<or> ev_Seq d > ev_Seq (the x) then Some d else x"]
      by (cases x) (auto simp: not_less split: if_splits) }
qed auto

lemma process_events_ok:
  assumes "validators_ok (es_Validators (evp_es p))" "length (evp_highest p) = v_Len (es_Validators (evp_es p))"
    "\<forall>e \<in> set evs. v_Exists (es_Validators (evp_es p)) (ev_Creator e)"
  shows "process_events evs p = Inr (p\<lparr>
     evp_highest := map (\<lambda>j. best (filter (\<lambda>e. ev_Creator e = v_GetID (es_Validators (evp_es p)) j) evs) (evp_highest p ! j))
       [0..<v_Len (es_Validators (evp_es p))],
     evp_bs := (evp_bs p)\<lparr>bs_EpochGas := bs_EpochGas (evp_bs p) + sum_list (map ev_gasPowerUsed evs)\<rparr>\<rparr>)"
  using assms
proof (induction evs arbitrary: p)
  case Nil
  then show ?case using map_nth [of "evp_highest p"] by simp
next
  case (Cons e evs)
  let ?vs = "es_Validators (evp_es p)"
  let ?i = "v_GetIdx ?vs (ev_Creator e)"
  let ?keep = "evp_highest p ! ?i = None \<or> ev_Seq e > ev_Seq (the (evp_highest p ! ?i))"
  let ?hi = "if ?keep then (evp_highest p)[?i := Some e] else evp_highest p"
  let ?p = "p\<lparr>evp_highest := ?hi, evp_bs := (evp_bs p)\<lparr>bs_EpochGas := bs_EpochGas (evp_bs p) + ev_gasPowerUsed e\<rparr>\<rparr>"
  have i: "?i < length (evp_highest p)" "v_GetID ?vs ?i = ev_Creator e"
    using Cons.prems by (auto simp: validators_ok_def)
  have step: "ProcessConfirmedEvent e p = Inr ?p"
    using i(1) by (simp add: ProcessConfirmedEvent_def Let_def)
  have uniq: "(ev_Creator e = v_GetID ?vs j) = (j = ?i)" if "j < v_Len ?vs" for j
    using Cons.prems(1) i that by (auto simp: validators_ok_def)
  have hi: "best (filter (\<lambda>x. ev_Creator x = v_GetID ?vs j) evs) (?hi ! j) =
      best (filter (\<lambda>x. ev_Creator x = v_GetID ?vs j) (e # evs)) (evp_highest p ! j)" if "j < v_Len ?vs" for j
    using uniq [OF that] i(1) by auto
  have "process_events evs ?p = Inr (?p\<lparr>
     evp_highest := map (\<lambda>j. best (filter (\<lambda>e. ev_Creator e = v_GetID ?vs j) evs) (?hi ! j)) [0..<v_Len ?vs],
     evp_bs := (evp_bs ?p)\<lparr>bs_EpochGas := bs_EpochGas (evp_bs ?p) + sum_list (map ev_gasPowerUsed evs)\<rparr>\<rparr>)"
    using Cons.IH [of ?p] Cons.prems by simp
  moreover have "map (\<lambda>j. best (filter (\<lambda>e. ev_Creator e = v_GetID ?vs j) evs) (?hi ! j)) [0..<v_Len ?vs] =
      map (\<lambda>j. best (filter (\<lambda>x. ev_Creator x = v_GetID ?vs j) (e # evs)) (evp_highest p ! j)) [0..<v_Len ?vs]"
    using hi by simp
  ultimately show ?case using step by (simp add: add.assoc)
qed

lemma events_Finalize_ok:
  assumes "decided_ok (evp_bs p) (evp_es p) h" "length (evp_highest p) = v_Len (es_Validators (evp_es p))"
    "\<forall>v \<in> set (bs_EpochCheaters (evp_bs p)). v_Exists (es_Validators (evp_es p)) v"
  shows "\<exists>vss. events_Finalize blk p = Inr ((evp_bs p)\<lparr>bs_ValidatorStates := vss\<rparr>) \<and>
    decided_ok ((evp_bs p)\<lparr>bs_ValidatorStates := vss\<rparr>) (evp_es p) h \<and>
    (\<forall>j < v_Len (es_Validators (evp_es p)). vss ! j =
       (if v_GetID (es_Validators (evp_es p)) j \<in> set (bs_EpochCheaters (evp_bs p)) then bs_ValidatorStates (evp_bs p) ! j
        else case evp_highest p ! j of None \<Rightarrow> bs_ValidatorStates (evp_bs p) ! j
             | Some e \<Rightarrow> account_event (evp_es p) blk e (bs_ValidatorStates (evp_bs p) ! j)))"
proof -
  let ?vs = "es_Validators (evp_es p)"
  have ok: "validators_ok ?vs" "length (bs_ValidatorStates (evp_bs p)) = v_Len ?vs"
    using assms(1) by (auto simp: decided_ok_def)
  obtain hi where hi: "clear_cheaters ?vs (bs_EpochCheaters (evp_bs p)) (evp_highest p) = Inr hi" "length hi = v_Len ?vs"
      "\<forall>j < v_Len ?vs. hi ! j = (if v_GetID ?vs j \<in> set (bs_EpochCheaters (evp_bs p)) then None else evp_highest p ! j)"
    using clear_cheaters_ok [OF ok(1) assms(2,3)] assms(2) by auto
  obtain vss where vss: "account_loop (evp_es p) blk 0 hi (bs_ValidatorStates (evp_bs p)) = Inr vss"
      "length vss = v_Len ?vs" "map vb_Originated vss = map vb_Originated (bs_ValidatorStates (evp_bs p))"
      "\<forall>j < v_Len ?vs. vss ! j = (case hi ! j of None \<Rightarrow> bs_ValidatorStates (evp_bs p) ! j
          | Some e \<Rightarrow> account_event (evp_es p) blk e (bs_ValidatorStates (evp_bs p) ! j))"
    using account_loop_ok [of 0 hi "bs_ValidatorStates (evp_bs p)" "evp_es p" blk] hi(2) ok(2) by auto
  have "events_Finalize blk p = Inr ((evp_bs p)\<lparr>bs_ValidatorStates := vss\<rparr>)"
    using hi(1) vss(1) by (simp add: events_Finalize_def)
  moreover have "decided_ok ((evp_bs p)\<lparr>bs_ValidatorStates := vss\<rparr>) (evp_es p) h"
    using assms(1) vss(2,3) by (simp add: decided_ok_def)
  ultimately show ?thesis using vss(4) hi(3) by (intro exI [of _ vss]) auto
qed

section \<open>Sealing\<close>

definition sealed_state :: "validators \<Rightarrow> vblock_state list \<Rightarrow> block_ctx \<Rightarrow> u32 \<Rightarrow> nat \<Rightarrow> vblock_state \<times> vepoch_state" where
  "sealed_state old vss blk valID a =
     (if \<not> v_Exists old valID
      then ((zero_vblock a)\<lparr>vb_LastBlock := bc_Idx blk, vb_LastOnlineTime := bc_Time blk\<rparr>, zero_vepoch)
      else let st = vss ! v_GetIdx old valID
           in (st\<lparr>vb_DirtyGasRefund := 0, vb_Uptime := 0\<rparr>,
               \<lparr>ve_GasRefund = vb_DirtyGasRefund st, ve_PrevEpochEvent = vb_LastEvent st\<rparr>))"

lemma seal_loop_ok:
  assumes "validators_ok old" "length vss = v_Len old"
  shows "seal_loop old vss blk ids h =
    Inr (map (\<lambda>i. sealed_state old vss blk (ids ! i) (length h + i)) [0..<length ids], h @ replicate (length ids) 0)"
proof (induction ids arbitrary: h)
  case (Cons v ids)
  have "v_Exists old v \<Longrightarrow> v_GetIdx old v < length vss" using assms by (simp add: validators_ok_def)
  then have "seal_validator old vss blk v h = Inr (sealed_state old vss blk v (length h), h @ [0])"
    by (auto simp: seal_validator_def sealed_state_def Let_def)
  moreover have "map (\<lambda>i. sealed_state old vss blk ((v # ids) ! i) (length h + i)) [0..<length (v # ids)] =
      sealed_state old vss blk v (length h) # map (\<lambda>i. sealed_state old vss blk (ids ! i) (length (h @ [0]) + i)) [0..<length ids]"
    by (simp add: upt_conv_Cons map_Suc_upt [symmetric] del: upt_Suc)
  ultimately show ?case using Cons.IH [of "h @ [0]"] by simp
qed simp

lemma validators_ids_distinct: "validators_ok vs \<Longrightarrow> distinct (map (v_GetID vs) [0..<v_Len vs])"
  by (auto simp: distinct_map inj_on_def validators_ok_def) (metis atLeastLessThan_iff)+

lemma sealed_Originated:
  "vb_Originated (fst (sealed_state old vss blk v a)) =
     (if v_Exists old v then vb_Originated (vss ! v_GetIdx old v) else a)"
  by (simp add: sealed_state_def zero_vblock_def Let_def)

lemma sealed_Originated_inj:
  assumes "validators_ok old" "length vss = v_Len old" "distinct (map vb_Originated vss)"
    "\<forall>a \<in> set (map vb_Originated vss). a < n" "distinct ids" "i < length ids" "j < length ids"
    "vb_Originated (fst (sealed_state old vss blk (ids ! i) (n + i))) =
     vb_Originated (fst (sealed_state old vss blk (ids ! j) (n + j)))"
  shows "i = j"
proof -
  have addr: "vb_Originated (vss ! v_GetIdx old v) < n" if "v_Exists old v" for v
    using assms(1,2,4) that by (simp add: validators_ok_def)
  consider "\<not> v_Exists old (ids ! i)" "\<not> v_Exists old (ids ! j)" | "v_Exists old (ids ! i)" "v_Exists old (ids ! j)"
    using assms(8) addr [of "ids ! i"] addr [of "ids ! j"] by (fastforce simp: sealed_Originated split: if_splits)
  then show ?thesis
  proof cases
    case 2
    let ?a = "v_GetIdx old (ids ! i)" and ?b = "v_GetIdx old (ids ! j)"
    have "?a < length vss" "?b < length vss" "v_GetID old ?a = ids ! i" "v_GetID old ?b = ids ! j"
      using assms(1,2) 2 by (auto simp: validators_ok_def)
    moreover have "vb_Originated (vss ! ?a) = vb_Originated (vss ! ?b)" using assms(8) 2 by (simp add: sealed_Originated)
    ultimately have "ids ! i = ids ! j" using assms(3) by (metis distinct_conv_nth length_map nth_map)
    then show ?thesis using assms(5-7) by (simp add: nth_eq_iff_index_eq)
  qed (use assms(8) in \<open>simp add: sealed_Originated\<close>)
qed

lemma SealEpoch_ok:
  assumes "decided_ok bs es h"
    "newVals = buildVals (\<lambda>v. map_option vp_Weight (bs_NextValidatorProfiles bs v))" "validators_ok newVals"
  shows "\<exists>bs' es' h'. SealEpoch buildVals \<lparr>sl_block = blk, sl_es = es, sl_bs = bs\<rparr> h = Inr ((bs', es'), h') \<and>
    decided_ok bs' es' h' \<and> take (length h) h' = h \<and>
    es_Validators es' = newVals \<and> es_Epoch es' = es_Epoch es + 1 \<and> es_EpochStart es' = bc_Time blk \<and>
    es_PrevEpochStart es' = es_EpochStart es \<and> es_Rules es' = bs_DirtyRules bs \<and>
    bs_EpochGas bs' = 0 \<and> bs_EpochCheaters bs' = [] \<and>
    (\<forall>i < v_Len newVals. (bs_ValidatorStates bs' ! i, es_ValidatorStates es' ! i) =
       sealed_state (es_Validators es) (bs_ValidatorStates bs) blk (v_GetID newVals i) (length h + i))"
proof -
  let ?old = "es_Validators es" and ?vss = "bs_ValidatorStates bs"
  let ?ids = "map (v_GetID newVals) [0..<v_Len newVals]"
  let ?sts = "map (\<lambda>i. sealed_state ?old ?vss blk (?ids ! i) (length h + i)) [0..<length ?ids]"
  have ok: "validators_ok ?old" "length ?vss = v_Len ?old" "distinct (map vb_Originated ?vss)"
      "\<forall>a \<in> set (map vb_Originated ?vss). a < length h"
    using assms(1) by (auto simp: decided_ok_def)
  have loop: "seal_loop ?old ?vss blk ?ids h = Inr (?sts, h @ replicate (v_Len newVals) 0)"
    using seal_loop_ok [OF ok(1,2), of blk ?ids h] by simp
  have addr: "v_Exists ?old v \<Longrightarrow> vb_Originated (?vss ! v_GetIdx ?old v) < length h" for v
    using ok by (simp add: validators_ok_def)
  have inj: "inj_on (\<lambda>i. vb_Originated (fst (sealed_state ?old ?vss blk (?ids ! i) (length h + i)))) {0..<v_Len newVals}"
    using sealed_Originated_inj [OF ok validators_ids_distinct [OF assms(3)]] by (intro inj_onI) simp
  have bound: "\<forall>i < v_Len newVals. vb_Originated (fst (sealed_state ?old ?vss blk (?ids ! i) (length h + i)))
      < length (h @ replicate (v_Len newVals) 0)"
    using addr by (auto simp: sealed_Originated intro: trans_less_add1)
  have eq: "map vb_Originated (map fst ?sts) =
      map (\<lambda>i. vb_Originated (fst (sealed_state ?old ?vss blk (?ids ! i) (length h + i)))) [0..<v_Len newVals]"
    by (simp add: o_def)
  have dist: "distinct (map vb_Originated (map fst ?sts))"
    unfolding eq using inj by (simp add: distinct_map)
  have small: "\<forall>a \<in> set (map vb_Originated (map fst ?sts)). a < length (h @ replicate (v_Len newVals) 0)"
    unfolding eq using bound by auto
  let ?bs = "bs\<lparr>bs_ValidatorStates := map fst ?sts, bs_EpochGas := 0, bs_EpochCheaters := [],
      bs_AdvanceEpochs := (if bs_AdvanceEpochs bs > 0 then bs_AdvanceEpochs bs - 1 else bs_AdvanceEpochs bs)\<rparr>"
  let ?es = "es\<lparr>es_Validators := newVals, es_ValidatorProfiles := bs_NextValidatorProfiles bs,
      es_ValidatorStates := map snd ?sts, es_PrevEpochStart := es_EpochStart es, es_EpochStart := bc_Time blk,
      es_Rules := bs_DirtyRules bs, es_EpochStateRoot := bs_FinalizedStateRoot bs, es_Epoch := es_Epoch es + 1\<rparr>"
  have "SealEpoch buildVals \<lparr>sl_block = blk, sl_es = es, sl_bs = bs\<rparr> h = Inr ((?bs, ?es), h @ replicate (v_Len newVals) 0)"
    using loop by (simp add: SealEpoch_def Let_def assms(2) [symmetric])
  moreover have "decided_ok ?bs ?es (h @ replicate (v_Len newVals) 0)"
    unfolding decided_ok_def using dist small assms(3) by simp
  ultimately show ?thesis
    by (intro exI [of _ ?bs] exI [of _ ?es] exI [of _ "h @ replicate (v_Len newVals) 0"]) simp
qed

section \<open>Uptime\<close>

definition uptime_ok :: "epoch_state \<Rightarrow> vblock_state \<Rightarrow> bool" where
  "uptime_ok es info \<longleftrightarrow>
     unat (vb_Uptime info) \<le> unat (MaxTimestamp (vb_LastOnlineTime info) (es_EpochStart es)) - unat (es_EpochStart es)"

lemma unat_MaxTimestamp: "unat (MaxTimestamp x y) = max (unat x) (unat y)"
  by (auto simp: MaxTimestamp_def word_less_nat_alt)

lemma account_event_uptime:
  assumes "Berlin (Upgrades (es_Rules es))" "uptime_ok es info" "vb_LastOnlineTime info \<le> ev_medianTime e"
  shows "uptime_ok es (account_event es blk e info)"
proof -
  let ?prev = "MaxTimestamp (vb_LastOnlineTime info) (es_EpochStart es)"
  have mono: "unat (vb_LastOnlineTime info) \<le> unat (ev_medianTime e)" using assms(3) by (simp add: word_le_nat_alt)
  show ?thesis
  proof (cases "?prev < ev_medianTime e \<and> bc_Idx blk \<le> vb_LastBlock info + BlockMissedSlack (ru_Economy (es_Rules es))")
    case True
    have d: "unat (ev_medianTime e - ?prev) = unat (ev_medianTime e) - unat ?prev"
      using True by (intro unat_sub) (simp add: word_le_nat_alt word_less_nat_alt)
    have lt: "unat ?prev < unat (ev_medianTime e)" using True by (simp add: word_less_nat_alt)
    have "unat (vb_Uptime info + (ev_medianTime e - ?prev)) \<le> unat (vb_Uptime info) + (unat (ev_medianTime e) - unat ?prev)"
      using unat_add_le [of "vb_Uptime info" "ev_medianTime e - ?prev"] d by simp
    then have "unat (vb_Uptime info + (ev_medianTime e - ?prev)) \<le> unat (ev_medianTime e) - unat (es_EpochStart es)"
      using assms(2) lt by (auto simp: uptime_ok_def unat_MaxTimestamp)
    then show ?thesis
      using True assms(1) by (auto simp: account_event_def uptime_ok_def Let_def unat_MaxTimestamp)
  next
    case False
    then have "vb_Uptime (account_event es blk e info) = vb_Uptime info"
      using assms(1) by (auto simp: account_event_def Let_def)
    moreover have "vb_LastOnlineTime (account_event es blk e info) = ev_medianTime e"
      by (simp add: account_event_def Let_def)
    ultimately show ?thesis
      using assms(2) mono by (auto simp: uptime_ok_def unat_MaxTimestamp)
  qed
qed

fun account_events :: "epoch_state \<Rightarrow> (block_ctx \<times> event_payload) list \<Rightarrow> vblock_state \<Rightarrow> vblock_state" where
  "account_events es [] info = info"
| "account_events es ((blk, e) # bes) info = account_events es bes (account_event es blk e info)"

lemma account_events_uptime:
  assumes "Berlin (Upgrades (es_Rules es))" "uptime_ok es info"
    "sorted (vb_LastOnlineTime info # map (\<lambda>x. ev_medianTime (snd x)) bes)"
  shows "uptime_ok es (account_events es bes info)"
  using assms(2,3)
proof (induction bes arbitrary: info)
  case (Cons x bes)
  obtain blk e where x: "x = (blk, e)" by (cases x)
  have "vb_LastOnlineTime (account_event es blk e info) = ev_medianTime e" by (simp add: account_event_def Let_def)
  then show ?case
    using Cons.IH [of "account_event es blk e info"] Cons.prems account_event_uptime [OF assms(1) Cons.prems(1), of e blk] x
    by simp
qed simp

section \<open>Properties\<close>

definition demo_rules :: rules where "demo_rules = MainNetRules\<lparr>Upgrades := \<lparr>Berlin = True\<rparr>\<rparr>"

definition demo_es :: epoch_state where
  "demo_es = \<lparr>es_Epoch = 2, es_EpochStart = 1000000000, es_PrevEpochStart = 0, es_EpochStateRoot = [],
     es_Validators = demo_validators, es_ValidatorStates = [zero_vepoch, zero_vepoch],
     es_ValidatorProfiles = Map.empty, es_Rules = demo_rules\<rparr>"

definition demo_bs :: block_state where
  "demo_bs = \<lparr>bs_LastBlock = \<lparr>bc_Idx = 5, bc_Time = 1000000000, bc_Atropos = []\<rparr>, bs_FinalizedStateRoot = [],
     bs_EpochGas = 0, bs_EpochCheaters = [2], bs_ValidatorStates = [zero_vblock 0, zero_vblock 1],
     bs_NextValidatorProfiles = Map.empty, bs_DirtyRules = demo_rules, bs_AdvanceEpochs = 0\<rparr>"

definition demo_blk :: block_ctx where
  "demo_blk = \<lparr>bc_Idx = 6, bc_Time = 102000000000, bc_Atropos = [7]\<rparr>"

lemma demo_validators_ok: "validators_ok demo_validators"
  by (auto simp: validators_ok_def demo_validators_def)

lemma demo_decided_ok: "decided_ok demo_bs demo_es [0, 0]"
  by (simp add: decided_ok_def demo_bs_def demo_es_def demo_validators_ok zero_vblock_def) (simp add: demo_validators_def)

text \<open>
  C24. Spilling: what stays in a block is the longest run of its last events whose gas is within
  the block limit: they are a suffix, their gas (as a natural number) does not exceed the limit,
  and with one more event it would.
\<close>

theorem spillBlockEvents_longest:
  assumes "\<forall>e \<in> set events. unat (gasOf e) + unat (MaxBlockGas (ru_Blocks network)) < 2 ^ 64"
  shows "\<exists>pre. events = pre @ spillBlockEvents gasOf network events \<and>
    gas_sum gasOf (spillBlockEvents gasOf network events) \<le> unat (MaxBlockGas (ru_Blocks network)) \<and>
    (pre = [] \<or> unat (MaxBlockGas (ru_Blocks network)) < gas_sum gasOf (last pre # spillBlockEvents gasOf network events))"
  using spill_loop_spec [of "rev events" gasOf "MaxBlockGas (ru_Blocks network)" 0 "[]"] assms
  by (auto simp: spillBlockEvents_def)

theorem spillBlockEvents_longest_witness:
  "spillBlockEvents (\<lambda>e. e) MainNetRules [10000000, 10000000, 10000000] = [10000000, 10000000] \<and>
   gas_sum (\<lambda>e. e) (spillBlockEvents (\<lambda>e. e) MainNetRules [10000000, 10000000, 10000000]) \<le> 20500000"
proof -
  have e: "spillBlockEvents (\<lambda>e. e) MainNetRules [10000000, 10000000, 10000000] = [10000000, 10000000]"
    by code_simp
  show ?thesis
    using spillBlockEvents_longest [of "[10000000, 10000000, 10000000]" "\<lambda>e. e" MainNetRules] e
    by (auto simp: MainNetRules_def)
qed

text \<open>
  C23. Confirmed events: with creators and cheaters among the validators, the accounting of a
  block's events returns; the epoch gas grows by the gas of all of them; the state stays well
  formed; a validator that is a cheater or has no event keeps its state, and any other is
  accounted its event of highest sequence number.
\<close>

theorem confirmed_events_accounted:
  assumes "decided_ok bs es h" "\<forall>e \<in> set evs. v_Exists (es_Validators es) (ev_Creator e)"
    "\<forall>v \<in> set (bs_EpochCheaters bs). v_Exists (es_Validators es) v"
  shows "\<exists>p bs'. process_events evs (events_Start bs es) = Inr p \<and> events_Finalize blk p = Inr bs' \<and>
    decided_ok bs' es h \<and> bs_EpochGas bs' = bs_EpochGas bs + sum_list (map ev_gasPowerUsed evs) \<and>
    (\<forall>j < v_Len (es_Validators es).
       let mine = filter (\<lambda>e. ev_Creator e = v_GetID (es_Validators es) j) evs; old = bs_ValidatorStates bs ! j
       in if v_GetID (es_Validators es) j \<in> set (bs_EpochCheaters bs) \<or> mine = []
          then bs_ValidatorStates bs' ! j = old
          else \<exists>e \<in> set mine. (\<forall>x \<in> set mine. ev_Seq x \<le> ev_Seq e) \<and>
            bs_ValidatorStates bs' ! j = account_event es blk e old)"
proof -
  let ?vs = "es_Validators es"
  let ?mine = "\<lambda>j. filter (\<lambda>e. ev_Creator e = v_GetID ?vs j) evs"
  define bs1 where "bs1 = bs\<lparr>bs_EpochGas := bs_EpochGas bs + sum_list (map ev_gasPowerUsed evs)\<rparr>"
  define p where "p = \<lparr>evp_es = es, evp_bs = bs1, evp_highest = map (\<lambda>j. best (?mine j) None) [0..<v_Len ?vs]\<rparr>"
  have bs1: "bs_EpochCheaters bs1 = bs_EpochCheaters bs" "bs_ValidatorStates bs1 = bs_ValidatorStates bs"
      "decided_ok bs1 es h"
    using assms(1) by (simp_all add: bs1_def decided_ok_def)
  have proc: "process_events evs (events_Start bs es) = Inr p"
    using process_events_ok [of "events_Start bs es" evs] assms
    by (simp add: events_Start_def decided_ok_def p_def bs1_def cong: map_cong)
  obtain vss where vss: "events_Finalize blk p = Inr (bs1\<lparr>bs_ValidatorStates := vss\<rparr>)"
      "decided_ok (bs1\<lparr>bs_ValidatorStates := vss\<rparr>) es h"
      "\<forall>j < v_Len ?vs. vss ! j = (if v_GetID ?vs j \<in> set (bs_EpochCheaters bs) then bs_ValidatorStates bs ! j
        else case best (?mine j) None of None \<Rightarrow> bs_ValidatorStates bs ! j
             | Some e \<Rightarrow> account_event es blk e (bs_ValidatorStates bs ! j))"
  proof -
    have pf: "evp_es p = es" "evp_bs p = bs1" "evp_highest p = map (\<lambda>j. best (?mine j) None) [0..<v_Len ?vs]"
      by (simp_all add: p_def)
    show thesis using events_Finalize_ok [of p h blk] assms(3) bs1(3) that unfolding pf bs1(1,2) by auto
  qed
  have each: "let old = bs_ValidatorStates bs ! j
      in if v_GetID ?vs j \<in> set (bs_EpochCheaters bs) \<or> ?mine j = [] then vss ! j = old
         else \<exists>e \<in> set (?mine j). (\<forall>x \<in> set (?mine j). ev_Seq x \<le> ev_Seq e) \<and> vss ! j = account_event es blk e old"
    if "j < v_Len ?vs" for j
  proof (cases "best (?mine j) None")
    case None
    then show ?thesis using vss(3) that best_spec(1) [of "?mine j" None] by auto
  next
    case (Some e)
    then show ?thesis
      using vss(3) that best_spec(1,2,3) [of "?mine j" None] by (auto simp: Let_def)
  qed
  show ?thesis
  proof (intro exI conjI allI impI)
    show "bs_EpochGas (bs1\<lparr>bs_ValidatorStates := vss\<rparr>) = bs_EpochGas bs + sum_list (map ev_gasPowerUsed evs)"
      by (simp add: bs1_def)
  next
    fix j assume "j < v_Len ?vs"
    from each [OF this] show "let mine = ?mine j; old = bs_ValidatorStates bs ! j
        in if v_GetID ?vs j \<in> set (bs_EpochCheaters bs) \<or> mine = []
           then bs_ValidatorStates (bs1\<lparr>bs_ValidatorStates := vss\<rparr>) ! j = old
           else \<exists>e \<in> set mine. (\<forall>x \<in> set mine. ev_Seq x \<le> ev_Seq e) \<and>
             bs_ValidatorStates (bs1\<lparr>bs_ValidatorStates := vss\<rparr>) ! j = account_event es blk e old"
      by (simp add: Let_def del: set_filter)
  qed (rule proc vss)+
qed

theorem confirmed_events_accounted_witness:
  "\<exists>p bs'. process_events [demo_event] (events_Start demo_bs demo_es) = Inr p \<and> events_Finalize demo_blk p = Inr bs' \<and>
    decided_ok bs' demo_es [0, 0] \<and> bs_EpochGas bs' = 28000"
proof -
  have "v_Exists (es_Validators demo_es) (ev_Creator demo_event)" "ev_gasPowerUsed demo_event = 28000"
    "\<forall>v \<in> set (bs_EpochCheaters demo_bs). v_Exists (es_Validators demo_es) v"
    by code_simp+
  moreover have "bs_EpochGas demo_bs = 0" by (simp add: demo_bs_def)
  ultimately show ?thesis
    using confirmed_events_accounted [OF demo_decided_ok, of "[demo_event]" demo_blk] by auto
qed

text \<open>
  C11. Sealing an epoch: if the library's builder gives a well-formed validator group, sealing
  returns; the new states are well formed (one block and epoch state per validator, no two sharing
  an \<open>Originated\<close> integer, older integers untouched); the epoch number grows by one, the epoch
  starts at the block's time with the dirty rules; gas and cheaters are reset; a validator that
  stays keeps its state with refund and uptime reset and brings its refund and last event into the
  epoch state, and a new one starts at this block.
\<close>

theorem SealEpoch_wellformed:
  assumes "decided_ok bs es h"
    "newVals = buildVals (\<lambda>v. map_option vp_Weight (bs_NextValidatorProfiles bs v))" "validators_ok newVals"
  shows "\<exists>bs' es' h'. SealEpoch buildVals (sealer_Start blk bs es) h = Inr ((bs', es'), h') \<and>
    decided_ok bs' es' h' \<and> take (length h) h' = h \<and>
    es_Validators es' = newVals \<and> es_Epoch es' = es_Epoch es + 1 \<and> es_EpochStart es' = bc_Time blk \<and>
    es_PrevEpochStart es' = es_EpochStart es \<and> es_Rules es' = bs_DirtyRules bs \<and>
    bs_EpochGas bs' = 0 \<and> bs_EpochCheaters bs' = [] \<and>
    (\<forall>i < v_Len newVals. (bs_ValidatorStates bs' ! i, es_ValidatorStates es' ! i) =
       sealed_state (es_Validators es) (bs_ValidatorStates bs) blk (v_GetID newVals i) (length h + i))"
  unfolding sealer_Start_def by (rule SealEpoch_ok) (use assms in auto)

theorem SealEpoch_wellformed_witness:
  "\<exists>bs' es' h'. SealEpoch (\<lambda>_. demo_validators) (sealer_Start demo_blk demo_bs demo_es) [0, 0] = Inr ((bs', es'), h') \<and>
    decided_ok bs' es' h' \<and> es_Epoch es' = 3"
proof -
  have "es_Epoch demo_es + 1 = 3" by (simp add: demo_es_def)
  then show ?thesis
    using SealEpoch_wellformed [where buildVals = "\<lambda>_. demo_validators" and newVals = demo_validators and blk = demo_blk,
        OF demo_decided_ok _ demo_validators_ok] by auto
qed



end
