(* ===== verification/Driver_Module.thy ===== *)
theory Driver_Module
  imports Blockproc
begin

text \<open>
  src/gossip/blockproc/drivermodule, the calls of src/skyhigh/genesis/driver/drivercall and the
  topics of driverpos: how block processing and the driver contract talk to each other. Logs of the
  contract change the next validators, the rules and the number of epochs to advance; internal
  transactions tell the contract of cheaters and of the sealed epoch; receipts credit the
  originators. ABI packing and Keccak are parameters.
\<close>

section \<open>Logs of the driver contract\<close>

record evm_log =
  lg_Address :: bytes
  lg_Topics :: "bytes list"
  lg_Data :: bytes

datatype abi_val = AInt int | AInts "int list"

record driver_lib =
  keccak :: "string \<Rightarrow> bytes"
  abi_Pack :: "string \<Rightarrow> abi_val list \<Rightarrow> bytes"
  json_Unmarshal :: "bytes \<Rightarrow> rules \<Rightarrow> go_error option \<times> rules"

definition ContractAddress :: bytes where
  "ContractAddress = [0xd1, 0x00, 0xa0, 0x1e] @ replicate 16 0"

definition topic_UpdateValidatorWeight :: "driver_lib \<Rightarrow> bytes" where
  "topic_UpdateValidatorWeight L = keccak L ''UpdateValidatorWeight(uint256,uint256)''"

definition topic_UpdateValidatorPubkey :: "driver_lib \<Rightarrow> bytes" where
  "topic_UpdateValidatorPubkey L = keccak L ''UpdateValidatorPubkey(uint256,bytes)''"

definition topic_UpdateNetworkRules :: "driver_lib \<Rightarrow> bytes" where
  "topic_UpdateNetworkRules L = keccak L ''UpdateNetworkRules(bytes)''"

definition topic_AdvanceEpochs :: "driver_lib \<Rightarrow> bytes" where
  "topic_AdvanceEpochs L = keccak L ''AdvanceEpochs(uint256)''"

text \<open>A slice expression with 64-bit bounds.\<close>

definition go_slice :: "bytes \<Rightarrow> u64 \<Rightarrow> u64 \<Rightarrow> bytes res" where
  "go_slice d lo hi =
     (if lo \<le> hi \<and> unat hi \<le> length d then Inr (take (unat hi - unat lo) (drop (unat lo) d))
      else Inl (Panic SliceOutOfRange))"

definition decodeDataBytes :: "bytes \<Rightarrow> bytes res" where
  "decodeDataBytes d =
     (if length d < 32 then Inl (Err (OtherErr ''unexpected EOF''))
      else bind_res (go_slice d 24 32) (\<lambda>b.
        let start = word_of_int (big_SetBytes b) :: u64
        in if start + 32 > word_of_nat (length d) then Inl (Err (OtherErr ''unexpected EOF''))
           else bind_res (go_slice d (start + 24) (start + 32)) (\<lambda>b.
             let sz = word_of_int (big_SetBytes b) :: u64
             in if start + 32 + sz > word_of_nat (length d) then Inl (Err (OtherErr ''unexpected EOF''))
                else go_slice d (start + 32) (start + 32 + sz))))"

record tx_listener =
  tl_block :: block_ctx
  tl_es :: epoch_state
  tl_bs :: block_state

definition listener_Start :: "block_ctx \<Rightarrow> block_state \<Rightarrow> epoch_state \<Rightarrow> tx_listener" where
  "listener_Start blk bs es = \<lparr>tl_block = blk, tl_es = es, tl_bs = bs\<rparr>"

definition topic_id :: "bytes \<Rightarrow> u32" where
  "topic_id t = ucast (word_of_int (big_SetBytes t) :: u64)"

definition on_Weight :: "u32 \<Rightarrow> bytes \<Rightarrow> block_state \<Rightarrow> block_state" where
  "on_Weight vid d bs =
     (let weight = big_SetBytes (take 32 d); m = bs_NextValidatorProfiles bs
      in if weight = 0 then bs\<lparr>bs_NextValidatorProfiles := m(vid := None)\<rparr>
         else let profile = (case m vid of None \<Rightarrow> \<lparr>vp_Weight = 0, vp_PubKey = \<lparr>pk_Type = 0, pk_Raw = []\<rparr>\<rparr> | Some p \<Rightarrow> p)
              in bs\<lparr>bs_NextValidatorProfiles := m(vid \<mapsto> profile\<lparr>vp_Weight := weight\<rparr>)\<rparr>)"

text \<open>\<open>profile.PubKey, _ = FromBytes(pubkey)\<close>: on an error the key becomes the empty key.\<close>

definition on_Pubkey :: "u32 \<Rightarrow> bytes \<Rightarrow> block_state \<Rightarrow> block_state" where
  "on_Pubkey vid pubkey bs =
     (case bs_NextValidatorProfiles bs vid of
        None \<Rightarrow> bs
      | Some profile \<Rightarrow>
          let key = (case pk_FromBytes pubkey of Inl _ \<Rightarrow> \<lparr>pk_Type = 0, pk_Raw = []\<rparr> | Inr k \<Rightarrow> k)
          in bs\<lparr>bs_NextValidatorProfiles := (bs_NextValidatorProfiles bs)(vid \<mapsto> profile\<lparr>vp_PubKey := key\<rparr>)\<rparr>)"

definition maxAdvanceEpochs :: u32 where "maxAdvanceEpochs = 0x10000"

definition on_Advance :: "bytes \<Rightarrow> block_state \<Rightarrow> block_state" where
  "on_Advance d bs =
     (let epochsNum = word_of_int (big_SetBytes (take 3 (drop 29 d))) :: u64;
          n = bs_AdvanceEpochs bs + ucast epochsNum
      in bs\<lparr>bs_AdvanceEpochs := (if n > maxAdvanceEpochs then maxAdvanceEpochs else n)\<rparr>)"

text \<open>
  The handler: four tests in a row on the first topic. A malformed pubkey or rules log, an unknown
  validator and a failed rules update end the call.
\<close>

definition bs_OnNewLog :: "driver_lib \<Rightarrow> evm_log \<Rightarrow> block_state \<Rightarrow> block_state res" where
  "bs_OnNewLog L l bs =
     (if lg_Address l \<noteq> ContractAddress then Inr bs
      else case lg_Topics l of [] \<Rightarrow> Inl (Panic IndexOutOfRange)
      | t # ts \<Rightarrow>
          let bs = (if t = topic_UpdateValidatorWeight L \<and> ts \<noteq> [] \<and> length (lg_Data l) \<ge> 32
                    then on_Weight (topic_id (hd ts)) (lg_Data l) bs else bs);
              adv = (\<lambda>bs. if t = topic_AdvanceEpochs L \<and> length (lg_Data l) \<ge> 32 then on_Advance (lg_Data l) bs else bs);
              rls = (\<lambda>bs. if t = topic_UpdateNetworkRules L \<and> length (lg_Data l) \<ge> 64
                 then (case decodeDataBytes (lg_Data l) of
                         Inl (Panic e) \<Rightarrow> Inl (Panic e)
                       | Inl (Err _) \<Rightarrow> Inr bs
                       | Inr diff \<Rightarrow>
                           (case UpdateRules (json_Unmarshal L) (bs_DirtyRules bs) diff of
                              (Some _, r) \<Rightarrow> Inr (bs\<lparr>bs_DirtyRules := r\<rparr>)
                            | (None, r) \<Rightarrow> Inr (adv (bs\<lparr>bs_DirtyRules := r\<rparr>))))
                 else Inr (adv bs))
          in if t = topic_UpdateValidatorPubkey L \<and> ts \<noteq> []
             then (case decodeDataBytes (lg_Data l) of
                     Inl (Panic e) \<Rightarrow> Inl (Panic e)
                   | Inl (Err _) \<Rightarrow> Inr bs
                   | Inr pubkey \<Rightarrow>
                       if bs_NextValidatorProfiles bs (topic_id (hd ts)) = None then Inr bs
                       else rls (on_Pubkey (topic_id (hd ts)) pubkey bs))
             else rls bs)"

definition OnNewLog :: "driver_lib \<Rightarrow> evm_log \<Rightarrow> tx_listener \<Rightarrow> tx_listener res" where
  "OnNewLog L l p = bind_res (bs_OnNewLog L l (tl_bs p)) (\<lambda>bs. Inr (p\<lparr>tl_bs := bs\<rparr>))"

definition listener_Update :: "block_state \<Rightarrow> epoch_state \<Rightarrow> tx_listener \<Rightarrow> tx_listener" where
  "listener_Update bs es p = p\<lparr>tl_bs := bs, tl_es := es\<rparr>"

definition listener_Finalize :: "tx_listener \<Rightarrow> block_state" where
  "listener_Finalize p = tl_bs p"

section \<open>Receipts\<close>

text \<open>The fee is added in place, to the integer the validator state points to.\<close>

definition OnNewReceipt ::
  "transaction \<Rightarrow> u64 \<Rightarrow> u32 \<Rightarrow> tx_listener \<times> big_heap \<Rightarrow> (tx_listener \<times> big_heap) res" where
  "OnNewReceipt tx rcGas originator ph =
     (let (p, h) = ph
      in if originator = 0 then Inr (p, h)
         else let i = v_GetIdx (es_Validators (tl_es p)) originator; vss = bs_ValidatorStates (tl_bs p)
              in if i < length vss
                 then let st = vss ! i; a = vb_Originated st;
                          txFee = uint rcGas * tx_GasPrice tx;
                          h = h[a := h ! a + txFee];
                          notUsedGas = tx_Gas tx - rcGas;
                          st = (if notUsedGas \<noteq> 0
                                then st\<lparr>vb_DirtyGasRefund := vb_DirtyGasRefund st + notUsedGas\<rparr> else st)
                      in Inr (p\<lparr>tl_bs := (tl_bs p)\<lparr>bs_ValidatorStates := vss[i := st]\<rparr>\<rparr>, h)
                 else Inl (Panic IndexOutOfRange))"

section \<open>Internal transactions\<close>

definition U64toBig :: "u64 \<Rightarrow> int" where "U64toBig v = uint v"

definition DoublesignBit :: u64 where "DoublesignBit = 0x80"

record epoch_metric =
  em_BlocksNum :: u64
  em_Period :: u64
  em_Uptime :: u64
  em_OriginatedTxFee :: int

definition call_SealEpochValidators :: "driver_lib \<Rightarrow> u32 list \<Rightarrow> bytes" where
  "call_SealEpochValidators L vs = abi_Pack L ''sealEpochValidators'' [AInts (map (\<lambda>v. U64toBig (ucast v)) vs)]"

definition call_SealEpoch :: "driver_lib \<Rightarrow> epoch_metric list \<Rightarrow> bytes" where
  "call_SealEpoch L metrics = abi_Pack L ''sealEpoch''
     [AInts (map (\<lambda>m. U64toBig (Timestamp_Unix (em_Period m))) metrics),
      AInts (map (\<lambda>m. U64toBig (em_BlocksNum m)) metrics),
      AInts (map (\<lambda>m. U64toBig (Timestamp_Unix (em_Uptime m))) metrics),
      AInts (map em_OriginatedTxFee metrics)]"

definition call_DeactivateValidator :: "driver_lib \<Rightarrow> u32 \<Rightarrow> u64 \<Rightarrow> bytes" where
  "call_DeactivateValidator L vid status =
     abi_Pack L ''deactivateValidator'' [AInt (U64toBig (ucast vid)), AInt (U64toBig status)]"

text \<open>
  The closure of \<open>internalTxBuilder\<close>: its nonce starts as the largest 64-bit number, which stands for
  "not read yet"; \<open>dbNonce\<close> is what the state database has for the zero address.
\<close>

definition buildTx :: "u64 \<Rightarrow> u64 \<Rightarrow> bytes \<Rightarrow> bytes \<Rightarrow> transaction \<times> u64" where
  "buildTx dbNonce nonce calldata addr =
     (let nonce = (if nonce = - 1 then dbNonce else nonce)
      in (\<lparr>tx_Type = LegacyTxType, tx_Nonce = nonce, tx_Gas = 10000000000, tx_GasPrice = 0, tx_Value = 0,
           tx_To = Some addr, tx_Data = calldata, tx_V = 0, tx_R = 0, tx_S = 0, tx_ChainId = 0, tx_AccessList = []\<rparr>,
          nonce + 1))"

fun cheaters_loop ::
  "driver_lib \<Rightarrow> validators \<Rightarrow> u64 \<Rightarrow> u32 list \<Rightarrow> u64 \<Rightarrow> vblock_state list \<Rightarrow> (transaction list \<times> u64 \<times> vblock_state list) res" where
  "cheaters_loop L vs dbNonce [] nonce vss = Inr ([], nonce, vss)"
| "cheaters_loop L vs dbNonce (c # cs) nonce vss =
     (let i = v_GetIdx vs c
      in if i < length vss
         then if vb_Cheater (vss ! i) then cheaters_loop L vs dbNonce cs nonce vss
              else let (tx, nonce) = buildTx dbNonce nonce (call_DeactivateValidator L c DoublesignBit) ContractAddress
                   in bind_res (cheaters_loop L vs dbNonce cs nonce (vss[i := (vss ! i)\<lparr>vb_Cheater := True\<rparr>]))
                        (\<lambda>(txs, r). Inr (tx # txs, r))
         else Inl (Panic IndexOutOfRange))"

definition maxBlockIdx :: "u64 \<Rightarrow> u64 \<Rightarrow> u64" where
  "maxBlockIdx a b = (if a > b then a else b)"

definition metric_of :: "block_ctx \<Rightarrow> epoch_state \<Rightarrow> big_heap \<Rightarrow> vblock_state \<Rightarrow> epoch_metric" where
  "metric_of blk es h info =
     (let blocksNum = maxBlockIdx (bc_Idx blk) (vb_LastBlock info) - vb_LastBlock info;
          period = MaxTimestamp (bc_Time blk) (vb_LastOnlineTime info) - vb_LastOnlineTime info;
          uptime = vb_Uptime info
      in if blocksNum \<le> BlockMissedSlack (ru_Economy (es_Rules es))
         then let prevOnlineTime = MaxTimestamp (vb_LastOnlineTime info) (es_EpochStart es)
              in \<lparr>em_BlocksNum = 0, em_Period = 0,
                  em_Uptime = uptime + (MaxTimestamp (bc_Time blk) prevOnlineTime - prevOnlineTime),
                  em_OriginatedTxFee = h ! vb_Originated info\<rparr>
         else \<lparr>em_BlocksNum = blocksNum, em_Period = period, em_Uptime = uptime,
               em_OriginatedTxFee = h ! vb_Originated info\<rparr>)"

text \<open>
  \<open>DriverTxPreTransactor.PopInternalTxs\<close>. The \<open>Cheater\<close> flags are set in the slice the block state
  shares with its other holders, so the changed validator states are part of the result.
\<close>

definition pre_PopInternalTxs ::
  "driver_lib \<Rightarrow> u64 \<Rightarrow> block_ctx \<Rightarrow> block_state \<Rightarrow> epoch_state \<Rightarrow> bool \<Rightarrow> big_heap \<Rightarrow>
     (transaction list \<times> vblock_state list) res" where
  "pre_PopInternalTxs L dbNonce blk bs es sealing h =
     bind_res (cheaters_loop L (es_Validators es) dbNonce (bs_EpochCheaters bs) (- 1) (bs_ValidatorStates bs))
       (\<lambda>(txs, nonce, vss).
          if sealing
          then if v_Len (es_Validators es) \<le> length vss
               then let metrics = map (metric_of blk es h) (take (v_Len (es_Validators es)) vss)
                    in Inr (txs @ [fst (buildTx dbNonce nonce (call_SealEpoch L metrics) ContractAddress)], vss)
               else Inl (Panic IndexOutOfRange)
          else Inr (txs, vss))"

definition post_PopInternalTxs :: "driver_lib \<Rightarrow> u64 \<Rightarrow> epoch_state \<Rightarrow> bool \<Rightarrow> transaction list" where
  "post_PopInternalTxs L dbNonce es sealing =
     (if sealing
      then [fst (buildTx dbNonce (- 1) (call_SealEpochValidators L (v_SortedIDs (es_Validators es))) ContractAddress)]
      else [])"

section \<open>ABI-encoded bytes\<close>

text \<open>The ABI encoding of one dynamic byte string: offset 32, length, content, padding.\<close>

definition be8 :: "nat \<Rightarrow> bytes" where "be8 n = PaddedBytes (nat_be n) 8"

definition abi_bytes :: "bytes \<Rightarrow> bytes \<Rightarrow> bytes" where
  "abi_bytes b pad = replicate 31 0 @ [32] @ replicate 24 0 @ be8 (length b) @ b @ pad"

lemma be8_props: "n < 2 ^ 64 \<Longrightarrow> length (be8 n) = 8 \<and> be_nat (be8 n) = n"
  using length_nat_be_le [of n 8] by (simp add: be8_def PaddedBytes_def be_nat_append)

lemma go_slice_nat:
  assumes "a \<le> b" "b \<le> length d" "length d < 2 ^ 64"
  shows "go_slice d (word_of_nat a) (word_of_nat b) = Inr (take (b - a) (drop a d))"
proof -
  have "unat (word_of_nat a :: u64) = a" "unat (word_of_nat b :: u64) = b"
    using assms by (simp_all add: unat_small_nat)
  with assms show ?thesis by (simp add: go_slice_def word_le_nat_alt)
qed

text \<open>Below 2^64 the bounds tests mean what they say.\<close>

lemma decodeDataBytes_nat:
  assumes "32 \<le> length d" "length d < 2 ^ 63"
    and "start = be_nat (take 8 (drop 24 d))" "start + 32 \<le> length d"
    and "sz = be_nat (take 8 (drop (start + 24) d))" "start + 32 + sz \<le> length d"
  shows "decodeDataBytes d = Inr (take sz (drop (start + 32) d))"
proof -
  let ?n = "\<lambda>k. word_of_nat k :: u64"
  have s1: "go_slice d 24 32 = Inr (take 8 (drop 24 d))"
    using go_slice_nat [of 24 32 d] assms(1,2) by simp
  have s2: "go_slice d (?n start + 24) (?n start + 32) = Inr (take 8 (drop (start + 24) d))"
    using go_slice_nat [of "start + 24" "start + 32" d] assms(2,4) by simp
  have s3: "go_slice d (?n start + 32) (?n start + 32 + ?n sz) = Inr (take sz (drop (start + 32) d))"
    using go_slice_nat [of "start + 32" "start + 32 + sz" d] assms(2,6) by simp
  have u: "unat (?n (length d)) = length d" "unat (?n (start + 32)) = start + 32"
      "unat (?n (start + 32 + sz)) = start + 32 + sz"
    using assms by (intro unat_small_nat; simp)+
  have c1: "\<not> ?n start + 32 > ?n (length d)"
    using u assms(4) by (simp add: word_less_nat_alt)
  have c2: "\<not> ?n start + 32 + ?n sz > ?n (length d)"
    using u assms(6) by (simp add: word_less_nat_alt)
  have b: "word_of_int (big_SetBytes x) = ?n (be_nat x)" for x by (simp add: big_SetBytes_def)
  show ?thesis
    using assms(1) s1 s2 s3 c1 c2 by (simp add: decodeDataBytes_def b assms(3) [symmetric] assms(5) [symmetric])
qed

lemma decodeDataBytes_abi:
  assumes "length b + length pad < 2 ^ 62" shows "decodeDataBytes (abi_bytes b pad) = Inr b"
proof -
  let ?d = "abi_bytes b pad"
  have b8: "length (be8 (length b)) = 8" "be_nat (be8 (length b)) = length b"
    using be8_props [of "length b"] assms by auto
  have len: "length ?d = 64 + length b + length pad" using b8 by (simp add: abi_bytes_def)
  have d1: "take 8 (drop 24 ?d) = replicate 7 0 @ [32]"
    by (simp add: abi_bytes_def numeral_eq_Suc)
  have dd: "?d = (replicate 31 0 @ [32] @ replicate 24 0) @ be8 (length b) @ b @ pad" by (simp add: abi_bytes_def)
  have d2: "take 8 (drop 56 ?d) = be8 (length b)" unfolding dd using b8 by simp
  have d3: "take (length b) (drop 64 ?d) = b" unfolding dd using b8 by simp
  have st: "be_nat (take 8 (drop 24 ?d)) = 32" unfolding d1 by (simp add: be_nat_append) (simp add: be_nat_def)
  have "decodeDataBytes ?d = Inr (take (length b) (drop (32 + 32) ?d))"
  proof (rule decodeDataBytes_nat)
    show "length b = be_nat (take 8 (drop (32 + 24) ?d))" using d2 b8(2) by (simp only: arith_simps)
    show "length ?d < 2 ^ 63" using assms unfolding len by simp
  qed (simp_all only: len st)
  then show ?thesis using d3 by (simp only: arith_simps)
qed

section \<open>What a log can change\<close>

definition driver_inv :: "block_state \<Rightarrow> bool" where
  "driver_inv bs \<longleftrightarrow> bs_AdvanceEpochs bs \<le> maxAdvanceEpochs \<and>
     (\<forall>v p. bs_NextValidatorProfiles bs v = Some p \<longrightarrow> 0 < vp_Weight p)"

text \<open>The parts of the block state no log may touch.\<close>

definition log_frame :: "block_state \<Rightarrow> block_state \<Rightarrow> bool" where
  "log_frame bs bs' \<longleftrightarrow> bs_LastBlock bs' = bs_LastBlock bs \<and> bs_FinalizedStateRoot bs' = bs_FinalizedStateRoot bs \<and>
     bs_EpochGas bs' = bs_EpochGas bs \<and> bs_EpochCheaters bs' = bs_EpochCheaters bs \<and>
     bs_ValidatorStates bs' = bs_ValidatorStates bs \<and>
     NetworkID (bs_DirtyRules bs') = NetworkID (bs_DirtyRules bs) \<and> ru_Name (bs_DirtyRules bs') = ru_Name (bs_DirtyRules bs)"

definition log_ok :: "block_state \<Rightarrow> block_state \<Rightarrow> bool" where
  "log_ok bs bs' \<longleftrightarrow> log_frame bs bs' \<and> (driver_inv bs \<longrightarrow> driver_inv bs')"

lemma log_ok_refl: "log_ok bs bs" by (simp add: log_ok_def log_frame_def)

lemma log_ok_trans: "log_ok a b \<Longrightarrow> log_ok b c \<Longrightarrow> log_ok a c" by (auto simp: log_ok_def log_frame_def)

lemma big_SetBytes_nonneg: "0 \<le> big_SetBytes b" by (simp add: big_SetBytes_def)

lemma on_Weight_ok: "log_ok bs (on_Weight v d bs)"
  using big_SetBytes_nonneg [of "take 32 d"]
  by (auto simp: log_ok_def log_frame_def driver_inv_def on_Weight_def Let_def order_le_less split: if_splits)

lemma on_Pubkey_ok: "log_ok bs (on_Pubkey v k bs)"
  by (auto simp: log_ok_def log_frame_def driver_inv_def on_Pubkey_def Let_def split: option.splits if_splits)

lemma on_Advance_ok: "log_ok bs (on_Advance d bs)"
  by (auto simp: log_ok_def log_frame_def driver_inv_def on_Advance_def Let_def not_less)

lemma on_Rules_ok: "log_ok bs (bs\<lparr>bs_DirtyRules := snd (UpdateRules J (bs_DirtyRules bs) diff)\<rparr>)"
  using UpdateRules_protects [of J "bs_DirtyRules bs" diff] by (simp add: log_ok_def log_frame_def driver_inv_def)

lemma rules_step_ok:
  assumes "UpdateRules J (bs_DirtyRules bs) diff = (e, r)" shows "log_ok bs (bs\<lparr>bs_DirtyRules := r\<rparr>)"
  using on_Rules_ok [of bs J diff] assms by simp

lemmas log_ok_steps = log_ok_refl log_ok_trans [OF _ on_Weight_ok] log_ok_trans [OF _ on_Pubkey_ok]
  log_ok_trans [OF _ on_Advance_ok] log_ok_trans [OF _ rules_step_ok]

lemma bs_OnNewLog_ok: "bs_OnNewLog L l bs = Inr bs' \<Longrightarrow> log_ok bs bs'"
  by (auto simp: bs_OnNewLog_def Let_def split: if_splits list.splits sum.splits failure.splits prod.splits option.splits
      intro!: log_ok_steps)

text \<open>
  Advancing epochs: the number in the last three data bytes is added without wrap-around and the
  result is cut at 65536.
\<close>

lemma on_Advance_nat:
  assumes "bs_AdvanceEpochs bs \<le> maxAdvanceEpochs" "length d \<ge> 32"
  shows "unat (bs_AdvanceEpochs (on_Advance d bs)) =
    min 65536 (unat (bs_AdvanceEpochs bs) + be_nat (take 3 (drop 29 d)))"
proof -
  let ?n = "be_nat (take 3 (drop 29 d))"
  have n: "?n < 2 ^ 24" using be_nat_less [of "take 3 (drop 29 d)"] assms(2) by simp
  have eq: "(ucast (word_of_int (big_SetBytes (take 3 (drop 29 d))) :: u64) :: u32) = word_of_nat ?n"
    using n by (simp add: big_SetBytes_def unsigned_of_nat take_bit_nat_eq_self)
  have m: "unat maxAdvanceEpochs = 65536" by (simp add: maxAdvanceEpochs_def)
  have "unat (bs_AdvanceEpochs bs) \<le> 65536" using assms(1) m by (simp add: word_le_nat_alt)
  then have "unat (bs_AdvanceEpochs bs + word_of_nat ?n) = unat (bs_AdvanceEpochs bs) + ?n"
    using n by (subst unat_add_small) (simp_all add: unat_small_nat)
  then show ?thesis
    by (simp add: on_Advance_def Let_def eq word_less_nat_alt m min_def)
qed

section \<open>Internal transactions: consecutive nonces, one report per cheater\<close>

definition internal_tx :: "u64 \<Rightarrow> bytes \<Rightarrow> transaction" where
  "internal_tx n calldata = fst (buildTx n n calldata ContractAddress)"

fun internal_txs :: "u64 \<Rightarrow> bytes list \<Rightarrow> transaction list" where
  "internal_txs n [] = []"
| "internal_txs n (d # ds) = internal_tx n d # internal_txs (n + 1) ds"

lemma internal_txs_append:
  "internal_txs n (ds @ es) = internal_txs n ds @ internal_txs (n + word_of_nat (length ds)) es"
  by (induction ds arbitrary: n) (simp_all add: algebra_simps)

definition start_nonce :: "u64 \<Rightarrow> u64 \<Rightarrow> u64" where
  "start_nonce db n = (if n = - 1 then db else n)"

lemma buildTx_internal:
  "buildTx db n d ContractAddress = (internal_tx (start_nonce db n) d, start_nonce db n + 1)"
  by (simp add: buildTx_def internal_tx_def start_nonce_def Let_def)

lemma start_nonce_step:
  assumes "unat (start_nonce db n) + 1 < 2 ^ 64 - 1"
  shows "start_nonce db (start_nonce db n + 1) = start_nonce db n + 1"
    "unat (start_nonce db n + 1) = unat (start_nonce db n) + 1"
proof -
  show u: "unat (start_nonce db n + 1) = unat (start_nonce db n) + 1"
    using assms by (subst unat_add_small) simp_all
  have "start_nonce db n + 1 \<noteq> - 1"
  proof
    assume "start_nonce db n + 1 = - 1"
    with u have "unat (- 1 :: u64) = unat (start_nonce db n) + 1" by (simp only:)
    with assms show False by (simp add: unat_max_word)
  qed
  then show "start_nonce db (start_nonce db n + 1) = start_nonce db n + 1" by (simp add: start_nonce_def)
qed

definition flag_cheaters :: "validators \<Rightarrow> u32 list \<Rightarrow> vblock_state list \<Rightarrow> vblock_state list" where
  "flag_cheaters vs cs vss =
     map (\<lambda>(j, st). if v_GetID vs j \<in> set cs then st\<lparr>vb_Cheater := True\<rparr> else st) (enumerate 0 vss)"

definition fresh_cheaters :: "validators \<Rightarrow> u32 list \<Rightarrow> vblock_state list \<Rightarrow> u32 list" where
  "fresh_cheaters vs cs vss = filter (\<lambda>c. \<not> vb_Cheater (vss ! v_GetIdx vs c)) cs"

lemma length_flag_cheaters [simp]: "length (flag_cheaters vs cs vss) = length vss"
  by (simp add: flag_cheaters_def)

lemma nth_flag_cheaters:
  "j < length vss \<Longrightarrow> flag_cheaters vs cs vss ! j =
     (if v_GetID vs j \<in> set cs then (vss ! j)\<lparr>vb_Cheater := True\<rparr> else vss ! j)"
  by (simp add: flag_cheaters_def nth_enumerate_eq)

lemma flag_cheaters_Nil [simp]: "flag_cheaters vs [] vss = vss"
  by (rule nth_equalityI) (simp_all add: nth_flag_cheaters)

lemma flag_cheaters_Cons:
  assumes "validators_ok vs" "length vss = v_Len vs" "v_Exists vs c"
  shows "flag_cheaters vs (c # cs) vss = flag_cheaters vs cs (vss[v_GetIdx vs c := (vss ! v_GetIdx vs c)\<lparr>vb_Cheater := True\<rparr>])"
  using assms
  by (intro nth_equalityI) (auto simp: nth_flag_cheaters nth_list_update validators_ok_def)

lemma cheater_update_id: "vb_Cheater st \<Longrightarrow> st\<lparr>vb_Cheater := True\<rparr> = st"
  by (cases st) simp

lemma cheaters_loop_ok:
  assumes vs: "validators_ok vs" and "length vss = v_Len vs" "\<forall>c \<in> set cs. v_Exists vs c" "distinct cs"
    and "unat (start_nonce db n) + length cs < 2 ^ 64 - 1"
  shows "\<exists>n'. cheaters_loop L vs db cs n vss =
      Inr (internal_txs (start_nonce db n) (map (\<lambda>c. call_DeactivateValidator L c DoublesignBit) (fresh_cheaters vs cs vss)),
           n', flag_cheaters vs cs vss) \<and>
    start_nonce db n' = start_nonce db n + word_of_nat (length (fresh_cheaters vs cs vss))"
  using assms(2-)
proof (induction cs arbitrary: n vss)
  case Nil
  then show ?case by (simp add: fresh_cheaters_def)
next
  case (Cons c cs)
  let ?i = "v_GetIdx vs c"
  let ?vss = "vss[?i := (vss ! ?i)\<lparr>vb_Cheater := True\<rparr>]"
  have i: "?i < length vss" using Cons.prems vs by (simp add: validators_ok_def)
  have flag: "flag_cheaters vs (c # cs) vss = flag_cheaters vs cs ?vss"
    using flag_cheaters_Cons Cons.prems vs by simp
  have ne: "?i \<noteq> v_GetIdx vs d" if "d \<in> set cs" for d
    using that Cons.prems(2,3) vs unfolding validators_ok_def by (metis distinct.simps(2) list.set_intros)
  have fresh: "fresh_cheaters vs cs ?vss = fresh_cheaters vs cs vss"
    unfolding fresh_cheaters_def by (rule filter_cong) (simp_all add: ne)
  show ?case
  proof (cases "vb_Cheater (vss ! ?i)")
    case True
    then have "?vss = vss" by (simp add: cheater_update_id)
    with True i flag Cons.IH [of vss n] Cons.prems show ?thesis by (simp add: fresh_cheaters_def)
  next
    case False
    note nn = start_nonce_step [of db n]
    obtain n' where IH: "cheaters_loop L vs db cs (start_nonce db n + 1) ?vss =
        Inr (internal_txs (start_nonce db n + 1) (map (\<lambda>c. call_DeactivateValidator L c DoublesignBit) (fresh_cheaters vs cs vss)),
             n', flag_cheaters vs cs ?vss)"
        "start_nonce db n' = start_nonce db n + 1 + word_of_nat (length (fresh_cheaters vs cs vss))"
      using Cons.IH [of ?vss "start_nonce db n + 1"] Cons.prems nn fresh by auto
    with False i flag show ?thesis
      by (simp add: fresh_cheaters_def buildTx_internal Let_def algebra_simps)
  qed
qed

lemma flag_cheaters_Originated [simp]:
  "map vb_Originated (flag_cheaters vs cs vss) = map vb_Originated vss"
  by (rule nth_equalityI) (simp_all add: nth_flag_cheaters)

lemma pre_PopInternalTxs_helper:
  assumes ok: "decided_ok bs es h" and "\<forall>c \<in> set (bs_EpochCheaters bs). v_Exists (es_Validators es) c"
    and "distinct (bs_EpochCheaters bs)" "dbNonce \<noteq> - 1" "unat dbNonce + length (bs_EpochCheaters bs) < 2 ^ 64 - 1"
  defines "vss \<equiv> flag_cheaters (es_Validators es) (bs_EpochCheaters bs) (bs_ValidatorStates bs)"
  shows "pre_PopInternalTxs L dbNonce blk bs es sealing h =
    Inr (internal_txs dbNonce
      (map (\<lambda>c. call_DeactivateValidator L c DoublesignBit)
         (fresh_cheaters (es_Validators es) (bs_EpochCheaters bs) (bs_ValidatorStates bs))
       @ (if sealing then [call_SealEpoch L (map (metric_of blk es h) vss)] else [])), vss)"
proof -
  have st: "start_nonce dbNonce (- 1) = dbNonce" by (simp add: start_nonce_def)
  have len: "length vss = v_Len (es_Validators es)" using ok by (simp add: vss_def decided_ok_def)
  obtain n' where "cheaters_loop L (es_Validators es) dbNonce (bs_EpochCheaters bs) (- 1) (bs_ValidatorStates bs) =
      Inr (internal_txs dbNonce (map (\<lambda>c. call_DeactivateValidator L c DoublesignBit)
        (fresh_cheaters (es_Validators es) (bs_EpochCheaters bs) (bs_ValidatorStates bs))), n', vss)"
      "start_nonce dbNonce n' = dbNonce +
        word_of_nat (length (fresh_cheaters (es_Validators es) (bs_EpochCheaters bs) (bs_ValidatorStates bs)))"
    using cheaters_loop_ok [of "es_Validators es" "bs_ValidatorStates bs" "bs_EpochCheaters bs" dbNonce "- 1" L] assms st
    by (auto simp: decided_ok_def)
  with len show ?thesis by (simp add: pre_PopInternalTxs_def buildTx_internal internal_txs_append)
qed

lemma flagged_not_fresh:
  assumes "validators_ok vs" "length vss = v_Len vs" "\<forall>c \<in> set cs. v_Exists vs c"
  shows "fresh_cheaters vs cs (flag_cheaters vs cs vss) = []"
  using assms by (auto simp: fresh_cheaters_def filter_empty_conv nth_flag_cheaters validators_ok_def)

section \<open>Receipts\<close>

lemma OnNewReceipt_helper:
  assumes ok: "decided_ok (tl_bs p) (tl_es p) h" and ex: "originator \<noteq> 0" "v_Exists (es_Validators (tl_es p)) originator"
  defines "i \<equiv> v_GetIdx (es_Validators (tl_es p)) originator"
  shows "\<exists>p' h'. OnNewReceipt tx g originator (p, h) = Inr (p', h') \<and> decided_ok (tl_bs p') (tl_es p') h' \<and>
    (\<forall>j < length (bs_ValidatorStates (tl_bs p)).
       h' ! vb_Originated (bs_ValidatorStates (tl_bs p') ! j) =
         h ! vb_Originated (bs_ValidatorStates (tl_bs p) ! j) + (if j = i then uint g * tx_GasPrice tx else 0) \<and>
       vb_DirtyGasRefund (bs_ValidatorStates (tl_bs p') ! j) =
         vb_DirtyGasRefund (bs_ValidatorStates (tl_bs p) ! j) + (if j = i then tx_Gas tx - g else 0) \<and>
       vb_Originated (bs_ValidatorStates (tl_bs p') ! j) = vb_Originated (bs_ValidatorStates (tl_bs p) ! j))"
proof -
  let ?vss = "bs_ValidatorStates (tl_bs p)"
  let ?a = "vb_Originated (?vss ! i)"
  let ?st = "(?vss ! i)\<lparr>vb_DirtyGasRefund := vb_DirtyGasRefund (?vss ! i) + (tx_Gas tx - g)\<rparr>"
  let ?p = "p\<lparr>tl_bs := (tl_bs p)\<lparr>bs_ValidatorStates := ?vss[i := ?st]\<rparr>\<rparr>"
  let ?h = "h[?a := h ! ?a + uint g * tx_GasPrice tx]"
  have i: "i < length ?vss" using ok ex by (simp add: decided_ok_def validators_ok_def i_def)
  have d: "distinct (map vb_Originated ?vss)" and a: "\<forall>a \<in> set (map vb_Originated ?vss). a < length h"
    using ok by (simp_all add: decided_ok_def)
  have run: "OnNewReceipt tx g originator (p, h) = Inr (?p, ?h)"
    using i ex(1) unfolding i_def by (auto simp: OnNewReceipt_def Let_def)
  have orig: "map vb_Originated (?vss[i := ?st]) = map vb_Originated ?vss"
    using i by (simp add: map_update list_update_same_conv)
  then have "decided_ok (tl_bs ?p) (tl_es ?p) ?h" using ok by (simp add: decided_ok_def flip: set_map)
  moreover have "?h ! vb_Originated (?vss[i := ?st] ! j) =
        h ! vb_Originated (?vss ! j) + (if j = i then uint g * tx_GasPrice tx else 0)" if "j < length ?vss" for j
  proof (cases "j = i")
    case False
    then have "?a \<noteq> vb_Originated (?vss ! j)" using d i that by (auto simp: distinct_conv_nth)
    with False show ?thesis by simp
  qed (use i a in auto)
  ultimately show ?thesis
    using run i by (intro exI [of _ ?p] exI [of _ ?h]) (simp add: nth_list_update)
qed

section \<open>Properties\<close>

definition demo_driver_lib :: driver_lib where
  "demo_driver_lib = \<lparr>keccak = (\<lambda>t. map (\<lambda>c. of_char c) t), abi_Pack = (\<lambda>name args. map (\<lambda>c. of_char c) name),
     json_Unmarshal = (\<lambda>b r. (None, r))\<rparr>"

text \<open>
  C40. What \<open>decodeDataBytes\<close> reads from log data: it inverts the ABI encoding of a dynamic byte
  string, with any padding behind it.
\<close>

theorem decodeDataBytes_inverts_abi:
  "length b + length pad < 2 ^ 62 \<Longrightarrow> decodeDataBytes (abi_bytes b pad) = Inr b"
  by (rule decodeDataBytes_abi)

theorem decodeDataBytes_inverts_abi_witness:
  "length [0xc0, 4, 5 :: u8] + length (replicate 29 (0 :: u8)) < 2 ^ 62 \<and>
   decodeDataBytes (abi_bytes [0xc0, 4, 5] (replicate 29 0)) = Inr [0xc0, 4, 5]"
  using decodeDataBytes_inverts_abi [of "[0xc0, 4, 5]" "replicate 29 0"] by simp

text \<open>
  The bounds tests of \<open>decodeDataBytes\<close> wrap around: for an offset 32 below 2^64 the test against
  the length passes and the slice expression panics, and a pubkey log with such data takes the
  handler down with it.
\<close>

theorem decodeDataBytes_overflow_panics:
  "decodeDataBytes (replicate 24 0 @ replicate 7 0xff @ [0xe0]) = Inl (Panic SliceOutOfRange) \<and>
   (\<forall>L bs. topic_UpdateValidatorPubkey L \<noteq> topic_UpdateValidatorWeight L \<longrightarrow>
      bs_OnNewLog L \<lparr>lg_Address = ContractAddress, lg_Topics = [topic_UpdateValidatorPubkey L, []],
        lg_Data = replicate 24 0 @ replicate 7 0xff @ [0xe0]\<rparr> bs = Inl (Panic SliceOutOfRange))"
proof -
  let ?d = "replicate 24 0 @ replicate 7 0xff @ [0xe0] :: bytes"
  have start: "word_of_int (big_SetBytes (replicate 7 0xff @ [0xe0])) = (0xffffffffffffffe0 :: u64)"
  proof -
    have r: "replicate 7 (0xff :: u8) = [0xff, 0xff, 0xff, 0xff, 0xff, 0xff, 0xff]" by (simp add: numeral_eq_Suc)
    show ?thesis unfolding r by (simp add: big_SetBytes_def be_nat_def)
  qed
  have "go_slice ?d 24 32 = Inr (replicate 7 0xff @ [0xe0])" by (simp add: go_slice_def)
  then have d: "decodeDataBytes ?d = Inl (Panic SliceOutOfRange)"
    unfolding decodeDataBytes_def by (simp add: start Let_def) (simp add: go_slice_def)
  then show ?thesis by (simp add: bs_OnNewLog_def Let_def)
qed

theorem decodeDataBytes_overflow_panics_witness:
  "topic_UpdateValidatorPubkey demo_driver_lib \<noteq> topic_UpdateValidatorWeight demo_driver_lib \<and>
   bs_OnNewLog demo_driver_lib \<lparr>lg_Address = ContractAddress, lg_Topics = [topic_UpdateValidatorPubkey demo_driver_lib, []],
        lg_Data = replicate 24 0 @ replicate 7 0xff @ [0xe0]\<rparr> demo_bs = Inl (Panic SliceOutOfRange)"
proof -
  have "topic_UpdateValidatorPubkey demo_driver_lib \<noteq> topic_UpdateValidatorWeight demo_driver_lib"
    by (simp add: demo_driver_lib_def topic_UpdateValidatorPubkey_def topic_UpdateValidatorWeight_def)
  then show ?thesis using decodeDataBytes_overflow_panics by blast
qed

text \<open>
  C28. Whatever a driver log contains, the number of epochs to advance stays within its maximum and
  every next validator has a positive weight; the log leaves the decided data (last block, roots,
  gas, cheaters, validator states) and the network's identity in the rules alone.
\<close>

theorem OnNewLog_invariant:
  assumes "OnNewLog L l p = Inr p'" "driver_inv (tl_bs p)"
  shows "driver_inv (tl_bs p') \<and> log_frame (tl_bs p) (tl_bs p') \<and> tl_es p' = tl_es p \<and> tl_block p' = tl_block p"
  using assms bs_OnNewLog_ok [of L l "tl_bs p"] by (auto simp: OnNewLog_def bind_res_Inr_iff log_ok_def)

definition demo_listener :: tx_listener where
  "demo_listener = listener_Start demo_blk demo_bs demo_es"

definition demo_weight_log :: evm_log where
  "demo_weight_log = \<lparr>lg_Address = ContractAddress,
     lg_Topics = [topic_UpdateValidatorWeight demo_driver_lib, replicate 31 0 @ [7]], lg_Data = replicate 31 0 @ [9]\<rparr>"

theorem OnNewLog_invariant_witness:
  "driver_inv (tl_bs demo_listener) \<and>
   (\<exists>p'. OnNewLog demo_driver_lib demo_weight_log demo_listener = Inr p' \<and> driver_inv (tl_bs p') \<and>
      map_option vp_Weight (bs_NextValidatorProfiles (tl_bs p') 7) = Some 9)"
proof -
  have inv: "driver_inv (tl_bs demo_listener)"
    by (simp add: demo_listener_def listener_Start_def driver_inv_def demo_bs_def maxAdvanceEpochs_def)
  have run: "case OnNewLog demo_driver_lib demo_weight_log demo_listener of Inl e \<Rightarrow> False
      | Inr p' \<Rightarrow> map_option vp_Weight (bs_NextValidatorProfiles (tl_bs p') 7) = Some 9"
    by code_simp
  then obtain p' where p': "OnNewLog demo_driver_lib demo_weight_log demo_listener = Inr p'"
      "map_option vp_Weight (bs_NextValidatorProfiles (tl_bs p') 7) = Some 9"
    by (auto split: sum.splits)
  with OnNewLog_invariant [OF p'(1) inv] inv show ?thesis by blast
qed

text \<open>
  C15. The transactions before sealing: one deactivation for each cheater that is not flagged yet, in
  the order of the cheaters, then, when the epoch is sealed, the metrics of all validators; nonces
  are consecutive from the one in the state. Every cheater is flagged afterwards, the decided state
  stays well-formed, and a second call reports no cheater again.
\<close>

theorem pre_PopInternalTxs_once:
  assumes "decided_ok bs es h" "\<forall>c \<in> set (bs_EpochCheaters bs). v_Exists (es_Validators es) c"
    and "distinct (bs_EpochCheaters bs)" "dbNonce \<noteq> - 1" "unat dbNonce + length (bs_EpochCheaters bs) < 2 ^ 64 - 1"
  shows "\<exists>txs vss. pre_PopInternalTxs L dbNonce blk bs es sealing h = Inr (txs, vss) \<and>
    txs = internal_txs dbNonce
      (map (\<lambda>c. call_DeactivateValidator L c DoublesignBit)
         (filter (\<lambda>c. \<not> vb_Cheater (bs_ValidatorStates bs ! v_GetIdx (es_Validators es) c)) (bs_EpochCheaters bs))
       @ (if sealing then [call_SealEpoch L (map (metric_of blk es h) vss)] else [])) \<and>
    (\<forall>c \<in> set (bs_EpochCheaters bs). vb_Cheater (vss ! v_GetIdx (es_Validators es) c)) \<and>
    decided_ok (bs\<lparr>bs_ValidatorStates := vss\<rparr>) es h \<and>
    pre_PopInternalTxs L dbNonce blk (bs\<lparr>bs_ValidatorStates := vss\<rparr>) es False h = Inr ([], vss)"
proof -
  let ?vs = "es_Validators es" and ?cs = "bs_EpochCheaters bs"
  define vss where "vss = flag_cheaters ?vs ?cs (bs_ValidatorStates bs)"
  let ?bs = "bs\<lparr>bs_ValidatorStates := vss\<rparr>"
  have vs: "validators_ok ?vs" "length (bs_ValidatorStates bs) = v_Len ?vs" using assms(1) by (simp_all add: decided_ok_def)
  have flagged: "\<forall>c \<in> set ?cs. vb_Cheater (vss ! v_GetIdx ?vs c)"
    using assms(2) vs by (auto simp: vss_def nth_flag_cheaters validators_ok_def)
  have ok: "decided_ok ?bs es h"
    using assms(1) by (simp add: decided_ok_def vss_def flip: set_map)
  have again: "flag_cheaters ?vs ?cs vss = vss"
    using flagged vs by (intro nth_equalityI) (auto simp: nth_flag_cheaters cheater_update_id vss_def)
  have "fresh_cheaters ?vs ?cs vss = []" unfolding vss_def using flagged_not_fresh vs assms(2) by blast
  then have "pre_PopInternalTxs L dbNonce blk ?bs es False h = Inr ([], vss)"
    using pre_PopInternalTxs_helper [of ?bs es h dbNonce L blk False] ok assms(2-) again by simp
  with pre_PopInternalTxs_helper [OF assms, of L blk sealing] flagged ok show ?thesis
    unfolding vss_def [symmetric] fresh_cheaters_def by blast
qed

theorem pre_PopInternalTxs_once_witness:
  "decided_ok demo_bs demo_es [0, 0] \<and> bs_EpochCheaters demo_bs = [2] \<and>
   (\<exists>txs vss. pre_PopInternalTxs demo_driver_lib 4 demo_blk demo_bs demo_es True [0, 0] = Inr (txs, vss) \<and>
      vb_Cheater (vss ! v_GetIdx (es_Validators demo_es) 2))"
proof -
  have c: "bs_EpochCheaters demo_bs = [2]" by (simp add: demo_bs_def)
  have e: "v_Exists (es_Validators demo_es) 2" by (simp add: demo_es_def demo_validators_def)
  show ?thesis
    using pre_PopInternalTxs_once [OF demo_decided_ok, of 4 demo_driver_lib demo_blk True] demo_decided_ok c e by auto
qed

text \<open>
  A receipt credits its fee to the originator and to nobody else, the unused gas becomes a
  refund, and the decided state stays well-formed.
\<close>

theorem OnNewReceipt_credits:
  assumes "decided_ok (tl_bs p) (tl_es p) h" "originator \<noteq> 0" "v_Exists (es_Validators (tl_es p)) originator"
  shows "\<exists>p' h'. OnNewReceipt tx g originator (p, h) = Inr (p', h') \<and> decided_ok (tl_bs p') (tl_es p') h' \<and>
    (\<forall>j < v_Len (es_Validators (tl_es p)).
       h' ! vb_Originated (bs_ValidatorStates (tl_bs p') ! j) =
         h ! vb_Originated (bs_ValidatorStates (tl_bs p) ! j)
           + (if v_GetID (es_Validators (tl_es p)) j = originator then uint g * tx_GasPrice tx else 0) \<and>
       vb_DirtyGasRefund (bs_ValidatorStates (tl_bs p') ! j) =
         vb_DirtyGasRefund (bs_ValidatorStates (tl_bs p) ! j)
           + (if v_GetID (es_Validators (tl_es p)) j = originator then tx_Gas tx - g else 0))"
proof -
  have "j = v_GetIdx (es_Validators (tl_es p)) originator \<longleftrightarrow> v_GetID (es_Validators (tl_es p)) j = originator"
    if "j < v_Len (es_Validators (tl_es p))" for j
    using assms(1,3) that unfolding decided_ok_def validators_ok_def by metis
  moreover have "length (bs_ValidatorStates (tl_bs p)) = v_Len (es_Validators (tl_es p))"
    using assms(1) by (simp add: decided_ok_def)
  ultimately show ?thesis using OnNewReceipt_helper [OF assms, of tx g] by fastforce
qed

theorem OnNewReceipt_credits_witness:
  "decided_ok (tl_bs demo_listener) (tl_es demo_listener) [0, 0] \<and>
   (\<exists>p' h'. OnNewReceipt ((demo_tx 0 30000)\<lparr>tx_GasPrice := 3\<rparr>) 21000 1 (demo_listener, [0, 0]) = Inr (p', h') \<and>
      decided_ok (tl_bs p') (tl_es p') h')"
proof -
  have ok: "decided_ok (tl_bs demo_listener) (tl_es demo_listener) [0, 0]"
    by (simp add: demo_listener_def listener_Start_def demo_decided_ok)
  have e: "v_Exists (es_Validators (tl_es demo_listener)) 1"
    by (simp add: demo_listener_def listener_Start_def demo_es_def demo_validators_def)
  show ?thesis using OnNewReceipt_credits [OF ok _ e, of "(demo_tx 0 30000)\<lparr>tx_GasPrice := 3\<rparr>" 21000] ok by auto
qed

text \<open>
  A copy of the block state does not protect the originated fees: a receipt that block
  processing accounts on \<open>Copy()\<close> of the stored state changes the amounts the stored state refers to.
\<close>

theorem Copy_shares_originated:
  "\<exists>p' h'. OnNewReceipt ((demo_tx 0 30000)\<lparr>tx_GasPrice := 3\<rparr>) 21000 1
       (listener_Start demo_blk (bs_Copy demo_bs) demo_es, [0, 0]) = Inr (p', h') \<and>
     map (\<lambda>st. [0, 0] ! vb_Originated st) (bs_ValidatorStates demo_bs) = [0, 0 :: int] \<and>
     map (\<lambda>st. h' ! vb_Originated st) (bs_ValidatorStates demo_bs) = [63000, 0]"
proof -
  have "case OnNewReceipt ((demo_tx 0 30000)\<lparr>tx_GasPrice := 3\<rparr>) 21000 1
       (listener_Start demo_blk (bs_Copy demo_bs) demo_es, [0, 0]) of Inl e \<Rightarrow> False
     | Inr (p', h') \<Rightarrow> map (\<lambda>st. [0, 0] ! vb_Originated st) (bs_ValidatorStates demo_bs) = [0, 0 :: int] \<and>
         map (\<lambda>st. h' ! vb_Originated st) (bs_ValidatorStates demo_bs) = [63000, 0]"
    by code_simp
  then show ?thesis by (auto split: sum.splits)
qed

end
