(* ===== verification/Evm_Module.thy ===== *)
theory Evm_Module
  imports Driver_Module
begin

text \<open>
  src/evmcore/dummy_block.go and the hash lookup of src/evmcore/evm.go (EVM headers and blocks) and
  src/gossip/blockproc/evmmodule: the processor that executes the transactions of one block in
  several portions. The theorems show that receipts, skipped positions and transactions stay
  aligned over all portions, and that the hash lookup returns the ancestor's hash.
\<close>

section \<open>EVM headers and blocks\<close>

record evm_header =
  eh_Number :: int
  eh_Hash :: bytes
  eh_ParentHash :: bytes
  eh_Root :: bytes
  eh_TxHash :: bytes
  eh_Time :: u64
  eh_Coinbase :: bytes
  eh_GasLimit :: u64
  eh_GasUsed :: u64

record evm_block =
  eb_Header :: evm_header
  eb_Transactions :: "transaction list"

abbreviation zero_hash :: bytes where "zero_hash \<equiv> replicate 32 0"
abbreviation zero_addr :: bytes where "zero_addr \<equiv> replicate 20 0"

text \<open>From go-ethereum: the root of a list of transactions and that of the empty one.\<close>

record types_lib =
  DeriveSha :: "transaction list \<Rightarrow> bytes"
  EmptyRootHash :: bytes

definition NewEvmBlock :: "types_lib \<Rightarrow> evm_header \<Rightarrow> transaction list \<Rightarrow> evm_block" where
  "NewEvmBlock T h txs =
     (if length txs = 0 then \<lparr>eb_Header = h\<lparr>eh_TxHash := EmptyRootHash T\<rparr>, eb_Transactions = txs\<rparr>
      else \<lparr>eb_Header = h\<lparr>eh_TxHash := DeriveSha T txs\<rparr>, eb_Transactions = txs\<rparr>)"

definition ToEvmHeader :: "block \<Rightarrow> u64 \<Rightarrow> bytes \<Rightarrow> evm_header" where
  "ToEvmHeader b index prevHash =
     \<lparr>eh_Number = sint index, eh_Hash = blk_Atropos b, eh_ParentHash = prevHash, eh_Root = blk_Root b,
      eh_TxHash = zero_hash, eh_Time = blk_Time b, eh_Coinbase = zero_addr, eh_GasLimit = MaxUint64,
      eh_GasUsed = blk_GasUsed b\<rparr>"

text \<open>The fields of go-ethereum's header that the conversions use.\<close>

record eth_header =
  th_Number :: int
  th_Coinbase :: bytes
  th_GasLimit :: u64
  th_GasUsed :: u64
  th_Root :: bytes
  th_TxHash :: bytes
  th_ParentHash :: bytes
  th_Time :: u64
  th_Extra :: bytes
  th_Difficulty :: int

definition EthHeader :: "evm_header \<Rightarrow> eth_header" where
  "EthHeader h =
     \<lparr>th_Number = eh_Number h, th_Coinbase = eh_Coinbase h, th_GasLimit = 0xffffffffffff, th_GasUsed = eh_GasUsed h,
      th_Root = eh_Root h, th_TxHash = eh_TxHash h, th_ParentHash = eh_ParentHash h,
      th_Time = Timestamp_Unix (eh_Time h), th_Extra = eh_Hash h, th_Difficulty = 0\<rparr>"

text \<open>\<open>BytesToHash\<close> of go-ethereum: the last 32 bytes, padded with zeros on the left.\<close>

definition BytesToHash :: "bytes \<Rightarrow> bytes" where
  "BytesToHash b = (if length b > 32 then drop (length b - 32) b else replicate (32 - length b) 0 @ b)"

definition ConvertFromEthHeader :: "eth_header \<Rightarrow> evm_header" where
  "ConvertFromEthHeader h =
     \<lparr>eh_Number = th_Number h, eh_Hash = BytesToHash (th_Extra h), eh_ParentHash = th_ParentHash h, eh_Root = th_Root h,
      eh_TxHash = th_TxHash h, eh_Time = FromUnix (th_Time h), eh_Coinbase = th_Coinbase h,
      eh_GasLimit = MaxUint64, eh_GasUsed = th_GasUsed h\<rparr>"

definition eb_NumberU64 :: "evm_block \<Rightarrow> u64" where
  "eb_NumberU64 b = word_of_int (eh_Number (eb_Header b))"

definition eb_EstimateSize :: "evm_block \<Rightarrow> nat" where
  "eb_EstimateSize b = sum_list (map (\<lambda>tx. length (tx_Data tx)) (eb_Transactions b)) + length (eb_Transactions b) * 256"

section \<open>Hashes of ancestors\<close>

text \<open>
  \<open>GetHashFn\<close>: the closure keeps a cache of hashes, the parent's first. The loop asks the chain for
  headers until it finds number \<open>n\<close> or a header is missing; nothing bounds it but the chain.
\<close>

partial_function (option) hash_walk ::
  "(bytes \<Rightarrow> u64 \<Rightarrow> evm_header option) \<Rightarrow> u64 \<Rightarrow> bytes list \<Rightarrow> bytes \<Rightarrow> u64 \<Rightarrow> (bytes \<times> bytes list) option" where
  [code]: "hash_walk GetHeader n cache lastKnownHash lastKnownNumber =
     (case GetHeader lastKnownHash lastKnownNumber of
        None \<Rightarrow> Some (zero_hash, cache)
      | Some h \<Rightarrow>
          (let cache = cache @ [eh_ParentHash h]; num = word_of_int (eh_Number h) - 1 :: u64
           in if n = num then Some (eh_ParentHash h, cache)
              else hash_walk GetHeader n cache (eh_ParentHash h) num))"

definition GetHash ::
  "(bytes \<Rightarrow> u64 \<Rightarrow> evm_header option) \<Rightarrow> evm_header \<Rightarrow> u64 \<Rightarrow> bytes list \<Rightarrow> (bytes \<times> bytes list) option" where
  "GetHash GetHeader ref n cache =
     (let cache = (if length cache = 0 then [eh_ParentHash ref] else cache);
          number = word_of_int (eh_Number ref) :: u64;
          i = number - n - 1
      in if unat i < length cache then Some (cache ! unat i, cache)
         else hash_walk GetHeader n cache (last cache) (number - word_of_nat (length cache)))"

section \<open>The processor of a block\<close>

record ('s, 'l) evm_processor =
  ep_block :: block_ctx
  ep_statedb :: 's
  ep_net :: rules
  ep_blockIdx :: int
  ep_prevBlockHash :: bytes
  ep_gasUsed :: u64
  ep_incomingTxs :: "transaction list"
  ep_skippedTxs :: "u32 list"
  ep_receipts :: "'l receipt list"

text \<open>\<open>reader.GetHeader(...).Hash\<close> of a missing header dereferences a nil pointer.\<close>

definition evm_Start ::
  "(bytes \<Rightarrow> u64 \<Rightarrow> evm_header option) \<Rightarrow> block_ctx \<Rightarrow> 's \<Rightarrow> rules \<Rightarrow> ('s, 'l) evm_processor res" where
  "evm_Start GetHeader blk db net =
     bind_res
       (if bc_Idx blk \<noteq> 0
        then (case GetHeader zero_hash (bc_Idx blk - 1) of None \<Rightarrow> Inl (Panic NilDereference) | Some h \<Rightarrow> Inr (eh_Hash h))
        else Inr zero_hash)
       (\<lambda>prev. Inr \<lparr>ep_block = blk, ep_statedb = db, ep_net = net, ep_blockIdx = U64toBig (bc_Idx blk),
          ep_prevBlockHash = prev, ep_gasUsed = 0, ep_incomingTxs = [], ep_skippedTxs = [], ep_receipts = []\<rparr>)"

definition evmBlockWith :: "types_lib \<Rightarrow> transaction list \<Rightarrow> ('s, 'l) evm_processor \<Rightarrow> evm_block" where
  "evmBlockWith T txs p = NewEvmBlock T
     \<lparr>eh_Number = ep_blockIdx p, eh_Hash = bc_Atropos (ep_block p), eh_ParentHash = ep_prevBlockHash p,
      eh_Root = zero_hash, eh_TxHash = zero_hash, eh_Time = bc_Time (ep_block p), eh_Coinbase = zero_addr,
      eh_GasLimit = MaxUint64, eh_GasUsed = ep_gasUsed p\<rparr> txs"

text \<open>
  \<open>Execute\<close>. The interpreter's environment depends on the header and the rules, so the library is a
  function of both. \<open>log.Crit\<close> ends the process: it is a panic of the model.
\<close>

definition Execute ::
  "(rules \<Rightarrow> evm_header \<Rightarrow> ('s, 'l) evm_lib) \<Rightarrow> types_lib \<Rightarrow> ('s, 'l, 'c) log_fn \<Rightarrow> transaction list \<Rightarrow> bool \<Rightarrow>
     ('s, 'l) evm_processor \<times> 'c \<Rightarrow> ('l receipt list \<times> ('s, 'l) evm_processor \<times> 'c) res" where
  "Execute E T onNewLog txs internal pc =
     (let (p, c) = pc; evmBlock = evmBlockWith T txs p; h = eb_Header evmBlock
      in case Process (E (ep_net p) h) onNewLog (word_of_int (eh_Number h)) (eh_Hash h) (eh_GasLimit h) internal
                (eb_Transactions evmBlock) (ep_statedb p) (ep_gasUsed p) c of
           (Inl (Panic e), _) \<Rightarrow> Inl (Panic e)
         | (Inl (Err e), _) \<Rightarrow> Inl (Panic (PanicMsg ''EVM internal error''))
         | (Inr (receipts, _, skipped), ps) \<Rightarrow>
             let offset = word_of_nat (length (ep_incomingTxs p)) :: u32;
                 skipped = (if offset > 0 then map (\<lambda>n. n + offset) skipped else skipped)
             in Inr (receipts,
                  p\<lparr>ep_statedb := ps_db ps, ep_gasUsed := ps_usedGas ps, ep_incomingTxs := ep_incomingTxs p @ txs,
                    ep_skippedTxs := ep_skippedTxs p @ skipped, ep_receipts := ep_receipts p @ receipts\<rparr>,
                  ps_cb ps))"

text \<open>\<open>Commit\<close> of the state database: an error, or the root and the database after it.\<close>

definition evm_Finalize ::
  "types_lib \<Rightarrow> ('s \<Rightarrow> go_error + bytes \<times> 's) \<Rightarrow> ('s, 'l) evm_processor \<Rightarrow>
     ((evm_block \<times> u32 list \<times> 'l receipt list) \<times> ('s, 'l) evm_processor) res" where
  "evm_Finalize T Commit p =
     (let evmBlock = evmBlockWith T (FilterSkippedTxs (ep_incomingTxs p) (ep_skippedTxs p)) p
      in case Commit (ep_statedb p) of
           Inl e \<Rightarrow> Inl (Panic (PanicMsg ''Failed to commit state''))
         | Inr (root, db) \<Rightarrow>
             Inr ((evmBlock\<lparr>eb_Header := (eb_Header evmBlock)\<lparr>eh_Root := root\<rparr>\<rparr>, ep_skippedTxs p, ep_receipts p),
                  p\<lparr>ep_statedb := db\<rparr>))"

section \<open>Skipped positions over several portions\<close>

lemma Process_loop_skipped:
  assumes "Process_loop D onNewLog num bh internal i txs p = (Inr (rcs, skipped), p')" "i + length txs \<le> 2 ^ 32"
  shows "\<forall>k \<in> set skipped. unat k < i + length txs"
  using assms
proof (induction txs arbitrary: i p rcs skipped p')
  case (Cons tx txs)
  have ui: "unat (word_of_nat i :: u32) = i" using Cons.prems(2) by (intro unat_small_nat) simp
  obtain rcs' sk' q q' where rest: "Process_loop D onNewLog num bh internal (i + 1) txs q = (Inr (rcs', sk'), q')"
      "set skipped \<subseteq> insert (word_of_nat i) (set sk')"
    using Cons.prems(1) by (fastforce simp: Let_def split: sum.splits prod.splits failure.splits)
  have "\<forall>k \<in> set sk'. unat k < i + 1 + length txs" using Cons.IH [OF rest(1)] Cons.prems(2) by simp
  with rest(2) ui show ?case by fastforce
qed simp

lemma Process_skipped:
  assumes "Process D onNewLog num bh gl internal txs db ug cb = (Inr (rcs, logs, skipped), p')" "length txs \<le> 2 ^ 32"
  shows "\<forall>k \<in> set skipped. unat k < length txs"
  using assms Process_loop_skipped [of D onNewLog num bh internal 0 txs]
  by (fastforce simp: Process_def split: sum.splits prod.splits)

lemma FilterSkipped_kept:
  assumes "sorted_wrt (<) (map unat skipped)" "length txs \<le> 2 ^ 32"
  shows "FilterSkippedTxs txs skipped = kept 0 skipped txs"
  using skip_loop_start [OF assms] by (auto simp: FilterSkippedTxs_def kept_def)

lemma unat_offset:
  assumes "unat (n :: u32) < l" "a + l \<le> 2 ^ 32" shows "unat (n + word_of_nat a) = unat n + a"
proof -
  have "unat (word_of_nat a :: u32) = a" using assms by (intro unat_small_nat) simp
  with assms show ?thesis by (subst unat_add_small) simp_all
qed

lemma kept_append:
  assumes s1: "\<forall>k \<in> set s1. unat k < length a" and s2: "\<forall>k \<in> set s2. unat k < length b"
    and len: "length a + length b \<le> 2 ^ 32"
  shows "kept 0 (s1 @ map (\<lambda>n. n + word_of_nat (length a)) s2) (a @ b) = kept 0 s1 a @ kept 0 s2 b"
proof -
  let ?off = "word_of_nat (length a) :: u32"
  let ?s = "s1 @ map (\<lambda>n. n + ?off) s2"
  have off: "unat (n + ?off) = unat n + length a" if "n \<in> set s2" for n
    using unat_offset [of n "length b" "length a"] s2 len that by auto
  have u: "unat (word_of_nat j :: u32) = j" if "j < 2 ^ 32" for j using that by (intro unat_small_nat) simp
  have left: "word_of_nat j \<notin> (\<lambda>n. n + ?off) ` set s2" if "j < length a" for j
    using that off u [of j] len by force
  have right1: "word_of_nat (length a) + word_of_nat j \<notin> set s1" if "j < length b" for j
    using s1 u [of "length a + j"] that len by force
  have right2: "word_of_nat (length a) + word_of_nat j \<in> (\<lambda>n. n + ?off) ` set s2 \<longleftrightarrow> word_of_nat j \<in> set s2" for j
    by (auto simp: image_iff algebra_simps)
  have e: "enumerate (length a) b = map (\<lambda>(j, x). (length a + j, x)) (enumerate 0 b)"
    by (rule nth_equalityI) (simp_all add: nth_enumerate_eq)
  have "filter (\<lambda>(j, _). word_of_nat j \<notin> set ?s) (enumerate 0 a) = filter (\<lambda>(j, _). word_of_nat j \<notin> set s1) (enumerate 0 a)"
    using left by (intro filter_cong) (auto simp: in_set_enumerate_eq image_iff)
  moreover have "map snd (filter (\<lambda>(j, _). word_of_nat j \<notin> set ?s) (enumerate (length a) b)) = kept 0 s2 b"
  proof -
    have "filter ((\<lambda>(j, _). word_of_nat j \<notin> set ?s) \<circ> (\<lambda>(j, x). (length a + j, x))) (enumerate 0 b) =
        filter (\<lambda>(j, _). word_of_nat j \<notin> set s2) (enumerate 0 b)"
      by (intro filter_cong) (clarsimp simp: in_set_enumerate_eq right1 right2)+
    then show ?thesis unfolding e filter_map by (simp add: kept_def o_def case_prod_beta')
  qed
  ultimately show ?thesis by (simp add: kept_def enumerate_append_eq)
qed

section \<open>Cumulative gas\<close>

fun cumulative :: "u64 \<Rightarrow> 'l receipt list \<Rightarrow> bool" where
  "cumulative prev [] = True"
| "cumulative prev (r # rs) \<longleftrightarrow> rc_CumulativeGasUsed r = prev + rc_GasUsed r \<and> cumulative (rc_CumulativeGasUsed r) rs"

lemma cumulative_append:
  "cumulative g (rs @ rs') \<longleftrightarrow> cumulative g rs \<and> cumulative (g + sum_list (map rc_GasUsed rs)) rs'"
proof (induction rs arbitrary: g)
  case (Cons r rs)
  show ?case
  proof (cases "rc_CumulativeGasUsed r = g + rc_GasUsed r")
    case True
    then show ?thesis using Cons.IH [of "g + rc_GasUsed r"] by (simp only: append_Cons cumulative.simps list.map sum_list.Cons add.assoc) blast
  qed simp
qed simp

lemma applyTransaction_cumulative:
  assumes "applyTransaction D onNewLog num msg tx p = (r, p')"
  shows "case r of Inl _ \<Rightarrow> ps_usedGas p' = ps_usedGas p
    | Inr rc \<Rightarrow> rc_CumulativeGasUsed rc = ps_usedGas p + rc_GasUsed rc \<and> ps_usedGas p' = rc_CumulativeGasUsed rc"
proof -
  obtain res st where am: "ApplyMessage D msg (ps_gp p) (ps_db p) = (res, st)" by fastforce
  show ?thesis
  proof (cases res)
    case (Inr result)
    obtain db cb where f: "fold onNewLog (GetLogs D (st_state st) (tx_Hash D tx)) (st_state st, ps_cb p) = (db, cb)" by fastforce
    show ?thesis using assms am Inr f by (auto simp: applyTransaction_def Let_def split: prod.splits)
  qed (use assms am in \<open>auto simp: applyTransaction_def\<close>)
qed

lemma Process_loop_cumulative:
  assumes "Process_loop D onNewLog num bh internal i txs p = (Inr (rcs, skipped), p')"
  shows "cumulative (ps_usedGas p) rcs"
  using assms
proof (induction txs arbitrary: i p rcs skipped)
  case (Cons tx txs)
  obtain msg where msg: "tx_message D internal tx = Inr msg" using Cons.prems by (auto split: sum.splits)
  let ?p = "p\<lparr>ps_db := Prepare D (tx_Hash D tx) bh i (ps_db p)\<rparr>"
  obtain r q where r: "applyTransaction D onNewLog num msg tx ?p = (r, q)" by fastforce
  note cum = applyTransaction_cumulative [OF r]
  obtain rcs' sk' where rest: "Process_loop D onNewLog num bh internal (i + 1) txs q = (Inr (rcs', sk'), p')"
      "rcs = (case r of Inl _ \<Rightarrow> rcs' | Inr rc \<Rightarrow> rc # rcs')"
    using Cons.prems msg r by (auto simp: Let_def split: sum.splits prod.splits failure.splits)
  show ?case using Cons.IH [OF rest(1)] rest(2) cum by (auto split: sum.splits)
qed simp

lemma Process_cumulative:
  "Process D onNewLog num bh gl internal txs db ug cb = (Inr (rcs, logs, skipped), p') \<Longrightarrow> cumulative ug rcs"
  using Process_loop_cumulative [of D onNewLog num bh internal 0 txs]
  by (fastforce simp: Process_def split: sum.splits prod.splits)

section \<open>The invariant of the processor\<close>

definition processor_ok :: "(transaction \<Rightarrow> bytes) \<Rightarrow> ('s, 'l) evm_processor \<Rightarrow> bool" where
  "processor_ok txHash p \<longleftrightarrow> length (ep_incomingTxs p) \<le> 2 ^ 32 \<and> sorted_wrt (<) (map unat (ep_skippedTxs p)) \<and>
     (\<forall>k \<in> set (ep_skippedTxs p). unat k < length (ep_incomingTxs p)) \<and>
     map rc_TxHash (ep_receipts p) = map txHash (FilterSkippedTxs (ep_incomingTxs p) (ep_skippedTxs p)) \<and>
     ep_gasUsed p = sum_list (map rc_GasUsed (ep_receipts p)) \<and> cumulative 0 (ep_receipts p)"

text \<open>
  What the environment promises: interpreters that return at most the gas they got, one hash
  function, and transactions whose gas limit covers the intrinsic gas.
\<close>

definition env_ok :: "(rules \<Rightarrow> evm_header \<Rightarrow> ('s, 'l) evm_lib) \<Rightarrow> (transaction \<Rightarrow> bytes) \<Rightarrow> bool" where
  "env_ok E txHash \<longleftrightarrow> (\<forall>r h. evm_ok (E r h) \<and> tx_Hash (E r h) = txHash)"

definition txs_covered :: "(rules \<Rightarrow> evm_header \<Rightarrow> ('s, 'l) evm_lib) \<Rightarrow> bool \<Rightarrow> transaction list \<Rightarrow> bool" where
  "txs_covered E internal txs \<longleftrightarrow> (\<forall>r h. \<forall>tx \<in> set txs. tx_covered (E r h) internal tx)"

lemma NewEvmBlock_simps [simp]:
  "eb_Transactions (NewEvmBlock T h txs) = txs" "eh_Hash (eb_Header (NewEvmBlock T h txs)) = eh_Hash h"
  "eh_Number (eb_Header (NewEvmBlock T h txs)) = eh_Number h" "eh_GasUsed (eb_Header (NewEvmBlock T h txs)) = eh_GasUsed h"
  "eh_ParentHash (eb_Header (NewEvmBlock T h txs)) = eh_ParentHash h" "eh_Time (eb_Header (NewEvmBlock T h txs)) = eh_Time h"
  "eh_GasLimit (eb_Header (NewEvmBlock T h txs)) = eh_GasLimit h"
  by (simp_all add: NewEvmBlock_def)

lemma sorted_offset:
  assumes "sorted_wrt (<) (map unat s1)" "\<forall>k \<in> set s1. unat k < a" "sorted_wrt (<) (map unat s2)"
    and "\<forall>k \<in> set s2. unat k < b" "a + b \<le> 2 ^ 32"
  shows "sorted_wrt (<) (map unat (s1 @ map (\<lambda>n :: u32. n + word_of_nat a) s2))"
proof -
  have off: "unat (n + word_of_nat a) = unat n + a" if "n \<in> set s2" for n
    using unat_offset [of n b a] assms(4,5) that by auto
  have "map (\<lambda>n. unat (n + word_of_nat a)) s2 = map (\<lambda>n. unat n + a) s2" using off by simp
  moreover have "sorted_wrt (<) (map (\<lambda>n. unat n + a) s2)"
    using assms(3) by (simp add: sorted_wrt_map)
  ultimately have "sorted_wrt (<) (map (\<lambda>n. unat (n + word_of_nat a)) s2)" by (simp only:)
  moreover have "\<forall>x \<in> set s1. \<forall>y \<in> set s2. unat x < unat (y + word_of_nat a)"
    using assms(2) off by (simp add: trans_less_add2)
  ultimately show ?thesis using assms(1) by (auto simp: sorted_wrt_append comp_def)
qed

lemma Execute_ok:
  fixes p :: "('s, 'l) evm_processor"
  assumes env: "env_ok E txHash" "txs_covered E internal txs" and ok: "processor_ok txHash p"
    and len: "length (ep_incomingTxs p) + length txs \<le> 2 ^ 32"
  shows "\<exists>rcs p' c'. Execute E T onNewLog txs internal (p, c) = Inr (rcs, p', c') \<and> processor_ok txHash p' \<and>
    ep_incomingTxs p' = ep_incomingTxs p @ txs \<and> ep_receipts p' = ep_receipts p @ rcs \<and> ep_block p' = ep_block p \<and>
    ep_blockIdx p' = ep_blockIdx p \<and> ep_prevBlockHash p' = ep_prevBlockHash p \<and> ep_net p' = ep_net p"
proof -
  let ?h = "eb_Header (evmBlockWith T txs p)"
  let ?D = "E (ep_net p) ?h"
  let ?n = "word_of_nat (length (ep_incomingTxs p)) :: u32"
  have D: "evm_ok ?D" "\<forall>tx \<in> set txs. tx_covered ?D internal tx" "tx_Hash ?D = txHash"
    using env by (auto simp: env_ok_def txs_covered_def)
  have txs: "eb_Transactions (evmBlockWith T txs p) = txs" by (simp add: evmBlockWith_def)
  obtain rcs skipped ps where run: "Process ?D onNewLog (word_of_int (eh_Number ?h)) (eh_Hash ?h) (eh_GasLimit ?h) internal
        txs (ep_statedb p) (ep_gasUsed p) c = (Inr (rcs, concat (map rc_Logs rcs), skipped), ps)"
      and used: "ps_usedGas ps = ep_gasUsed p + sum_list (map rc_GasUsed rcs)"
      and srt: "sorted_wrt (<) (map unat skipped)"
      and al: "map rc_TxHash rcs = map txHash (FilterSkippedTxs txs skipped)"
    using Process_accounts_helper [OF D(1,2), of onNewLog "word_of_int (eh_Number ?h)" "eh_Hash ?h" "eh_GasLimit ?h"
        "ep_statedb p" "ep_gasUsed p" c] len D(3) by auto
  have sk: "\<forall>k \<in> set skipped. unat k < length txs" using Process_skipped [OF run] len by simp
  let ?sk = "map (\<lambda>n. n + ?n) skipped"
  have off: "(if ?n > 0 then ?sk else skipped) = ?sk"
  proof (cases "?n > 0")
    case False then have "?n = 0" by (simp add: word_greater_zero_iff)
    then show ?thesis by simp
  qed simp
  let ?p = "p\<lparr>ep_statedb := ps_db ps, ep_gasUsed := ps_usedGas ps, ep_incomingTxs := ep_incomingTxs p @ txs,
      ep_skippedTxs := ep_skippedTxs p @ ?sk, ep_receipts := ep_receipts p @ rcs\<rparr>"
  have ex: "Execute E T onNewLog txs internal (p, c) = Inr (rcs, ?p, ps_cb ps)"
    unfolding Execute_def Let_def case_prod_conv txs run by (simp add: off)
  have s12: "sorted_wrt (<) (map unat (ep_skippedTxs p @ ?sk))"
    using sorted_offset [OF _ _ srt sk len] ok by (auto simp: processor_ok_def)
  have "FilterSkippedTxs (ep_incomingTxs p @ txs) (ep_skippedTxs p @ ?sk) =
      FilterSkippedTxs (ep_incomingTxs p) (ep_skippedTxs p) @ FilterSkippedTxs txs skipped"
    using FilterSkipped_kept [OF s12, of "ep_incomingTxs p @ txs"] FilterSkipped_kept [OF srt, of txs] ok len sk
      FilterSkipped_kept [of "ep_skippedTxs p" "ep_incomingTxs p"] kept_append [of "ep_skippedTxs p" "ep_incomingTxs p" skipped txs]
    by (simp add: processor_ok_def)
  moreover have "\<forall>k \<in> set ?sk. unat k < length (ep_incomingTxs p) + length txs"
    using unat_offset [of _ "length txs" "length (ep_incomingTxs p)"] sk len by auto
  ultimately have "processor_ok txHash ?p"
    using ok s12 al used len Process_cumulative [OF run] by (auto simp: processor_ok_def cumulative_append)
  with ex show ?thesis by auto
qed

section \<open>Hash lookup over a linked chain\<close>

lemma of_nat_inj_u64: "a < 2 ^ 63 \<Longrightarrow> b < 2 ^ 63 \<Longrightarrow> (word_of_nat a :: u64) = word_of_nat b \<longleftrightarrow> a = b"
  by (simp add: word_of_nat_eq_iff take_bit_nat_eq_self)

text \<open>
  The interface the lookup relies on: a chain of hashes in which every header names its number and
  the hash before it. \<open>m\<close> is the number of the block whose ancestors are asked for.
\<close>

locale ancestry =
  fixes GetHeader :: "bytes \<Rightarrow> u64 \<Rightarrow> evm_header option" and hashes :: "bytes list"
  assumes short: "length hashes < 2 ^ 63"
    and linked: "0 < k \<Longrightarrow> k < length hashes \<Longrightarrow>
      \<exists>h. GetHeader (hashes ! k) (word_of_nat k) = Some h \<and> eh_Number h = int k \<and> eh_ParentHash h = hashes ! (k - 1)"
begin

definition cache_ok :: "nat \<Rightarrow> bytes list \<Rightarrow> bool" where
  "cache_ok m cache \<longleftrightarrow> length cache \<le> m \<and> cache = map (\<lambda>i. hashes ! (m - 1 - i)) [0..<length cache]"

lemma cache_ok_snoc:
  "cache_ok m cache \<Longrightarrow> length cache < m \<Longrightarrow> cache_ok m (cache @ [hashes ! (m - 1 - length cache)])"
  by (simp add: cache_ok_def)

lemma cache_ok_nth: "cache_ok m cache \<Longrightarrow> i < length cache \<Longrightarrow> cache ! i = hashes ! (m - 1 - i)"
  unfolding cache_ok_def by (metis add_0 nth_map_upt length_map length_upt minus_nat.diff_0)

lemma word_pred: "0 < k \<Longrightarrow> (word_of_nat k :: u64) - 1 = word_of_nat (k - 1)"
  by (simp add: of_nat_diff)

lemma hash_walk_finds:
  assumes "n < k" "k < length hashes" "cache_ok m cache" "length cache + k = m"
  shows "\<exists>cache'. hash_walk GetHeader (word_of_nat n) cache (hashes ! k) (word_of_nat k) = Some (hashes ! n, cache') \<and>
    cache_ok m cache'"
  using assms
proof (induction k arbitrary: cache)
  case (Suc k)
  obtain h where h: "GetHeader (hashes ! Suc k) (word_of_nat (Suc k)) = Some h" "eh_Number h = int (Suc k)"
      "eh_ParentHash h = hashes ! k"
    using linked [of "Suc k"] Suc.prems(2) by auto
  have num: "word_of_int (eh_Number h) - 1 = (word_of_nat k :: u64)" using h(2) by simp
  have cache: "cache_ok m (cache @ [hashes ! k])"
    using cache_ok_snoc [OF Suc.prems(3)] Suc.prems(4) by auto
  have eq: "(word_of_nat n :: u64) = word_of_nat k \<longleftrightarrow> n = k"
    using Suc.prems(1,2) short by (intro of_nat_inj_u64) simp_all
  show ?case
  proof (cases "n = k")
    case True
    then show ?thesis using h num cache by (subst hash_walk.simps) (simp add: Let_def)
  next
    case False
    then have "hash_walk GetHeader (word_of_nat n) cache (hashes ! Suc k) (word_of_nat (Suc k)) =
        hash_walk GetHeader (word_of_nat n) (cache @ [hashes ! k]) (hashes ! k) (word_of_nat k)"
      using h num eq by (subst hash_walk.simps) (simp add: Let_def)
    then show ?thesis using Suc.IH [OF _ _ cache] Suc.prems False by simp
  qed
qed simp

lemma GetHash_finds:
  assumes "n < m" "m \<le> length hashes" "eh_Number ref = int m" "eh_ParentHash ref = hashes ! (m - 1)" "cache_ok m cache"
  shows "\<exists>cache'. GetHash GetHeader ref (word_of_nat n) cache = Some (hashes ! n, cache') \<and> cache_ok m cache'"
proof -
  define c where "c = (if length cache = 0 then [eh_ParentHash ref] else cache)"
  have c: "cache_ok m c" "c \<noteq> []" "length c \<le> m" using assms by (auto simp: c_def cache_ok_def)
  define i where "i = (word_of_nat m :: u64) - word_of_nat n - 1"
  have "i = word_of_nat (m - 1 - n)" using assms(1) by (simp add: i_def of_nat_diff)
  moreover have "unat (word_of_nat (m - 1 - n) :: u64) = m - 1 - n"
    using assms(1,2) short by (intro unat_small_nat) simp
  ultimately have i: "unat i = m - 1 - n" by (simp only:)
  have G: "GetHash GetHeader ref (word_of_nat n) cache = (if unat i < length c then Some (c ! unat i, c)
      else hash_walk GetHeader (word_of_nat n) c (last c) (word_of_nat m - word_of_nat (length c)))"
    by (simp add: GetHash_def Let_def c_def i_def assms(3))
  show ?thesis
  proof (cases "unat i < length c")
    case True
    then show ?thesis using G c cache_ok_nth [OF c(1) True] i assms(1) by simp
  next
    case False
    let ?k = "m - length c"
    have "last c = hashes ! ?k"
      using cache_ok_nth [OF c(1), of "length c - 1"] c by (simp add: last_conv_nth)
    moreover have "n < ?k" using False i assms(1) c by linarith
    moreover have "(word_of_nat m :: u64) - word_of_nat (length c) = word_of_nat ?k" using c by (simp add: of_nat_diff)
    moreover have "?k < length hashes" using c assms(1,2) by (cases c) auto
    ultimately show ?thesis using G False hash_walk_finds [of n ?k m c] c by simp
  qed
qed

end

section \<open>Properties\<close>

fun Execute_all ::
  "(rules \<Rightarrow> evm_header \<Rightarrow> ('s, 'l) evm_lib) \<Rightarrow> types_lib \<Rightarrow> ('s, 'l, 'c) log_fn \<Rightarrow> (transaction list \<times> bool) list \<Rightarrow>
     ('s, 'l) evm_processor \<times> 'c \<Rightarrow> (('s, 'l) evm_processor \<times> 'c) res" where
  "Execute_all E T onNewLog [] pc = Inr pc"
| "Execute_all E T onNewLog ((txs, internal) # ps) pc =
     bind_res (Execute E T onNewLog txs internal pc) (\<lambda>(_, pc). Execute_all E T onNewLog ps pc)"

lemma Execute_all_ok:
  assumes "env_ok E txHash" "\<forall>(txs, internal) \<in> set portions. txs_covered E internal txs" "processor_ok txHash p"
    and "length (ep_incomingTxs p) + length (concat (map fst portions)) \<le> 2 ^ 32"
  shows "\<exists>p' c'. Execute_all E T onNewLog portions (p, c) = Inr (p', c') \<and> processor_ok txHash p' \<and>
    ep_incomingTxs p' = ep_incomingTxs p @ concat (map fst portions) \<and> ep_block p' = ep_block p \<and>
    ep_blockIdx p' = ep_blockIdx p \<and> ep_prevBlockHash p' = ep_prevBlockHash p"
  using assms(2-)
proof (induction portions arbitrary: p c)
  case (Cons x portions)
  obtain txs internal where x: "x = (txs, internal)" by (cases x)
  obtain rcs p1 c1 where p1: "Execute E T onNewLog txs internal (p, c) = Inr (rcs, p1, c1)" "processor_ok txHash p1"
      "ep_incomingTxs p1 = ep_incomingTxs p @ txs" "ep_block p1 = ep_block p" "ep_blockIdx p1 = ep_blockIdx p"
      "ep_prevBlockHash p1 = ep_prevBlockHash p"
    using Execute_ok [OF assms(1), of internal txs p T onNewLog c] Cons.prems x by auto
  show ?case using Cons.IH [of p1 c1] Cons.prems p1 x by auto
qed simp

lemma evm_Start_ok: "evm_Start GetHeader blk db net = Inr p \<Longrightarrow> processor_ok txHash p \<and> ep_incomingTxs p = [] \<and>
    ep_block p = blk \<and> ep_blockIdx p = uint (bc_Idx blk)"
  by (auto simp: evm_Start_def processor_ok_def bind_res_Inr_iff FilterSkippedTxs_def U64toBig_def)

text \<open>
  C6. A block executed in portions (internal transactions before and after sealing, then those of
  the events): every call returns, and \<open>Finalize\<close> yields a block whose transactions are the
  incoming ones less the skipped positions and whose receipts belong to them one by one, in order;
  the header's gas used is the sum over the receipts, its hash the Atropos, its number the block's.
\<close>

theorem processed_block_aligned:
  assumes "env_ok E txHash" "\<forall>(txs, internal) \<in> set portions. txs_covered E internal txs"
    and "length (concat (map fst portions)) \<le> 2 ^ 32" "evm_Start GetHeader blk db net = Inr p"
    and "\<forall>db. \<exists>root db'. Commit db = Inr (root, db')"
  shows "\<exists>p' c' b skipped rcs q. Execute_all E T onNewLog portions (p, c) = Inr (p', c') \<and>
    evm_Finalize T Commit p' = Inr ((b, skipped, rcs), q) \<and>
    eb_Transactions b = FilterSkippedTxs (concat (map fst portions)) skipped \<and>
    map rc_TxHash rcs = map txHash (eb_Transactions b) \<and>
    sorted_wrt (<) (map unat skipped) \<and> (\<forall>k \<in> set skipped. unat k < length (concat (map fst portions))) \<and>
    eh_GasUsed (eb_Header b) = sum_list (map rc_GasUsed rcs) \<and> eh_Hash (eb_Header b) = bc_Atropos blk \<and>
    eh_Number (eb_Header b) = uint (bc_Idx blk)"
proof -
  note s = evm_Start_ok [OF assms(4)]
  obtain p' c' where p': "Execute_all E T onNewLog portions (p, c) = Inr (p', c')" "processor_ok txHash p'"
      "ep_incomingTxs p' = concat (map fst portions)" "ep_block p' = blk" "ep_blockIdx p' = uint (bc_Idx blk)"
    using Execute_all_ok [OF assms(1,2), of p T onNewLog c] assms(3) s [of txHash] by auto
  obtain root db' where "Commit (ep_statedb p') = Inr (root, db')" using assms(5) by blast
  with p' show ?thesis
    by (auto simp: evm_Finalize_def Let_def evmBlockWith_def processor_ok_def)
qed

definition demo_portions :: "(transaction list \<times> bool) list" where
  "demo_portions = [([demo_tx 0 30000], True), ([demo_tx 0 30000, demo_tx 7 30000], False)]"

lemma demo_env_ok: "env_ok (\<lambda>_ _. demo_lib) tx_Data"
  by (simp add: env_ok_def evm_ok_demo) (simp add: demo_lib_def)

lemma demo_txs_covered: "txs_covered (\<lambda>_ _. demo_lib) internal [demo_tx 0 30000]"
    "txs_covered (\<lambda>_ _. demo_lib) internal [demo_tx 0 30000, demo_tx 7 30000]"
  by (auto simp: txs_covered_def tx_covered_def tx_message_def demo_lib_def internal_msg_def covered_def IntrinsicGas_def
      dataGas_def eip_params_def demo_tx_def Let_def StorageKeys_def MaxUint64_def)

definition demo_processor :: "(bytes \<Rightarrow> int, unit) evm_processor" where
  "demo_processor = \<lparr>ep_block = demo_blk\<lparr>bc_Idx := 0\<rparr>, ep_statedb = (\<lambda>_. 10 ^ 9), ep_net = demo_rules, ep_blockIdx = 0,
     ep_prevBlockHash = zero_hash, ep_gasUsed = 0, ep_incomingTxs = [], ep_skippedTxs = [], ep_receipts = []\<rparr>"

theorem processed_block_aligned_witness:
  "evm_Start (\<lambda>_ _. None) (demo_blk\<lparr>bc_Idx := 0\<rparr>) (\<lambda>_. 10 ^ 9) demo_rules = Inr demo_processor \<and>
   (\<exists>p' c' b skipped rcs q. Execute_all (\<lambda>_ _. demo_lib) \<lparr>DeriveSha = (\<lambda>_. [1]), EmptyRootHash = []\<rparr> (\<lambda>_ x. x)
        demo_portions (demo_processor, ()) = Inr (p', c') \<and>
      evm_Finalize \<lparr>DeriveSha = (\<lambda>_. [1]), EmptyRootHash = []\<rparr> (\<lambda>s. Inr ([5], s)) p' = Inr ((b, skipped, rcs), q) \<and>
      map rc_TxHash rcs = map tx_Data (eb_Transactions b))"
proof -
  have st: "evm_Start (\<lambda>_ _. None) (demo_blk\<lparr>bc_Idx := 0\<rparr>) (\<lambda>_. 10 ^ 9) demo_rules = Inr demo_processor"
    by (simp add: evm_Start_def demo_processor_def U64toBig_def)
  have cov: "\<forall>(txs, internal) \<in> set demo_portions. txs_covered (\<lambda>_ _. demo_lib) internal txs"
    using demo_txs_covered by (simp add: demo_portions_def)
  have len: "length (concat (map fst demo_portions)) \<le> 2 ^ 32" by (simp add: demo_portions_def)
  show ?thesis
    using processed_block_aligned [OF demo_env_ok cov len st, of "\<lambda>s. Inr ([5], s)"
        "\<lparr>DeriveSha = (\<lambda>_. [1]), EmptyRootHash = []\<rparr>" "\<lambda>_ x. x" "()"] st by auto
qed

end
