(* ===== verification/Refinement.thy ===== *)
theory Refinement
  imports Sky_Prelude
begin

text \<open>
  Functional refinement, as an interface: a component whose every operation returns what the
  abstract operation returns and commutes with the abstraction refines the abstract component on
  all sequences of operations.
\<close>

fun run_ops :: "('op \<Rightarrow> 's \<Rightarrow> ('out \<times> 's) res) \<Rightarrow> 'op list \<Rightarrow> 's \<Rightarrow> ('out list \<times> 's) res" where
  "run_ops step [] s = Inr ([], s)"
| "run_ops step (op # ops) s =
     bind_res (step op s) (\<lambda>(r, s). bind_res (run_ops step ops s) (\<lambda>(rs, s). Inr (r # rs, s)))"

fun run_abs :: "('op \<Rightarrow> 'a \<Rightarrow> 'out \<times> 'a) \<Rightarrow> 'op list \<Rightarrow> 'a \<Rightarrow> 'out list \<times> 'a" where
  "run_abs astep [] a = ([], a)"
| "run_abs astep (op # ops) a = (let (r, a) = astep op a; (rs, a) = run_abs astep ops a in (r # rs, a))"

locale functional_refinement =
  fixes inv :: "'s \<Rightarrow> bool" and valid :: "'op \<Rightarrow> bool" and abs_of :: "'s \<Rightarrow> 'a"
    and step :: "'op \<Rightarrow> 's \<Rightarrow> ('out \<times> 's) res" and astep :: "'op \<Rightarrow> 'a \<Rightarrow> 'out \<times> 'a"
  assumes step_refines: "inv s \<Longrightarrow> valid op \<Longrightarrow>
    \<exists>r s'. step op s = Inr (r, s') \<and> inv s' \<and> astep op (abs_of s) = (r, abs_of s')"
begin

lemma run_refines:
  "inv s \<Longrightarrow> \<forall>op \<in> set ops. valid op \<Longrightarrow>
   \<exists>rs s'. run_ops step ops s = Inr (rs, s') \<and> inv s' \<and> run_abs astep ops (abs_of s) = (rs, abs_of s')"
proof (induction ops arbitrary: s)
  case (Cons op ops)
  obtain r s1 where s1: "step op s = Inr (r, s1)" "inv s1" "astep op (abs_of s) = (r, abs_of s1)"
    using step_refines [of s op] Cons.prems by auto
  moreover obtain rs s2 where "run_ops step ops s1 = Inr (rs, s2)" "inv s2" "run_abs astep ops (abs_of s1) = (rs, abs_of s2)"
    using Cons.IH [OF s1(2)] Cons.prems by auto
  ultimately show ?case by simp
qed simp

end

end
