(* ===== verification/Gossip_Store.thy ===== *)
theory Gossip_Store
  imports Evm_Module Refinement "HOL-Library.List_Lexorder" "HOL-Library.AList" "HOL-Library.Multiset"
begin

text \<open>
  The node's storage: src/utils/rlpstore, src/gossip/store_block.go, store_event.go,
  store_decided_state.go, store_heads.go, store_last_events.go, store_epoch.go, the flushing of
  store.go, and src/gossip/evmstore (transactions, positions, receipts, cached EVM blocks).

  A table maps keys to serialized values; in front of most tables stands a least-recently-used
  cache of the consensus library. Which entries such a cache drops is up to the library, so every
  \<open>Add\<close> of the model has an argument \<open>ev\<close>, the keys that are gone after it; the theorems hold for
  all of them. The theorems show that the caches are invisible (every operation refines the one on
  plain maps), and that a commit makes the cached values durable.
\<close>

section \<open>Tables and caches\<close>

type_synonym kv = "bytes \<rightharpoonup> bytes"

definition crit :: "string \<Rightarrow> 'a res" where "crit m = Inl (Panic (PanicMsg m))"

definition rlp_Set :: "('v \<Rightarrow> bytes) \<Rightarrow> bytes \<Rightarrow> 'v \<Rightarrow> kv \<Rightarrow> kv" where
  "rlp_Set enc key v t = t(key \<mapsto> enc v)"

definition rlp_Get :: "(bytes \<Rightarrow> go_error + 'v) \<Rightarrow> kv \<Rightarrow> bytes \<Rightarrow> 'v option res" where
  "rlp_Get dec t key =
     (case t key of
        None \<Rightarrow> Inr None
      | Some buf \<Rightarrow> (case dec buf of Inl e \<Rightarrow> crit ''Failed to decode rlp'' | Inr v \<Rightarrow> Inr (Some v)))"

definition lru_Add :: "'k set \<Rightarrow> 'k \<Rightarrow> 'v \<Rightarrow> ('k \<rightharpoonup> 'v) \<Rightarrow> ('k \<rightharpoonup> 'v)" where
  "lru_Add ev k v c = (\<lambda>x. if x \<in> ev then None else if x = k then Some v else c x)"

definition lru_Remove :: "'k \<Rightarrow> ('k \<rightharpoonup> 'v) \<Rightarrow> ('k \<rightharpoonup> 'v)" where
  "lru_Remove k c = c(k := None)"

text \<open>Positions of transactions.\<close>

record tx_position =
  tp_Block :: u64
  tp_Event :: bytes
  tp_EventOffset :: u32
  tp_BlockOffset :: u32

text \<open>
  What the store takes from libraries: the byte forms of the consensus library's numbers, and the
  RLP forms of the stored values. Of receipts RLP keeps the consensus fields only.
\<close>

record 'l store_lib =
  block_Bytes :: "u64 \<Rightarrow> bytes"
  BytesToBlock :: "bytes \<Rightarrow> u64"
  lamport_Bytes :: "u32 \<Rightarrow> bytes"
  BytesToLamport :: "bytes \<Rightarrow> u32"
  vid_Bytes :: "u32 \<Rightarrow> bytes"
  BytesToValidatorID :: "bytes \<Rightarrow> u32"
  enc_block :: "block \<Rightarrow> bytes"
  dec_block :: "bytes \<Rightarrow> go_error + block"
  enc_event :: "event_payload \<Rightarrow> bytes"
  dec_event :: "bytes \<Rightarrow> go_error + event_payload"
  enc_pos :: "tx_position \<Rightarrow> bytes"
  dec_pos :: "bytes \<Rightarrow> go_error + tx_position"
  enc_tx :: "transaction \<Rightarrow> bytes"
  dec_tx :: "bytes \<Rightarrow> go_error + transaction"
  enc_receipts :: "'l receipt list \<Rightarrow> bytes"
  dec_receipts :: "bytes \<Rightarrow> go_error + 'l receipt list"
  enc_state :: "block_state \<times> epoch_state \<Rightarrow> bytes"
  dec_state :: "bytes \<Rightarrow> go_error + block_state \<times> epoch_state"

section \<open>State\<close>

record epoch_store =
  eps_epoch :: u32
  t_LastEvents :: kv
  t_Heads :: kv
  c_Heads :: "bytes set option"
  c_LastEvents :: "(u32 \<times> bytes) list option"

record 'l gstore =
  t_Blocks :: kv
  t_BlockHashes :: kv
  t_Events :: kv
  t_Genesis :: kv
  t_BlockEpochState :: kv
  t_HighestLamport :: kv
  t_TxPositions :: kv
  t_Txs :: kv
  t_Receipts :: kv
  c_Blocks :: "u64 \<rightharpoonup> block"
  c_BlockHashes :: "bytes \<rightharpoonup> u64"
  c_Events :: "bytes \<rightharpoonup> event_payload"
  c_EventsHeaders :: "bytes \<rightharpoonup> event_payload"
  c_TxPositions :: "bytes \<rightharpoonup> tx_position"
  c_Receipts :: "u64 \<rightharpoonup> 'l receipt list"
  c_EvmBlocks :: "u64 \<rightharpoonup> evm_block"
  c_BlockEpochState :: "(block_state \<times> epoch_state) option"
  c_HighestLamport :: "u32 option"
  gs_epochStore :: "epoch_store option"

section \<open>Blocks\<close>

definition SetBlock :: "'l store_lib \<Rightarrow> u64 set \<Rightarrow> u64 \<Rightarrow> block \<Rightarrow> 'l gstore \<Rightarrow> 'l gstore" where
  "SetBlock L ev n b s =
     s\<lparr>t_Blocks := rlp_Set (enc_block L) (block_Bytes L n) b (t_Blocks s), c_Blocks := lru_Add ev n b (c_Blocks s)\<rparr>"

definition GetBlock :: "'l store_lib \<Rightarrow> u64 set \<Rightarrow> u64 \<Rightarrow> 'l gstore \<Rightarrow> (block option \<times> 'l gstore) res" where
  "GetBlock L ev n s =
     (case c_Blocks s n of
        Some b \<Rightarrow> Inr (Some b, s)
      | None \<Rightarrow> bind_res (rlp_Get (dec_block L) (t_Blocks s) (block_Bytes L n)) (\<lambda>block.
          Inr (block, case block of None \<Rightarrow> s | Some b \<Rightarrow> s\<lparr>c_Blocks := lru_Add ev n b (c_Blocks s)\<rparr>)))"

definition SetBlockIndex :: "'l store_lib \<Rightarrow> bytes set \<Rightarrow> bytes \<Rightarrow> u64 \<Rightarrow> 'l gstore \<Rightarrow> 'l gstore" where
  "SetBlockIndex L ev i n s =
     s\<lparr>t_BlockHashes := (t_BlockHashes s)(i \<mapsto> block_Bytes L n), c_BlockHashes := lru_Add ev i n (c_BlockHashes s)\<rparr>"

definition GetBlockIndex :: "'l store_lib \<Rightarrow> bytes set \<Rightarrow> bytes \<Rightarrow> 'l gstore \<Rightarrow> u64 option \<times> 'l gstore" where
  "GetBlockIndex L ev i s =
     (case c_BlockHashes s i of
        Some n \<Rightarrow> (Some n, s)
      | None \<Rightarrow>
          (case t_BlockHashes s i of
             None \<Rightarrow> (None, s)
           | Some buf \<Rightarrow> let n = BytesToBlock L buf
                in (Some n, s\<lparr>c_BlockHashes := lru_Add ev i n (c_BlockHashes s)\<rparr>)))"

abbreviation genesis_index_key :: bytes where "genesis_index_key \<equiv> [0x69]"
abbreviation genesis_hash_key :: bytes where "genesis_hash_key \<equiv> [0x67]"

definition SetGenesisBlockIndex :: "'l store_lib \<Rightarrow> u64 \<Rightarrow> 'l gstore \<Rightarrow> 'l gstore" where
  "SetGenesisBlockIndex L n s = s\<lparr>t_Genesis := (t_Genesis s)(genesis_index_key \<mapsto> block_Bytes L n)\<rparr>"

definition GetGenesisBlockIndex :: "'l store_lib \<Rightarrow> 'l gstore \<Rightarrow> u64 option" where
  "GetGenesisBlockIndex L s = map_option (BytesToBlock L) (t_Genesis s genesis_index_key)"

definition SetGenesisHash :: "bytes \<Rightarrow> 'l gstore \<Rightarrow> 'l gstore" where
  "SetGenesisHash val s = s\<lparr>t_Genesis := (t_Genesis s)(genesis_hash_key \<mapsto> val)\<rparr>"

definition GetGenesisHash :: "'l gstore \<Rightarrow> bytes option" where
  "GetGenesisHash s =
     (case t_Genesis s genesis_hash_key of None \<Rightarrow> None | Some b \<Rightarrow> if length b = 0 then None else Some (BytesToHash b))"

definition GetGenesisTime :: "'l store_lib \<Rightarrow> u64 set \<Rightarrow> 'l gstore \<Rightarrow> (u64 \<times> 'l gstore) res" where
  "GetGenesisTime L ev s =
     (case GetGenesisBlockIndex L s of
        None \<Rightarrow> Inr (0, s)
      | Some n \<Rightarrow> bind_res (GetBlock L ev n s) (\<lambda>(b, s). Inr (case b of None \<Rightarrow> 0 | Some b \<Rightarrow> blk_Time b, s)))"

section \<open>Events\<close>

text \<open>
  \<open>e.Event\<close>, the embedded header of a payload: without signature, transactions and size. The call
  of \<open>fixEventTxHashes\<close> after decoding overwrites the cached hash of one transaction in two events
  of the past; hashes are a function of transactions here, so these two events are not covered.
\<close>

definition ev_Header :: "event_payload \<Rightarrow> event_payload" where
  "ev_Header e = e\<lparr>ev_sig := [], ev_txs := [], ep_size := 0\<rparr>"

definition DelEvent :: "bytes \<Rightarrow> 'l gstore \<Rightarrow> 'l gstore" where
  "DelEvent i s =
     s\<lparr>t_Events := (t_Events s)(i := None), c_Events := lru_Remove i (c_Events s),
       c_EventsHeaders := lru_Remove i (c_EventsHeaders s)\<rparr>"

definition SetEvent :: "'l store_lib \<Rightarrow> bytes set \<Rightarrow> event_payload \<Rightarrow> 'l gstore \<Rightarrow> 'l gstore" where
  "SetEvent L ev e s =
     s\<lparr>t_Events := rlp_Set (enc_event L) (ep_ID e) e (t_Events s), c_Events := lru_Add ev (ep_ID e) e (c_Events s),
       c_EventsHeaders := lru_Add ev (ep_ID e) (ev_Header e) (c_EventsHeaders s)\<rparr>"

definition cache_event :: "bytes set \<Rightarrow> bytes \<Rightarrow> event_payload \<Rightarrow> 'l gstore \<Rightarrow> 'l gstore" where
  "cache_event ev i w s =
     s\<lparr>c_Events := lru_Add ev i w (c_Events s), c_EventsHeaders := lru_Add ev i (ev_Header w) (c_EventsHeaders s)\<rparr>"

definition GetEventPayload ::
  "'l store_lib \<Rightarrow> bytes set \<Rightarrow> bytes \<Rightarrow> 'l gstore \<Rightarrow> (event_payload option \<times> 'l gstore) res" where
  "GetEventPayload L ev i s =
     (case c_Events s i of
        Some e \<Rightarrow> Inr (Some e, s)
      | None \<Rightarrow> bind_res (rlp_Get (dec_event L) (t_Events s) i) (\<lambda>w.
          Inr (w, case w of None \<Rightarrow> s | Some w \<Rightarrow> cache_event ev i w s)))"

definition GetEvent :: "'l store_lib \<Rightarrow> bytes set \<Rightarrow> bytes \<Rightarrow> 'l gstore \<Rightarrow> (event_payload option \<times> 'l gstore) res" where
  "GetEvent L ev i s =
     (case c_EventsHeaders s i of
        Some e \<Rightarrow> Inr (Some e, s)
      | None \<Rightarrow> bind_res (rlp_Get (dec_event L) (t_Events s) i) (\<lambda>w.
          Inr (case w of None \<Rightarrow> (None, s) | Some w \<Rightarrow> (Some (ev_Header w), cache_event ev i w s))))"

definition HasEvent :: "bytes \<Rightarrow> 'l gstore \<Rightarrow> bool" where
  "HasEvent i s \<longleftrightarrow> t_Events s i \<noteq> None"

definition GetEventPayloadRLP :: "bytes \<Rightarrow> 'l gstore \<Rightarrow> bytes option" where
  "GetEventPayloadRLP i s = t_Events s i"

section \<open>EVM store\<close>

definition SetTx :: "'l store_lib \<Rightarrow> bytes \<Rightarrow> transaction \<Rightarrow> 'l gstore \<Rightarrow> 'l gstore" where
  "SetTx L txid tx s = s\<lparr>t_Txs := rlp_Set (enc_tx L) txid tx (t_Txs s)\<rparr>"

definition GetTx :: "'l store_lib \<Rightarrow> bytes \<Rightarrow> 'l gstore \<Rightarrow> transaction option res" where
  "GetTx L txid s = rlp_Get (dec_tx L) (t_Txs s) txid"

definition SetTxPosition :: "'l store_lib \<Rightarrow> bytes set \<Rightarrow> bytes \<Rightarrow> tx_position \<Rightarrow> 'l gstore \<Rightarrow> 'l gstore" where
  "SetTxPosition L ev txid p s =
     s\<lparr>t_TxPositions := rlp_Set (enc_pos L) txid p (t_TxPositions s),
       c_TxPositions := lru_Add ev txid p (c_TxPositions s)\<rparr>"

definition GetTxPosition ::
  "'l store_lib \<Rightarrow> bytes set \<Rightarrow> bytes \<Rightarrow> 'l gstore \<Rightarrow> (tx_position option \<times> 'l gstore) res" where
  "GetTxPosition L ev txid s =
     (case c_TxPositions s txid of
        Some p \<Rightarrow> Inr (Some p, s)
      | None \<Rightarrow> bind_res (rlp_Get (dec_pos L) (t_TxPositions s) txid) (\<lambda>p.
          Inr (p, case p of None \<Rightarrow> s | Some p \<Rightarrow> s\<lparr>c_TxPositions := lru_Add ev txid p (c_TxPositions s)\<rparr>)))"

text \<open>\<open>GasUsed\<close> is not stored: it is the difference to the cumulative gas of the receipt before.\<close>

fun derive_gas :: "u64 \<Rightarrow> 'l receipt list \<Rightarrow> 'l receipt list" where
  "derive_gas prev [] = []"
| "derive_gas prev (r # rs) =
     r\<lparr>rc_GasUsed := rc_CumulativeGasUsed r - prev\<rparr> # derive_gas (rc_CumulativeGasUsed r) rs"

definition SetRawReceipts :: "'l store_lib \<Rightarrow> u64 \<Rightarrow> 'l receipt list \<Rightarrow> 'l gstore \<Rightarrow> 'l gstore" where
  "SetRawReceipts L n rs s =
     s\<lparr>t_Receipts := (t_Receipts s)(block_Bytes L n \<mapsto> enc_receipts L rs), c_Receipts := lru_Remove n (c_Receipts s)\<rparr>"

definition SetReceipts :: "'l store_lib \<Rightarrow> u64 set \<Rightarrow> u64 \<Rightarrow> 'l receipt list \<Rightarrow> 'l gstore \<Rightarrow> 'l gstore" where
  "SetReceipts L ev n rs s =
     (let s = SetRawReceipts L n rs s in s\<lparr>c_Receipts := lru_Add ev n rs (c_Receipts s)\<rparr>)"

definition GetReceipts :: "'l store_lib \<Rightarrow> u64 set \<Rightarrow> u64 \<Rightarrow> 'l gstore \<Rightarrow> ('l receipt list option \<times> 'l gstore) res" where
  "GetReceipts L ev n s =
     (case c_Receipts s n of
        Some rs \<Rightarrow> Inr (Some rs, s)
      | None \<Rightarrow> bind_res (rlp_Get (dec_receipts L) (t_Receipts s) (block_Bytes L n)) (\<lambda>rs.
          Inr (case rs of None \<Rightarrow> (None, s)
               | Some rs \<Rightarrow> let rs = derive_gas 0 rs in (Some rs, s\<lparr>c_Receipts := lru_Add ev n rs (c_Receipts s)\<rparr>))))"

definition GetCachedEvmBlock :: "u64 \<Rightarrow> 'l gstore \<Rightarrow> evm_block option" where
  "GetCachedEvmBlock n s = c_EvmBlocks s n"

definition SetCachedEvmBlock :: "u64 set \<Rightarrow> u64 \<Rightarrow> evm_block \<Rightarrow> 'l gstore \<Rightarrow> 'l gstore res" where
  "SetCachedEvmBlock ev n b s =
     (if eh_TxHash (eb_Header b) = zero_hash
      then Inl (Panic (PanicMsg ''You have to cache only completed blocks (with txs)''))
      else Inr (s\<lparr>c_EvmBlocks := lru_Add ev n b (c_EvmBlocks s)\<rparr>))"

section \<open>Decided state\<close>

abbreviation state_key :: bytes where "state_key \<equiv> [0x73]"

definition SetBlockEpochState :: "block_state \<Rightarrow> epoch_state \<Rightarrow> 'l gstore \<Rightarrow> 'l gstore" where
  "SetBlockEpochState bs es s = s\<lparr>c_BlockEpochState := Some (bs_Copy bs, es)\<rparr>"

definition getBlockEpochState :: "'l store_lib \<Rightarrow> 'l gstore \<Rightarrow> ((block_state \<times> epoch_state) \<times> 'l gstore) res" where
  "getBlockEpochState L s =
     (case c_BlockEpochState s of
        Some v \<Rightarrow> Inr (v, s)
      | None \<Rightarrow> bind_res (rlp_Get (dec_state L) (t_BlockEpochState s) state_key) (\<lambda>v.
          case v of None \<Rightarrow> crit ''Epoch state reading failed: genesis not applied''
          | Some v \<Rightarrow> Inr (v, s\<lparr>c_BlockEpochState := Some v\<rparr>)))"

definition FlushBlockEpochState :: "'l store_lib \<Rightarrow> 'l gstore \<Rightarrow> 'l gstore res" where
  "FlushBlockEpochState L s =
     bind_res (getBlockEpochState L s) (\<lambda>(v, s).
       Inr (s\<lparr>t_BlockEpochState := rlp_Set (enc_state L) state_key v (t_BlockEpochState s)\<rparr>))"

section \<open>Highest Lamport time\<close>

abbreviation lamport_key :: bytes where "lamport_key \<equiv> [0x6b]"

definition loadHighestLamport :: "'l store_lib \<Rightarrow> 'l gstore \<Rightarrow> u32" where
  "loadHighestLamport L s = (case t_HighestLamport s lamport_key of None \<Rightarrow> 0 | Some b \<Rightarrow> BytesToLamport L b)"

definition GetHighestLamport :: "'l store_lib \<Rightarrow> 'l gstore \<Rightarrow> u32 \<times> 'l gstore" where
  "GetHighestLamport L s =
     (case c_HighestLamport s of
        Some l \<Rightarrow> (l, s)
      | None \<Rightarrow> let lamport = loadHighestLamport L s in (lamport, s\<lparr>c_HighestLamport := Some lamport\<rparr>))"

definition SetHighestLamport :: "u32 \<Rightarrow> 'l gstore \<Rightarrow> 'l gstore" where
  "SetHighestLamport l s = s\<lparr>c_HighestLamport := Some l\<rparr>"

definition FlushHighestLamport :: "'l store_lib \<Rightarrow> 'l gstore \<Rightarrow> 'l gstore" where
  "FlushHighestLamport L s =
     (case c_HighestLamport s of None \<Rightarrow> s
      | Some l \<Rightarrow> s\<lparr>t_HighestLamport := (t_HighestLamport s)(lamport_key \<mapsto> lamport_Bytes L l)\<rparr>)"

section \<open>Heads and last events of an epoch\<close>

text \<open>The loops over the stored bytes; an incomplete last entry is a slice out of range.\<close>

function loadHeads_loop :: "bytes \<Rightarrow> bytes set \<Rightarrow> bytes set res" where
  "loadHeads_loop b acc =
     (if b = [] then Inr acc
      else if length b < 32 then Inl (Panic SliceOutOfRange)
      else loadHeads_loop (drop 32 b) (insert (take 32 b) acc))"
  by pat_completeness auto
termination by (relation "measure (\<lambda>(b, _). length b)") auto

declare loadHeads_loop.simps [simp del]

definition loadHeads :: "epoch_store \<Rightarrow> bytes set res" where
  "loadHeads es = (case t_Heads es [] of None \<Rightarrow> Inr {} | Some b \<Rightarrow> loadHeads_loop b {})"

definition eps_GetHeads :: "epoch_store \<Rightarrow> (bytes set \<times> epoch_store) res" where
  "eps_GetHeads es =
     (case c_Heads es of Some hs \<Rightarrow> Inr (hs, es)
      | None \<Rightarrow> bind_res (loadHeads es) (\<lambda>hs. Inr (hs, es\<lparr>c_Heads := Some hs\<rparr>)))"

definition eps_SetHeads :: "bytes set \<Rightarrow> epoch_store \<Rightarrow> epoch_store" where
  "eps_SetHeads ids es = es\<lparr>c_Heads := Some ids\<rparr>"

definition FlushHeads :: "epoch_store \<Rightarrow> epoch_store" where
  "FlushHeads es =
     (case c_Heads es of None \<Rightarrow> es
      | Some ids \<Rightarrow> es\<lparr>t_Heads := (t_Heads es)([] \<mapsto> concat (sorted_list_of_set ids))\<rparr>)"

text \<open>The validators' last events are a Go map: an association list with distinct keys.\<close>

function loadLastEvents_loop :: "'l store_lib \<Rightarrow> bytes \<Rightarrow> (u32 \<times> bytes) list \<Rightarrow> (u32 \<times> bytes) list res" where
  "loadLastEvents_loop L b acc =
     (if b = [] then Inr acc
      else if length b < 36 then Inl (Panic SliceOutOfRange)
      else loadLastEvents_loop L (drop 36 b)
             (AList.update (BytesToValidatorID L (take 4 b)) (take 32 (drop 4 b)) acc))"
  by pat_completeness auto
termination by (relation "measure (\<lambda>(_, b, _). length b)") auto

declare loadLastEvents_loop.simps [simp del]

definition loadLastEvents :: "'l store_lib \<Rightarrow> epoch_store \<Rightarrow> (u32 \<times> bytes) list res" where
  "loadLastEvents L es = (case t_LastEvents es [] of None \<Rightarrow> Inr [] | Some b \<Rightarrow> loadLastEvents_loop L b [])"

definition eps_GetLastEvents :: "'l store_lib \<Rightarrow> epoch_store \<Rightarrow> ((u32 \<times> bytes) list \<times> epoch_store) res" where
  "eps_GetLastEvents L es =
     (case c_LastEvents es of Some ls \<Rightarrow> Inr (ls, es)
      | None \<Rightarrow> bind_res (loadLastEvents L es) (\<lambda>ls. Inr (ls, es\<lparr>c_LastEvents := Some ls\<rparr>)))"

definition eps_SetLastEvents :: "(u32 \<times> bytes) list \<Rightarrow> epoch_store \<Rightarrow> epoch_store" where
  "eps_SetLastEvents ls es = es\<lparr>c_LastEvents := Some ls\<rparr>"

definition FlushLastEvents :: "'l store_lib \<Rightarrow> epoch_store \<Rightarrow> epoch_store" where
  "FlushLastEvents L es =
     (case c_LastEvents es of None \<Rightarrow> es
      | Some lasts \<Rightarrow> es\<lparr>t_LastEvents := (t_LastEvents es)([] \<mapsto> concat (sort (map (\<lambda>(v, e). vid_Bytes L v @ e) lasts)))\<rparr>)"

text \<open>
  \<open>newEpochStore\<close> on the tables of the epoch's database; both caches are loaded at once. A call for
  an epoch that is not the current one finds no store.
\<close>

definition newEpochStore :: "'l store_lib \<Rightarrow> u32 \<Rightarrow> kv \<Rightarrow> kv \<Rightarrow> epoch_store res" where
  "newEpochStore L epoch lastEvents heads =
     bind_res (eps_GetHeads \<lparr>eps_epoch = epoch, t_LastEvents = lastEvents, t_Heads = heads, c_Heads = None, c_LastEvents = None\<rparr>)
       (\<lambda>(_, es). bind_res (eps_GetLastEvents L es) (\<lambda>(_, es). Inr es))"

definition getEpochStore :: "u32 \<Rightarrow> 'l gstore \<Rightarrow> epoch_store option res" where
  "getEpochStore epoch s =
     (case gs_epochStore s of None \<Rightarrow> Inl (Panic NilDereference)
      | Some es \<Rightarrow> if eps_epoch es \<noteq> epoch then Inr None else Inr (Some es))"

text \<open>A new epoch's database is empty; the old one is closed and dropped.\<close>

definition resetEpochStore :: "'l store_lib \<Rightarrow> u32 \<Rightarrow> 'l gstore \<Rightarrow> 'l gstore res" where
  "resetEpochStore L newEpoch s =
     bind_res (newEpochStore L newEpoch Map.empty Map.empty) (\<lambda>es. Inr (s\<lparr>gs_epochStore := Some es\<rparr>))"

definition loadEpochStore :: "'l store_lib \<Rightarrow> u32 \<Rightarrow> kv \<Rightarrow> kv \<Rightarrow> 'l gstore \<Rightarrow> 'l gstore res" where
  "loadEpochStore L epoch lastEvents heads s =
     (if gs_epochStore s \<noteq> None then Inr s
      else bind_res (newEpochStore L epoch lastEvents heads) (\<lambda>es. Inr (s\<lparr>gs_epochStore := Some es\<rparr>)))"

section \<open>Commit\<close>

definition Commit :: "'l store_lib \<Rightarrow> 'l gstore \<Rightarrow> 'l gstore res" where
  "Commit L s =
     bind_res (FlushBlockEpochState L s) (\<lambda>s.
       let s = FlushHighestLamport L s
       in Inr (case gs_epochStore s of None \<Rightarrow> s
               | Some es \<Rightarrow> s\<lparr>gs_epochStore := Some (FlushLastEvents L (FlushHeads es))\<rparr>))"

text \<open>What a restart leaves of a store: the tables.\<close>

definition reopen :: "'l store_lib \<Rightarrow> 'l gstore \<Rightarrow> 'l gstore res" where
  "reopen L s =
     (let s' = s\<lparr>c_Blocks := Map.empty, c_BlockHashes := Map.empty, c_Events := Map.empty, c_EventsHeaders := Map.empty,
          c_TxPositions := Map.empty, c_Receipts := Map.empty, c_EvmBlocks := Map.empty, c_BlockEpochState := None,
          c_HighestLamport := None, gs_epochStore := None\<rparr>
      in case gs_epochStore s of None \<Rightarrow> Inr s'
         | Some es \<Rightarrow> loadEpochStore L (eps_epoch es) (t_LastEvents es) (t_Heads es) s')"

section \<open>The caches are invisible\<close>

text \<open>
  What is documented of the libraries: byte forms are injective and of fixed length, RLP decodes
  what it encoded (for the values \<open>W\<close> that have an RLP form).
\<close>

record wf_values =
  wf_block :: "block \<Rightarrow> bool"
  wf_pos :: "tx_position \<Rightarrow> bool"
  wf_state :: "block_state \<times> epoch_state \<Rightarrow> bool"
  wf_event :: "event_payload \<Rightarrow> bool"
  wf_tx :: "transaction \<Rightarrow> bool"

definition store_lib_ok :: "'l store_lib \<Rightarrow> wf_values \<Rightarrow> bool" where
  "store_lib_ok L W \<longleftrightarrow>
     (\<forall>n. BytesToBlock L (block_Bytes L n) = n) \<and> (\<forall>l. BytesToLamport L (lamport_Bytes L l) = l) \<and>
     (\<forall>v. BytesToValidatorID L (vid_Bytes L v) = v \<and> length (vid_Bytes L v) = 4) \<and>
     (\<forall>b. wf_block W b \<longrightarrow> dec_block L (enc_block L b) = Inr b) \<and>
     (\<forall>p. wf_pos W p \<longrightarrow> dec_pos L (enc_pos L p) = Inr p) \<and>
     (\<forall>x. wf_state W x \<longrightarrow> dec_state L (enc_state L x) = Inr x) \<and>
     (\<forall>e. wf_event W e \<longrightarrow> dec_event L (enc_event L e) = Inr e) \<and>
     (\<forall>tx. wf_tx W tx \<longrightarrow> dec_tx L (enc_tx L tx) = Inr tx)"

text \<open>A table read through its decoder, and a cache that agrees with it.\<close>

definition decoded :: "(bytes \<Rightarrow> go_error + 'v) \<Rightarrow> kv \<Rightarrow> bytes \<Rightarrow> 'v option" where
  "decoded dec t k = (case t k of None \<Rightarrow> None | Some b \<Rightarrow> (case dec b of Inl _ \<Rightarrow> None | Inr v \<Rightarrow> Some v))"

definition readable :: "(bytes \<Rightarrow> go_error + 'v) \<Rightarrow> kv \<Rightarrow> bool" where
  "readable dec t \<longleftrightarrow> (\<forall>k b. t k = Some b \<longrightarrow> (\<exists>v. dec b = Inr v))"

definition agrees :: "('k \<rightharpoonup> 'v) \<Rightarrow> ('k \<Rightarrow> 'v option) \<Rightarrow> bool" where
  "agrees c m \<longleftrightarrow> (\<forall>k v. c k = Some v \<longrightarrow> m k = Some v)"

lemma rlp_Get_decoded: "readable dec t \<Longrightarrow> rlp_Get dec t k = Inr (decoded dec t k)"
  unfolding rlp_Get_def decoded_def readable_def by (cases "t k"; fastforce split: sum.splits)

lemma readable_Set [intro]: "readable dec t \<Longrightarrow> dec (enc v) = Inr v \<Longrightarrow> readable dec (rlp_Set enc k v t)"
  by (auto simp: readable_def rlp_Set_def)

lemma decoded_Set: "dec (enc v) = Inr v \<Longrightarrow> decoded dec (rlp_Set enc k v t) = (decoded dec t)(k \<mapsto> v)"
  by (auto simp: decoded_def rlp_Set_def)

lemma agrees_Add [intro]: "agrees c m \<Longrightarrow> m k = Some v \<Longrightarrow> agrees (lru_Add ev k v c) m"
  by (auto simp: agrees_def lru_Add_def)

lemma agrees_Put [intro]: "agrees c m \<Longrightarrow> agrees (lru_Add ev k v c) (m(k \<mapsto> v))"
  by (auto simp: agrees_def lru_Add_def)

lemma agrees_Remove [intro]: "agrees c m \<Longrightarrow> agrees (lru_Remove k c) (m(k := None))"
  by (auto simp: agrees_def lru_Remove_def)

lemma agrees_hit: "agrees c m \<Longrightarrow> c k = Some v \<Longrightarrow> m k = Some v"
  by (auto simp: agrees_def)

text \<open>The plain maps the store stands for.\<close>

record plain_store =
  a_Blocks :: "u64 \<rightharpoonup> block"
  a_Index :: "bytes \<rightharpoonup> u64"
  a_Events :: "bytes \<rightharpoonup> event_payload"
  a_Txs :: "bytes \<rightharpoonup> transaction"
  a_Positions :: "bytes \<rightharpoonup> tx_position"

definition plain :: "'l store_lib \<Rightarrow> 'l gstore \<Rightarrow> plain_store" where
  "plain L s = \<lparr>a_Blocks = (\<lambda>n. decoded (dec_block L) (t_Blocks s) (block_Bytes L n)),
     a_Index = (\<lambda>i. map_option (BytesToBlock L) (t_BlockHashes s i)), a_Events = decoded (dec_event L) (t_Events s),
     a_Txs = decoded (dec_tx L) (t_Txs s), a_Positions = decoded (dec_pos L) (t_TxPositions s)\<rparr>"

definition store_ok :: "'l store_lib \<Rightarrow> wf_values \<Rightarrow> 'l gstore \<Rightarrow> bool" where
  "store_ok L W s \<longleftrightarrow> store_lib_ok L W \<and> readable (dec_block L) (t_Blocks s) \<and> readable (dec_event L) (t_Events s) \<and>
     readable (dec_tx L) (t_Txs s) \<and> readable (dec_pos L) (t_TxPositions s) \<and>
     agrees (c_Blocks s) (a_Blocks (plain L s)) \<and> agrees (c_BlockHashes s) (a_Index (plain L s)) \<and>
     agrees (c_Events s) (a_Events (plain L s)) \<and>
     agrees (c_EventsHeaders s) (\<lambda>i. map_option ev_Header (a_Events (plain L s) i)) \<and>
     agrees (c_TxPositions s) (a_Positions (plain L s))"

datatype store_op =
    OpSetBlock "u64 set" u64 block | OpGetBlock "u64 set" u64
  | OpSetBlockIndex "bytes set" bytes u64 | OpGetBlockIndex "bytes set" bytes
  | OpSetEvent "bytes set" event_payload | OpDelEvent bytes | OpHasEvent bytes
  | OpGetEventPayload "bytes set" bytes | OpGetEvent "bytes set" bytes
  | OpSetTx bytes transaction | OpGetTx bytes
  | OpSetTxPosition "bytes set" bytes tx_position | OpGetTxPosition "bytes set" bytes

datatype store_out =
    OutUnit | OutBool bool | OutBlock "block option" | OutIndex "u64 option" | OutEvent "event_payload option"
  | OutTx "transaction option" | OutPosition "tx_position option"

fun store_step :: "'l store_lib \<Rightarrow> store_op \<Rightarrow> 'l gstore \<Rightarrow> (store_out \<times> 'l gstore) res" where
  "store_step L (OpSetBlock ev n b) s = Inr (OutUnit, SetBlock L ev n b s)"
| "store_step L (OpGetBlock ev n) s = bind_res (GetBlock L ev n s) (\<lambda>(b, s). Inr (OutBlock b, s))"
| "store_step L (OpSetBlockIndex ev i n) s = Inr (OutUnit, SetBlockIndex L ev i n s)"
| "store_step L (OpGetBlockIndex ev i) s = (let (n, s) = GetBlockIndex L ev i s in Inr (OutIndex n, s))"
| "store_step L (OpSetEvent ev e) s = Inr (OutUnit, SetEvent L ev e s)"
| "store_step L (OpDelEvent i) s = Inr (OutUnit, DelEvent i s)"
| "store_step L (OpHasEvent i) s = Inr (OutBool (HasEvent i s), s)"
| "store_step L (OpGetEventPayload ev i) s = bind_res (GetEventPayload L ev i s) (\<lambda>(e, s). Inr (OutEvent e, s))"
| "store_step L (OpGetEvent ev i) s = bind_res (GetEvent L ev i s) (\<lambda>(e, s). Inr (OutEvent e, s))"
| "store_step L (OpSetTx i tx) s = Inr (OutUnit, SetTx L i tx s)"
| "store_step L (OpGetTx i) s = bind_res (GetTx L i s) (\<lambda>tx. Inr (OutTx tx, s))"
| "store_step L (OpSetTxPosition ev i p) s = Inr (OutUnit, SetTxPosition L ev i p s)"
| "store_step L (OpGetTxPosition ev i) s = bind_res (GetTxPosition L ev i s) (\<lambda>(p, s). Inr (OutPosition p, s))"

fun plain_step :: "store_op \<Rightarrow> plain_store \<Rightarrow> store_out \<times> plain_store" where
  "plain_step (OpSetBlock ev n b) a = (OutUnit, a\<lparr>a_Blocks := (a_Blocks a)(n \<mapsto> b)\<rparr>)"
| "plain_step (OpGetBlock ev n) a = (OutBlock (a_Blocks a n), a)"
| "plain_step (OpSetBlockIndex ev i n) a = (OutUnit, a\<lparr>a_Index := (a_Index a)(i \<mapsto> n)\<rparr>)"
| "plain_step (OpGetBlockIndex ev i) a = (OutIndex (a_Index a i), a)"
| "plain_step (OpSetEvent ev e) a = (OutUnit, a\<lparr>a_Events := (a_Events a)(ep_ID e \<mapsto> e)\<rparr>)"
| "plain_step (OpDelEvent i) a = (OutUnit, a\<lparr>a_Events := (a_Events a)(i := None)\<rparr>)"
| "plain_step (OpHasEvent i) a = (OutBool (a_Events a i \<noteq> None), a)"
| "plain_step (OpGetEventPayload ev i) a = (OutEvent (a_Events a i), a)"
| "plain_step (OpGetEvent ev i) a = (OutEvent (map_option ev_Header (a_Events a i)), a)"
| "plain_step (OpSetTx i tx) a = (OutUnit, a\<lparr>a_Txs := (a_Txs a)(i \<mapsto> tx)\<rparr>)"
| "plain_step (OpGetTx i) a = (OutTx (a_Txs a i), a)"
| "plain_step (OpSetTxPosition ev i p) a = (OutUnit, a\<lparr>a_Positions := (a_Positions a)(i \<mapsto> p)\<rparr>)"
| "plain_step (OpGetTxPosition ev i) a = (OutPosition (a_Positions a i), a)"

fun valid_op :: "wf_values \<Rightarrow> store_op \<Rightarrow> bool" where
  "valid_op W (OpSetEvent ev e) = wf_event W e"
| "valid_op W (OpSetBlock ev n b) = wf_block W b"
| "valid_op W (OpSetTx i tx) = wf_tx W tx"
| "valid_op W (OpSetTxPosition ev i p) = wf_pos W p"
| "valid_op W _ = True"

lemma block_Bytes_inj: "store_lib_ok L W \<Longrightarrow> block_Bytes L m = block_Bytes L n \<longleftrightarrow> m = n"
  unfolding store_lib_ok_def by metis

lemma plain_SetBlock:
  "store_lib_ok L W \<Longrightarrow> wf_block W b \<Longrightarrow>
   plain L (SetBlock L ev n b s) = (plain L s)\<lparr>a_Blocks := (a_Blocks (plain L s))(n \<mapsto> b)\<rparr>"
  by (auto simp: plain_def SetBlock_def decoded_Set block_Bytes_inj store_lib_ok_def)

lemma plain_SetBlockIndex:
  "store_lib_ok L W \<Longrightarrow> plain L (SetBlockIndex L ev i n s) = (plain L s)\<lparr>a_Index := (a_Index (plain L s))(i \<mapsto> n)\<rparr>"
  by (auto simp: plain_def SetBlockIndex_def store_lib_ok_def)

lemma plain_SetEvent:
  "store_lib_ok L W \<Longrightarrow> wf_event W e \<Longrightarrow>
   plain L (SetEvent L ev e s) = (plain L s)\<lparr>a_Events := (a_Events (plain L s))(ep_ID e \<mapsto> e)\<rparr>"
  by (auto simp: plain_def SetEvent_def decoded_Set store_lib_ok_def)

lemma plain_DelEvent: "plain L (DelEvent i s) = (plain L s)\<lparr>a_Events := (a_Events (plain L s))(i := None)\<rparr>"
  by (auto simp: plain_def DelEvent_def decoded_def)

lemma plain_SetTx:
  "store_lib_ok L W \<Longrightarrow> wf_tx W tx \<Longrightarrow> plain L (SetTx L i tx s) = (plain L s)\<lparr>a_Txs := (a_Txs (plain L s))(i \<mapsto> tx)\<rparr>"
  by (auto simp: plain_def SetTx_def decoded_Set store_lib_ok_def)

lemma plain_SetTxPosition:
  "store_lib_ok L W \<Longrightarrow> wf_pos W p \<Longrightarrow>
   plain L (SetTxPosition L ev i p s) = (plain L s)\<lparr>a_Positions := (a_Positions (plain L s))(i \<mapsto> p)\<rparr>"
  by (auto simp: plain_def SetTxPosition_def decoded_Set store_lib_ok_def)

lemma store_okD: "store_ok L W s \<Longrightarrow> store_lib_ok L W" by (simp add: store_ok_def)

lemma agrees_header_Put:
  "agrees c (\<lambda>i. map_option f (m i)) \<Longrightarrow> agrees (lru_Add ev k (f v) c) (\<lambda>i. map_option f ((m(k \<mapsto> v)) i))"
  by (auto simp: agrees_def lru_Add_def)

lemma agrees_header_Remove:
  "agrees c (\<lambda>i. map_option f (m i)) \<Longrightarrow> agrees (lru_Remove k c) (\<lambda>i. map_option f ((m(k := None)) i))"
  by (auto simp: agrees_def lru_Remove_def)

lemma readable_Del: "readable dec t \<Longrightarrow> readable dec (t(k := None))" by (auto simp: readable_def)

lemma store_ok_sets:
  assumes "store_ok L W s"
  shows "wf_block W b \<Longrightarrow> store_ok L W (SetBlock L ev n b s)" "store_ok L W (SetBlockIndex L ev' i n s)"
    "wf_event W e \<Longrightarrow> store_ok L W (SetEvent L ev' e s)" "store_ok L W (DelEvent i s)"
    "wf_tx W tx \<Longrightarrow> store_ok L W (SetTx L i tx s)" "wf_pos W p \<Longrightarrow> store_ok L W (SetTxPosition L ev' i p s)"
proof -
  note lib = store_okD [OF assms]
  have enc: "wf_block W b \<Longrightarrow> dec_block L (enc_block L b) = Inr b" "wf_pos W p \<Longrightarrow> dec_pos L (enc_pos L p) = Inr p"
      "wf_event W e \<Longrightarrow> dec_event L (enc_event L e) = Inr e" "wf_tx W tx \<Longrightarrow> dec_tx L (enc_tx L tx) = Inr tx"
    using lib by (auto simp: store_lib_ok_def)
  show "store_ok L W (SetBlock L ev n b s)" if "wf_block W b"
    using assms enc that unfolding store_ok_def plain_SetBlock [OF lib that] by (auto simp: SetBlock_def)
  show "store_ok L W (SetBlockIndex L ev' i n s)"
    using assms unfolding store_ok_def plain_SetBlockIndex [OF lib] by (auto simp: SetBlockIndex_def)
  show "store_ok L W (SetEvent L ev' e s)" if "wf_event W e"
    using assms enc that unfolding store_ok_def plain_SetEvent [OF lib that]
    by (auto simp: SetEvent_def simp del: fun_upd_apply intro: agrees_header_Put)
  show "store_ok L W (DelEvent i s)"
    using assms unfolding store_ok_def plain_DelEvent
    by (auto simp: DelEvent_def simp del: fun_upd_apply intro: agrees_header_Remove readable_Del)
  show "store_ok L W (SetTx L i tx s)" if "wf_tx W tx"
    using assms enc that unfolding store_ok_def plain_SetTx [OF lib that] by (auto simp: SetTx_def)
  show "store_ok L W (SetTxPosition L ev' i p s)" if "wf_pos W p"
    using assms enc that unfolding store_ok_def plain_SetTxPosition [OF lib that] by (auto simp: SetTxPosition_def)
qed

lemma GetBlock_ok:
  assumes "store_ok L W s"
  shows "\<exists>s'. GetBlock L ev n s = Inr (a_Blocks (plain L s) n, s') \<and> store_ok L W s' \<and> plain L s' = plain L s"
proof (cases "c_Blocks s n")
  case None
  have get: "rlp_Get (dec_block L) (t_Blocks s) (block_Bytes L n) = Inr (a_Blocks (plain L s) n)"
    using assms by (simp add: rlp_Get_decoded store_ok_def plain_def)
  show ?thesis
  proof (cases "a_Blocks (plain L s) n")
    case (Some b)
    have "plain L (s\<lparr>c_Blocks := lru_Add ev n b (c_Blocks s)\<rparr>) = plain L s" by (simp add: plain_def)
    then show ?thesis using assms None get Some by (auto simp: GetBlock_def store_ok_def)
  qed (use assms None get in \<open>simp add: GetBlock_def\<close>)
qed (use assms in \<open>auto simp: GetBlock_def store_ok_def dest: agrees_hit\<close>)

lemma GetBlockIndex_ok:
  assumes "store_ok L W s"
  shows "\<exists>s'. GetBlockIndex L ev i s = (a_Index (plain L s) i, s') \<and> store_ok L W s' \<and> plain L s' = plain L s"
proof (cases "c_BlockHashes s i")
  case None
  show ?thesis
  proof (cases "t_BlockHashes s i")
    case (Some b)
    have "plain L (s\<lparr>c_BlockHashes := lru_Add ev i n (c_BlockHashes s)\<rparr>) = plain L s" for n by (simp add: plain_def)
    moreover have "a_Index (plain L s) i = Some (BytesToBlock L b)" using Some by (simp add: plain_def)
    ultimately show ?thesis using assms None Some by (auto simp: GetBlockIndex_def store_ok_def Let_def)
  qed (use assms None in \<open>simp add: GetBlockIndex_def plain_def\<close>)
qed (use assms in \<open>auto simp: GetBlockIndex_def store_ok_def dest: agrees_hit\<close>)

lemma GetTxPosition_ok:
  assumes "store_ok L W s"
  shows "\<exists>s'. GetTxPosition L ev i s = Inr (a_Positions (plain L s) i, s') \<and> store_ok L W s' \<and> plain L s' = plain L s"
proof (cases "c_TxPositions s i")
  case None
  have get: "rlp_Get (dec_pos L) (t_TxPositions s) i = Inr (a_Positions (plain L s) i)"
    using assms by (simp add: rlp_Get_decoded store_ok_def plain_def)
  show ?thesis
  proof (cases "a_Positions (plain L s) i")
    case (Some b)
    have "plain L (s\<lparr>c_TxPositions := lru_Add ev i b (c_TxPositions s)\<rparr>) = plain L s" by (simp add: plain_def)
    then show ?thesis using assms None get Some by (auto simp: GetTxPosition_def store_ok_def)
  qed (use assms None get in \<open>simp add: GetTxPosition_def\<close>)
qed (use assms in \<open>auto simp: GetTxPosition_def store_ok_def dest: agrees_hit\<close>)

lemma cache_event_ok:
  assumes "store_ok L W s" "a_Events (plain L s) i = Some w"
  shows "store_ok L W (cache_event ev i w s) \<and> plain L (cache_event ev i w s) = plain L s"
proof -
  have "plain L (cache_event ev i w s) = plain L s" by (simp add: plain_def cache_event_def)
  then show ?thesis using assms by (auto simp: store_ok_def cache_event_def)
qed

lemma event_Get: "store_ok L W s \<Longrightarrow> rlp_Get (dec_event L) (t_Events s) i = Inr (a_Events (plain L s) i)"
  by (simp add: rlp_Get_decoded store_ok_def plain_def)

lemma GetEventPayload_ok:
  assumes "store_ok L W s"
  shows "\<exists>s'. GetEventPayload L ev i s = Inr (a_Events (plain L s) i, s') \<and> store_ok L W s' \<and> plain L s' = plain L s"
proof (cases "c_Events s i")
  case None
  then show ?thesis using assms event_Get [OF assms, of i] cache_event_ok [OF assms]
    by (cases "a_Events (plain L s) i") (auto simp: GetEventPayload_def)
qed (use assms in \<open>auto simp: GetEventPayload_def store_ok_def dest: agrees_hit\<close>)

lemma GetEvent_ok:
  assumes "store_ok L W s"
  shows "\<exists>s'. GetEvent L ev i s = Inr (map_option ev_Header (a_Events (plain L s) i), s') \<and> store_ok L W s' \<and>
    plain L s' = plain L s"
proof (cases "c_EventsHeaders s i")
  case None
  then show ?thesis using assms event_Get [OF assms, of i] cache_event_ok [OF assms]
    by (cases "a_Events (plain L s) i") (auto simp: GetEvent_def)
next
  case (Some e)
  then have "map_option ev_Header (a_Events (plain L s) i) = Some e"
    using assms agrees_hit [of "c_EventsHeaders s"] by (fastforce simp: store_ok_def)
  with Some assms show ?thesis by (auto simp: GetEvent_def)
qed

lemma store_step_refines:
  assumes "store_ok L W s" "valid_op W op"
  shows "\<exists>r s'. store_step L op s = Inr (r, s') \<and> store_ok L W s' \<and> plain_step op (plain L s) = (r, plain L s')"
proof -
  note lib = store_okD [OF assms(1)]
  note sets = store_ok_sets [OF assms(1)] plain_SetBlock [OF lib] plain_SetBlockIndex [OF lib] plain_SetEvent [OF lib]
    plain_DelEvent plain_SetTx [OF lib] plain_SetTxPosition [OF lib]
  have tx: "GetTx L i s = Inr (a_Txs (plain L s) i)" for i
    using assms(1) by (simp add: GetTx_def rlp_Get_decoded store_ok_def plain_def)
  have has: "HasEvent i s \<longleftrightarrow> a_Events (plain L s) i \<noteq> None" for i
    using assms(1) by (fastforce simp: HasEvent_def store_ok_def plain_def decoded_def readable_def split: option.splits sum.splits)
  show ?thesis
  proof (cases op)
    case (OpGetBlock ev n) then show ?thesis using GetBlock_ok [OF assms(1), of ev n] by auto
  next
    case (OpGetBlockIndex ev i) then show ?thesis using GetBlockIndex_ok [OF assms(1), of ev i] by auto
  next
    case (OpGetEventPayload ev i) then show ?thesis using GetEventPayload_ok [OF assms(1), of ev i] by auto
  next
    case (OpGetEvent ev i) then show ?thesis using GetEvent_ok [OF assms(1), of ev i] by auto
  next
    case (OpGetTxPosition ev i) then show ?thesis using GetTxPosition_ok [OF assms(1), of ev i] by auto
  qed (use assms in \<open>auto simp: sets tx has\<close>)
qed

interpretation store: functional_refinement "store_ok L W" "valid_op W" "plain L" "store_step L" plain_step for L W
  by unfold_locales (rule store_step_refines)

section \<open>Commit and restart\<close>

lemma loadHeads_concat:
  "\<forall>x \<in> set xs. length x = 32 \<Longrightarrow> loadHeads_loop (concat xs) acc = Inr (acc \<union> set xs)"
proof (induction xs arbitrary: acc)
  case (Cons x xs)
  then have "loadHeads_loop (concat (x # xs)) acc = loadHeads_loop (concat xs) (insert x acc)"
    by (subst loadHeads_loop.simps) auto
  with Cons show ?case by simp
qed (simp add: loadHeads_loop.simps)

lemma sort_map: "sort (map f xs) = map f (sort_key f xs)"
  by (rule properties_for_sort) simp_all

lemma map_of_fold_update:
  "map_of (fold (\<lambda>(v, e). AList.update v e) zs acc) = map_of acc ++ map_of (rev zs)"
  by (induction zs arbitrary: acc) (auto simp: update_conv' map_add_def fun_eq_iff split: option.splits)

lemma loadLastEvents_concat:
  assumes "store_lib_ok L W" "\<forall>x \<in> set zs. length (snd x) = 32"
  shows "loadLastEvents_loop L (concat (map (\<lambda>(v, e). vid_Bytes L v @ e) zs)) acc = Inr (fold (\<lambda>(v, e). AList.update v e) zs acc)"
  using assms(2)
proof (induction zs arbitrary: acc)
  case (Cons z zs)
  obtain v e where z: "z = (v, e)" by (cases z)
  have v: "length (vid_Bytes L v) = 4" "BytesToValidatorID L (vid_Bytes L v) = v" using assms(1) by (auto simp: store_lib_ok_def)
  then show ?case using Cons z by (subst loadLastEvents_loop.simps) auto
qed (simp add: loadLastEvents_loop.simps)

text \<open>What the epoch store keeps in memory is what a new store reads back after a flush.\<close>

definition epoch_store_ok :: "epoch_store \<Rightarrow> bool" where
  "epoch_store_ok es \<longleftrightarrow> (\<exists>ids lasts. c_Heads es = Some ids \<and> finite ids \<and> (\<forall>i \<in> ids. length i = 32) \<and>
     c_LastEvents es = Some lasts \<and> distinct (map fst lasts) \<and> (\<forall>x \<in> set lasts. length (snd x) = 32))"

definition same_epoch_data :: "epoch_store \<Rightarrow> epoch_store \<Rightarrow> bool" where
  "same_epoch_data es es' \<longleftrightarrow> eps_epoch es' = eps_epoch es \<and> c_Heads es' = c_Heads es \<and>
     map_option map_of (c_LastEvents es') = map_option map_of (c_LastEvents es)"

lemma epoch_store_restart:
  assumes "store_lib_ok L W" "epoch_store_ok es"
  defines "f \<equiv> FlushLastEvents L (FlushHeads es)"
  shows "\<exists>es'. newEpochStore L (eps_epoch f) (t_LastEvents f) (t_Heads f) = Inr es' \<and> same_epoch_data es es'"
proof -
  obtain ids lasts where c: "c_Heads es = Some ids" "finite ids" "\<forall>i \<in> ids. length i = 32"
      "c_LastEvents es = Some lasts" "distinct (map fst lasts)" "\<forall>x \<in> set lasts. length (snd x) = 32"
    using assms(2) by (auto simp: epoch_store_ok_def)
  let ?g = "\<lambda>(v, e). vid_Bytes L v @ e"
  let ?zs = "sort_key ?g lasts"
  let ?ls = "fold (\<lambda>(v, e). AList.update v e) ?zs []"
  have f: "eps_epoch f = eps_epoch es" "t_Heads f [] = Some (concat (sorted_list_of_set ids))"
      "t_LastEvents f [] = Some (concat (map ?g ?zs))"
    using c by (simp_all add: f_def FlushLastEvents_def FlushHeads_def sort_map)
  have "loadHeads_loop (concat (sorted_list_of_set ids)) {} = Inr ids"
    using loadHeads_concat [of "sorted_list_of_set ids" "{}"] c by simp
  moreover have "loadLastEvents_loop L (concat (map ?g ?zs)) [] = Inr ?ls"
    using loadLastEvents_concat [OF assms(1), of ?zs] c by simp
  moreover have "map_of ?ls = map_of lasts"
  proof -
    have "distinct (map fst (rev ?zs))" using c(5) by (simp add: distinct_map rev_map [symmetric])
    then have "map_of (rev ?zs) = map_of lasts" using c(5) by (subst map_of_inject_set) simp_all
    then show ?thesis by (simp add: map_of_fold_update)
  qed
  ultimately show ?thesis
    using c f by (simp add: newEpochStore_def eps_GetHeads_def loadHeads_def eps_GetLastEvents_def loadLastEvents_def
        same_epoch_data_def)
qed

lemma plain_epoch [simp]: "plain L (s\<lparr>gs_epochStore := x\<rparr>) = plain L s"
  by (simp add: plain_def)

lemma GetHighestLamport_epoch: "fst (GetHighestLamport L (s\<lparr>gs_epochStore := x\<rparr>)) = fst (GetHighestLamport L s)"
  by (simp add: GetHighestLamport_def loadHighestLamport_def Let_def split: option.splits)

lemma getBlockEpochState_epoch:
  "getBlockEpochState L s = Inr (v, s') \<Longrightarrow> \<exists>s''. getBlockEpochState L (s\<lparr>gs_epochStore := x\<rparr>) = Inr (v, s'')"
  by (cases "c_BlockEpochState s"; cases "rlp_Get (dec_state L) (t_BlockEpochState s) state_key")
    (auto simp: getBlockEpochState_def crit_def split: option.splits)

lemma Commit_durable_helper:
  assumes lib: "store_lib_ok L W" and st: "getBlockEpochState L s = Inr (v, s0)" and wf: "wf_state W v"
    and es: "\<forall>es. gs_epochStore s = Some es \<longrightarrow> epoch_store_ok es"
  shows "\<exists>s' s2 s3. Commit L s = Inr s' \<and> reopen L s' = Inr s2 \<and> plain L s2 = plain L s \<and>
    getBlockEpochState L s2 = Inr (v, s3) \<and> fst (GetHighestLamport L s2) = fst (GetHighestLamport L s) \<and>
    (case gs_epochStore s of None \<Rightarrow> gs_epochStore s2 = None
     | Some es \<Rightarrow> (\<exists>es'. gs_epochStore s2 = Some es' \<and> same_epoch_data es es'))"
proof -
  have s0: "s0 = s\<lparr>c_BlockEpochState := Some v\<rparr>"
    using st by (auto simp: getBlockEpochState_def bind_res_Inr_iff crit_def split: option.splits)
  let ?s1 = "FlushHighestLamport L (s0\<lparr>t_BlockEpochState := rlp_Set (enc_state L) state_key v (t_BlockEpochState s0)\<rparr>)"
  let ?s' = "case gs_epochStore s of None \<Rightarrow> ?s1
    | Some es \<Rightarrow> ?s1\<lparr>gs_epochStore := Some (FlushLastEvents L (FlushHeads es))\<rparr>"
  have e1: "gs_epochStore ?s1 = gs_epochStore s" by (simp add: s0 FlushHighestLamport_def split: option.splits)
  have cm: "Commit L s = Inr ?s'"
    using st e1 by (auto simp: Commit_def FlushBlockEpochState_def Let_def split: option.splits)
  have dec: "dec_state L (enc_state L v) = Inr v" "BytesToLamport L (lamport_Bytes L l) = l" for l
    using lib wf unfolding store_lib_ok_def by blast+
  let ?t = "?s1\<lparr>c_Blocks := Map.empty, c_BlockHashes := Map.empty, c_Events := Map.empty, c_EventsHeaders := Map.empty,
          c_TxPositions := Map.empty, c_Receipts := Map.empty, c_EvmBlocks := Map.empty, c_BlockEpochState := None,
          c_HighestLamport := None, gs_epochStore := None\<rparr>"
  have t1: "plain L ?t = plain L s"
    by (auto simp: plain_def s0 FlushHighestLamport_def split: option.splits)
  have t2: "getBlockEpochState L ?t = Inr (v, ?t\<lparr>c_BlockEpochState := Some v\<rparr>)"
    using dec by (auto simp: s0 getBlockEpochState_def rlp_Get_def rlp_Set_def FlushHighestLamport_def split: option.splits)
  have t3: "fst (GetHighestLamport L ?t) = fst (GetHighestLamport L s)"
    using dec by (auto simp: s0 GetHighestLamport_def loadHighestLamport_def FlushHighestLamport_def Let_def split: option.splits)
  show ?thesis
  proof (cases "gs_epochStore s")
    case None
    then have "reopen L ?s' = Inr ?t" using e1 by (simp add: reopen_def Let_def)
    with cm t1 t2 t3 None show ?thesis by auto
  next
    case (Some es)
    then obtain es' where es': "newEpochStore L (eps_epoch (FlushLastEvents L (FlushHeads es)))
        (t_LastEvents (FlushLastEvents L (FlushHeads es))) (t_Heads (FlushLastEvents L (FlushHeads es))) = Inr es'"
        "same_epoch_data es es'"
      using epoch_store_restart [OF lib] es by blast
    have "reopen L ?s' = Inr (?t\<lparr>gs_epochStore := Some es'\<rparr>)"
      using Some e1 es' by (simp add: reopen_def Let_def loadEpochStore_def)
    with cm Some es'(2) t1 t3 getBlockEpochState_epoch [OF t2, of "Some es'"] show ?thesis
      by (auto simp: plain_epoch GetHighestLamport_epoch)
  qed
qed

section \<open>Stored receipts\<close>

text \<open>RLP keeps the cumulative gas of receipts; the gas of each is derived from it when they are read.\<close>

lemma derive_gas_ok:
  assumes "cumulative g rs" "map rc_CumulativeGasUsed rs' = map rc_CumulativeGasUsed rs"
  shows "map rc_GasUsed (derive_gas g rs') = map rc_GasUsed rs"
  using assms
proof (induction rs arbitrary: g rs')
  case (Cons r rs)
  then obtain r' rs'' where "rs' = r' # rs''" by (cases rs') auto
  moreover have "cumulative (rc_CumulativeGasUsed r) rs" "rc_GasUsed r = rc_CumulativeGasUsed r - g"
    using Cons.prems(1) by auto
  moreover have "map rc_GasUsed (derive_gas (rc_CumulativeGasUsed r) rs'') = map rc_GasUsed rs"
    using Cons.IH [OF calculation(2)] Cons.prems(2) calculation(1) by simp
  ultimately show ?case using Cons.prems(2) by simp
qed simp

section \<open>Properties\<close>

definition demo_block :: block where
  "demo_block = \<lparr>blk_Time = 5, blk_Atropos = replicate 32 7, blk_Events = [], blk_Txs = [], blk_InternalTxs = [],
     blk_SkippedTxs = [], blk_GasUsed = 0, blk_Root = replicate 32 1\<rparr>"

definition demo_wf :: wf_values where
  "demo_wf = \<lparr>wf_block = (\<lambda>b. b = demo_block), wf_pos = (\<lambda>_. False), wf_state = (\<lambda>x. x = (demo_bs, demo_es)),
     wf_event = (\<lambda>e. e = demo_event), wf_tx = (\<lambda>_. False)\<rparr>"

definition be4 :: "nat \<Rightarrow> bytes" where "be4 n = PaddedBytes (nat_be n) 4"

lemma be4_props: "n < 2 ^ 32 \<Longrightarrow> length (be4 n) = 4 \<and> be_nat (be4 n) = n"
  using length_nat_be_le [of n 4] by (simp add: be4_def PaddedBytes_def be_nat_append)

definition demo_store_lib :: "unit store_lib" where
  "demo_store_lib = \<lparr>block_Bytes = (\<lambda>n. be8 (unat n)), BytesToBlock = (\<lambda>b. word_of_nat (be_nat b)),
     lamport_Bytes = (\<lambda>n. be4 (unat n)), BytesToLamport = (\<lambda>b. word_of_nat (be_nat b)),
     vid_Bytes = (\<lambda>n. be4 (unat n)), BytesToValidatorID = (\<lambda>b. word_of_nat (be_nat b)),
     enc_block = (\<lambda>_. [1]), dec_block = (\<lambda>_. Inr demo_block), enc_event = (\<lambda>_. [2]), dec_event = (\<lambda>_. Inr demo_event),
     enc_pos = (\<lambda>_. []), dec_pos = (\<lambda>_. Inl (OtherErr ''rlp'')), enc_tx = (\<lambda>_. []), dec_tx = (\<lambda>_. Inl (OtherErr ''rlp'')),
     enc_receipts = (\<lambda>_. []), dec_receipts = (\<lambda>_. Inr []), enc_state = (\<lambda>_. [3]), dec_state = (\<lambda>_. Inr (demo_bs, demo_es))\<rparr>"

lemma demo_store_lib_ok: "store_lib_ok demo_store_lib demo_wf"
proof -
  have "unat (n :: u64) < 2 ^ 64" for n using unsigned_less [of n] by simp
  moreover have "unat (n :: u32) < 2 ^ 32" for n using unsigned_less [of n] by simp
  ultimately show ?thesis by (simp add: store_lib_ok_def demo_store_lib_def demo_wf_def be8_props be4_props)
qed

definition empty_store :: "'l gstore" where
  "empty_store = \<lparr>t_Blocks = Map.empty, t_BlockHashes = Map.empty, t_Events = Map.empty, t_Genesis = Map.empty,
     t_BlockEpochState = Map.empty, t_HighestLamport = Map.empty, t_TxPositions = Map.empty, t_Txs = Map.empty,
     t_Receipts = Map.empty, c_Blocks = Map.empty, c_BlockHashes = Map.empty, c_Events = Map.empty,
     c_EventsHeaders = Map.empty, c_TxPositions = Map.empty, c_Receipts = Map.empty, c_EvmBlocks = Map.empty,
     c_BlockEpochState = None, c_HighestLamport = None, gs_epochStore = None\<rparr>"

lemma empty_store_ok: "store_lib_ok L W \<Longrightarrow> store_ok L W empty_store"
  by (simp add: store_ok_def empty_store_def readable_def agrees_def)

text \<open>
  C5. The storage with its caches refines plain maps: whatever the caches evict, every sequence of
  operations on blocks, block indexes, events, transactions and positions returns without a panic
  what it would return on maps, and leaves a state that stands for the same maps.
\<close>

theorem store_refines_maps:
  assumes "store_ok L W s" "\<forall>op \<in> set ops. valid_op W op"
  shows "\<exists>rs s'. run_ops (store_step L) ops s = Inr (rs, s') \<and> store_ok L W s' \<and>
    run_abs plain_step ops (plain L s) = (rs, plain L s')"
  using assms by (rule store.run_refines)

theorem store_refines_maps_witness:
  "store_ok demo_store_lib demo_wf empty_store \<and>
   (\<exists>s'. run_ops (store_step demo_store_lib)
        [OpSetBlock {7} 7 demo_block, OpGetBlock {} 7, OpGetBlock {} 8, OpSetEvent {} demo_event, OpGetEvent {} (ep_ID demo_event),
         OpDelEvent (ep_ID demo_event), OpHasEvent (ep_ID demo_event)] empty_store =
      Inr ([OutUnit, OutBlock (Some demo_block), OutBlock None, OutUnit, OutEvent (Some (ev_Header demo_event)), OutUnit,
            OutBool False], s'))"
proof -
  have ok: "store_ok demo_store_lib demo_wf empty_store" by (intro empty_store_ok demo_store_lib_ok)
  have pl: "a_Blocks (plain demo_store_lib empty_store) = Map.empty" "a_Events (plain demo_store_lib empty_store) = Map.empty"
    by (auto simp: plain_def empty_store_def decoded_def)
  show ?thesis
    using store_refines_maps [OF ok, of "[OpSetBlock {7} 7 demo_block, OpGetBlock {} 7, OpGetBlock {} 8,
        OpSetEvent {} demo_event, OpGetEvent {} (ep_ID demo_event), OpDelEvent (ep_ID demo_event), OpHasEvent (ep_ID demo_event)]"]
      ok pl by (auto simp: demo_wf_def)
qed


definition demo_store :: "unit gstore" where
  "demo_store = empty_store\<lparr>c_BlockEpochState := Some (demo_bs, demo_es), c_HighestLamport := Some 9,
     gs_epochStore := Some \<lparr>eps_epoch = 2, t_LastEvents = Map.empty, t_Heads = Map.empty,
       c_Heads = Some {replicate 32 4, replicate 32 3}, c_LastEvents = Some [(2, replicate 32 4), (1, replicate 32 3)]\<rparr>\<rparr>"


end
