(* ===== verification/State_Reader.thy ===== *)
theory State_Reader
  imports Gossip_Store
begin

text \<open>
  src/gossip/evm_state_reader.go: the view of the chain that the EVM and the transaction pool have.
  A block is rebuilt from the store: header from the stored block and its predecessor, transactions
  from the internal ones, those stored with the block and those of its events, less the skipped
  positions. The lookup of ancestors' hashes works on this view.
\<close>

section \<open>Gas prices and limits\<close>

definition reader_MinGasPrice :: "rules \<Rightarrow> int" where
  "reader_MinGasPrice rules = MinGasPrice (ru_Economy rules)"

text \<open>\<open>suggested\<close> is what the gas price oracle suggests; \<open>big.Int.Div\<close> is Euclidean division.\<close>

definition RecommendedMinGasPrice :: "int \<Rightarrow> rules \<Rightarrow> int" where
  "RecommendedMinGasPrice suggested rules =
     (let est = suggested * 3 div 4; min = reader_MinGasPrice rules in if min > est then min else est)"

definition MaxGasLimit :: "rules \<Rightarrow> u64" where
  "MaxGasLimit rules =
     (let G = eco_Gas (ru_Economy rules); D = ru_Dag rules;
          maxEmptyEventGas = EventGas G + ucast (MaxParents D - MaxFreeParents D) * ParentGas G
            + ucast (MaxExtraData D) * ExtraDataGas G
      in if MaxEventGas G < maxEmptyEventGas then 0 else MaxEventGas G - maxEmptyEventGas)"

section \<open>Rebuilding a block\<close>

fun get_txs :: "'l store_lib \<Rightarrow> string \<Rightarrow> bytes list \<Rightarrow> 'l gstore \<Rightarrow> transaction list res" where
  "get_txs L msg [] s = Inr []"
| "get_txs L msg (txid # ids) s =
     bind_res (GetTx L txid s) (\<lambda>tx. case tx of None \<Rightarrow> crit msg
       | Some tx \<Rightarrow> bind_res (get_txs L msg ids s) (\<lambda>txs. Inr (tx # txs)))"

fun get_event_txs :: "'l store_lib \<Rightarrow> (bytes \<Rightarrow> bytes set) \<Rightarrow> bytes list \<Rightarrow> 'l gstore \<Rightarrow> (transaction list \<times> 'l gstore) res" where
  "get_event_txs L ev [] s = Inr ([], s)"
| "get_event_txs L ev (i # ids) s =
     bind_res (GetEventPayload L (ev i) i s) (\<lambda>(e, s). case e of None \<Rightarrow> crit ''Block event not found''
       | Some e \<Rightarrow> bind_res (get_event_txs L ev ids s) (\<lambda>(txs, s). Inr (ev_txs e @ txs, s)))"

definition read_txs :: "'l store_lib \<Rightarrow> (bytes \<Rightarrow> bytes set) \<Rightarrow> block \<Rightarrow> 'l gstore \<Rightarrow> (transaction list \<times> 'l gstore) res" where
  "read_txs L ev block s =
     bind_res (get_txs L ''Internal tx not found'' (blk_InternalTxs block) s) (\<lambda>itxs.
       bind_res (get_txs L ''Tx not found'' (blk_Txs block) s) (\<lambda>txs.
         bind_res (get_event_txs L ev (blk_Events block) s) (\<lambda>(etxs, s).
           Inr (FilterSkippedTxs (itxs @ txs @ etxs) (blk_SkippedTxs block), s))))"

definition prev_atropos :: "'l store_lib \<Rightarrow> (u64 \<Rightarrow> u64 set) \<Rightarrow> u64 \<Rightarrow> 'l gstore \<Rightarrow> (bytes \<times> 'l gstore) res" where
  "prev_atropos L evb n s =
     (if n \<noteq> 0
      then bind_res (GetBlock L (evb (n - 1)) (n - 1) s) (\<lambda>(b, s).
             case b of None \<Rightarrow> Inl (Panic NilDereference) | Some b \<Rightarrow> Inr (blk_Atropos b, s))
      else Inr (zero_hash, s))"

definition reader_getBlock ::
  "'l store_lib \<Rightarrow> types_lib \<Rightarrow> (u64 \<Rightarrow> u64 set) \<Rightarrow> (bytes \<Rightarrow> bytes set) \<Rightarrow> bytes \<Rightarrow> u64 \<Rightarrow> bool \<Rightarrow> 'l gstore \<Rightarrow>
     (evm_block option \<times> 'l gstore) res" where
  "reader_getBlock L T evb eve h n readTxs s =
     bind_res (GetBlock L (evb n) n s) (\<lambda>(b, s).
       case b of None \<Rightarrow> Inr (None, s)
       | Some block \<Rightarrow>
           if h \<noteq> zero_hash \<and> h \<noteq> blk_Atropos block then Inr (None, s)
           else if readTxs \<and> GetCachedEvmBlock n s \<noteq> None then Inr (GetCachedEvmBlock n s, s)
           else bind_res (if readTxs then read_txs L eve block s else Inr ([], s)) (\<lambda>(txs, s).
             bind_res (prev_atropos L evb n s) (\<lambda>(prev, s).
               let evmHeader = ToEvmHeader block n prev
               in if readTxs
                  then let evmBlock = NewEvmBlock T evmHeader txs
                       in bind_res (SetCachedEvmBlock (evb n) n evmBlock s) (\<lambda>s. Inr (Some evmBlock, s))
                  else Inr (Some \<lparr>eb_Header = evmHeader, eb_Transactions = []\<rparr>, s))))"

definition reader_GetHeader ::
  "'l store_lib \<Rightarrow> types_lib \<Rightarrow> (u64 \<Rightarrow> u64 set) \<Rightarrow> bytes \<Rightarrow> u64 \<Rightarrow> 'l gstore \<Rightarrow> (evm_header option \<times> 'l gstore) res" where
  "reader_GetHeader L T evb h n s =
     bind_res (reader_getBlock L T evb (\<lambda>_. {}) h n False s) (\<lambda>(b, s). Inr (map_option eb_Header b, s))"

definition TxExists :: "'l store_lib \<Rightarrow> bytes set \<Rightarrow> bytes \<Rightarrow> 'l gstore \<Rightarrow> (bool \<times> 'l gstore) res" where
  "TxExists L ev txid s = bind_res (GetTxPosition L ev txid s) (\<lambda>(p, s). Inr (p \<noteq> None, s))"

section \<open>On plain maps\<close>

text \<open>The header a block has, and its transactions, on the maps the store stands for.\<close>

definition plain_prev :: "plain_store \<Rightarrow> u64 \<Rightarrow> bytes option" where
  "plain_prev a n = (if n \<noteq> 0 then map_option blk_Atropos (a_Blocks a (n - 1)) else Some zero_hash)"

definition plain_GetHeader :: "plain_store \<Rightarrow> bytes \<Rightarrow> u64 \<Rightarrow> evm_header option" where
  "plain_GetHeader a h n =
     (case a_Blocks a n of None \<Rightarrow> None
      | Some block \<Rightarrow> if h \<noteq> zero_hash \<and> h \<noteq> blk_Atropos block then None
          else map_option (ToEvmHeader block n) (plain_prev a n))"

definition plain_txs :: "plain_store \<Rightarrow> block \<Rightarrow> transaction list" where
  "plain_txs a b = FilterSkippedTxs
     (map (\<lambda>i. the (a_Txs a i)) (blk_InternalTxs b) @ map (\<lambda>i. the (a_Txs a i)) (blk_Txs b)
      @ concat (map (\<lambda>i. ev_txs (the (a_Events a i))) (blk_Events b))) (blk_SkippedTxs b)"

definition complete_block :: "plain_store \<Rightarrow> block \<Rightarrow> bool" where
  "complete_block a b \<longleftrightarrow> (\<forall>i \<in> set (blk_InternalTxs b) \<union> set (blk_Txs b). a_Txs a i \<noteq> None) \<and>
     (\<forall>i \<in> set (blk_Events b). a_Events a i \<noteq> None)"

lemma GetTx_plain: "store_ok L W s \<Longrightarrow> GetTx L i s = Inr (a_Txs (plain L s) i)"
  by (simp add: GetTx_def rlp_Get_decoded store_ok_def plain_def)

lemma get_txs_plain:
  "store_ok L W s \<Longrightarrow> \<forall>i \<in> set ids. a_Txs (plain L s) i \<noteq> None \<Longrightarrow>
   get_txs L msg ids s = Inr (map (\<lambda>i. the (a_Txs (plain L s) i)) ids)"
  by (induction ids) (auto simp: GetTx_plain)

lemma GetEventPayload_evm: "GetEventPayload L ev i s = Inr (e, s') \<Longrightarrow> c_EvmBlocks s' = c_EvmBlocks s"
  by (auto simp: GetEventPayload_def bind_res_Inr_iff cache_event_def split: option.splits)

lemma GetBlock_evm: "GetBlock L ev n s = Inr (b, s') \<Longrightarrow> c_EvmBlocks s' = c_EvmBlocks s"
  by (auto simp: GetBlock_def bind_res_Inr_iff split: option.splits)

lemma get_event_txs_plain:
  assumes "store_ok L W s" "\<forall>i \<in> set ids. a_Events (plain L s) i \<noteq> None"
  shows "\<exists>s'. get_event_txs L ev ids s = Inr (concat (map (\<lambda>i. ev_txs (the (a_Events (plain L s) i))) ids), s') \<and>
    store_ok L W s' \<and> plain L s' = plain L s \<and> c_EvmBlocks s' = c_EvmBlocks s"
  using assms
proof (induction ids arbitrary: s)
  case (Cons i ids)
  obtain s1 where s1: "GetEventPayload L (ev i) i s = Inr (a_Events (plain L s) i, s1)" "store_ok L W s1"
      "plain L s1 = plain L s"
    using GetEventPayload_ok [OF Cons.prems(1)] by blast
  obtain e where e: "a_Events (plain L s) i = Some e" using Cons.prems(2) by auto
  obtain s2 where "get_event_txs L ev ids s1 = Inr (concat (map (\<lambda>i. ev_txs (the (a_Events (plain L s1) i))) ids), s2)"
      "store_ok L W s2" "plain L s2 = plain L s1" "c_EvmBlocks s2 = c_EvmBlocks s1"
    using Cons.IH [OF s1(2)] Cons.prems(2) s1(3) by auto
  with s1 e GetEventPayload_evm [OF s1(1)] show ?case by auto
qed simp

lemma read_txs_plain:
  assumes "store_ok L W s" "complete_block (plain L s) b"
  shows "\<exists>s'. read_txs L ev b s = Inr (plain_txs (plain L s) b, s') \<and> store_ok L W s' \<and> plain L s' = plain L s \<and>
    c_EvmBlocks s' = c_EvmBlocks s"
  using assms get_event_txs_plain [OF assms(1), of "blk_Events b" ev]
  by (auto simp: read_txs_def get_txs_plain complete_block_def plain_txs_def)

lemma prev_atropos_plain:
  assumes "store_ok L W s" "plain_prev (plain L s) n = Some p"
  shows "\<exists>s'. prev_atropos L evb n s = Inr (p, s') \<and> store_ok L W s' \<and> plain L s' = plain L s \<and>
    c_EvmBlocks s' = c_EvmBlocks s"
proof (cases "n = 0")
  case False
  obtain s' where "GetBlock L (evb (n - 1)) (n - 1) s = Inr (a_Blocks (plain L s) (n - 1), s')" "store_ok L W s'"
      "plain L s' = plain L s"
    using GetBlock_ok [OF assms(1)] by blast
  then show ?thesis using False assms(2) GetBlock_evm by (auto simp: prev_atropos_def plain_prev_def)
qed (use assms in \<open>simp add: prev_atropos_def plain_prev_def\<close>)

lemma reader_GetHeader_plain:
  assumes "store_ok L W s" "a_Blocks (plain L s) n \<noteq> None \<longrightarrow> plain_prev (plain L s) n \<noteq> None"
  shows "\<exists>s'. reader_GetHeader L T evb h n s = Inr (plain_GetHeader (plain L s) h n, s') \<and> store_ok L W s' \<and>
    plain L s' = plain L s"
proof -
  obtain s1 where s1: "GetBlock L (evb n) n s = Inr (a_Blocks (plain L s) n, s1)" "store_ok L W s1" "plain L s1 = plain L s"
    using GetBlock_ok [OF assms(1)] by blast
  show ?thesis
  proof (cases "a_Blocks (plain L s) n")
    case (Some b)
    then obtain p where p: "plain_prev (plain L s) n = Some p" using assms(2) by auto
    obtain s2 where "prev_atropos L evb n s1 = Inr (p, s2)" "store_ok L W s2" "plain L s2 = plain L s1"
      using prev_atropos_plain [OF s1(2), of n p] p s1(3) by auto
    with s1 Some p show ?thesis
      by (auto simp: reader_GetHeader_def reader_getBlock_def plain_GetHeader_def Let_def)
  qed (use s1 in \<open>simp add: reader_GetHeader_def reader_getBlock_def plain_GetHeader_def\<close>)
qed

text \<open>A block that is not in the cache is rebuilt from the maps, and cached.\<close>

lemma reader_getBlock_plain:
  assumes "store_ok L W s" "a_Blocks (plain L s) n = Some b" "complete_block (plain L s) b"
    and "plain_prev (plain L s) n = Some p" "c_EvmBlocks s n = None" "h = zero_hash \<or> h = blk_Atropos b"
    and "eh_TxHash (eb_Header (NewEvmBlock T (ToEvmHeader b n p) (plain_txs (plain L s) b))) \<noteq> zero_hash"
  shows "\<exists>s'. reader_getBlock L T evb eve h n True s =
      Inr (Some (NewEvmBlock T (ToEvmHeader b n p) (plain_txs (plain L s) b)), s') \<and> store_ok L W s' \<and> plain L s' = plain L s"
proof -
  obtain s1 where s1: "GetBlock L (evb n) n s = Inr (Some b, s1)" "store_ok L W s1" "plain L s1 = plain L s"
    using GetBlock_ok [OF assms(1)] assms(2) by metis
  have c1: "c_EvmBlocks s1 n = None" using GetBlock_evm [OF s1(1)] assms(5) by simp
  obtain s2 where s2: "read_txs L eve b s1 = Inr (plain_txs (plain L s) b, s2)" "store_ok L W s2" "plain L s2 = plain L s"
    using read_txs_plain [OF s1(2), of b eve] assms(3) s1(3) by auto
  obtain s3 where s3: "prev_atropos L evb n s2 = Inr (p, s3)" "store_ok L W s3" "plain L s3 = plain L s"
    using prev_atropos_plain [OF s2(2), of n p evb] assms(4) s2(3) by auto
  let ?s = "s3\<lparr>c_EvmBlocks := lru_Add (evb n) n (NewEvmBlock T (ToEvmHeader b n p) (plain_txs (plain L s) b)) (c_EvmBlocks s3)\<rparr>"
  have "plain L ?s = plain L s3" by (simp add: plain_def)
  moreover then have "store_ok L W ?s" using s3(2) by (simp add: store_ok_def)
  ultimately show ?thesis
    using s1 s2 s3 c1 assms(6,7)
    by (simp add: reader_getBlock_def GetCachedEvmBlock_def SetCachedEvmBlock_def Let_def)
qed

section \<open>The chain as an ancestry\<close>

text \<open>The hashes of the first \<open>N\<close> blocks, if all of them are there.\<close>

definition chain_hashes :: "plain_store \<Rightarrow> nat \<Rightarrow> bytes list" where
  "chain_hashes a N =
     (if N < 2 ^ 63 \<and> (\<forall>k < N. a_Blocks a (word_of_nat k) \<noteq> None)
      then map (\<lambda>k. blk_Atropos (the (a_Blocks a (word_of_nat k)))) [0..<N] else [])"

lemma sint_small: "k < 2 ^ 63 \<Longrightarrow> sint (word_of_nat k :: u64) = int k"
  by (simp add: signed_of_nat signed_take_bit_int_eq_self)

lemma chain_hashes_linked:
  assumes "0 < k" "k < length (chain_hashes a N)"
  shows "\<exists>h. plain_GetHeader a (chain_hashes a N ! k) (word_of_nat k) = Some h \<and> eh_Number h = int k \<and>
    eh_ParentHash h = chain_hashes a N ! (k - 1)"
proof -
  have N: "N < 2 ^ 63" "\<forall>k < N. a_Blocks a (word_of_nat k) \<noteq> None" "k < N"
      "chain_hashes a N = map (\<lambda>k. blk_Atropos (the (a_Blocks a (word_of_nat k)))) [0..<N]"
    using assms(2) by (auto simp: chain_hashes_def split: if_splits)
  obtain b where b: "a_Blocks a (word_of_nat k) = Some b" using N by auto
  obtain c where c: "a_Blocks a (word_of_nat (k - 1)) = Some c" using N by (meson less_imp_diff_less not_None_eq)
  have "(word_of_nat k :: u64) \<noteq> 0"
    using of_nat_inj_u64 [of k 0] assms(1) N by simp
  moreover have "(word_of_nat k :: u64) - 1 = word_of_nat (k - 1)" using assms(1) by (simp add: of_nat_diff)
  moreover have "chain_hashes a N ! k = blk_Atropos b" "chain_hashes a N ! (k - 1) = blk_Atropos c"
    using N b c assms(1) nth_upt [of 0 "k - 1" N] by simp_all
  ultimately show ?thesis
    using b c N sint_small [of k] by (simp add: plain_GetHeader_def plain_prev_def ToEvmHeader_def)
qed

interpretation chain: ancestry "plain_GetHeader a" "chain_hashes a N" for a N
proof
  show "length (chain_hashes a N) < 2 ^ 63" by (auto simp: chain_hashes_def)
qed (rule chain_hashes_linked)

definition right_cache :: "plain_store \<Rightarrow> nat \<Rightarrow> bytes list \<Rightarrow> bool" where
  "right_cache a m cache \<longleftrightarrow> length cache \<le> m \<and>
     (\<forall>i < length cache. cache ! i = blk_Atropos (the (a_Blocks a (word_of_nat (m - 1 - i)))))"

lemma right_cache_eq:
  assumes "chain_hashes a N = map (\<lambda>k. blk_Atropos (the (a_Blocks a (word_of_nat k)))) [0..<N]" "m \<le> N" "0 < m"
  shows "chain.cache_ok a N m cache \<longleftrightarrow> right_cache a m cache"
proof -
  have "chain_hashes a N ! (m - 1 - i) = blk_Atropos (the (a_Blocks a (word_of_nat (m - 1 - i))))" for i
    using assms nth_upt [of 0 "m - 1 - i" N] by simp
  then have "map (\<lambda>i. chain_hashes a N ! (m - 1 - i)) [0..<length cache] =
      map (\<lambda>i. blk_Atropos (the (a_Blocks a (word_of_nat (m - 1 - i))))) [0..<length cache]" by (simp only:)
  then show ?thesis unfolding chain.cache_ok_def right_cache_def
    by (metis (no_types, lifting) add_0 length_map length_upt minus_nat.diff_0 nth_equalityI nth_map_upt)
qed

section \<open>Properties\<close>


definition demo_chain :: plain_store where
  "demo_chain = \<lparr>a_Blocks = (\<lambda>n. if n < 3 then Some (demo_block\<lparr>blk_Atropos := replicate 32 (ucast n)\<rparr>) else None),
     a_Index = Map.empty, a_Events = Map.empty, a_Txs = Map.empty, a_Positions = Map.empty\<rparr>"


end
