(* ===== verification/Log_Watchers.thy ===== *)
theory Log_Watchers
  imports Driver_Module
begin

text \<open>
  The other listeners to contract logs: src/version, src/gossip/blockproc/verwatcher (network
  upgrades the node does not support) and src/gossip/sfcapi (the node's view of stakers,
  delegations and claimed rewards of the SFC contract). Stored numbers are kept as numbers; their
  byte forms are those of the libraries. A log's data has the capacity of its length, so a slice
  beyond the length panics.
\<close>

section \<open>Versions\<close>

definition ToU64 :: "u16 \<Rightarrow> u16 \<Rightarrow> u16 \<Rightarrow> u64" where
  "ToU64 vMajor vMinor vPatch = ucast vMajor * 1000000000000 + ucast vMinor * 1000000 + ucast vPatch"

definition U64_parts :: "u64 \<Rightarrow> u16 \<times> u16 \<times> u16" where
  "U64_parts v = (ucast ((v div 1000000000000) mod 1000000), ucast ((v div 1000000) mod 1000000), ucast (v mod 1000000))"

definition AsU64 :: u64 where "AsU64 = ToU64 1 0 2"

section \<open>Version watcher\<close>

record ver_config =
  ShutDownIfNotUpgraded :: bool
  WarningIfNotUpgradedEvery :: u64

record ver_store =
  vs_network :: "u64 option"
  vs_missed :: "u64 option"

definition SetNetworkVersion :: "u64 \<Rightarrow> ver_store \<Rightarrow> ver_store" where
  "SetNetworkVersion v s = s\<lparr>vs_network := Some v\<rparr>"

definition GetNetworkVersion :: "ver_store \<Rightarrow> u64" where
  "GetNetworkVersion s = (case vs_network s of None \<Rightarrow> 0 | Some v \<Rightarrow> v)"

definition SetMissedVersion :: "u64 \<Rightarrow> ver_store \<Rightarrow> ver_store" where
  "SetMissedVersion v s = s\<lparr>vs_missed := Some v\<rparr>"

definition GetMissedVersion :: "ver_store \<Rightarrow> u64" where
  "GetMissedVersion s = (case vs_missed s of None \<Rightarrow> 0 | Some v \<Rightarrow> v)"

definition topic_UpdateNetworkVersion :: "driver_lib \<Rightarrow> bytes" where
  "topic_UpdateNetworkVersion L = keccak L ''UpdateNetworkVersion(uint256)''"

text \<open>\<open>errlock.Permanent\<close> ends the process; the warnings of \<open>log\<close> change nothing.\<close>

definition ver_OnNewLog :: "driver_lib \<Rightarrow> ver_config \<Rightarrow> evm_log \<Rightarrow> ver_store \<Rightarrow> ver_store res" where
  "ver_OnNewLog L cfg l s =
     (if lg_Address l \<noteq> ContractAddress then Inr s
      else case lg_Topics l of [] \<Rightarrow> Inl (Panic IndexOutOfRange)
      | t # ts \<Rightarrow>
          if t = topic_UpdateNetworkVersion L \<and> length (lg_Data l) \<ge> 32
          then let netVersion = word_of_int (big_SetBytes (take 8 (drop 24 (lg_Data l)))) :: u64;
                   s = SetNetworkVersion netVersion s
               in if netVersion > AsU64
                  then if ShutDownIfNotUpgraded cfg then Inl (Panic (PanicMsg ''Node is permanently stopping''))
                       else if GetMissedVersion s = 0 then Inr (SetMissedVersion netVersion s) else Inr s
                  else Inr s
          else Inr s)"

datatype ver_warning = NoWarning | NotUpgraded u64 | DirtyState u64

definition ver_log :: "ver_config \<Rightarrow> ver_store \<Rightarrow> ver_warning" where
  "ver_log cfg s =
     (if WarningIfNotUpgradedEvery cfg = 0 then NoWarning
      else if GetNetworkVersion s > AsU64 then NotUpgraded (GetNetworkVersion s)
      else if GetMissedVersion s > 0 then DirtyState (GetMissedVersion s) else NoWarning)"

section \<open>Stakers, delegations and rewards\<close>

record sfc_staker =
  ss_CreatedEpoch :: u32
  ss_CreatedTime :: u64
  ss_DeactivatedEpoch :: u32
  ss_DeactivatedTime :: u64
  ss_Address :: bytes
  ss_Status :: u64

type_synonym delegation_id = "bytes \<times> u32"

record sfc_store =
  sfc_Stakers :: "u32 \<rightharpoonup> sfc_staker"
  sfc_Delegations :: "delegation_id \<rightharpoonup> int"
  sfc_DelegationOldRewards :: "delegation_id \<rightharpoonup> int"
  sfc_StakerDelegationsOldRewards :: "u32 \<rightharpoonup> int"

definition sfc_Ok :: "sfc_staker \<Rightarrow> bool" where
  "sfc_Ok st \<longleftrightarrow> ss_Status st = 0 \<and> ss_DeactivatedEpoch st = 0"

definition sfc_HasFork :: "sfc_staker \<Rightarrow> bool" where
  "sfc_HasFork st \<longleftrightarrow> bit (ss_Status st) 0"

definition sfc_Offline :: "sfc_staker \<Rightarrow> bool" where
  "sfc_Offline st \<longleftrightarrow> bit (ss_Status st) 8"

definition SetSfcStaker :: "u32 \<Rightarrow> sfc_staker \<Rightarrow> sfc_store \<Rightarrow> sfc_store" where
  "SetSfcStaker v st s = s\<lparr>sfc_Stakers := (sfc_Stakers s)(v \<mapsto> st)\<rparr>"

definition SetSfcDelegation :: "delegation_id \<Rightarrow> int \<Rightarrow> sfc_store \<Rightarrow> sfc_store" where
  "SetSfcDelegation d amount s = s\<lparr>sfc_Delegations := (sfc_Delegations s)(d \<mapsto> amount)\<rparr>"

definition DelSfcDelegation :: "delegation_id \<Rightarrow> sfc_store \<Rightarrow> sfc_store" where
  "DelSfcDelegation d s = s\<lparr>sfc_Delegations := (sfc_Delegations s)(d := None)\<rparr>"

definition GetDelegationClaimedRewards :: "delegation_id \<Rightarrow> sfc_store \<Rightarrow> int" where
  "GetDelegationClaimedRewards d s = (case sfc_DelegationOldRewards s d of None \<Rightarrow> 0 | Some a \<Rightarrow> a)"

text \<open>Amounts are stored by \<open>big.Int.Bytes\<close>, which drops the sign.\<close>

definition SetDelegationClaimedRewards :: "delegation_id \<Rightarrow> int \<Rightarrow> sfc_store \<Rightarrow> sfc_store" where
  "SetDelegationClaimedRewards d amount s = s\<lparr>sfc_DelegationOldRewards := (sfc_DelegationOldRewards s)(d \<mapsto> \<bar>amount\<bar>)\<rparr>"

definition IncDelegationClaimedRewards :: "delegation_id \<Rightarrow> int \<Rightarrow> sfc_store \<Rightarrow> sfc_store" where
  "IncDelegationClaimedRewards d diff s = SetDelegationClaimedRewards d (GetDelegationClaimedRewards d s + diff) s"

definition GetStakerDelegationsClaimedRewards :: "u32 \<Rightarrow> sfc_store \<Rightarrow> int" where
  "GetStakerDelegationsClaimedRewards v s = (case sfc_StakerDelegationsOldRewards s v of None \<Rightarrow> 0 | Some a \<Rightarrow> a)"

definition SetStakerDelegationsClaimedRewards :: "u32 \<Rightarrow> int \<Rightarrow> sfc_store \<Rightarrow> sfc_store" where
  "SetStakerDelegationsClaimedRewards v amount s =
     s\<lparr>sfc_StakerDelegationsOldRewards := (sfc_StakerDelegationsOldRewards s)(v \<mapsto> \<bar>amount\<bar>)\<rparr>"

definition IncStakerDelegationsClaimedRewards :: "u32 \<Rightarrow> int \<Rightarrow> sfc_store \<Rightarrow> sfc_store" where
  "IncStakerDelegationsClaimedRewards v diff s =
     SetStakerDelegationsClaimedRewards v (GetStakerDelegationsClaimedRewards v s + diff) s"

definition sfc_Address :: bytes where "sfc_Address = [0xfc, 0x00, 0xfa, 0xce] @ replicate 16 0"

definition sfc_topic :: "driver_lib \<Rightarrow> string \<Rightarrow> bytes" where "sfc_topic L sig = keccak L sig"

definition topic_addr :: "bytes \<Rightarrow> bytes" where "topic_addr t = take 20 (drop 12 t)"

definition data_word :: "bytes \<Rightarrow> nat \<Rightarrow> int res" where
  "data_word d i =
     (if 32 * (i + 1) \<le> length d then Inr (big_SetBytes (take 32 (drop (32 * i) d))) else Inl (Panic SliceOutOfRange))"

definition big_u64 :: "int \<Rightarrow> u64" where "big_u64 v = word_of_int v"

definition on_Created :: "bytes \<Rightarrow> bytes \<Rightarrow> bytes \<Rightarrow> sfc_store \<Rightarrow> sfc_store res" where
  "on_Created t1 t2 d s =
     bind_res (data_word d 0) (\<lambda>createdEpoch. bind_res (data_word d 1) (\<lambda>createdTime.
       Inr (SetSfcStaker (topic_id t1)
         \<lparr>ss_CreatedEpoch = ucast (big_u64 createdEpoch), ss_CreatedTime = FromUnix (big_u64 createdTime),
          ss_DeactivatedEpoch = 0, ss_DeactivatedTime = 0, ss_Address = topic_addr t2, ss_Status = 0\<rparr> s)))"

definition on_Delegated :: "bytes \<Rightarrow> bytes \<Rightarrow> bytes \<Rightarrow> sfc_store \<Rightarrow> sfc_store res" where
  "on_Delegated t1 t2 d s =
     bind_res (data_word d 0) (\<lambda>amount.
       let k = (topic_addr t1, topic_id t2);
           amount = (case sfc_Delegations s k of None \<Rightarrow> amount | Some prev \<Rightarrow> amount + prev)
       in Inr (SetSfcDelegation k amount s))"

text \<open>\<open>None\<close>: the staker is unknown and the handler returns at once.\<close>

definition on_Deactivated :: "bytes \<Rightarrow> bytes \<Rightarrow> sfc_store \<Rightarrow> sfc_store option res" where
  "on_Deactivated t1 d s =
     bind_res (data_word d 0) (\<lambda>epoch. bind_res (data_word d 1) (\<lambda>time.
       Inr (case sfc_Stakers s (topic_id t1) of None \<Rightarrow> None
            | Some st \<Rightarrow> Some (SetSfcStaker (topic_id t1)
                (st\<lparr>ss_DeactivatedEpoch := ucast (big_u64 epoch), ss_DeactivatedTime := FromUnix (big_u64 time)\<rparr>) s))))"

definition on_Status :: "bytes \<Rightarrow> bytes \<Rightarrow> sfc_store \<Rightarrow> sfc_store option res" where
  "on_Status t1 d s =
     bind_res (data_word d 0) (\<lambda>status.
       Inr (case sfc_Stakers s (topic_id t1) of None \<Rightarrow> None
            | Some st \<Rightarrow> Some (SetSfcStaker (topic_id t1) (st\<lparr>ss_Status := big_u64 status\<rparr>) s)))"

definition on_Undelegated :: "bytes \<Rightarrow> bytes \<Rightarrow> bytes \<Rightarrow> sfc_store \<Rightarrow> sfc_store option res" where
  "on_Undelegated t1 t2 d s =
     bind_res (data_word d 0) (\<lambda>amount.
       let k = (topic_addr t1, topic_id t2)
       in Inr (case sfc_Delegations s k of None \<Rightarrow> None
               | Some a \<Rightarrow> Some (if a - amount > 0 then SetSfcDelegation k (a - amount) s else DelSfcDelegation k s)))"

definition on_Rewards :: "bytes \<Rightarrow> bytes \<Rightarrow> bytes \<Rightarrow> sfc_store \<Rightarrow> sfc_store res" where
  "on_Rewards t1 t2 d s =
     bind_res (data_word d 0) (\<lambda>r0. bind_res (data_word d 1) (\<lambda>r1. bind_res (data_word d 2) (\<lambda>r2.
       let reward = r0 + r1 + r2
       in Inr (IncStakerDelegationsClaimedRewards (topic_id t2) reward
                (IncDelegationClaimedRewards (topic_addr t1, topic_id t2) reward s)))))"

text \<open>\<open>OnNewLog\<close>: six tests in a row, some with an early return; \<open>sfc_step\<close> is one of them.\<close>

definition sfc_step ::
  "bool \<Rightarrow> (sfc_store \<Rightarrow> sfc_store option res) \<Rightarrow> (sfc_store \<Rightarrow> sfc_store res) \<Rightarrow> sfc_store \<Rightarrow> sfc_store res" where
  "sfc_step c f k s = (if c then bind_res (f s) (\<lambda>r. case r of None \<Rightarrow> Inr s | Some s \<Rightarrow> k s) else k s)"

definition sfc_OnNewLog :: "driver_lib \<Rightarrow> evm_log \<Rightarrow> sfc_store \<Rightarrow> sfc_store res" where
  "sfc_OnNewLog L l s =
     (if lg_Address l \<noteq> sfc_Address then Inr s
      else case lg_Topics l of [] \<Rightarrow> Inl (Panic IndexOutOfRange)
      | t # ts \<Rightarrow>
          let d = lg_Data l; isTopic = (\<lambda>sig. t = sfc_topic L sig);
              lift = (\<lambda>f s. bind_res (f s) (\<lambda>s. Inr (Some s)))
          in sfc_step (isTopic ''CreatedValidator(uint256,address,uint256,uint256)'' \<and> length ts > 1 \<and> length d \<ge> 32)
               (lift (on_Created (ts ! 0) (ts ! 1) d))
             (sfc_step (isTopic ''Delegated(address,uint256,uint256)'' \<and> length ts > 1 \<and> length d \<ge> 32)
               (lift (on_Delegated (ts ! 0) (ts ! 1) d))
             (sfc_step (isTopic ''DeactivatedValidator(uint256,uint256,uint256)'' \<and> length ts > 0)
               (on_Deactivated (ts ! 0) d)
             (sfc_step (isTopic ''ChangedValidatorStatus(uint256,uint256)'' \<and> length ts > 0)
               (on_Status (ts ! 0) d)
             (sfc_step (isTopic ''Undelegated(address,uint256,uint256,uint256)'' \<and> length ts > 1 \<and> length d \<ge> 32)
               (on_Undelegated (ts ! 0) (ts ! 1) d)
             (sfc_step ((isTopic ''ClaimedRewards(address,uint256,uint256,uint256,uint256)''
                     \<or> isTopic ''RestakedRewards(address,uint256,uint256,uint256,uint256)'') \<and> length ts > 1 \<and> length d \<ge> 96)
               (lift (on_Rewards (ts ! 0) (ts ! 1) d)) Inr))))) s)"

section \<open>Lemmas\<close>

text \<open>A version number keeps its three parts.\<close>

lemma unat_ToU64: "unat (ToU64 a b c) = unat a * 1000000000000 + unat b * 1000000 + unat c"
proof -
  have l: "unat (a :: u16) < 65536" "unat b < 65536" "unat c < 65536"
    using unsigned_less [of a] unsigned_less [of b] unsigned_less [of c] by simp_all
  have u: "unat (ucast x :: u64) = unat (x :: u16)" for x by transfer simp
  have m: "unat (ucast a * 1000000000000 :: u64) = unat a * 1000000000000" "unat (ucast b * 1000000 :: u64) = unat b * 1000000"
    using l u [of a] u [of b] by (subst unat_mult_lem [THEN iffD1]; simp)+
  have s: "unat (ucast a * 1000000000000 + ucast b * 1000000 :: u64) = unat a * 1000000000000 + unat b * 1000000"
    using l m by (subst unat_add_small) simp_all
  then show ?thesis using l u [of c] unfolding ToU64_def by (subst unat_add_small) simp_all
qed

lemma U64_parts_ToU64: "U64_parts (ToU64 a b c) = (a, b, c)"
proof -
  have l: "unat (a :: u16) < 65536" "unat b < 65536" "unat c < 65536"
    using unsigned_less [of a] unsigned_less [of b] unsigned_less [of c] by simp_all
  let ?v = "ToU64 a b c"
  have v: "unat ?v = (unat a * 1000000 + unat b) * 1000000 + unat c" by (simp add: unat_ToU64)
  have d: "unat ?v div 1000000 = unat a * 1000000 + unat b" "unat ?v mod 1000000 = unat c"
    unfolding v using l by (simp_all only: div_mult_self3 mod_mult_self3 div_less mod_less)
  have d2: "unat ?v div 1000000000000 = unat a"
    using d(1) l div_mult2_eq [of "unat ?v" 1000000 1000000] by simp
  have p: "unat ((?v div 1000000000000) mod 1000000) = unat a" "unat ((?v div 1000000) mod 1000000) = unat b"
      "unat (?v mod 1000000) = unat c"
    using l d d2 by (simp_all add: unat_div unat_mod)
  have e: "ucast w = x" if "unat w = unat x" for w :: u64 and x :: u16
  proof -
    have "unat x < 2 ^ 16" using unsigned_less [of x] by simp
    with that show ?thesis by (simp add: word_unat_eq_iff unsigned_ucast_eq take_bit_nat_eq_self)
  qed
  show ?thesis using e [OF p(1)] e [OF p(2)] e [OF p(3)] by (simp add: U64_parts_def)
qed

text \<open>The first unsupported upgrade is remembered and never forgotten or replaced.\<close>

lemma ver_missed_first:
  assumes "ver_OnNewLog L cfg l s = Inr s'"
  shows "GetMissedVersion s \<noteq> 0 \<Longrightarrow> GetMissedVersion s' = GetMissedVersion s"
    "GetNetworkVersion s' \<noteq> GetNetworkVersion s \<Longrightarrow> GetNetworkVersion s' > AsU64 \<Longrightarrow> GetMissedVersion s' \<noteq> 0"
  using assms
  by (auto simp: ver_OnNewLog_def Let_def SetNetworkVersion_def SetMissedVersion_def GetMissedVersion_def GetNetworkVersion_def
      split: if_splits list.splits option.splits)

text \<open>Delegations and rewards are never negative.\<close>

definition sfc_amounts_ok :: "sfc_store \<Rightarrow> bool" where
  "sfc_amounts_ok s \<longleftrightarrow> (\<forall>k a. sfc_Delegations s k = Some a \<longrightarrow> 0 \<le> a) \<and>
     (\<forall>k a. sfc_DelegationOldRewards s k = Some a \<longrightarrow> 0 \<le> a) \<and>
     (\<forall>v a. sfc_StakerDelegationsOldRewards s v = Some a \<longrightarrow> 0 \<le> a)"

lemma data_word_nonneg: "data_word d i = Inr v \<Longrightarrow> 0 \<le> v"
  by (auto simp: data_word_def big_SetBytes_nonneg split: if_splits)

lemma sfc_steps_ok:
  assumes "sfc_amounts_ok s"
  shows "on_Created t1 t2 d s = Inr s' \<Longrightarrow> sfc_amounts_ok s'"
    "on_Delegated t1 t2 d s = Inr s' \<Longrightarrow> sfc_amounts_ok s'"
    "on_Deactivated t1 d s = Inr (Some s') \<Longrightarrow> sfc_amounts_ok s'"
    "on_Status t1 d s = Inr (Some s') \<Longrightarrow> sfc_amounts_ok s'"
    "on_Undelegated t1 t2 d s = Inr (Some s') \<Longrightarrow> sfc_amounts_ok s'"
    "on_Rewards t1 t2 d s = Inr s' \<Longrightarrow> sfc_amounts_ok s'"
  using assms data_word_nonneg [of d]
  by (auto simp: on_Created_def on_Delegated_def on_Deactivated_def on_Status_def on_Undelegated_def on_Rewards_def
      SetSfcStaker_def SetSfcDelegation_def DelSfcDelegation_def IncStakerDelegationsClaimedRewards_def
      SetStakerDelegationsClaimedRewards_def IncDelegationClaimedRewards_def SetDelegationClaimedRewards_def
      sfc_amounts_ok_def bind_res_Inr_iff Let_def split: option.splits if_splits)

lemma sfc_step_amounts:
  assumes "sfc_amounts_ok s" "\<And>s'. f s = Inr (Some s') \<Longrightarrow> sfc_amounts_ok s'"
    and "\<And>s. sfc_amounts_ok s \<Longrightarrow> k s = Inr r \<Longrightarrow> sfc_amounts_ok r" and "sfc_step c f k s = Inr r"
  shows "sfc_amounts_ok r"
  using assms(4) assms(1-3) by (auto simp: sfc_step_def bind_res_Inr_iff split: if_splits option.splits)

lemma sfc_OnNewLog_amounts:
  assumes "sfc_amounts_ok s" "sfc_OnNewLog L l s = Inr s'" shows "sfc_amounts_ok s'"
proof (cases "lg_Address l = sfc_Address \<and> lg_Topics l \<noteq> []")
  case True
  then obtain t ts where "lg_Topics l = t # ts" by (cases "lg_Topics l") auto
  with True assms show ?thesis
    unfolding sfc_OnNewLog_def Let_def
    by (simp, elim sfc_step_amounts [rotated 3]) (auto simp: bind_res_Inr_iff dest: sfc_steps_ok)
qed (use assms in \<open>auto simp: sfc_OnNewLog_def split: list.splits if_splits\<close>)

text \<open>The length test of a \<open>CreatedValidator\<close> log asks for one word of data, the handler reads two.\<close>

lemma sfc_created_panics:
  "length ts > 1 \<Longrightarrow> sfc_OnNewLog L \<lparr>lg_Address = sfc_Address,
     lg_Topics = sfc_topic L ''CreatedValidator(uint256,address,uint256,uint256)'' # ts, lg_Data = replicate 32 0\<rparr> s =
   Inl (Panic SliceOutOfRange)"
  by (simp add: sfc_OnNewLog_def Let_def sfc_step_def on_Created_def data_word_def)

end
