(* ===== verification/Block_Callbacks.thy ===== *)
theory Block_Callbacks
  imports State_Reader Log_Watchers "HOL-Library.Countable"
begin

text \<open>
  src/gossip/c_block_callbacks.go: what the node does with a block of the consensus. \<open>BeginBlock\<close>
  takes copies of the decided state, \<open>ApplyEvent\<close> hands confirmed events to the events module, and
  \<open>EndBlock\<close> drives sealer, driver module, EVM and store. The part that runs on another thread
  (\<open>blockFn\<close>) runs after \<open>EndBlock\<close> has returned and before the next \<open>BeginBlock\<close>, which waits for it,
  so the model runs it at the end of \<open>EndBlock\<close>.

  Not part of the model: notifications to subscribers, the index of log topics, and the flush of
  the EVM's trie, which do not feed back into block processing.
\<close>

section \<open>State and libraries\<close>

record cblock =
  cb_Atropos :: bytes
  cb_Cheaters :: "u32 list"

record 's cb_lib =
  cl_store :: "evm_log store_lib"
  cl_driver :: driver_lib
  cl_dag :: dag_lib
  cl_types :: types_lib
  cl_evm :: "rules \<Rightarrow> evm_header \<Rightarrow> ('s, evm_log) evm_lib"
  cl_txHash :: "transaction \<Rightarrow> bytes"
  cl_openDB :: "bytes \<Rightarrow> go_error + 's"
  cl_Commit :: "'s \<Rightarrow> go_error + bytes \<times> 's"
  cl_nonce :: "'s \<Rightarrow> u64"
  cl_buildVals :: "(u32 \<rightharpoonup> int) \<Rightarrow> validators"
  cl_sort :: "bytes list \<Rightarrow> bytes list"
  cl_txIndex :: bool
  cl_verConfig :: "ver_config option"

record node =
  nd_store :: "evm_log gstore"
  nd_heap :: big_heap
  nd_ver :: ver_store
  nd_sfc :: sfc_store

record 's block_proc =
  bp_cBlock :: cblock
  bp_bs :: block_state
  bp_es :: epoch_state
  bp_db :: 's
  bp_events :: events_processor
  bp_atroposTime :: u64
  bp_degenerate :: bool
  bp_confirmed :: "bytes list"

section \<open>BeginBlock and ApplyEvent\<close>

definition BeginBlock :: "'s cb_lib \<Rightarrow> cblock \<Rightarrow> node \<Rightarrow> ('s block_proc \<times> node) res" where
  "BeginBlock C cBlock nd =
     bind_res (getBlockEpochState (cl_store C) (nd_store nd)) (\<lambda>((bs, es), s).
       let bs = bs_Copy bs;
           bs = bs\<lparr>bs_EpochCheaters := mergeCheaters (bs_EpochCheaters bs) (cb_Cheaters cBlock)\<rparr>
       in case cl_openDB C (bs_FinalizedStateRoot bs) of
            Inl e \<Rightarrow> crit ''Failed to open StateDB''
          | Inr db \<Rightarrow> Inr (\<lparr>bp_cBlock = cBlock, bp_bs = bs, bp_es = es, bp_db = db, bp_events = events_Start bs es,
                bp_atroposTime = bc_Time (bs_LastBlock bs) + 1, bp_degenerate = True, bp_confirmed = []\<rparr>,
              nd\<lparr>nd_store := s\<rparr>))"

definition ApplyEvent :: "'s cb_lib \<Rightarrow> event_payload \<Rightarrow> 's block_proc \<Rightarrow> 's block_proc res" where
  "ApplyEvent C e p =
     (let p = (if cb_Atropos (bp_cBlock p) = ep_ID e
               then p\<lparr>bp_atroposTime := ev_medianTime e, bp_degenerate := False\<rparr> else p);
          p = (if \<not> NoTxs (cl_dag C) e then p\<lparr>bp_confirmed := bp_confirmed p @ [ep_ID e]\<rparr> else p)
      in bind_res (ProcessConfirmedEvent e (bp_events p)) (\<lambda>ep. Inr (p\<lparr>bp_events := ep\<rparr>)))"

section \<open>Pieces of EndBlock\<close>

type_synonym listeners = "tx_listener \<times> ver_store \<times> sfc_store"

text \<open>The log callback. A panic of a listener is kept and ends the call it happens in.\<close>

definition listen :: "driver_lib \<Rightarrow> ver_config option \<Rightarrow> evm_log \<Rightarrow> listeners \<Rightarrow> listeners res" where
  "listen DL cfg l c =
     (let (lsn, vs, sf) = c
      in bind_res (OnNewLog DL l lsn) (\<lambda>lsn.
           bind_res (case cfg of None \<Rightarrow> Inr vs | Some cfg \<Rightarrow> ver_OnNewLog DL cfg l vs) (\<lambda>vs.
             bind_res (sfc_OnNewLog DL l sf) (\<lambda>sf. Inr (lsn, vs, sf)))))"

definition onNewLogAll :: "'s cb_lib \<Rightarrow> ('s, evm_log, listeners res) log_fn" where
  "onNewLogAll C l sc = (let (db, c) = sc in (db, bind_res c (listen (cl_driver C) (cl_verConfig C) l)))"

definition execute ::
  "'s cb_lib \<Rightarrow> transaction list \<Rightarrow> bool \<Rightarrow> ('s, evm_log) evm_processor \<times> listeners \<Rightarrow>
     (evm_log receipt list \<times> ('s, evm_log) evm_processor \<times> listeners) res" where
  "execute C txs internal pc =
     bind_res (Execute (cl_evm C) (cl_types C) (onNewLogAll C) txs internal (fst pc, Inr (snd pc))) (\<lambda>(rcs, p, c).
       bind_res c (\<lambda>c. Inr (rcs, p, c)))"

text \<open>Spilling, with the events read from the store.\<close>

fun spill_ids ::
  "'l store_lib \<Rightarrow> (bytes \<Rightarrow> bytes set) \<Rightarrow> u64 \<Rightarrow> bytes list \<Rightarrow> u64 \<Rightarrow> event_payload list \<Rightarrow> 'l gstore \<Rightarrow>
     (event_payload list \<times> 'l gstore) res" where
  "spill_ids L ev maxGas [] acc full s = Inr (full, s)"
| "spill_ids L ev maxGas (i # rest) acc full s =
     bind_res (GetEventPayload L (ev i) i s) (\<lambda>(e, s). case e of None \<Rightarrow> crit ''Block event not found''
       | Some e \<Rightarrow> (let acc = acc + ev_gasPowerUsed e
                    in if acc > maxGas then Inr (full, s) else spill_ids L ev maxGas rest acc (e # full) s))"

record ext_position = tx_position +
  xp_EventCreator :: u32

definition zero_position :: ext_position where
  "zero_position = \<lparr>tp_Block = 0, tp_Event = zero_hash, tp_EventOffset = 0, tp_BlockOffset = 0, xp_EventCreator = 0\<rparr>"

text \<open>Event positions: a transaction that several events have belongs to the first.\<close>

fun event_positions ::
  "(transaction \<Rightarrow> bytes) \<Rightarrow> event_payload \<Rightarrow> nat \<Rightarrow> transaction list \<Rightarrow> (bytes \<rightharpoonup> ext_position) \<Rightarrow> (bytes \<rightharpoonup> ext_position)" where
  "event_positions H e i [] m = m"
| "event_positions H e i (tx # txs) m =
     event_positions H e (i + 1) txs
       (if m (H tx) \<noteq> None then m
        else m(H tx \<mapsto> zero_position\<lparr>tp_Event := ep_ID e, tp_EventOffset := word_of_nat i, xp_EventCreator := ev_Creator e\<rparr>))"

definition memorize_events :: "(transaction \<Rightarrow> bytes) \<Rightarrow> event_payload list \<Rightarrow> bytes \<rightharpoonup> ext_position" where
  "memorize_events H es = fold (\<lambda>e m. event_positions H e 0 (ev_txs e) m) es Map.empty"

fun block_positions ::
  "(transaction \<Rightarrow> bytes) \<Rightarrow> u64 \<Rightarrow> nat \<Rightarrow> transaction list \<Rightarrow> (bytes \<rightharpoonup> ext_position) \<Rightarrow> (bytes \<rightharpoonup> ext_position)" where
  "block_positions H n i [] m = m"
| "block_positions H n i (tx # txs) m =
     block_positions H n (i + 1) txs
       (m(H tx \<mapsto> (case m (H tx) of None \<Rightarrow> zero_position | Some p \<Rightarrow> p)\<lparr>tp_Block := n, tp_BlockOffset := word_of_nat i\<rparr>))"

definition originator :: "(bytes \<rightharpoonup> ext_position) \<Rightarrow> validators \<Rightarrow> bytes \<Rightarrow> u32" where
  "originator pos vs h =
     (let creator = (case pos h of None \<Rightarrow> 0 | Some p \<Rightarrow> xp_EventCreator p)
      in if creator \<noteq> 0 \<and> v_Get vs creator = 0 then 0 else creator)"

fun receipts_loop ::
  "(bytes \<rightharpoonup> ext_position) \<Rightarrow> validators \<Rightarrow> transaction list \<Rightarrow> evm_log receipt list \<Rightarrow> tx_listener \<times> big_heap \<Rightarrow>
     (tx_listener \<times> big_heap) res" where
  "receipts_loop pos vs txs [] ph = Inr ph"
| "receipts_loop pos vs [] (r # rs) ph = Inl (Panic IndexOutOfRange)"
| "receipts_loop pos vs (tx # txs) (r # rs) ph =
     bind_res (OnNewReceipt tx (rc_GasUsed r) (originator pos vs (rc_TxHash r)) ph) (receipts_loop pos vs txs rs)"

definition index_txs ::
  "'l store_lib \<Rightarrow> (transaction \<Rightarrow> bytes) \<Rightarrow> (bytes \<Rightarrow> bytes set) \<Rightarrow> (bytes \<rightharpoonup> ext_position) \<Rightarrow> transaction list \<Rightarrow>
     'l gstore \<Rightarrow> 'l gstore" where
  "index_txs L H ev pos txs s =
     fold (\<lambda>tx. SetTxPosition L (ev (H tx)) (H tx)
       (tx_position.truncate (case pos (H tx) of None \<Rightarrow> zero_position | Some p \<Rightarrow> p))) txs s"

definition store_txs :: "'l store_lib \<Rightarrow> (transaction \<Rightarrow> bytes) \<Rightarrow> transaction list \<Rightarrow> 'l gstore \<Rightarrow> 'l gstore" where
  "store_txs L H txs s = fold (\<lambda>tx. SetTx L (H tx) tx) txs s"

section \<open>EndBlock\<close>

text \<open>
  \<open>blockFn\<close>: transactions after sealing, events of the block, their transactions, positions,
  receipts, and everything that is stored. \<open>evb\<close> and \<open>eve\<close> are what the caches evict.
\<close>

definition block_fn ::
  "'s cb_lib \<Rightarrow> (u64 \<Rightarrow> u64 set) \<Rightarrow> (bytes \<Rightarrow> bytes set) \<Rightarrow> block_ctx \<Rightarrow> bytes list \<Rightarrow> transaction list \<Rightarrow> bool \<Rightarrow>
     epoch_state \<Rightarrow> ('s, evm_log) evm_processor \<Rightarrow> listeners \<Rightarrow> node \<Rightarrow> node res" where
  "block_fn C evb eve blk confirmed preInternalTxs sealing es ep lis nd =
     (let L = cl_store C; H = cl_txHash C;
          internalTxs = post_PopInternalTxs (cl_driver C) (cl_nonce C (ep_statedb ep)) es sealing
      in bind_res (execute C internalTxs True (ep, lis)) (\<lambda>(_, ep, lis).
         let events = cl_sort C confirmed
         in bind_res (spill_ids L eve (MaxBlockGas (ru_Blocks (es_Rules es))) (rev events) 0 [] (nd_store nd)) (\<lambda>(blockEvents, s).
         bind_res (execute C (concat (map ev_txs blockEvents)) False (ep, lis)) (\<lambda>(_, ep, (lsn, ver, sfc)).
         bind_res (evm_Finalize (cl_types C) (cl_Commit C) ep) (\<lambda>((evmBlock, skippedTxs, allReceipts), ep).
         let block = \<lparr>blk_Time = bc_Time blk, blk_Atropos = bc_Atropos blk,
               blk_Events = drop (length events - length blockEvents) events, blk_Txs = [],
               blk_InternalTxs = map H (preInternalTxs @ internalTxs), blk_SkippedTxs = skippedTxs,
               blk_GasUsed = eh_GasUsed (eb_Header evmBlock), blk_Root = eh_Root (eb_Header evmBlock)\<rparr>;
             pos = block_positions H (bc_Idx blk) 0 (eb_Transactions evmBlock) (memorize_events H blockEvents)
         in bind_res (receipts_loop pos (es_Validators es) (eb_Transactions evmBlock) allReceipts (lsn, nd_heap nd)) (\<lambda>(lsn, heap).
         let bs = (listener_Finalize lsn)\<lparr>bs_FinalizedStateRoot := blk_Root block\<rparr>;
             s = (if cl_txIndex C
                  then let s = index_txs L H eve pos (eb_Transactions evmBlock) s
                       in if length allReceipts \<noteq> 0 then SetReceipts L (evb (bc_Idx blk)) (bc_Idx blk) allReceipts s else s
                  else s);
             s = store_txs L H (preInternalTxs @ internalTxs) s;
             s = SetBlockIndex L (eve (bc_Atropos blk)) (blk_Atropos block) (bc_Idx blk) (SetBlock L (evb (bc_Idx blk)) (bc_Idx blk) block s);
             s = SetBlockEpochState (bs\<lparr>bs_LastBlock := blk\<rparr>) es s
         in bind_res (SetCachedEvmBlock (evb (bc_Idx blk)) (bc_Idx blk) evmBlock s) (\<lambda>s.
              Inr (nd\<lparr>nd_store := s, nd_heap := heap, nd_ver := ver, nd_sfc := sfc\<rparr>))))))))"

definition block_ctx_of :: "'s block_proc \<Rightarrow> block_ctx" where
  "block_ctx_of p =
     (let last = bs_LastBlock (bp_bs p);
          atroposTime = (if bp_atroposTime p \<le> bc_Time last then bc_Time last + 1 else bp_atroposTime p)
      in \<lparr>bc_Idx = bc_Idx last + 1, bc_Time = atroposTime, bc_Atropos = cb_Atropos (bp_cBlock p)\<rparr>)"

definition skip_block :: "'s block_proc \<Rightarrow> bool" where
  "skip_block p \<longleftrightarrow> bp_degenerate p \<or>
     (length (bp_confirmed p) = 0 \<and> length (cb_Cheaters (bp_cBlock p)) = 0 \<and>
      bc_Time (block_ctx_of p) < bc_Time (bs_LastBlock (bp_bs p)) + MaxEmptyBlockSkipPeriod (ru_Blocks (es_Rules (bp_es p))))"

text \<open>Sealing: the new state is stored at once and the listener goes on with it.\<close>

definition seal_step ::
  "'s cb_lib \<Rightarrow> sealer \<Rightarrow> block_state \<Rightarrow> epoch_state \<Rightarrow> tx_listener \<Rightarrow> node \<Rightarrow> (epoch_state \<times> tx_listener \<times> node) res" where
  "seal_step C sl bs es lsn nd =
     bind_res (SealEpoch (cl_buildVals C) (sealer_Update bs es sl) (nd_heap nd)) (\<lambda>((bs, es), heap).
       Inr (es, listener_Update bs es lsn, nd\<lparr>nd_heap := heap, nd_store := SetBlockEpochState bs es (nd_store nd)\<rparr>))"

definition EndBlock ::
  "'s cb_lib \<Rightarrow> (u64 \<Rightarrow> u64 set) \<Rightarrow> (bytes \<Rightarrow> bytes set) \<Rightarrow> 's block_proc \<Rightarrow> node \<Rightarrow> (validators option \<times> node) res" where
  "EndBlock C evb eve p nd =
     (let es = bp_es p; blk = block_ctx_of p; skipBlock = skip_block p
      in bind_res (events_Finalize blk (bp_events p)) (\<lambda>bs.
         if skipBlock then Inr (None, nd\<lparr>nd_store := SetBlockEpochState bs es (nd_store nd)\<rparr>)
         else
           let sl = sealer_Start blk bs es; sealing = EpochSealing sl; lsn = listener_Start blk bs es
           in bind_res (if bc_Idx blk \<noteq> 0
                        then reader_GetHeader (cl_store C) (cl_types C) evb zero_hash (bc_Idx blk - 1) (nd_store nd)
                        else Inr (None, nd_store nd)) (\<lambda>(prev, s).
              bind_res (evm_Start (\<lambda>_ _. prev) blk (bp_db p) (es_Rules es)) (\<lambda>ep.
              bind_res (pre_PopInternalTxs (cl_driver C) (cl_nonce C (bp_db p)) blk bs es sealing (nd_heap nd)) (\<lambda>(preInternalTxs, vss).
              let lsn = lsn\<lparr>tl_bs := (tl_bs lsn)\<lparr>bs_ValidatorStates := vss\<rparr>\<rparr>
              in bind_res (execute C preInternalTxs True (ep, (lsn, nd_ver nd, nd_sfc nd))) (\<lambda>(_, ep, (lsn, ver, sfc)).
              let bs = listener_Finalize lsn; nd = nd\<lparr>nd_store := s\<rparr>
              in bind_res (if sealing then seal_step C sl bs es lsn nd else Inr (es, lsn, nd)) (\<lambda>(es, lsn, nd).
              bind_res (block_fn C evb eve blk (bp_confirmed p) preInternalTxs sealing es ep (lsn, ver, sfc) nd) (\<lambda>nd.
                Inr (if sealing then Some (es_Validators es) else None, nd)))))))))"

section \<open>What the steps leave alone\<close>

lemma Execute_incoming:
  assumes "Execute E T onNewLog txs internal (p, c) = Inr (rcs, p', c')"
  shows "ep_incomingTxs p' = ep_incomingTxs p @ txs \<and> ep_block p' = ep_block p \<and> ep_blockIdx p' = ep_blockIdx p \<and>
    ep_prevBlockHash p' = ep_prevBlockHash p"
  using assms by (auto simp: Execute_def Let_def split: prod.splits sum.splits failure.splits)

lemma execute_incoming:
  assumes "execute C txs internal (p, c) = Inr (rcs, p', c')"
  shows "ep_incomingTxs p' = ep_incomingTxs p @ txs \<and> ep_block p' = ep_block p \<and> ep_blockIdx p' = ep_blockIdx p \<and>
    ep_prevBlockHash p' = ep_prevBlockHash p"
  using assms Execute_incoming [of "cl_evm C" "cl_types C" "onNewLogAll C" txs internal p "Inr c"]
  by (auto simp: execute_def bind_res_Inr_iff)

lemma spill_ids_plain:
  assumes "store_ok L W s" "spill_ids L ev g (rev ids) acc full s = Inr (r, s')"
  shows "store_ok L W s' \<and> plain L s' = plain L s \<and> c_EvmBlocks s' = c_EvmBlocks s \<and>
    (\<exists>pre suf. ids = pre @ suf \<and> r = map (\<lambda>i. the (a_Events (plain L s) i)) suf @ full \<and>
      (\<forall>i \<in> set suf. a_Events (plain L s) i \<noteq> None))"
  using assms
proof (induction ids arbitrary: s acc full rule: rev_induct)
  case (snoc i ids)
  obtain s1 where s1: "GetEventPayload L (ev i) i s = Inr (a_Events (plain L s) i, s1)" "store_ok L W s1"
      "plain L s1 = plain L s" "c_EvmBlocks s1 = c_EvmBlocks s"
    using GetEventPayload_ok [OF snoc.prems(1), of "ev i" i] GetEventPayload_evm by blast
  obtain e where e: "a_Events (plain L s) i = Some e"
    using snoc.prems(2) s1(1) by (auto simp: crit_def split: option.splits)
  show ?case
  proof (cases "acc + ev_gasPowerUsed e > g")
    case True
    then show ?thesis using snoc.prems(2) s1 e by (auto intro!: exI [of _ "ids @ [i]"])
  next
    case False
    then have rest: "spill_ids L ev g (rev ids) (acc + ev_gasPowerUsed e) (e # full) s1 = Inr (r, s')"
      using snoc.prems(2) s1 e by (simp add: Let_def)
    obtain pre suf where "store_ok L W s'" "plain L s' = plain L s" "c_EvmBlocks s' = c_EvmBlocks s" "ids = pre @ suf"
        "r = map (\<lambda>i. the (a_Events (plain L s) i)) suf @ e # full" "\<forall>i \<in> set suf. a_Events (plain L s) i \<noteq> None"
      using snoc.IH [OF s1(2) rest] s1(3,4) by auto
    then show ?thesis using e by (intro conjI exI [of _ pre] exI [of _ "suf @ [i]"]) auto
  qed
qed simp

lemma index_txs_ok:
  "store_ok L W s \<Longrightarrow> \<forall>p. wf_pos W p \<Longrightarrow>
   store_ok L W (index_txs L H ev pos txs s) \<and>
   a_Blocks (plain L (index_txs L H ev pos txs s)) = a_Blocks (plain L s) \<and>
   a_Index (plain L (index_txs L H ev pos txs s)) = a_Index (plain L s) \<and>
   a_Events (plain L (index_txs L H ev pos txs s)) = a_Events (plain L s) \<and>
   a_Txs (plain L (index_txs L H ev pos txs s)) = a_Txs (plain L s)"
  unfolding index_txs_def
proof (induction txs arbitrary: s)
  case (Cons tx txs)
  have "store_ok L W (SetTxPosition L e i p s)" "plain L (SetTxPosition L e i p s) =
      (plain L s)\<lparr>a_Positions := (a_Positions (plain L s))(i \<mapsto> p)\<rparr>" for e i p
    using store_ok_sets(6) [OF Cons.prems(1)] plain_SetTxPosition [OF store_okD [OF Cons.prems(1)]] Cons.prems(2) by auto
  then show ?case using Cons.IH Cons.prems(2) by simp
qed simp

lemma store_txs_ok:
  "store_ok L W s \<Longrightarrow> \<forall>tx. wf_tx W tx \<Longrightarrow> inj H \<Longrightarrow>
   store_ok L W (store_txs L H txs s) \<and>
   a_Blocks (plain L (store_txs L H txs s)) = a_Blocks (plain L s) \<and>
   a_Index (plain L (store_txs L H txs s)) = a_Index (plain L s) \<and>
   a_Events (plain L (store_txs L H txs s)) = a_Events (plain L s) \<and>
   (\<forall>tx. a_Txs (plain L (store_txs L H txs s)) (H tx) = (if tx \<in> set txs then Some tx else a_Txs (plain L s) (H tx)))"
  unfolding store_txs_def
proof (induction txs arbitrary: s)
  case (Cons tx txs)
  have "store_ok L W (SetTx L i t s)" "plain L (SetTx L i t s) = (plain L s)\<lparr>a_Txs := (a_Txs (plain L s))(i \<mapsto> t)\<rparr>" for i t
    using store_ok_sets(5) [OF Cons.prems(1)] plain_SetTx [OF store_okD [OF Cons.prems(1)]] Cons.prems(2) by auto
  then show ?case using Cons.IH [of "SetTx L (H tx) tx s"] Cons.prems(2,3) by (auto simp: inj_eq)
qed simp

text \<open>Receipts and the cached states have no part in what the maps hold.\<close>

lemma plain_frames [simp]:
  "plain L (SetReceipts L' ev n rs s) = plain L s" "plain L (SetBlockEpochState bs es s) = plain L s"
  by (simp_all add: plain_def SetReceipts_def SetRawReceipts_def SetBlockEpochState_def)

lemma store_ok_frames [simp]:
  "store_ok L W (SetReceipts L' ev n rs s) = store_ok L W s" "store_ok L W (SetBlockEpochState bs es s) = store_ok L W s"
proof -
  have "plain L (SetReceipts L' ev n rs s) = plain L s" "plain L (SetBlockEpochState bs es s) = plain L s" by simp_all
  then show "store_ok L W (SetReceipts L' ev n rs s) = store_ok L W s"
      "store_ok L W (SetBlockEpochState bs es s) = store_ok L W s"
    by (simp_all add: store_ok_def SetReceipts_def SetRawReceipts_def SetBlockEpochState_def)
qed

lemma SetCachedEvmBlock_ok:
  assumes "SetCachedEvmBlock ev n b s = Inr s'"
  shows "plain L s' = plain L s \<and> store_ok L W s' = store_ok L W s \<and> c_BlockEpochState s' = c_BlockEpochState s \<and>
    eh_TxHash (eb_Header b) \<noteq> zero_hash \<and> c_EvmBlocks s' = lru_Add ev n b (c_EvmBlocks s)"
proof -
  have s': "s' = s\<lparr>c_EvmBlocks := lru_Add ev n b (c_EvmBlocks s)\<rparr>" "eh_TxHash (eb_Header b) \<noteq> zero_hash"
    using assms by (auto simp: SetCachedEvmBlock_def split: if_splits)
  moreover have "plain L s' = plain L s" unfolding s' by (simp add: plain_def)
  ultimately show ?thesis by (simp add: store_ok_def)
qed

section \<open>The block that is stored and the block that was executed\<close>

text \<open>Everything a run of \<open>blockFn\<close> goes through, for the proofs.\<close>

lemma block_fn_cases:
  assumes "block_fn C evb eve blk confirmed preTxs sealing es ep lis nd = Inr nd'"
  obtains internalTxs r1 ep1 lis1 blockEvents s1 r2 ep2 lsn ver sfc evmBlock skipped rcs ep3 lsn2 heap s2 s3 where
    "internalTxs = post_PopInternalTxs (cl_driver C) (cl_nonce C (ep_statedb ep)) es sealing"
    "execute C internalTxs True (ep, lis) = Inr (r1, ep1, lis1)"
    "spill_ids (cl_store C) eve (MaxBlockGas (ru_Blocks (es_Rules es))) (rev (cl_sort C confirmed)) 0 [] (nd_store nd) =
       Inr (blockEvents, s1)"
    "execute C (concat (map ev_txs blockEvents)) False (ep1, lis1) = Inr (r2, ep2, lsn, ver, sfc)"
    "evm_Finalize (cl_types C) (cl_Commit C) ep2 = Inr ((evmBlock, skipped, rcs), ep3)"
    "receipts_loop (block_positions (cl_txHash C) (bc_Idx blk) 0 (eb_Transactions evmBlock)
        (memorize_events (cl_txHash C) blockEvents)) (es_Validators es) (eb_Transactions evmBlock) rcs (lsn, nd_heap nd) =
      Inr (lsn2, heap)"
    "s2 = store_txs (cl_store C) (cl_txHash C) (preTxs @ internalTxs)
      (if cl_txIndex C
       then let s = index_txs (cl_store C) (cl_txHash C) eve (block_positions (cl_txHash C) (bc_Idx blk) 0 (eb_Transactions evmBlock)
                (memorize_events (cl_txHash C) blockEvents)) (eb_Transactions evmBlock) s1
            in if length rcs \<noteq> 0 then SetReceipts (cl_store C) (evb (bc_Idx blk)) (bc_Idx blk) rcs s else s
       else s1)"
    "SetCachedEvmBlock (evb (bc_Idx blk)) (bc_Idx blk) evmBlock
      (SetBlockEpochState ((listener_Finalize lsn2)\<lparr>bs_FinalizedStateRoot := eh_Root (eb_Header evmBlock), bs_LastBlock := blk\<rparr>) es
        (SetBlockIndex (cl_store C) (eve (bc_Atropos blk)) (bc_Atropos blk) (bc_Idx blk)
          (SetBlock (cl_store C) (evb (bc_Idx blk)) (bc_Idx blk)
            \<lparr>blk_Time = bc_Time blk, blk_Atropos = bc_Atropos blk,
             blk_Events = drop (length (cl_sort C confirmed) - length blockEvents) (cl_sort C confirmed), blk_Txs = [],
             blk_InternalTxs = map (cl_txHash C) (preTxs @ internalTxs), blk_SkippedTxs = skipped,
             blk_GasUsed = eh_GasUsed (eb_Header evmBlock), blk_Root = eh_Root (eb_Header evmBlock)\<rparr> s2))) = Inr s3"
    "nd' = nd\<lparr>nd_store := s3, nd_heap := heap, nd_ver := ver, nd_sfc := sfc\<rparr>"
  using assms unfolding block_fn_def Let_def
  by (clarsimp simp only: bind_res_Inr_iff split_paired_Ex prod.case block.simps sum.inject)

text \<open>All blocks, positions and transactions have a byte form.\<close>

definition wf_full :: "wf_values \<Rightarrow> bool" where
  "wf_full W \<longleftrightarrow> (\<forall>b. wf_block W b) \<and> (\<forall>p. wf_pos W p) \<and> (\<forall>tx. wf_tx W tx)"

lemma evm_Finalize_block:
  assumes "evm_Finalize T Cm p = Inr ((b, skipped, rcs), q)"
  obtains root where "skipped = ep_skippedTxs p" "rcs = ep_receipts p"
    "b = (evmBlockWith T (FilterSkippedTxs (ep_incomingTxs p) skipped) p)
       \<lparr>eb_Header := (eb_Header (evmBlockWith T (FilterSkippedTxs (ep_incomingTxs p) skipped) p))\<lparr>eh_Root := root\<rparr>\<rparr>"
  using assms by (auto simp: evm_Finalize_def Let_def split: sum.splits)

lemma rebuilt_header:
  assumes "evm_Finalize T Cm p = Inr ((b, skipped, rcs), q)" "unat (bc_Idx (ep_block p)) < 2 ^ 63"
    and "ep_blockIdx p = uint (bc_Idx (ep_block p))" "blk_Time x = bc_Time (ep_block p)" "blk_Atropos x = bc_Atropos (ep_block p)"
    and "blk_Root x = eh_Root (eb_Header b)" "blk_GasUsed x = eh_GasUsed (eb_Header b)"
  shows "eb_Transactions b = FilterSkippedTxs (ep_incomingTxs p) skipped \<and>
    NewEvmBlock T (ToEvmHeader x (bc_Idx (ep_block p)) (ep_prevBlockHash p)) (eb_Transactions b) = b"
proof -
  have n: "sint (bc_Idx (ep_block p)) = uint (bc_Idx (ep_block p))" using sint_small [OF assms(2)] by simp
  let ?txs = "FilterSkippedTxs (ep_incomingTxs p) skipped"
  obtain root where b: "b = (evmBlockWith T ?txs p)\<lparr>eb_Header := (eb_Header (evmBlockWith T ?txs p))\<lparr>eh_Root := root\<rparr>\<rparr>"
    by (rule evm_Finalize_block [OF assms(1)])
  have "eb_Transactions b = ?txs" "eh_GasUsed (eb_Header b) = ep_gasUsed p" "eh_Root (eb_Header b) = root"
    unfolding b by (simp_all add: evmBlockWith_def)
  with b show ?thesis
    by (simp add: ToEvmHeader_def evmBlockWith_def NewEvmBlock_def n assms)
qed

lemma store_and_index:
  assumes "store_ok L W s" "wf_full W"
  shows "store_ok L W (SetBlockIndex L e2 i n (SetBlock L e1 n b s))"
    "plain L (SetBlockIndex L e2 i n (SetBlock L e1 n b s)) =
       (plain L s)\<lparr>a_Blocks := (a_Blocks (plain L s))(n \<mapsto> b), a_Index := (a_Index (plain L s))(i \<mapsto> n)\<rparr>"
proof -
  have b: "store_ok L W (SetBlock L e1 n b s)" using store_ok_sets(1) [OF assms(1)] assms(2) by (simp add: wf_full_def)
  show "store_ok L W (SetBlockIndex L e2 i n (SetBlock L e1 n b s))" by (rule store_ok_sets(2) [OF b])
  show "plain L (SetBlockIndex L e2 i n (SetBlock L e1 n b s)) =
      (plain L s)\<lparr>a_Blocks := (a_Blocks (plain L s))(n \<mapsto> b), a_Index := (a_Index (plain L s))(i \<mapsto> n)\<rparr>"
    using plain_SetBlock [OF store_okD [OF assms(1)], of b] plain_SetBlockIndex [OF store_okD [OF assms(1)]] assms(2)
    by (simp add: wf_full_def)
qed

lemma txs_EvmBlocks [simp]:
  "c_EvmBlocks (index_txs L H ev pos txs s) = c_EvmBlocks s" "c_EvmBlocks (store_txs L H txs s) = c_EvmBlocks s"
  unfolding index_txs_def store_txs_def
  by (induction txs arbitrary: s) (simp_all add: SetTxPosition_def SetTx_def)

text \<open>The store after the indexing and storing of transactions holds the same blocks and events.\<close>

lemma stored_txs_ok:
  assumes "store_ok L W s" "wf_full W" "inj H"
    and s2: "s2 = store_txs L H txs (if c then let s = index_txs L H ev pos ts s in if d then SetReceipts L e n rcs s else s else s)"
  shows "store_ok L W s2" "a_Blocks (plain L s2) = a_Blocks (plain L s)" "a_Index (plain L s2) = a_Index (plain L s)"
    "a_Events (plain L s2) = a_Events (plain L s)" "\<forall>tx \<in> set txs. a_Txs (plain L s2) (H tx) = Some tx"
    "c_EvmBlocks s2 = c_EvmBlocks s"
proof -
  let ?s1 = "if c then let s = index_txs L H ev pos ts s in if d then SetReceipts L e n rcs s else s else s"
  have wf: "\<forall>p. wf_pos W p" "\<forall>tx. wf_tx W tx" using assms(2) by (simp_all add: wf_full_def)
  have s1: "store_ok L W ?s1" "a_Blocks (plain L ?s1) = a_Blocks (plain L s)" "a_Index (plain L ?s1) = a_Index (plain L s)"
      "a_Events (plain L ?s1) = a_Events (plain L s)"
    using index_txs_ok [OF assms(1) wf(1), of H ev pos ts] assms(1) by (auto simp: Let_def)
  note st = store_txs_ok [OF s1(1) wf(2) assms(3), of txs]
  show "store_ok L W s2" "a_Blocks (plain L s2) = a_Blocks (plain L s)" "a_Index (plain L s2) = a_Index (plain L s)"
    "a_Events (plain L s2) = a_Events (plain L s)" "\<forall>tx \<in> set txs. a_Txs (plain L s2) (H tx) = Some tx"
    using st s1 unfolding s2 by auto
  show "c_EvmBlocks s2 = c_EvmBlocks s"
    unfolding s2 by (simp add: Let_def SetReceipts_def SetRawReceipts_def)
qed

lemma block_fn_stores:
  assumes run: "block_fn C evb eve blk confirmed preTxs sealing es ep lis nd = Inr nd'"
    and ok: "store_ok (cl_store C) W (nd_store nd)" "wf_full W" "inj (cl_txHash C)"
    and ep: "ep_incomingTxs ep = preTxs" "ep_block ep = blk" "ep_blockIdx ep = uint (bc_Idx blk)"
    and n: "unat (bc_Idx blk) < 2 ^ 63"
  defines "L \<equiv> cl_store C" and "s \<equiv> nd_store nd" and "s' \<equiv> nd_store nd'"
  shows "\<exists>b evmBlock bs. c_BlockEpochState s' = Some (bs, es) \<and> bs_LastBlock bs = blk \<and> store_ok L W s' \<and>
    a_Blocks (plain L s') = (a_Blocks (plain L s))(bc_Idx blk \<mapsto> b) \<and>
    a_Index (plain L s') = (a_Index (plain L s))(bc_Atropos blk \<mapsto> bc_Idx blk) \<and> a_Events (plain L s') = a_Events (plain L s) \<and>
    blk_Time b = bc_Time blk \<and> blk_Atropos b = bc_Atropos blk \<and> complete_block (plain L s') b \<and>
    c_EvmBlocks s' = lru_Add (evb (bc_Idx blk)) (bc_Idx blk) evmBlock (c_EvmBlocks s) \<and>
    eh_TxHash (eb_Header evmBlock) \<noteq> zero_hash \<and> eh_Root (eb_Header evmBlock) = bs_FinalizedStateRoot bs \<and>
    NewEvmBlock (cl_types C) (ToEvmHeader b (bc_Idx blk) (ep_prevBlockHash ep)) (plain_txs (plain L s') b) = evmBlock"
proof -
  let ?H = "cl_txHash C"
  obtain internalTxs r1 ep1 lis1 blockEvents s1 r2 ep2 lsn ver sfc evmBlock skipped rcs ep3 lsn2 heap s2 s3 where
    e1: "execute C internalTxs True (ep, lis) = Inr (r1, ep1, lis1)" and
    sp: "spill_ids L eve (MaxBlockGas (ru_Blocks (es_Rules es))) (rev (cl_sort C confirmed)) 0 [] s = Inr (blockEvents, s1)" and
    e2: "execute C (concat (map ev_txs blockEvents)) False (ep1, lis1) = Inr (r2, ep2, lsn, ver, sfc)" and
    fin: "evm_Finalize (cl_types C) (cl_Commit C) ep2 = Inr ((evmBlock, skipped, rcs), ep3)" and
    s2: "s2 = store_txs L ?H (preTxs @ internalTxs)
      (if cl_txIndex C
       then let s = index_txs L ?H eve (block_positions ?H (bc_Idx blk) 0 (eb_Transactions evmBlock)
                (memorize_events ?H blockEvents)) (eb_Transactions evmBlock) s1
            in if length rcs \<noteq> 0 then SetReceipts L (evb (bc_Idx blk)) (bc_Idx blk) rcs s else s
       else s1)" and
    s3: "SetCachedEvmBlock (evb (bc_Idx blk)) (bc_Idx blk) evmBlock
      (SetBlockEpochState ((listener_Finalize lsn2)\<lparr>bs_FinalizedStateRoot := eh_Root (eb_Header evmBlock), bs_LastBlock := blk\<rparr>) es
        (SetBlockIndex L (eve (bc_Atropos blk)) (bc_Atropos blk) (bc_Idx blk)
          (SetBlock L (evb (bc_Idx blk)) (bc_Idx blk)
            \<lparr>blk_Time = bc_Time blk, blk_Atropos = bc_Atropos blk,
             blk_Events = drop (length (cl_sort C confirmed) - length blockEvents) (cl_sort C confirmed), blk_Txs = [],
             blk_InternalTxs = map ?H (preTxs @ internalTxs), blk_SkippedTxs = skipped,
             blk_GasUsed = eh_GasUsed (eb_Header evmBlock), blk_Root = eh_Root (eb_Header evmBlock)\<rparr> s2))) = Inr s3" and
    nd': "nd' = nd\<lparr>nd_store := s3, nd_heap := heap, nd_ver := ver, nd_sfc := sfc\<rparr>"
    using block_fn_cases [OF run] unfolding L_def s_def by metis
  define b where "b = \<lparr>blk_Time = bc_Time blk, blk_Atropos = bc_Atropos blk,
             blk_Events = drop (length (cl_sort C confirmed) - length blockEvents) (cl_sort C confirmed), blk_Txs = [],
             blk_InternalTxs = map ?H (preTxs @ internalTxs), blk_SkippedTxs = skipped,
             blk_GasUsed = eh_GasUsed (eb_Header evmBlock), blk_Root = eh_Root (eb_Header evmBlock)\<rparr>"
  define bs where "bs = (listener_Finalize lsn2)\<lparr>bs_FinalizedStateRoot := eh_Root (eb_Header evmBlock), bs_LastBlock := blk\<rparr>"
  obtain pre suf where sp2: "store_ok L W s1" "plain L s1 = plain L s" "c_EvmBlocks s1 = c_EvmBlocks s" "cl_sort C confirmed = pre @ suf"
      "blockEvents = map (\<lambda>i. the (a_Events (plain L s) i)) suf" "\<forall>i \<in> set suf. a_Events (plain L s) i \<noteq> None"
    using spill_ids_plain [OF ok(1) [folded L_def s_def] sp] by auto
  have evs: "blk_Events b = suf" using sp2(4,5) by (simp add: b_def)
  note t = stored_txs_ok [OF sp2(1) ok(2,3) s2]
  have t2: "store_ok L W s2" "a_Blocks (plain L s2) = a_Blocks (plain L s)" "a_Index (plain L s2) = a_Index (plain L s)"
      "a_Events (plain L s2) = a_Events (plain L s)" "\<forall>tx \<in> set (preTxs @ internalTxs). a_Txs (plain L s2) (?H tx) = Some tx"
      "c_EvmBlocks s2 = c_EvmBlocks s"
    using t sp2(2,3) by auto
  note st = store_and_index [OF t2(1) ok(2), of "eve (bc_Atropos blk)" "bc_Atropos blk" "bc_Idx blk" "evb (bc_Idx blk)" b]
  note c = SetCachedEvmBlock_ok [OF s3 [folded b_def bs_def], of L W]
  have s': "s' = s3" by (simp add: s'_def nd')
  have pl: "plain L s' = (plain L s2)\<lparr>a_Blocks := (a_Blocks (plain L s))(bc_Idx blk \<mapsto> b),
      a_Index := (a_Index (plain L s))(bc_Atropos blk \<mapsto> bc_Idx blk)\<rparr>" "store_ok L W s'"
    using c st t2 by (simp_all add: s')
  have inc: "ep_incomingTxs ep2 = preTxs @ internalTxs @ concat (map ev_txs blockEvents)" "ep_block ep2 = blk"
      "ep_blockIdx ep2 = uint (bc_Idx blk)" "ep_prevBlockHash ep2 = ep_prevBlockHash ep"
    using execute_incoming [OF e1] execute_incoming [of C _ False ep1 lis1] e2 ep by auto
  have "map (\<lambda>i. the (a_Txs (plain L s') i)) (blk_InternalTxs b) = preTxs @ internalTxs"
    using t2(5) pl by (auto simp: b_def comp_def intro!: map_idI)
  then have txs: "plain_txs (plain L s') b = FilterSkippedTxs (ep_incomingTxs ep2) skipped"
    using inc(1) pl t2(4) sp2(5) evs by (simp add: plain_txs_def b_def comp_def)
  have cmp: "complete_block (plain L s') b"
    using t2 pl evs sp2(6) by (auto simp: complete_block_def b_def)
  have rh: "eb_Transactions evmBlock = FilterSkippedTxs (ep_incomingTxs ep2) skipped"
      "NewEvmBlock (cl_types C) (ToEvmHeader b (bc_Idx blk) (ep_prevBlockHash ep)) (eb_Transactions evmBlock) = evmBlock"
  proof -
    have "blk_Time b = bc_Time (ep_block ep2)" "blk_Atropos b = bc_Atropos (ep_block ep2)"
        "blk_Root b = eh_Root (eb_Header evmBlock)" "blk_GasUsed b = eh_GasUsed (eb_Header evmBlock)"
        "unat (bc_Idx (ep_block ep2)) < 2 ^ 63" "ep_blockIdx ep2 = uint (bc_Idx (ep_block ep2))"
      using inc n by (simp_all add: b_def)
    from rebuilt_header [OF fin this(5,6,1,2,3,4)] show "eb_Transactions evmBlock = FilterSkippedTxs (ep_incomingTxs ep2) skipped"
      "NewEvmBlock (cl_types C) (ToEvmHeader b (bc_Idx blk) (ep_prevBlockHash ep)) (eb_Transactions evmBlock) = evmBlock"
      unfolding inc(2,4) by blast+
  qed
  show ?thesis
    using c pl cmp txs rh t2
    by (intro exI [of _ b] exI [of _ evmBlock] exI [of _ bs])
       (simp add: s' SetBlockEpochState_def SetBlockIndex_def SetBlock_def b_def bs_def bs_Copy_def)
qed

section \<open>EndBlock as a whole\<close>

lemma GetBlock_Inr:
  assumes "store_ok L W s" "GetBlock L ev n s = Inr (b, s')"
  shows "b = a_Blocks (plain L s) n" "store_ok L W s'" "plain L s' = plain L s" "c_EvmBlocks s' = c_EvmBlocks s"
  using GetBlock_ok [OF assms(1), of ev n] GetBlock_evm [OF assms(2)] assms(2) by auto

lemma prev_atropos_Inr:
  assumes "store_ok L W s" "prev_atropos L evb n s = Inr (p, s')"
  shows "store_ok L W s' \<and> plain L s' = plain L s \<and> c_EvmBlocks s' = c_EvmBlocks s"
  using assms(2) GetBlock_Inr [OF assms(1)] assms(1)
  by (auto simp: prev_atropos_def bind_res_Inr_iff split: if_splits option.splits)

lemma reader_GetHeader_Inr:
  assumes "store_ok L W s" "reader_GetHeader L T evb zero_hash n s = Inr (h, s')"
  shows "store_ok L W s' \<and> plain L s' = plain L s \<and> c_EvmBlocks s' = c_EvmBlocks s \<and>
    map_option eh_Hash h = map_option blk_Atropos (a_Blocks (plain L s) n)"
proof -
  obtain b s1 where s1: "GetBlock L (evb n) n s = Inr (b, s1)"
    using assms(2) by (auto simp: reader_GetHeader_def reader_getBlock_def bind_res_Inr_iff)
  note g = GetBlock_Inr [OF assms(1) s1]
  show ?thesis
  proof (cases b)
    case (Some x)
    then obtain p s2 where p: "prev_atropos L evb n s1 = Inr (p, s2)" "h = Some (ToEvmHeader x n p)" "s' = s2"
      using assms(2) s1 by (auto simp: reader_GetHeader_def reader_getBlock_def bind_res_Inr_iff Let_def)
    moreover have "a_Blocks (plain L s) n = Some x" using g(1) Some by simp
    ultimately show ?thesis using prev_atropos_Inr [OF g(2) p(1)] g by (simp add: ToEvmHeader_def)
  qed (use assms(2) s1 g in \<open>auto simp: reader_GetHeader_def reader_getBlock_def\<close>)
qed

lemma seal_step_store:
  "seal_step C sl bs es lsn nd = Inr (es', lsn', nd') \<Longrightarrow>
   plain L (nd_store nd') = plain L (nd_store nd) \<and> store_ok L W (nd_store nd') = store_ok L W (nd_store nd) \<and>
   c_EvmBlocks (nd_store nd') = c_EvmBlocks (nd_store nd)"
  by (auto simp: seal_step_def bind_res_Inr_iff) (simp add: SetBlockEpochState_def)

lemma evm_Start_prev:
  "evm_Start (\<lambda>_ _. prev) blk db net = Inr ep \<Longrightarrow> ep_incomingTxs ep = [] \<and> ep_block ep = blk \<and>
     ep_blockIdx ep = uint (bc_Idx blk) \<and>
     Some (ep_prevBlockHash ep) = (if bc_Idx blk \<noteq> 0 then map_option eh_Hash prev else Some zero_hash)"
  by (auto simp: evm_Start_def bind_res_Inr_iff U64toBig_def split: if_splits option.splits)

lemma EndBlock_cases:
  assumes "EndBlock C evb eve p nd = Inr (vals, nd')" "\<not> skip_block p"
  obtains bs prev s1 ep preTxs vss r1 ep1 lsn ver sfc es1 lsn1 nd1 where
    "events_Finalize (block_ctx_of p) (bp_events p) = Inr bs"
    "(if bc_Idx (block_ctx_of p) \<noteq> 0
      then reader_GetHeader (cl_store C) (cl_types C) evb zero_hash (bc_Idx (block_ctx_of p) - 1) (nd_store nd)
      else Inr (None, nd_store nd)) = Inr (prev, s1)"
    "evm_Start (\<lambda>_ _. prev) (block_ctx_of p) (bp_db p) (es_Rules (bp_es p)) = Inr ep"
    "pre_PopInternalTxs (cl_driver C) (cl_nonce C (bp_db p)) (block_ctx_of p) bs (bp_es p)
      (EpochSealing (sealer_Start (block_ctx_of p) bs (bp_es p))) (nd_heap nd) = Inr (preTxs, vss)"
    "execute C preTxs True (ep, ((listener_Start (block_ctx_of p) bs (bp_es p))
      \<lparr>tl_bs := (tl_bs (listener_Start (block_ctx_of p) bs (bp_es p)))\<lparr>bs_ValidatorStates := vss\<rparr>\<rparr>, nd_ver nd, nd_sfc nd)) =
     Inr (r1, ep1, lsn, ver, sfc)"
    "(if EpochSealing (sealer_Start (block_ctx_of p) bs (bp_es p))
      then seal_step C (sealer_Start (block_ctx_of p) bs (bp_es p)) (listener_Finalize lsn) (bp_es p) lsn (nd\<lparr>nd_store := s1\<rparr>)
      else Inr (bp_es p, lsn, nd\<lparr>nd_store := s1\<rparr>)) = Inr (es1, lsn1, nd1)"
    "block_fn C evb eve (block_ctx_of p) (bp_confirmed p) preTxs (EpochSealing (sealer_Start (block_ctx_of p) bs (bp_es p)))
      es1 ep1 (lsn1, ver, sfc) nd1 = Inr nd'"
  using assms(1) unfolding EndBlock_def Let_def if_not_P [OF assms(2)]
  by (clarsimp simp only: bind_res_Inr_iff split_paired_Ex prod.case sum.inject prod.inject)

lemma EndBlock_stores:
  assumes run: "EndBlock C evb eve p nd = Inr (vals, nd')" "\<not> skip_block p"
    and ok: "store_ok (cl_store C) W (nd_store nd)" "wf_full W" "inj (cl_txHash C)"
  defines "blk \<equiv> block_ctx_of p"
  assumes n: "unat (bc_Idx blk) < 2 ^ 63"
  defines "L \<equiv> cl_store C" and "s \<equiv> nd_store nd" and "s' \<equiv> nd_store nd'"
  shows "\<exists>b evmBlock bs es prev. c_BlockEpochState s' = Some (bs, es) \<and> bs_LastBlock bs = blk \<and> store_ok L W s' \<and>
    a_Blocks (plain L s') = (a_Blocks (plain L s))(bc_Idx blk \<mapsto> b) \<and>
    a_Index (plain L s') = (a_Index (plain L s))(bc_Atropos blk \<mapsto> bc_Idx blk) \<and> a_Events (plain L s') = a_Events (plain L s) \<and>
    blk_Time b = bc_Time blk \<and> blk_Atropos b = bc_Atropos blk \<and> complete_block (plain L s') b \<and>
    c_EvmBlocks s' = lru_Add (evb (bc_Idx blk)) (bc_Idx blk) evmBlock (c_EvmBlocks s) \<and>
    eh_TxHash (eb_Header evmBlock) \<noteq> zero_hash \<and> eh_Root (eb_Header evmBlock) = bs_FinalizedStateRoot bs \<and>
    plain_prev (plain L s) (bc_Idx blk) = Some prev \<and>
    NewEvmBlock (cl_types C) (ToEvmHeader b (bc_Idx blk) prev) (plain_txs (plain L s') b) = evmBlock"
proof -
  obtain prev s1 ep r1 preTxs l0 ep1 lsn ver sfc nd1 es1 lsn1 sealing slr where
    h: "(if bc_Idx blk \<noteq> 0 then reader_GetHeader L (cl_types C) evb zero_hash (bc_Idx blk - 1) s else Inr (None, s)) = Inr (prev, s1)" and
    st: "evm_Start (\<lambda>_ _. prev) blk (bp_db p) (es_Rules (bp_es p)) = Inr ep" and
    ex: "execute C preTxs True (ep, l0) = Inr (r1, ep1, lsn, ver, sfc)" and
    sl: "(if sealing then seal_step C slr (listener_Finalize lsn) (bp_es p) lsn
      (nd\<lparr>nd_store := s1\<rparr>) else Inr (bp_es p, lsn, nd\<lparr>nd_store := s1\<rparr>)) = Inr (es1, lsn1, nd1)" and
    bf: "block_fn C evb eve blk (bp_confirmed p) preTxs sealing es1 ep1 (lsn1, ver, sfc) nd1 = Inr nd'"
    using EndBlock_cases [OF run] unfolding blk_def L_def s_def by metis
  have s1: "store_ok L W s1" "plain L s1 = plain L s" "c_EvmBlocks s1 = c_EvmBlocks s"
      "bc_Idx blk \<noteq> 0 \<Longrightarrow> map_option eh_Hash prev = map_option blk_Atropos (a_Blocks (plain L s) (bc_Idx blk - 1))"
    using h reader_GetHeader_Inr [OF ok(1) [folded L_def s_def]] ok(1) by (auto simp: L_def s_def split: if_splits)
  note e = evm_Start_prev [OF st]
  have pp: "plain_prev (plain L s) (bc_Idx blk) = Some (ep_prevBlockHash ep)"
    using e s1(4) by (auto simp: plain_prev_def)
  have e1: "ep_incomingTxs ep1 = preTxs" "ep_block ep1 = blk" "ep_blockIdx ep1 = uint (bc_Idx blk)"
      "ep_prevBlockHash ep1 = ep_prevBlockHash ep"
    using execute_incoming [OF ex] e by auto
  have nd1: "plain L (nd_store nd1) = plain L s" "store_ok L W (nd_store nd1)" "c_EvmBlocks (nd_store nd1) = c_EvmBlocks s"
    using sl seal_step_store [of C _ _ _ _ "nd\<lparr>nd_store := s1\<rparr>" es1 _ nd1 L W] s1 by (auto split: if_splits)
  show ?thesis
    using block_fn_stores [OF bf _ ok(2,3) e1(1,2,3) n, of, folded L_def s'_def, OF nd1(2)] pp
    unfolding nd1 e1(4) by blast
qed

section \<open>A block of the consensus from begin to end\<close>

fun ApplyEvents :: "'s cb_lib \<Rightarrow> event_payload list \<Rightarrow> 's block_proc \<Rightarrow> 's block_proc res" where
  "ApplyEvents C [] p = Inr p"
| "ApplyEvents C (e # es) p = bind_res (ApplyEvent C e p) (ApplyEvents C es)"

definition process_block ::
  "'s cb_lib \<Rightarrow> (u64 \<Rightarrow> u64 set) \<Rightarrow> (bytes \<Rightarrow> bytes set) \<Rightarrow> cblock \<Rightarrow> event_payload list \<Rightarrow> node \<Rightarrow> (validators option \<times> node) res" where
  "process_block C evb eve cBlock events nd =
     bind_res (BeginBlock C cBlock nd) (\<lambda>(p, nd). bind_res (ApplyEvents C events p) (\<lambda>p. EndBlock C evb eve p nd))"

lemma ApplyEvent_frame:
  assumes "ApplyEvent C e p = Inr p'"
  shows "bp_cBlock p' = bp_cBlock p \<and> bp_bs p' = bp_bs p \<and> bp_es p' = bp_es p \<and>
    bs_LastBlock (evp_bs (bp_events p')) = bs_LastBlock (evp_bs (bp_events p)) \<and>
    (bp_degenerate p' \<longleftrightarrow> bp_degenerate p \<and> ep_ID e \<noteq> cb_Atropos (bp_cBlock p))"
  using assms by (auto simp: ApplyEvent_def ProcessConfirmedEvent_def Let_def split: if_splits)

lemma ApplyEvents_frame:
  "ApplyEvents C es p = Inr p' \<Longrightarrow> bp_cBlock p' = bp_cBlock p \<and> bp_bs p' = bp_bs p \<and> bp_es p' = bp_es p \<and>
    bs_LastBlock (evp_bs (bp_events p')) = bs_LastBlock (evp_bs (bp_events p)) \<and>
    (bp_degenerate p' \<longleftrightarrow> bp_degenerate p \<and> (\<forall>e \<in> set es. ep_ID e \<noteq> cb_Atropos (bp_cBlock p)))"
proof (induction es arbitrary: p)
  case (Cons e es)
  then obtain p1 where "ApplyEvent C e p = Inr p1" "ApplyEvents C es p1 = Inr p'" by (auto simp: bind_res_Inr_iff)
  with Cons.IH [of p1] ApplyEvent_frame [of C e p p1] show ?case by auto
qed simp

lemma events_Finalize_LastBlock: "events_Finalize blk p = Inr bs \<Longrightarrow> bs_LastBlock bs = bs_LastBlock (evp_bs p)"
  by (auto simp: events_Finalize_def bind_res_Inr_iff)

lemma BeginBlock_frame:
  assumes "BeginBlock C cBlock nd = Inr (p, nd1)" "getBlockEpochState (cl_store C) (nd_store nd) = Inr ((bs, es), s0)"
  shows "nd1 = nd\<lparr>nd_store := s0\<rparr>" "bp_cBlock p = cBlock" "bs_LastBlock (bp_bs p) = bs_LastBlock bs" "bp_es p = es"
    "bs_LastBlock (evp_bs (bp_events p)) = bs_LastBlock bs" "bp_degenerate p"
  using assms by (auto simp: BeginBlock_def Let_def bs_Copy_def events_Start_def crit_def split: sum.splits)

lemma getBlockEpochState_store:
  assumes "getBlockEpochState L s = Inr (v, s')"
  shows "plain L s' = plain L s" "store_ok L W s' = store_ok L W s"
proof -
  have s': "s' = s \<or> s' = s\<lparr>c_BlockEpochState := Some v\<rparr>"
    using assms by (auto simp: getBlockEpochState_def bind_res_Inr_iff crit_def split: option.splits)
  have p: "plain L (s\<lparr>c_BlockEpochState := Some v\<rparr>) = plain L s" by (simp add: plain_def)
  show "plain L s' = plain L s" using s' p by auto
  show "store_ok L W s' = store_ok L W s" using s' p by (auto simp: store_ok_def)
qed

lemma block_time_advances:
  assumes "bc_Time (bs_LastBlock (bp_bs p)) < - 1"
  shows "bc_Time (bs_LastBlock (bp_bs p)) < bc_Time (block_ctx_of p)"
proof -
  have "x < x + 1" if "x < - 1" for x :: u64
    using that unat_max_word [where 'a = 64] by (subst word_less_nat_alt, subst unat_add_small) (simp_all add: word_less_nat_alt)
  with assms show ?thesis by (auto simp: block_ctx_of_def Let_def not_le)
qed

section \<open>Properties\<close>

text \<open>
  C1. Processing a block of the consensus either skips it, and then no block is stored and the last
  block of the decided state stays, or stores exactly one new block: its number is the next one, its
  time is later than the last block's, it is indexed under its Atropos, and the decided state names
  it as the last block. A block whose Atropos was not among the applied events is always skipped, so
  that no Atropos identifies two blocks.
\<close>

theorem process_block_advances:
  assumes "process_block C evb eve cBlock events nd = Inr (vals, nd')"
    and "getBlockEpochState (cl_store C) (nd_store nd) = Inr ((bs, es), s0)"
    and "store_ok (cl_store C) W (nd_store nd)" "wf_full W" "inj (cl_txHash C)"
    and "unat (bc_Idx (bs_LastBlock bs)) < 2 ^ 63 - 1" "bc_Time (bs_LastBlock bs) < - 1"
  shows "\<exists>bs' es'. c_BlockEpochState (nd_store nd') = Some (bs', es') \<and> store_ok (cl_store C) W (nd_store nd') \<and>
    (vals = None \<and> bs_LastBlock bs' = bs_LastBlock bs \<and> plain (cl_store C) (nd_store nd') = plain (cl_store C) (nd_store nd) \<or>
     (\<exists>e \<in> set events. ep_ID e = cb_Atropos cBlock) \<and>
     (\<exists>b. bc_Idx (bs_LastBlock bs') = bc_Idx (bs_LastBlock bs) + 1 \<and> bc_Time (bs_LastBlock bs) < bc_Time (bs_LastBlock bs') \<and>
        bc_Atropos (bs_LastBlock bs') = cb_Atropos cBlock \<and>
        a_Blocks (plain (cl_store C) (nd_store nd')) =
          (a_Blocks (plain (cl_store C) (nd_store nd)))(bc_Idx (bs_LastBlock bs') \<mapsto> b) \<and>
        a_Index (plain (cl_store C) (nd_store nd')) =
          (a_Index (plain (cl_store C) (nd_store nd)))(cb_Atropos cBlock \<mapsto> bc_Idx (bs_LastBlock bs')) \<and>
        blk_Time b = bc_Time (bs_LastBlock bs') \<and> blk_Atropos b = cb_Atropos cBlock))"
proof -
  let ?L = "cl_store C"
  obtain p0 nd1 p where p0: "BeginBlock C cBlock nd = Inr (p0, nd1)" "ApplyEvents C events p0 = Inr p"
      and run: "EndBlock C evb eve p nd1 = Inr (vals, nd')"
    using assms(1) by (auto simp: process_block_def bind_res_Inr_iff)
  note b = BeginBlock_frame [OF p0(1) assms(2)] and a = ApplyEvents_frame [OF p0(2)]
  note g = getBlockEpochState_store [OF assms(2)]
  have last: "bs_LastBlock (bp_bs p) = bs_LastBlock bs" using a b by simp
  have ok1: "store_ok ?L W (nd_store nd1)" "plain ?L (nd_store nd1) = plain ?L (nd_store nd)" using g b(1) assms(3) by simp_all
  show ?thesis
  proof (cases "skip_block p")
    case True
    then obtain bs' where bs': "events_Finalize (block_ctx_of p) (bp_events p) = Inr bs'" "vals = None"
        "nd' = nd1\<lparr>nd_store := SetBlockEpochState bs' (bp_es p) (nd_store nd1)\<rparr>"
      using run by (auto simp: EndBlock_def Let_def bind_res_Inr_iff)
    have "bs_LastBlock bs' = bs_LastBlock bs" using events_Finalize_LastBlock [OF bs'(1)] a b by simp
    then show ?thesis using bs' ok1 by (auto simp: SetBlockEpochState_def [of bs'] bs_Copy_def store_ok_def plain_def)
  next
    case False
    have ctx: "bc_Idx (block_ctx_of p) = bc_Idx (bs_LastBlock bs) + 1" "bc_Atropos (block_ctx_of p) = cb_Atropos cBlock"
      using last a b by (simp_all add: block_ctx_of_def Let_def)
    have n: "unat (bc_Idx (block_ctx_of p)) < 2 ^ 63"
      unfolding ctx using assms(6) by (subst unat_add_small) simp_all
    have "\<exists>e \<in> set events. ep_ID e = cb_Atropos cBlock" using False a b by (auto simp: skip_block_def)
    moreover have "bc_Time (bs_LastBlock bs) < bc_Time (block_ctx_of p)" using block_time_advances [of p] assms(7) last by simp
    ultimately show ?thesis
      using EndBlock_stores [OF run False ok1(1) assms(4,5) n] ok1(2) ctx by (auto 0 4)
  qed
qed

text \<open>
  C2. The block that the state reader rebuilds from the store is the block that was executed: after
  \<open>EndBlock\<close> has stored a block, reading it with an empty cache (header, transactions less the
  skipped ones, root) gives the very EVM block that block processing cached, whatever the storage
  caches evict.
\<close>

theorem rebuilt_block_is_executed:
  assumes "EndBlock C evb eve p nd = Inr (vals, nd')" "\<not> skip_block p"
    and "store_ok (cl_store C) W (nd_store nd)" "wf_full W" "inj (cl_txHash C)"
    and "unat (bc_Idx (block_ctx_of p)) < 2 ^ 63"
  shows "\<exists>evmBlock. c_EvmBlocks (nd_store nd') =
      lru_Add (evb (bc_Idx (block_ctx_of p))) (bc_Idx (block_ctx_of p)) evmBlock (c_EvmBlocks (nd_store nd)) \<and>
    (\<forall>evb' eve'. \<exists>s''. reader_getBlock (cl_store C) (cl_types C) evb' eve' zero_hash (bc_Idx (block_ctx_of p)) True
       ((nd_store nd')\<lparr>c_EvmBlocks := Map.empty\<rparr>) = Inr (Some evmBlock, s''))"
proof -
  let ?L = "cl_store C" and ?n = "bc_Idx (block_ctx_of p)"
  let ?s = "nd_store nd'" and ?c = "(nd_store nd')\<lparr>c_EvmBlocks := Map.empty\<rparr>"
  obtain b evmBlock prev where r: "store_ok ?L W ?s"
      "a_Blocks (plain ?L ?s) = (a_Blocks (plain ?L (nd_store nd)))(?n \<mapsto> b)" "complete_block (plain ?L ?s) b"
      "c_EvmBlocks ?s = lru_Add (evb ?n) ?n evmBlock (c_EvmBlocks (nd_store nd))" "eh_TxHash (eb_Header evmBlock) \<noteq> zero_hash"
      "plain_prev (plain ?L (nd_store nd)) ?n = Some prev"
      "NewEvmBlock (cl_types C) (ToEvmHeader b ?n prev) (plain_txs (plain ?L ?s) b) = evmBlock"
    using EndBlock_stores [OF assms] by blast
  have pl: "plain ?L ?c = plain ?L ?s" by (simp add: plain_def)
  have ok: "store_ok ?L W ?c" using r(1) pl by (simp add: store_ok_def)
  have pp: "plain_prev (plain ?L ?c) ?n = Some prev"
    using r(2,6) unfolding pl plain_prev_def by (cases "?n = 0") simp_all
  have bl: "a_Blocks (plain ?L ?c) ?n = Some b" using r(2) pl by simp
  have "\<exists>s''. reader_getBlock ?L (cl_types C) evb' eve' zero_hash ?n True ?c = Inr (Some evmBlock, s'')" for evb' eve'
    using reader_getBlock_plain [OF ok bl _ pp, of zero_hash "cl_types C" evb' eve'] r(3,5,7) pl by auto
  with r(4) show ?thesis by blast
qed

section \<open>A run\<close>

text \<open>A storage library with byte forms for all blocks, positions and transactions, by enumeration.\<close>

definition enc_c :: "'a::countable \<Rightarrow> bytes" where "enc_c x = nat_be (to_nat x)"

definition dec_c :: "bytes \<Rightarrow> 'a::countable" where "dec_c b = from_nat (be_nat b)"

lemma dec_enc_c [simp]: "dec_c (enc_c x) = x" by (simp add: enc_c_def dec_c_def)

definition blk_tuple :: "block \<Rightarrow> u64 \<times> bytes \<times> bytes list \<times> bytes list \<times> bytes list \<times> u32 list \<times> u64 \<times> bytes" where
  "blk_tuple b = (blk_Time b, blk_Atropos b, blk_Events b, blk_Txs b, blk_InternalTxs b, blk_SkippedTxs b, blk_GasUsed b, blk_Root b)"

definition blk_untuple :: "u64 \<times> bytes \<times> bytes list \<times> bytes list \<times> bytes list \<times> u32 list \<times> u64 \<times> bytes \<Rightarrow> block" where
  "blk_untuple x = (case x of (t, a, e, ts, i, s, g, r) \<Rightarrow> \<lparr>blk_Time = t, blk_Atropos = a, blk_Events = e, blk_Txs = ts,
     blk_InternalTxs = i, blk_SkippedTxs = s, blk_GasUsed = g, blk_Root = r\<rparr>)"

definition tx_tuple ::
  "transaction \<Rightarrow> (u8 \<times> u64 \<times> u64 \<times> int \<times> int \<times> bytes option) \<times> bytes \<times> int \<times> int \<times> int \<times> int \<times> (bytes \<times> bytes list) list" where
  "tx_tuple t = ((tx_Type t, tx_Nonce t, tx_Gas t, tx_GasPrice t, tx_Value t, tx_To t), tx_Data t, tx_V t, tx_R t, tx_S t,
     tx_ChainId t, tx_AccessList t)"

definition tx_untuple ::
  "(u8 \<times> u64 \<times> u64 \<times> int \<times> int \<times> bytes option) \<times> bytes \<times> int \<times> int \<times> int \<times> int \<times> (bytes \<times> bytes list) list \<Rightarrow> transaction" where
  "tx_untuple x = (case x of ((ty, n, g, p, v, a), d, tv, tr, ts, c, al) \<Rightarrow> \<lparr>tx_Type = ty, tx_Nonce = n, tx_Gas = g,
     tx_GasPrice = p, tx_Value = v, tx_To = a, tx_Data = d, tx_V = tv, tx_R = tr, tx_S = ts, tx_ChainId = c, tx_AccessList = al\<rparr>)"

lemma untuple_tuple [simp]: "blk_untuple (blk_tuple b) = b" "tx_untuple (tx_tuple t) = t"
  by (simp_all add: blk_untuple_def blk_tuple_def tx_untuple_def tx_tuple_def)

definition demo_L :: "evm_log store_lib" where
  "demo_L = \<lparr>block_Bytes = (\<lambda>n. be8 (unat n)), BytesToBlock = (\<lambda>b. word_of_nat (be_nat b)),
     lamport_Bytes = (\<lambda>n. be4 (unat n)), BytesToLamport = (\<lambda>b. word_of_nat (be_nat b)),
     vid_Bytes = (\<lambda>n. be4 (unat n)), BytesToValidatorID = (\<lambda>b. word_of_nat (be_nat b)),
     enc_block = (\<lambda>b. enc_c (blk_tuple b)), dec_block = (\<lambda>b. Inr (blk_untuple (dec_c b))),
     enc_event = (\<lambda>_. []), dec_event = (\<lambda>_. Inl (OtherErr ''rlp'')),
     enc_pos = (\<lambda>p. enc_c (tp_Block p, tp_Event p, tp_EventOffset p, tp_BlockOffset p)),
     dec_pos = (\<lambda>b. Inr (case dec_c b of (n, e, i, j) \<Rightarrow> \<lparr>tp_Block = n, tp_Event = e, tp_EventOffset = i, tp_BlockOffset = j\<rparr>)),
     enc_tx = (\<lambda>t. enc_c (tx_tuple t)), dec_tx = (\<lambda>b. Inr (tx_untuple (dec_c b))),
     enc_receipts = (\<lambda>_. []), dec_receipts = (\<lambda>_. Inr []), enc_state = (\<lambda>_. []), dec_state = (\<lambda>_. Inl (OtherErr ''rlp''))\<rparr>"

definition demo_W :: wf_values where
  "demo_W = \<lparr>wf_block = (\<lambda>_. True), wf_pos = (\<lambda>_. True), wf_state = (\<lambda>_. False), wf_event = (\<lambda>_. False), wf_tx = (\<lambda>_. True)\<rparr>"

lemma demo_L_ok: "store_lib_ok demo_L demo_W" "wf_full demo_W"
proof -
  have "unat (n :: u64) < 2 ^ 64" for n using unsigned_less [of n] by simp
  moreover have "unat (n :: u32) < 2 ^ 32" for n using unsigned_less [of n] by simp
  ultimately show "store_lib_ok demo_L demo_W"
    by (simp add: store_lib_ok_def demo_L_def demo_W_def be8_props be4_props)
qed (simp add: wf_full_def demo_W_def)

definition demo_evm :: "(bytes \<Rightarrow> int, evm_log) evm_lib" where
  "demo_evm = \<lparr>eth = eip_params, GetBalance = (\<lambda>s a. s a), SubBalance = (\<lambda>s a v. s(a := s a - v)),
     AddBalance = (\<lambda>s a v. s(a := s a + v)), GetNonce = (\<lambda>_ _. 0), SetNonce = (\<lambda>s _ _. s), GetRefund = (\<lambda>_. 0),
     IsBerlin = False, PrepareAccessList = (\<lambda>_ s. s), evm_Create = (\<lambda>_ _ g _ s. burn g s),
     evm_Call = (\<lambda>_ _ _ g _ s. burn g s), AsMessage = (\<lambda>tx. Inr (internal_msg tx)),
     tx_Hash = enc_tx demo_L, Prepare = (\<lambda>_ _ _ s. s), GetLogs = (\<lambda>_ _. []), IsByzantium = True,
     Finalise = (\<lambda>s. s), IntermediateRoot = (\<lambda>s. ([], s)), CreateAddress = (\<lambda>a _. a),
     sd_BlockHash = (\<lambda>_. []), sd_TxIndex = (\<lambda>_. 0)\<rparr>"

definition demo_C :: "(bytes \<Rightarrow> int) cb_lib" where
  "demo_C = \<lparr>cl_store = demo_L, cl_driver = demo_driver_lib,
     cl_dag = \<lparr>id_Epoch = (\<lambda>_. 0), id_Lamport = (\<lambda>_. 0), id_make = (\<lambda>_ _ h. h), self_parent = (\<lambda>_ _. None),
       EmptyTxHash = ev_txHash demo_event, sha256 = (\<lambda>b. b)\<rparr>,
     cl_types = \<lparr>DeriveSha = (\<lambda>_. [1]), EmptyRootHash = [2]\<rparr>, cl_evm = (\<lambda>_ _. demo_evm), cl_txHash = enc_tx demo_L,
     cl_openDB = (\<lambda>_. Inr (\<lambda>_. 0)), cl_Commit = (\<lambda>s. Inr ([5], s)), cl_nonce = (\<lambda>_. 0), cl_buildVals = (\<lambda>_. demo_validators),
     cl_sort = (\<lambda>x. x), cl_txIndex = True, cl_verConfig = None\<rparr>"

lemma demo_inj: "inj (cl_txHash demo_C)"
proof (rule injI)
  fix x y assume "cl_txHash demo_C x = cl_txHash demo_C y"
  then have "tx_untuple (dec_c (enc_c (tx_tuple x))) = tx_untuple (dec_c (enc_c (tx_tuple y)))"
    by (simp only: demo_C_def demo_L_def cb_lib.select_convs store_lib.select_convs)
  then show "x = y" by (simp only: dec_enc_c untuple_tuple)
qed

definition demo_blocks :: "evm_log gstore" where
  "demo_blocks = SetBlock demo_L {} 5 demo_block (SetBlock demo_L {} 4 demo_block empty_store)"

definition run_bs :: block_state where "run_bs = demo_bs\<lparr>bs_EpochCheaters := []\<rparr>"

definition demo_node :: node where
  "demo_node = \<lparr>nd_store = SetBlockEpochState run_bs demo_es demo_blocks, nd_heap = [0, 0],
     nd_ver = \<lparr>vs_network = None, vs_missed = None\<rparr>,
     nd_sfc = \<lparr>sfc_Stakers = Map.empty, sfc_Delegations = Map.empty, sfc_DelegationOldRewards = Map.empty,
       sfc_StakerDelegationsOldRewards = Map.empty\<rparr>\<rparr>"

lemma demo_node_ok: "store_ok demo_L demo_W (nd_store demo_node)"
  using store_ok_sets(1) [OF store_ok_sets(1) [OF empty_store_ok [OF demo_L_ok(1)]]] demo_L_ok(2)
  by (simp add: demo_node_def demo_blocks_def wf_full_def)

definition run_event :: event_payload where
  "run_event = demo_event\<lparr>ev_medianTime := 900000000000, ep_ID := [9]\<rparr>"

definition run_cblock :: cblock where "run_cblock = \<lparr>cb_Atropos = [9], cb_Cheaters = []\<rparr>"

definition run_proc :: "(bytes \<Rightarrow> int) block_proc" where
  "run_proc = \<lparr>bp_cBlock = run_cblock, bp_bs = run_bs, bp_es = demo_es, bp_db = (\<lambda>_. 0),
     bp_events = \<lparr>evp_es = demo_es, evp_bs = run_bs\<lparr>bs_EpochGas := 28000\<rparr>, evp_highest = [Some run_event, None]\<rparr>,
     bp_atroposTime = 900000000000, bp_degenerate = False, bp_confirmed = []\<rparr>"

lemma run_event_fields: "ep_ID run_event = [9]" "ev_medianTime run_event = 900000000000" "ev_Creator run_event = 1"
  "ev_gasPowerUsed run_event = 28000" "ev_txHash run_event = ev_txHash demo_event"
  by (simp_all add: run_event_def demo_event_def build_def zero_event_def mut_event.defs)

lemma run_begin: "BeginBlock demo_C run_cblock demo_node = Inr (run_proc\<lparr>bp_atroposTime := 1000000001, bp_degenerate := True,
   bp_events := events_Start run_bs demo_es\<rparr>, demo_node)"
  by (simp add: BeginBlock_def getBlockEpochState_def demo_node_def SetBlockEpochState_def run_proc_def run_bs_def demo_bs_def run_cblock_def bs_Copy_def mergeCheaters_def demo_C_def)

lemma run_apply: "ApplyEvents demo_C [run_event] (run_proc\<lparr>bp_atroposTime := 1000000001, bp_degenerate := True,
   bp_events := events_Start run_bs demo_es\<rparr>) = Inr run_proc"
  by (simp add: ApplyEvent_def run_proc_def run_event_fields run_cblock_def NoTxs_def demo_C_def ProcessConfirmedEvent_def events_Start_def
     demo_es_def demo_validators_def numeral_2_eq_2 run_bs_def demo_bs_def)

lemma run_not_skipped: "\<not> skip_block run_proc" "block_ctx_of run_proc = \<lparr>bc_Idx = 6, bc_Time = 900000000000, bc_Atropos = [9]\<rparr>"
  by (simp_all add: skip_block_def run_proc_def block_ctx_of_def run_bs_def demo_bs_def demo_es_def demo_rules_def MainNetRules_def run_cblock_def time_Minute_def time_Second_def)

lemma run_header: "reader_GetHeader demo_L T (\<lambda>_. {}) zero_hash 5 (nd_store demo_node) =
   Inr (Some (ToEvmHeader demo_block 5 (blk_Atropos demo_block)), nd_store demo_node)"
  by (simp add: reader_GetHeader_def reader_getBlock_def GetBlock_def demo_node_def demo_blocks_def SetBlockEpochState_def SetBlock_def
     lru_Add_def prev_atropos_def)

lemma execute_nothing: "execute C [] i (ep, lis) = Inr ([], ep, lis)"
  by (simp add: execute_def Execute_def Process_def evmBlockWith_def NewEvmBlock_def Let_def gp_AddGas_def)

lemma run_finalize: "\<exists>vss. events_Finalize blk (bp_events run_proc) = Inr (run_bs\<lparr>bs_EpochGas := 28000, bs_ValidatorStates := vss\<rparr>)"
  by (simp add: events_Finalize_def run_proc_def run_bs_def demo_bs_def)

lemma block_fn_nothing:
  assumes "cl_sort C [] = []" "cl_Commit C (ep_statedb ep) = Inr (root, db)" "ep_receipts ep = []" "ep_incomingTxs ep = []"
    "EmptyRootHash (cl_types C) \<noteq> zero_hash"
  shows "\<exists>nd'. block_fn C evb eve blk [] [] False es ep lis nd = Inr nd'"
  using assms
  by (cases lis) (simp add: block_fn_def Let_def post_PopInternalTxs_def execute_nothing evm_Finalize_def evmBlockWith_def NewEvmBlock_def
      FilterSkippedTxs_def index_txs_def store_txs_def SetCachedEvmBlock_def)

lemma run_end: "\<exists>nd'. EndBlock demo_C (\<lambda>_. {}) (\<lambda>_. {}) run_proc demo_node = Inr (None, nd')"
proof -
  let ?blk = "\<lparr>bc_Idx = 6, bc_Time = 900000000000, bc_Atropos = [9]\<rparr>"
  obtain vss where vss: "events_Finalize ?blk (bp_events run_proc) = Inr (run_bs\<lparr>bs_EpochGas := 28000, bs_ValidatorStates := vss\<rparr>)"
    using run_finalize by blast
  have sealing: "\<not> EpochSealing (sealer_Start ?blk (run_bs\<lparr>bs_EpochGas := 28000, bs_ValidatorStates := vss\<rparr>) (bp_es run_proc))"
    by (simp add: EpochSealing_def sealer_Start_def run_proc_def run_bs_def demo_bs_def demo_es_def demo_rules_def MainNetRules_def
        DefaultEpochsRules_def time_Second_def time_Minute_def time_Hour_def)
  have pre: "pre_PopInternalTxs D n b (run_bs\<lparr>bs_EpochGas := 28000, bs_ValidatorStates := vss\<rparr>) es False h = Inr ([], vss)" for D n b es h
    by (simp add: pre_PopInternalTxs_def run_bs_def)
  have C: "cl_store demo_C = demo_L" "cl_sort demo_C [] = []" "cl_Commit demo_C db = Inr ([5], db)"
    "EmptyRootHash (cl_types demo_C) \<noteq> zero_hash" "bp_confirmed run_proc = []" for db
    by (auto simp: demo_C_def run_proc_def dest: arg_cong [where f = length])
  have fn: "\<exists>nd'. block_fn demo_C evb eve ?blk [] [] False es \<lparr>ep_block = ?blk, ep_statedb = db, ep_net = net, ep_blockIdx = U64toBig 6,
     ep_prevBlockHash = prev, ep_gasUsed = 0, ep_incomingTxs = [], ep_skippedTxs = [], ep_receipts = []\<rparr> lis nd = Inr nd'" for evb eve es db net prev lis nd
    by (rule block_fn_nothing) (simp_all add: C)
  show ?thesis
    unfolding EndBlock_def
    using fn by (simp add: Let_def vss sealing run_not_skipped pre C run_header evm_Start_def execute_nothing bind_res_Inr_iff)
qed

theorem process_block_advances_witness:
  "\<exists>nd' bs' es'. process_block demo_C (\<lambda>_. {}) (\<lambda>_. {}) run_cblock [run_event] demo_node = Inr (None, nd') \<and>
     store_ok (cl_store demo_C) demo_W (nd_store demo_node) \<and> c_BlockEpochState (nd_store nd') = Some (bs', es')"
proof -
  have L: "cl_store demo_C = demo_L" by (simp add: demo_C_def)
  obtain nd' where run: "process_block demo_C (\<lambda>_. {}) (\<lambda>_. {}) run_cblock [run_event] demo_node = Inr (None, nd')"
    using run_end by (auto simp: process_block_def run_begin run_apply simp del: ApplyEvents.simps)
  have st: "getBlockEpochState (cl_store demo_C) (nd_store demo_node) = Inr ((run_bs, demo_es), nd_store demo_node)"
    by (simp add: getBlockEpochState_def demo_node_def SetBlockEpochState_def bs_Copy_def run_bs_def demo_bs_def)
  have last: "unat (bc_Idx (bs_LastBlock run_bs)) < 2 ^ 63 - 1" "bc_Time (bs_LastBlock run_bs) < - 1"
    by (simp_all add: run_bs_def demo_bs_def)
  from process_block_advances [OF run st _ _ demo_inj last, of demo_W] demo_node_ok demo_L_ok(2) L run
  show ?thesis by auto
qed

theorem rebuilt_block_is_executed_witness:
  "\<exists>nd' evmBlock s''. EndBlock demo_C (\<lambda>_. {}) (\<lambda>_. {}) run_proc demo_node = Inr (None, nd') \<and> \<not> skip_block run_proc \<and>
     c_EvmBlocks (nd_store nd') 6 = Some evmBlock \<and>
     reader_getBlock demo_L (cl_types demo_C) (\<lambda>_. {}) (\<lambda>_. {}) zero_hash 6 True ((nd_store nd')\<lparr>c_EvmBlocks := Map.empty\<rparr>) = Inr (Some evmBlock, s'')"
proof -
  have L: "cl_store demo_C = demo_L" by (simp add: demo_C_def)
  obtain nd' where run: "EndBlock demo_C (\<lambda>_. {}) (\<lambda>_. {}) run_proc demo_node = Inr (None, nd')" using run_end by blast
  have n: "unat (bc_Idx (block_ctx_of run_proc)) < 2 ^ 63" by (simp add: run_not_skipped)
  have ok: "store_ok (cl_store demo_C) demo_W (nd_store demo_node)" using demo_node_ok L by simp
  from rebuilt_block_is_executed [OF run run_not_skipped(1) ok demo_L_ok(2) demo_inj n] show ?thesis
    using run L run_not_skipped by (fastforce simp: lru_Add_def)
qed

end
