(* ===== verification/Vecmt.thy ===== *)
theory Vecmt
  imports Driver_Module "HOL-Library.Multiset"
begin

text \<open>
  Package \<open>vecmt\<close> (src/vecmt/vector.go, vector_ops.go, median_time.go, no_cheaters.go): vector clocks
  with the creation times of the highest observed events, and the weighted median that gives an
  event its consensus time.

  The vector of sequence numbers is \<open>vecfc.HighestBeforeSeq\<close> of the consensus library: a parameter
  \<open>seq_lib\<close> with the laws \<open>seq_lib_ok\<close> (a vector that reads back what was set, and the marker of a
  detected fork, which has sequence number zero). \<open>vi.crit\<close> ends the node: it is a panic.
\<close>

section \<open>Vectors of times\<close>

text \<open>\<open>binary.LittleEndian\<close>.\<close>

definition put_u64 :: "u64 \<Rightarrow> bytes" where
  "put_u64 v = map (\<lambda>k. ucast (drop_bit (8 * k) v)) [0..<8]"

definition get_u64 :: "bytes \<Rightarrow> u64" where
  "get_u64 b = horner_sum (\<lambda>x. ucast x) 256 b"

text \<open>Sizes and indexes are 32-bit numbers, and so are the products with 8.\<close>

definition hbt_Size :: "bytes \<Rightarrow> u32" where
  "hbt_Size b = word_of_nat (length b div 8)"

definition NewHighestBeforeTime :: "u32 \<Rightarrow> bytes" where
  "NewHighestBeforeTime n = replicate (unat (n * 8)) 0"

definition hbt_slot :: "bytes \<Rightarrow> u32 \<Rightarrow> bytes res" where
  "hbt_slot b i = go_slice b (ucast (i * 8)) (ucast ((i + 1) * 8))"

definition hbt_Get :: "bytes \<Rightarrow> u32 \<Rightarrow> u64 res" where
  "hbt_Get b i = (if i \<ge> hbt_Size b then Inr 0 else bind_res (hbt_slot b i) (\<lambda>s. Inr (get_u64 s)))"

text \<open>The loop that appends zeros: it does not end for the greatest index.\<close>

partial_function (option) hbt_grow :: "u32 \<Rightarrow> bytes \<Rightarrow> bytes option" where
  "hbt_grow i b = (if i \<ge> hbt_Size b then hbt_grow i (b @ replicate 8 0) else Some b)"

definition hbt_Set :: "u32 \<Rightarrow> u64 \<Rightarrow> bytes \<Rightarrow> bytes run" where
  "hbt_Set i t b =
     (case hbt_grow i b of None \<Rightarrow> None
      | Some b \<Rightarrow> Some (bind_res (hbt_slot b i) (\<lambda>_.
          Inr (take (unat (i * 8)) b @ put_u64 t @ drop (unat (i * 8) + 8) b))))"

section \<open>Vector clocks\<close>

record branch_seq =
  sq_Seq :: u32
  sq_MinSeq :: u32

record 'v seq_lib =
  sq_New :: "u32 \<Rightarrow> 'v"
  sq_Get :: "'v \<Rightarrow> u32 \<Rightarrow> branch_seq"
  sq_Set :: "u32 \<Rightarrow> branch_seq \<Rightarrow> 'v \<Rightarrow> 'v"
  sq_SetForkDetected :: "u32 \<Rightarrow> 'v \<Rightarrow> 'v"
  sq_InitWithEvent :: "u32 \<Rightarrow> event_payload \<Rightarrow> 'v \<Rightarrow> 'v"
  sq_IsForkDetected :: "branch_seq \<Rightarrow> bool"

definition seq_lib_ok :: "'v seq_lib \<Rightarrow> bool" where
  "seq_lib_ok L \<longleftrightarrow>
     (\<forall>i j x v. sq_Get L (sq_Set L i x v) j = (if j = i then x else sq_Get L v j)) \<and>
     (\<forall>i j v. j \<noteq> i \<longrightarrow> sq_Get L (sq_SetForkDetected L i v) j = sq_Get L v j) \<and>
     (\<forall>i v. sq_IsForkDetected L (sq_Get L (sq_SetForkDetected L i v) i)) \<and>
     (\<forall>x. sq_IsForkDetected L x \<longrightarrow> sq_Seq x = 0)"

record 'v highest_before =
  VSeq :: 'v
  VTime :: bytes

definition NewHighestBefore :: "'v seq_lib \<Rightarrow> u32 \<Rightarrow> 'v highest_before" where
  "NewHighestBefore L n = \<lparr>VSeq = sq_New L n, VTime = NewHighestBeforeTime n\<rparr>"

definition hb_SetTime :: "u32 \<Rightarrow> u64 \<Rightarrow> 'v highest_before \<Rightarrow> 'v highest_before run" where
  "hb_SetTime i t b = bind_run (hbt_Set i t (VTime b)) (\<lambda>vt. Some (Inr (b\<lparr>VTime := vt\<rparr>)))"

definition hb_InitWithEvent :: "'v seq_lib \<Rightarrow> u32 \<Rightarrow> event_payload \<Rightarrow> 'v highest_before \<Rightarrow> 'v highest_before run" where
  "hb_InitWithEvent L i e b = hb_SetTime i (ev_creationTime e) (b\<lparr>VSeq := sq_InitWithEvent L i e (VSeq b)\<rparr>)"

definition hb_SetForkDetected :: "'v seq_lib \<Rightarrow> u32 \<Rightarrow> 'v highest_before \<Rightarrow> 'v highest_before" where
  "hb_SetForkDetected L i b = b\<lparr>VSeq := sq_SetForkDetected L i (VSeq b)\<rparr>"

definition collect_branch :: "'v seq_lib \<Rightarrow> 'v highest_before \<Rightarrow> u32 \<Rightarrow> 'v highest_before \<Rightarrow> 'v highest_before run" where
  "collect_branch L other i self =
     (let hisSeq = sq_Get L (VSeq other) i; mySeq = sq_Get L (VSeq self) i
      in if sq_Seq hisSeq = 0 \<and> \<not> sq_IsForkDetected L hisSeq then Some (Inr self)
         else if sq_IsForkDetected L mySeq then Some (Inr self)
         else if sq_IsForkDetected L hisSeq then Some (Inr (hb_SetForkDetected L i self))
         else let takeMin = sq_Seq mySeq = 0 \<or> sq_MinSeq mySeq > sq_MinSeq hisSeq;
                  mySeq = (if takeMin then mySeq\<lparr>sq_MinSeq := sq_MinSeq hisSeq\<rparr> else mySeq);
                  self = (if takeMin then self\<lparr>VSeq := sq_Set L i mySeq (VSeq self)\<rparr> else self)
              in if sq_Seq mySeq < sq_Seq hisSeq
                 then let self = self\<lparr>VSeq := sq_Set L i (mySeq\<lparr>sq_Seq := sq_Seq hisSeq\<rparr>) (VSeq self)\<rparr>
                      in bind_run (Some (hbt_Get (VTime other) i)) (\<lambda>t. hb_SetTime i t self)
                 else Some (Inr self))"

fun collect_loop :: "'v seq_lib \<Rightarrow> 'v highest_before \<Rightarrow> nat \<Rightarrow> nat \<Rightarrow> 'v highest_before \<Rightarrow> 'v highest_before run" where
  "collect_loop L other branchID 0 self = Some (Inr self)"
| "collect_loop L other branchID (Suc k) self =
     bind_run (collect_branch L other (word_of_nat branchID) self) (collect_loop L other (branchID + 1) k)"

definition CollectFrom :: "'v seq_lib \<Rightarrow> 'v highest_before \<Rightarrow> u32 \<Rightarrow> 'v highest_before \<Rightarrow> 'v highest_before run" where
  "CollectFrom L other num self = collect_loop L other 0 (unat num) self"

fun gather_loop :: "'v seq_lib \<Rightarrow> 'v highest_before \<Rightarrow> u32 list \<Rightarrow> branch_seq \<times> u64 \<Rightarrow> (branch_seq \<times> u64) res" where
  "gather_loop L other [] acc = Inr acc"
| "gather_loop L other (b # bs) acc =
     (let (hseq, htime) = acc; vseq = sq_Get L (VSeq other) b
      in bind_res (hbt_Get (VTime other) b) (\<lambda>vtime.
           if sq_IsForkDetected L vseq then Inr (vseq, htime)
           else if sq_Seq vseq > sq_Seq hseq then gather_loop L other bs (vseq, vtime)
           else gather_loop L other bs (hseq, htime)))"

definition GatherFrom :: "'v seq_lib \<Rightarrow> u32 \<Rightarrow> 'v highest_before \<Rightarrow> u32 list \<Rightarrow> 'v highest_before \<Rightarrow> 'v highest_before run" where
  "GatherFrom L to other from self =
     bind_run (Some (gather_loop L other from (\<lparr>sq_Seq = 0, sq_MinSeq = 0\<rparr>, 0))) (\<lambda>(hseq, htime).
       hb_SetTime to htime (self\<lparr>VSeq := sq_Set L to hseq (VSeq self)\<rparr>))"

section \<open>Median time\<close>

record median_index =
  mi_weight :: u32
  mi_time :: u64

definition median_entry :: "'v seq_lib \<Rightarrow> (nat \<Rightarrow> u32) \<Rightarrow> u64 \<Rightarrow> 'v highest_before \<Rightarrow> nat \<Rightarrow> median_index res" where
  "median_entry L weightByIdx defaultTime before i =
     bind_res (hbt_Get (VTime before) (word_of_nat i)) (\<lambda>t.
       let seq = sq_Get L (VSeq before) (word_of_nat i)
       in Inr (if sq_IsForkDetected L seq then \<lparr>mi_weight = 0, mi_time = t\<rparr>
               else if sq_Seq seq = 0 then \<lparr>mi_weight = weightByIdx i, mi_time = defaultTime\<rparr>
               else \<lparr>mi_weight = weightByIdx i, mi_time = t\<rparr>))"

fun median_entries ::
  "'v seq_lib \<Rightarrow> (nat \<Rightarrow> u32) \<Rightarrow> u64 \<Rightarrow> 'v highest_before \<Rightarrow> nat list \<Rightarrow> (median_index list \<times> u32) res" where
  "median_entries L w d before [] = Inr ([], 0)"
| "median_entries L w d before (i # is) =
     bind_res (median_entry L w d before i) (\<lambda>h.
       bind_res (median_entries L w d before is) (\<lambda>(hs, total). Inr (h # hs, mi_weight h + total)))"

fun median_loop :: "u32 \<Rightarrow> u32 \<Rightarrow> median_index list \<Rightarrow> u32 \<times> u64" where
  "median_loop halfWeight currWeight [] = (currWeight, 0)"
| "median_loop halfWeight currWeight (h # hs) =
     (let currWeight = currWeight + mi_weight h
      in if currWeight \<ge> halfWeight then (currWeight, mi_time h) else median_loop halfWeight currWeight hs)"

text \<open>\<open>sort.Slice\<close> is not stable; the order among equal times does not matter (see below).\<close>

definition MedianTime ::
  "'v seq_lib \<Rightarrow> (median_index list \<Rightarrow> median_index list) \<Rightarrow> (bytes \<Rightarrow> 'v highest_before option) \<Rightarrow> nat \<Rightarrow> (nat \<Rightarrow> u32) \<Rightarrow>
     bytes \<Rightarrow> u64 \<Rightarrow> u64 res" where
  "MedianTime L sortSlice merged n weightByIdx i defaultTime =
     (case merged i of None \<Rightarrow> Inl (Panic (PanicMsg ''event not found''))
      | Some before \<Rightarrow>
          bind_res (median_entries L weightByIdx defaultTime before [0..<n]) (\<lambda>(highests, honestTotalWeight).
            let halfWeight = honestTotalWeight div 2;
                (currWeight, median) = median_loop halfWeight 0 (sortSlice highests)
            in if currWeight < halfWeight \<or> currWeight > honestTotalWeight
               then Inl (Panic (PanicMsg ''median wasn't calculated correctly'')) else Inr median))"

text \<open>The emitter's filter of parents.\<close>

fun nocheaters_loop ::
  "'v seq_lib \<Rightarrow> (bytes \<Rightarrow> event_payload option) \<Rightarrow> (u32 \<Rightarrow> u32) \<Rightarrow> 'v \<Rightarrow> bytes list \<Rightarrow> bytes list res" where
  "nocheaters_loop L getEvent validatorIdxs highest [] = Inr []"
| "nocheaters_loop L getEvent validatorIdxs highest (i # is) =
     (case getEvent i of None \<Rightarrow> Inl (Panic (PanicMsg ''event not found''))
      | Some e \<Rightarrow> bind_res (nocheaters_loop L getEvent validatorIdxs highest is) (\<lambda>r.
          Inr (if \<not> sq_IsForkDetected L (sq_Get L highest (validatorIdxs (ev_Creator e))) then i # r else r)))"

definition NoCheaters ::
  "'v seq_lib \<Rightarrow> bool \<Rightarrow> (bytes \<Rightarrow> event_payload option) \<Rightarrow> (u32 \<Rightarrow> u32) \<Rightarrow> (bytes \<Rightarrow> 'v) \<Rightarrow>
     bytes option \<Rightarrow> bytes list \<Rightarrow> bytes list res" where
  "NoCheaters L atLeastOneFork getEvent validatorIdxs GetHighestBefore selfParent options =
     (case selfParent of None \<Rightarrow> Inr options
      | Some sp \<Rightarrow> if \<not> atLeastOneFork then Inr options
          else nocheaters_loop L getEvent validatorIdxs (GetHighestBefore sp) options)"

section \<open>The weighted median\<close>

text \<open>Weight as natural numbers: the weight of the entries that satisfy a condition.\<close>

definition wsum :: "(median_index \<Rightarrow> bool) \<Rightarrow> median_index list \<Rightarrow> nat" where
  "wsum P hs = (\<Sum>h \<leftarrow> filter P hs. unat (mi_weight h))"

text \<open>The reference: the least time such that half of the weight is not later.\<close>

definition weighted_median :: "median_index list \<Rightarrow> u64" where
  "weighted_median hs = Min {t \<in> mi_time ` set hs. wsum (\<lambda>_. True) hs div 2 \<le> wsum (\<lambda>h. mi_time h \<le> t) hs}"

lemma wsum_simps [simp]:
  "wsum P [] = 0" "wsum P (h # hs) = (if P h then unat (mi_weight h) else 0) + wsum P hs"
  "wsum P (xs @ ys) = wsum P xs + wsum P ys"
  by (simp_all add: wsum_def)

lemma wsum_mono: "(\<And>h. h \<in> set hs \<Longrightarrow> P h \<Longrightarrow> Q h) \<Longrightarrow> wsum P hs \<le> wsum Q hs"
  by (induction hs) (auto simp: add_mono trans_le_add2)

lemma wsum_mset: "mset xs = mset ys \<Longrightarrow> wsum P xs = wsum P ys"
proof -
  have "wsum P zs = sum_mset (image_mset (\<lambda>h. unat (mi_weight h)) (filter_mset P (mset zs)))" for zs
    by (simp add: wsum_def sum_mset_sum_list flip: mset_map mset_filter)
  then show "mset xs = mset ys \<Longrightarrow> wsum P xs = wsum P ys" by simp
qed

lemma wsum_disjoint: "(\<And>h. h \<in> set hs \<Longrightarrow> \<not> (P h \<and> Q h)) \<Longrightarrow> wsum P hs + wsum Q hs \<le> wsum (\<lambda>_. True) hs"
proof (induction hs)
  case (Cons h hs)
  then show ?case using Cons.IH Cons.prems [of h] by auto
qed simp

text \<open>The loop over the sorted list stops at the reference median.\<close>

lemma median_loop_sorted:
  assumes "sorted (map mi_time (xs @ ys))" "unat c = wsum (\<lambda>_. True) xs" "wsum (\<lambda>_. True) (xs @ ys) < 2 ^ 32"
    "\<forall>h \<in> set xs. wsum (\<lambda>g. mi_time g \<le> mi_time h) xs < unat half" "ys \<noteq> []" "unat half \<le> wsum (\<lambda>_. True) (xs @ ys)"
  shows "\<exists>c' m. median_loop half c ys = (c', m) \<and> half \<le> c' \<and> unat c' \<le> wsum (\<lambda>_. True) (xs @ ys) \<and>
    m \<in> mi_time ` set ys \<and> unat half \<le> wsum (\<lambda>h. mi_time h \<le> m) (xs @ ys) \<and>
    (\<forall>t \<in> mi_time ` set (xs @ ys). t < m \<longrightarrow> wsum (\<lambda>h. mi_time h \<le> t) (xs @ ys) < unat half)"
  using assms
proof (induction ys arbitrary: xs c)
  case (Cons y ys)
  let ?all = "xs @ y # ys" and ?c = "c + mi_weight y"
  have uc: "unat ?c = wsum (\<lambda>_. True) (xs @ [y])"
    using Cons.prems(2,3) by (subst unat_add_small) simp_all
  have le: "wsum (\<lambda>h. mi_time h \<le> mi_time y) xs = wsum (\<lambda>_. True) xs"
  proof -
    have "filter (\<lambda>h. mi_time h \<le> mi_time y) xs = filter (\<lambda>_. True) xs"
      using Cons.prems(1) by (intro filter_cong) (auto simp: sorted_append)
    then show ?thesis by (simp only: wsum_def)
  qed
  show ?case
  proof (cases "half \<le> ?c")
    case True
    have "unat half \<le> wsum (\<lambda>h. mi_time h \<le> mi_time y) ?all" using True uc le by (simp add: word_le_nat_alt)
    moreover have "wsum (\<lambda>h. mi_time h \<le> t) ?all < unat half" if t: "t \<in> mi_time ` set ?all" "t < mi_time y" for t
    proof -
      have later: "wsum (\<lambda>h. mi_time h \<le> t) (y # ys) = 0"
      proof -
        have "filter (\<lambda>h. mi_time h \<le> t) (y # ys) = []"
          using Cons.prems(1) t(2) by (auto simp: filter_empty_conv sorted_append)
        then show ?thesis by (simp only: wsum_def) simp
      qed
      have "\<exists>x \<in> set xs. t = mi_time x" using t Cons.prems(1) by (auto simp: sorted_append)
      then have "wsum (\<lambda>h. mi_time h \<le> t) xs < unat half" using Cons.prems(4) by auto
      with later show ?thesis by (simp only: wsum_simps(3))
    qed
    ultimately show ?thesis using True uc Cons.prems(3) by (auto simp: Let_def)
  next
    case False
    then have lt: "wsum (\<lambda>_. True) (xs @ [y]) < unat half" using uc by (simp add: word_le_nat_alt)
    then have ys: "ys \<noteq> []" using Cons.prems(6) by auto
    have "wsum (\<lambda>g. mi_time g \<le> t) (xs @ [y]) < unat half" for t
      by (rule le_less_trans [OF wsum_mono lt]) simp
    then have bound: "\<forall>h \<in> set (xs @ [y]). wsum (\<lambda>g. mi_time g \<le> mi_time h) (xs @ [y]) < unat half" by blast
    have app: "(xs @ [y]) @ ys = ?all" by simp
    have step: "median_loop half c (y # ys) = median_loop half ?c ys" using False by (simp add: Let_def)
    have sub: "mi_time ` set ys \<subseteq> mi_time ` set (y # ys)" by auto
    from Cons.IH [of "xs @ [y]" ?c, unfolded app, OF Cons.prems(1) uc Cons.prems(3) bound ys Cons.prems(6)]
    obtain c' m where r: "median_loop half ?c ys = (c', m)" "half \<le> c'" "unat c' \<le> wsum (\<lambda>_. True) ?all" "m \<in> mi_time ` set ys"
      and r': "unat half \<le> wsum (\<lambda>h. mi_time h \<le> m) ?all"
        "\<forall>t \<in> mi_time ` set ?all. t < m \<longrightarrow> wsum (\<lambda>h. mi_time h \<le> t) ?all < unat half"
      by (elim exE conjE) (rule that)
    then show ?thesis
      by (intro exI [of _ c'] exI [of _ m] conjI) (simp only: step, assumption+, insert sub, rule subsetD, assumption+)
  qed
qed simp

lemma median_loop_reference:
  assumes "mset xs = mset hs" "sorted (map mi_time xs)" "hs \<noteq> []" "wsum (\<lambda>_. True) hs < 2 ^ 32"
    "unat half = wsum (\<lambda>_. True) hs div 2"
  shows "\<exists>c. median_loop half 0 xs = (c, weighted_median hs) \<and> half \<le> c \<and> unat c \<le> wsum (\<lambda>_. True) hs"
proof -
  note w = wsum_mset [OF assms(1)]
  have s: "set xs = set hs" using assms(1) mset_eq_setD by blast
  have ne: "xs \<noteq> []" using assms(1,3) by auto
  obtain c m where r: "median_loop half 0 xs = (c, m)" "half \<le> c" "unat c \<le> wsum (\<lambda>_. True) hs" "m \<in> mi_time ` set hs"
      "unat half \<le> wsum (\<lambda>h. mi_time h \<le> m) hs"
      "\<forall>t \<in> mi_time ` set hs. t < m \<longrightarrow> wsum (\<lambda>h. mi_time h \<le> t) hs < unat half"
    using median_loop_sorted [of "[]" xs 0 half] assms ne by (auto simp: w s)
  have "weighted_median hs = m"
    unfolding weighted_median_def assms(5) [symmetric]
  proof (rule Min_eqI)
    fix t assume "t \<in> {t \<in> mi_time ` set hs. unat half \<le> wsum (\<lambda>h. mi_time h \<le> t) hs}"
    then have t: "t \<in> mi_time ` set hs" "\<not> wsum (\<lambda>h. mi_time h \<le> t) hs < unat half" by simp_all
    with r(6) have "\<not> t < m" by blast
    then show "m \<le> t" by simp
  qed (use r(4,5) in auto)
  with r(1-3) show ?thesis by blast
qed

text \<open>The reference has half of the weight not later, and less than half earlier.\<close>

lemma weighted_median_halves:
  assumes "hs \<noteq> []"
  defines "m \<equiv> weighted_median hs" and "half \<equiv> wsum (\<lambda>_. True) hs div 2"
  shows "half \<le> wsum (\<lambda>h. mi_time h \<le> m) hs" "wsum (\<lambda>h. mi_time h < m) hs < half \<or> wsum (\<lambda>h. mi_time h < m) hs = 0"
proof -
  let ?S = "{t \<in> mi_time ` set hs. half \<le> wsum (\<lambda>h. mi_time h \<le> t) hs}"
  let ?T = "Max (mi_time ` set hs)"
  have "filter (\<lambda>h. mi_time h \<le> ?T) hs = filter (\<lambda>_. True) hs" by (rule filter_cong) auto
  then have "wsum (\<lambda>h. mi_time h \<le> ?T) hs = wsum (\<lambda>_. True) hs" by (simp only: wsum_def)
  then have "?T \<in> ?S" using assms(1) by (auto simp: half_def intro: Max_in)
  then have "m \<in> ?S" unfolding m_def weighted_median_def half_def by (intro Min_in) auto
  then show "half \<le> wsum (\<lambda>h. mi_time h \<le> m) hs" by simp
  let ?E = "{t \<in> mi_time ` set hs. t < m}"
  show "wsum (\<lambda>h. mi_time h < m) hs < half \<or> wsum (\<lambda>h. mi_time h < m) hs = 0"
  proof (cases "?E = {}")
    case True
    then have "filter (\<lambda>h. mi_time h < m) hs = []" by (auto simp: filter_empty_conv)
    then show ?thesis by (simp add: wsum_def)
  next
    case False
    then have t: "Max ?E \<in> ?E" by (intro Max_in) auto
    have "filter (\<lambda>h. mi_time h < m) hs = filter (\<lambda>h. mi_time h \<le> Max ?E) hs"
      using t by (intro filter_cong) (auto intro: Max_ge)
    then have "wsum (\<lambda>h. mi_time h < m) hs = wsum (\<lambda>h. mi_time h \<le> Max ?E) hs" by (simp only: wsum_def)
    moreover have "Max ?E \<notin> ?S"
    proof
      assume "Max ?E \<in> ?S"
      then have "m \<le> Max ?E" unfolding m_def weighted_median_def half_def by (intro Min_le) auto
      with t show False by auto
    qed
    ultimately show ?thesis using t by auto
  qed
qed

section \<open>Vectors that read and write\<close>

lemma get_u64_upto: "horner_sum (\<lambda>x. ucast x) 256 (map (\<lambda>k. ucast (drop_bit (8 * k) (v :: u64)) :: u8) [0..<n]) = take_bit (8 * n) v"
proof (induction n arbitrary: v)
  case (Suc n)
  have m: "map (\<lambda>k. ucast (drop_bit (8 * k) v) :: u8) [0..<Suc n] = ucast v # map (\<lambda>k. ucast (drop_bit (8 * k) (drop_bit 8 v))) [0..<n]"
    by (simp add: upt_conv_Cons map_Suc_upt [symmetric] del: upt_Suc) (simp add: add.commute)
  have lo: "(ucast (ucast v :: u8) :: u64) = take_bit 8 v" by (rule bit_word_eqI) (auto simp: bit_simps)
  have "take_bit (8 * Suc n) v = take_bit 8 v + 256 * take_bit (8 * n) (drop_bit 8 v)"
  proof -
    let ?hi = "push_bit 8 (take_bit (8 * n) (drop_bit 8 v))"
    have "take_bit 8 v + ?hi = take_bit 8 v OR ?hi" by (rule disjunctive_add) (auto simp: bit_simps)
    also have "\<dots> = take_bit (8 * Suc n) v" by (rule bit_word_eqI) (auto simp: bit_simps)
    finally show ?thesis by (simp add: push_bit_eq_mult mult.commute)
  qed
  then show ?case unfolding m using Suc.IH [of "drop_bit 8 v"] lo by simp
qed simp

lemma get_put_u64: "get_u64 (put_u64 v) = v" "length (put_u64 v) = 8"
  using get_u64_upto [of v 8] by (simp_all add: get_u64_def put_u64_def take_bit_word_eq_self)

text \<open>A vector of whole entries, short enough for 32-bit offsets.\<close>

definition hbt_ok :: "bytes \<Rightarrow> bool" where
  "hbt_ok b \<longleftrightarrow> 8 dvd length b \<and> length b < 2 ^ 32 - 8"

definition times_of :: "bytes \<Rightarrow> nat \<Rightarrow> u64" where
  "times_of b i = (if i < length b div 8 then get_u64 (take 8 (drop (8 * i) b)) else 0)"

lemma hbt_Size_ok: "hbt_ok b \<Longrightarrow> unat (hbt_Size b) = length b div 8"
  by (auto simp: hbt_ok_def hbt_Size_def intro!: unat_small_nat)

lemma slot_ok:
  assumes "hbt_ok b" "unat i < length b div 8"
  shows "hbt_slot b i = Inr (take 8 (drop (8 * unat i) b))" "unat (i * 8) = 8 * unat i"
proof -
  have len: "8 * unat i + 8 \<le> length b" using assms by (auto simp: hbt_ok_def)
  have u: "unat (i * 8) = 8 * unat i"
    using len assms(1) by (subst unat_mult_lem [THEN iffD1]) (simp_all add: hbt_ok_def)
  have u1: "unat ((i + 1) * 8) = 8 * unat i + 8"
  proof -
    have "unat (i * 8 + 8) = 8 * unat i + 8" using u len assms(1) by (subst unat_add_small) (simp_all add: hbt_ok_def)
    then show ?thesis by (simp add: ring_distribs)
  qed
  show "unat (i * 8) = 8 * unat i" by (rule u)
  show "hbt_slot b i = Inr (take 8 (drop (8 * unat i) b))"
    using len assms(1) u u1
    by (simp add: hbt_slot_def go_slice_def word_le_nat_alt unsigned_ucast_eq hbt_ok_def take_bit_nat_eq_self del: distrib_right_numeral)
qed

lemma hbt_Get_ok: "hbt_ok b \<Longrightarrow> hbt_Get b i = Inr (times_of b (unat i))"
  using hbt_Size_ok [of b] slot_ok(1) [of b i] by (auto simp: hbt_Get_def times_of_def word_le_nat_alt)

lemma hbt_NewHighestBeforeTime:
  "unat n < 2 ^ 29 - 1 \<Longrightarrow> hbt_ok (NewHighestBeforeTime n) \<and> length (NewHighestBeforeTime n) div 8 = unat n"
  by (simp add: hbt_ok_def NewHighestBeforeTime_def unat_mult_lem [THEN iffD1])

text \<open>The loop of \<open>Set\<close> ends for every index that a network can have.\<close>

lemma hbt_grow_ok:
  assumes "hbt_ok b" "unat i < 2 ^ 29 - 2"
  shows "\<exists>z. hbt_grow i b = Some (b @ replicate z 0) \<and> hbt_ok (b @ replicate z 0) \<and> unat i < length (b @ replicate z (0 :: u8)) div 8 \<and> 8 dvd z"
  using assms(1)
proof (induction "Suc (unat i) - length b div 8" arbitrary: b)
  case 0
  then have "\<not> hbt_Size b \<le> i" "unat i < length b div 8" using hbt_Size_ok [of b] by (auto simp: word_le_nat_alt)
  then show ?case using 0 by (intro exI [of _ 0]) (simp add: hbt_grow.simps)
next
  case (Suc k)
  let ?b = "b @ replicate 8 (0 :: u8)"
  have le: "length b div 8 \<le> unat i" using Suc.hyps(2) by simp
  then have small: "length b \<le> 8 * unat i" using Suc.prems by (auto simp: hbt_ok_def)
  have ok: "hbt_ok ?b" using Suc.prems small assms(2) by (simp add: hbt_ok_def)
  have "k = Suc (unat i) - length ?b div 8" using Suc.hyps(2) by simp
  from Suc.hyps(1) [OF this ok] obtain z where
    z: "hbt_grow i ?b = Some (?b @ replicate z 0)" "hbt_ok (?b @ replicate z 0)" "unat i < length (?b @ replicate z (0 :: u8)) div 8" "8 dvd z"
    by blast
  have "hbt_Size b \<le> i" using hbt_Size_ok [OF Suc.prems] le by (simp add: word_le_nat_alt)
  then have "hbt_grow i b = hbt_grow i ?b" by (simp add: hbt_grow.simps [of i b])
  with z show ?case by (intro exI [of _ "8 + z"]) (simp add: replicate_add)
qed

lemma times_of_update:
  assumes "8 * i + 8 \<le> length g" "length p = 8"
  shows "times_of (take (8 * i) g @ p @ drop (8 * i + 8) g) = (times_of g)(i := get_u64 p)"
proof
  fix j
  let ?b = "take (8 * i) g @ p @ drop (8 * i + 8) g"
  have len: "length ?b = length g" using assms by simp
  have "take 8 (drop (8 * j) ?b) = (if j = i then p else take 8 (drop (8 * j) g))"
  proof (cases j i rule: linorder_cases)
    case less
    then have le: "8 * j + 8 \<le> 8 * i" by linarith
    then have "take 8 (drop (8 * j) ?b) = take 8 (drop (8 * j) (take (8 * i) g))" using assms(1) by simp
    also have "\<dots> = take 8 (drop (8 * j) g)" using le by (simp add: drop_take min_def)
    finally show ?thesis using less by simp
  next
    case equal
    then show ?thesis using assms by simp
  next
    case greater
    then have le: "8 * i + 8 \<le> 8 * j" by linarith
    have "drop (8 * j) ?b = drop (8 * j - (8 * i + 8)) (drop (8 * i + 8) g)" using assms le by simp
    also have "\<dots> = drop (8 * j) g" using le by (simp only: drop_drop) simp
    finally show ?thesis using greater by simp
  qed
  note slot = this
  have "i < length g div 8" using assms(1) by linarith
  then show "times_of ?b j = ((times_of g)(i := get_u64 p)) j"
    unfolding times_of_def len slot by simp
qed

lemma times_of_grown:
  assumes "8 dvd length b" "8 dvd z"
  shows "times_of (b @ replicate z 0) = times_of b"
proof
  fix j
  have gz: "get_u64 (replicate 8 0) = 0" by (simp add: get_u64_def numeral_eq_Suc)
  obtain m k where m: "length b = 8 * m" and k: "z = 8 * k" using assms by (elim dvdE)
  consider "j < m" | "m \<le> j" "j < m + k" | "m + k \<le> j" by linarith
  then show "times_of (b @ replicate z 0) j = times_of b j"
  proof cases
    case 1
    then have "8 * j + 8 \<le> length b" using m by linarith
    then have "take 8 (drop (8 * j) (b @ replicate z 0)) = take 8 (drop (8 * j) b)" by simp
    with 1 m k show ?thesis by (simp add: times_of_def)
  next
    case 2
    then have "take 8 (drop (8 * j) (b @ replicate z 0)) = replicate 8 (0 :: u8)" using m k by (simp add: min_def)
    with 2 m k gz show ?thesis by (simp add: times_of_def)
  next
    case 3
    with m k show ?thesis by (simp add: times_of_def)
  qed
qed

lemma hbt_Set_ok:
  assumes "hbt_ok b" "unat i < 2 ^ 29 - 2"
  shows "\<exists>b'. hbt_Set i t b = Some (Inr b') \<and> hbt_ok b' \<and> times_of b' = (times_of b)(unat i := t)"
proof -
  obtain z where z: "hbt_grow i b = Some (b @ replicate z 0)" "hbt_ok (b @ replicate z 0)"
      "unat i < length (b @ replicate z (0 :: u8)) div 8" "8 dvd z"
    using hbt_grow_ok [OF assms] by blast
  define g where "g = b @ replicate z (0 :: u8)"
  let ?b' = "take (8 * unat i) g @ put_u64 t @ drop (8 * unat i + 8) g"
  have len: "8 * unat i + 8 \<le> length g" using z(2,3) unfolding g_def [symmetric] hbt_ok_def by linarith
  have "hbt_Set i t b = Some (Inr ?b')" using slot_ok [of g i] z by (simp add: hbt_Set_def g_def)
  moreover have "hbt_ok ?b'" using z(2) len get_put_u64(2) [of t] unfolding g_def [symmetric] hbt_ok_def by simp
  moreover have "times_of ?b' = (times_of b)(unat i := t)"
    using times_of_update [OF len get_put_u64(2) [of t]] times_of_grown [of b z] z(4) assms(1) get_put_u64(1) [of t]
    by (simp add: g_def hbt_ok_def)
  ultimately show ?thesis by blast
qed

section \<open>Merging vector clocks\<close>

definition hb_ok :: "'v highest_before \<Rightarrow> bool" where "hb_ok b \<longleftrightarrow> hbt_ok (VTime b)"

abbreviation forked :: "'v seq_lib \<Rightarrow> 'v highest_before \<Rightarrow> u32 \<Rightarrow> bool" where
  "forked L b i \<equiv> sq_IsForkDetected L (sq_Get L (VSeq b) i)"

abbreviation seq_at :: "'v seq_lib \<Rightarrow> 'v highest_before \<Rightarrow> u32 \<Rightarrow> u32" where
  "seq_at L b i \<equiv> sq_Seq (sq_Get L (VSeq b) i)"

abbreviation time_at :: "'v highest_before \<Rightarrow> u32 \<Rightarrow> u64" where
  "time_at b i \<equiv> times_of (VTime b) (unat i)"

text \<open>What one branch of a merged clock holds: a fork that either observes, otherwise the higher
  sequence number and the time that belongs to it.\<close>

definition merged_at :: "'v seq_lib \<Rightarrow> 'v highest_before \<Rightarrow> 'v highest_before \<Rightarrow> 'v highest_before \<Rightarrow> u32 \<Rightarrow> bool" where
  "merged_at L self other r i \<longleftrightarrow>
     (forked L r i \<longleftrightarrow> forked L self i \<or> forked L other i) \<and>
     (\<not> forked L r i \<longrightarrow> seq_at L r i = max (seq_at L self i) (seq_at L other i) \<and>
        time_at r i = (if seq_at L self i < seq_at L other i then time_at other i else time_at self i))"

definition same_at :: "'v seq_lib \<Rightarrow> 'v highest_before \<Rightarrow> 'v highest_before \<Rightarrow> u32 \<Rightarrow> bool" where
  "same_at L self r i \<longleftrightarrow> sq_Get L (VSeq r) i = sq_Get L (VSeq self) i \<and> time_at r i = time_at self i"

lemma hb_SetTime_ok:
  assumes "hb_ok b" "unat i < 2 ^ 29 - 2"
  shows "\<exists>vt. hb_SetTime i t b = Some (Inr (b\<lparr>VTime := vt\<rparr>)) \<and> hbt_ok vt \<and> times_of vt = (times_of (VTime b))(unat i := t)"
  using hbt_Set_ok [of "VTime b" i t] assms by (auto simp: hb_SetTime_def hb_ok_def)

lemma collect_branch_ok:
  assumes L: "seq_lib_ok L" and ok: "hb_ok other" "hb_ok self" "unat i < 2 ^ 29 - 2"
  shows "\<exists>r. collect_branch L other i self = Some (Inr r) \<and> hb_ok r \<and> merged_at L self other r i \<and> (\<forall>j. j \<noteq> i \<longrightarrow> same_at L self r j)"
proof -
  let ?his = "sq_Get L (VSeq other) i" and ?my = "sq_Get L (VSeq self) i"
  have seq0: "sq_IsForkDetected L x \<Longrightarrow> sq_Seq x = 0" for x using L by (simp add: seq_lib_ok_def)
  consider (none) "sq_Seq ?his = 0" "\<not> sq_IsForkDetected L ?his" | (mine) "sq_IsForkDetected L ?my" "sq_Seq ?his \<noteq> 0 \<or> sq_IsForkDetected L ?his"
    | (his) "\<not> sq_IsForkDetected L ?my" "sq_IsForkDetected L ?his" | (both) "\<not> sq_IsForkDetected L ?my" "\<not> sq_IsForkDetected L ?his" "sq_Seq ?his \<noteq> 0"
    by blast
  then show ?thesis
  proof cases
    case none
    then show ?thesis using ok(2) seq0 by (auto simp: collect_branch_def Let_def merged_at_def same_at_def max_def)
  next
    case mine
    then show ?thesis using ok(2) by (auto simp: collect_branch_def Let_def merged_at_def same_at_def)
  next
    case his
    then show ?thesis using ok(2) L seq0 [OF his(2)]
      by (auto simp: collect_branch_def Let_def merged_at_def same_at_def hb_SetForkDetected_def seq_lib_ok_def hb_ok_def)
  next
    case both
    define takeMin where "takeMin \<longleftrightarrow> sq_Seq ?my = 0 \<or> sq_MinSeq ?my > sq_MinSeq ?his"
    define my1 where "my1 = (if takeMin then ?my\<lparr>sq_MinSeq := sq_MinSeq ?his\<rparr> else ?my)"
    define self1 where "self1 = (if takeMin then self\<lparr>VSeq := sq_Set L i my1 (VSeq self)\<rparr> else self)"
    have s1: "sq_Seq my1 = sq_Seq ?my" "sq_Get L (VSeq self1) i = my1" "VTime self1 = VTime self"
        "j \<noteq> i \<Longrightarrow> sq_Get L (VSeq self1) j = sq_Get L (VSeq self) j" for j
      using L by (simp_all add: seq_lib_ok_def my1_def self1_def)
    define self2 where "self2 = self1\<lparr>VSeq := sq_Set L i (my1\<lparr>sq_Seq := sq_Seq ?his\<rparr>) (VSeq self1)\<rparr>"
    have s2: "seq_at L self2 i = sq_Seq ?his" "VTime self2 = VTime self"
        "j \<noteq> i \<Longrightarrow> sq_Get L (VSeq self2) j = sq_Get L (VSeq self) j" for j
      using L s1(3,4) by (simp_all add: seq_lib_ok_def self2_def)
    have run: "collect_branch L other i self =
        (if sq_Seq ?my < sq_Seq ?his then hb_SetTime i (time_at other i) self2 else Some (Inr self1))"
      using both hbt_Get_ok [of "VTime other" i] ok(1) s1(1)
      unfolding collect_branch_def Let_def takeMin_def [symmetric] my1_def [symmetric] self1_def [symmetric] self2_def hb_ok_def
      by simp
    show ?thesis
    proof (cases "sq_Seq ?my < sq_Seq ?his")
      case True
      have nf: "\<not> forked L self2 i" using s2(1) both(3) seq0 [of "sq_Get L (VSeq self2) i"] by auto
      obtain vt where vt: "hb_SetTime i (time_at other i) self2 = Some (Inr (self2\<lparr>VTime := vt\<rparr>))" "hbt_ok vt"
          "times_of vt = (times_of (VTime self))(unat i := time_at other i)"
        using hb_SetTime_ok [of self2 i "time_at other i"] ok s2(2) by (auto simp: hb_ok_def)
      have "merged_at L self other (self2\<lparr>VTime := vt\<rparr>) i" using both(1,2) s2(1) nf vt(3) True less_imp_le [OF True]
        by (simp add: merged_at_def max_def)
      moreover have "same_at L self (self2\<lparr>VTime := vt\<rparr>) j" if "j \<noteq> i" for j
        using that s2(3) vt(3) word_unat_eq_iff [of j i] by (simp add: same_at_def)
      ultimately show ?thesis using vt(1,2) run True by (auto simp: hb_ok_def)
    next
      case False
      have nz: "sq_Seq ?my \<noteq> 0" using False both(3) word_gt_0 [of "sq_Seq ?his"] by auto
      then have nf: "\<not> forked L self1 i" using s1(1,2) seq0 [of my1] by auto
      have "merged_at L self other self1 i" using both s1 nf False by (auto simp: merged_at_def max_def)
      moreover have "same_at L self self1 j" if "j \<noteq> i" for j using that s1 by (simp add: same_at_def)
      ultimately show ?thesis using run False ok(2) s1(3) by (auto simp: hb_ok_def)
    qed
  qed
qed

text \<open>\<open>CollectFrom\<close> returns, merges every branch below \<open>num\<close> and leaves the others.\<close>

lemma CollectFrom_merges:
  assumes L: "seq_lib_ok L" and ok: "hb_ok other" "hb_ok self" "unat num < 2 ^ 29 - 2"
  shows "\<exists>r. CollectFrom L other num self = Some (Inr r) \<and> hb_ok r \<and>
    (\<forall>i < num. merged_at L self other r i) \<and> (\<forall>i \<ge> num. same_at L self r i)"
proof -
  have "\<exists>r. collect_loop L other b k s = Some (Inr r) \<and> hb_ok r \<and>
      (\<forall>i. if b \<le> unat i \<and> unat i < b + k then merged_at L s other r i else same_at L s r i)"
    if "b + k \<le> unat num" "hb_ok s" for b k s
    using that
  proof (induction k arbitrary: b s)
    case 0
    then show ?case by (auto simp: same_at_def)
  next
    case (Suc k)
    let ?i = "word_of_nat b :: u32"
    have ui: "unat ?i = b" using Suc.prems(1) ok(3) by (intro unat_small_nat) simp
    obtain r where r: "collect_branch L other ?i s = Some (Inr r)" "hb_ok r" "merged_at L s other r ?i" "\<forall>j. j \<noteq> ?i \<longrightarrow> same_at L s r j"
      using collect_branch_ok [OF L ok(1) Suc.prems(2), of ?i] Suc.prems(1) ok(3) ui by auto
    obtain r' where r': "collect_loop L other (b + 1) k r = Some (Inr r')" "hb_ok r'"
        "\<forall>i. if b + 1 \<le> unat i \<and> unat i < b + 1 + k then merged_at L r other r' i else same_at L r r' i"
      using Suc.IH [of "b + 1" r] Suc.prems(1) r(2) by auto
    have "if b \<le> unat i \<and> unat i < b + Suc k then merged_at L s other r' i else same_at L s r' i" for i
    proof (cases "i = ?i")
      case True
      then have "same_at L r r' i" using r'(3) [rule_format, of i] ui by simp
      then show ?thesis using r(3) True ui by (simp add: merged_at_def same_at_def)
    next
      case False
      then have "same_at L s r i" "unat i \<noteq> b" using r(4) ui word_unat_eq_iff [of i ?i] by auto
      moreover have "if b \<le> unat i \<and> unat i < b + Suc k then merged_at L r other r' i else same_at L r r' i"
        using r'(3) [rule_format, of i] \<open>unat i \<noteq> b\<close> by (auto split: if_splits)
      ultimately show ?thesis by (auto simp: merged_at_def same_at_def split: if_splits)
    qed
    then show ?case using r r' by auto
  qed
  from this [of 0 "unat num" self] obtain r where r: "CollectFrom L other num self = Some (Inr r)" "hb_ok r"
      "\<forall>i. if unat i < unat num then merged_at L self other r i else same_at L self r i"
    using ok(2) by (auto simp: CollectFrom_def)
  show ?thesis
  proof (intro exI conjI allI impI)
    show "merged_at L self other r i" if "i < num" for i using r(3) that by (simp add: word_less_nat_alt)
    show "same_at L self r i" if "num \<le> i" for i using r(3) that by (simp add: word_le_nat_alt)
  qed (rule r)+
qed

text \<open>\<open>GatherFrom\<close> takes the highest branch and its time, or a detected fork.\<close>

lemma gather_loop_highest:
  assumes "hb_ok other"
  shows "\<exists>s t. gather_loop L other from (s0, t0) = Inr (s, t) \<and>
    ((\<exists>b \<in> set from. forked L other b) \<longrightarrow> sq_IsForkDetected L s) \<and>
    ((\<forall>b \<in> set from. \<not> forked L other b) \<longrightarrow>
       sq_Seq s0 \<le> sq_Seq s \<and> (\<forall>b \<in> set from. seq_at L other b \<le> sq_Seq s) \<and>
       ((s, t) = (s0, t0) \<or> (\<exists>b \<in> set from. s = sq_Get L (VSeq other) b \<and> t = time_at other b)))"
proof (induction "from" arbitrary: s0 t0)
  case (Cons b bs)
  have g: "hbt_Get (VTime other) b = Inr (time_at other b)" using hbt_Get_ok assms by (simp add: hb_ok_def)
  let ?x = "sq_Get L (VSeq other) b"
  consider "sq_IsForkDetected L ?x" | "\<not> sq_IsForkDetected L ?x" "sq_Seq ?x > sq_Seq s0" | "\<not> sq_IsForkDetected L ?x" "\<not> sq_Seq ?x > sq_Seq s0" by blast
  then show ?case
  proof cases
    case 1
    then show ?thesis using g by simp
  next
    case 2
    then have "gather_loop L other (b # bs) (s0, t0) = gather_loop L other bs (?x, time_at other b)" using g by simp
    moreover have "sq_Seq s0 \<le> sq_Seq s" if "sq_Seq ?x \<le> sq_Seq s" for s using that 2(2) by (meson less_imp_le order_trans)
    moreover obtain s t where "gather_loop L other bs (?x, time_at other b) = Inr (s, t)"
        "(\<exists>b \<in> set bs. forked L other b) \<longrightarrow> sq_IsForkDetected L s"
        "(\<forall>b \<in> set bs. \<not> forked L other b) \<longrightarrow> sq_Seq ?x \<le> sq_Seq s \<and> (\<forall>b \<in> set bs. seq_at L other b \<le> sq_Seq s) \<and>
           ((s, t) = (?x, time_at other b) \<or> (\<exists>b \<in> set bs. s = sq_Get L (VSeq other) b \<and> t = time_at other b))"
      using Cons.IH [of ?x "time_at other b"] by blast
    ultimately show ?thesis using 2(1) by (intro exI [of _ s] exI [of _ t]) (auto simp del: gather_loop.simps)
  next
    case 3
    then have "gather_loop L other (b # bs) (s0, t0) = gather_loop L other bs (s0, t0)" using g by simp
    moreover have "sq_Seq ?x \<le> sq_Seq s" if "sq_Seq s0 \<le> sq_Seq s" for s using that 3(2) by (meson not_less order_trans)
    moreover obtain s t where "gather_loop L other bs (s0, t0) = Inr (s, t)"
        "(\<exists>b \<in> set bs. forked L other b) \<longrightarrow> sq_IsForkDetected L s"
        "(\<forall>b \<in> set bs. \<not> forked L other b) \<longrightarrow> sq_Seq s0 \<le> sq_Seq s \<and> (\<forall>b \<in> set bs. seq_at L other b \<le> sq_Seq s) \<and>
           ((s, t) = (s0, t0) \<or> (\<exists>b \<in> set bs. s = sq_Get L (VSeq other) b \<and> t = time_at other b))"
      using Cons.IH [of s0 t0] by blast
    ultimately show ?thesis using 3(1) by (intro exI [of _ s] exI [of _ t]) (auto simp del: gather_loop.simps)
  qed
qed simp

lemma nocheaters_loop_filter:
  assumes "\<forall>i \<in> set is. getEvent i \<noteq> None"
  shows "nocheaters_loop L getEvent vidx hi is =
    Inr (filter (\<lambda>i. \<not> sq_IsForkDetected L (sq_Get L hi (vidx (ev_Creator (the (getEvent i)))))) is)"
  using assms by (induction "is") auto

section \<open>Properties\<close>

text \<open>What \<open>MedianTime\<close> takes into account: the validators that are not known cheaters, each with its
  weight and the time of its highest observed event, or the default without one.\<close>

definition observed_time :: "'v seq_lib \<Rightarrow> u64 \<Rightarrow> 'v highest_before \<Rightarrow> nat \<Rightarrow> u64" where
  "observed_time L d before i = (if seq_at L before (word_of_nat i) = 0 then d else times_of (VTime before) i)"

definition honest :: "'v seq_lib \<Rightarrow> 'v highest_before \<Rightarrow> nat \<Rightarrow> nat set" where
  "honest L before n = {i. i < n \<and> \<not> forked L before (word_of_nat i)}"

definition weight_of :: "(nat \<Rightarrow> u32) \<Rightarrow> nat set \<Rightarrow> nat" where
  "weight_of w A = (\<Sum>i \<in> A. unat (w i))"

definition entry_of :: "'v seq_lib \<Rightarrow> (nat \<Rightarrow> u32) \<Rightarrow> u64 \<Rightarrow> 'v highest_before \<Rightarrow> nat \<Rightarrow> median_index" where
  "entry_of L w d before i =
     (if forked L before (word_of_nat i) then \<lparr>mi_weight = 0, mi_time = times_of (VTime before) i\<rparr>
      else \<lparr>mi_weight = w i, mi_time = observed_time L d before i\<rparr>)"

lemma median_entries_ok:
  assumes "hb_ok before" "\<forall>i \<in> set is. i < 2 ^ 32" "(\<Sum>i \<leftarrow> is. unat (mi_weight (entry_of L w d before i))) < 2 ^ 32"
  shows "\<exists>total. median_entries L w d before is = Inr (map (entry_of L w d before) is, total) \<and>
    unat total = (\<Sum>i \<leftarrow> is. unat (mi_weight (entry_of L w d before i)))"
  using assms(2,3)
proof (induction "is")
  case (Cons i "is")
  have "unat (word_of_nat i :: u32) = i" using Cons.prems(1) by (intro unat_small_nat) simp
  then have "median_entry L w d before i = Inr (entry_of L w d before i)"
    using hbt_Get_ok [of "VTime before" "word_of_nat i"] assms(1)
    by (auto simp: median_entry_def entry_of_def observed_time_def hb_ok_def Let_def)
  moreover obtain total where "median_entries L w d before is = Inr (map (entry_of L w d before) is, total)"
      "unat total = (\<Sum>i \<leftarrow> is. unat (mi_weight (entry_of L w d before i)))"
    using Cons.IH Cons.prems by auto
  ultimately show ?case using Cons.prems(2) by (simp add: unat_add_small)
qed simp

lemma wsum_entries:
  assumes "\<And>i. i < n \<Longrightarrow> i \<in> honest L before n \<Longrightarrow> P (entry_of L w d before i) \<longleftrightarrow> Q i"
  shows "wsum P (map (entry_of L w d before) [0..<n]) = weight_of w {i \<in> honest L before n. Q i}"
proof -
  let ?e = "entry_of L w d before" and ?f = "\<lambda>i. unat (mi_weight (entry_of L w d before i))"
  have "wsum P (map ?e [0..<n]) = (\<Sum>i \<leftarrow> filter (\<lambda>i. P (?e i)) [0..<n]. ?f i)"
    by (simp add: wsum_def filter_map o_def)
  also have "\<dots> = sum ?f {i. i < n \<and> P (?e i)}" by (subst sum_list_distinct_conv_sum_set) (auto intro: sum.cong)
  also have "\<dots> = sum ?f {i \<in> honest L before n. Q i}"
    using assms by (intro sum.mono_neutral_right) (auto simp: honest_def entry_of_def)
  also have "\<dots> = weight_of w {i \<in> honest L before n. Q i}"
    unfolding weight_of_def by (rule sum.cong) (auto simp: honest_def entry_of_def)
  finally show ?thesis .
qed

lemma weight_of_mono: "finite B \<Longrightarrow> A \<subseteq> B \<Longrightarrow> weight_of w A \<le> weight_of w B"
  by (simp add: weight_of_def sum_mono2)

lemma weight_of_Un: "finite A \<Longrightarrow> finite B \<Longrightarrow> A \<inter> B = {} \<Longrightarrow> weight_of w (A \<union> B) = weight_of w A + weight_of w B"
  by (simp add: weight_of_def sum.union_disjoint)

lemma finite_honest [simp]: "finite (honest L before n)" by (simp add: honest_def)


definition demo_seq_lib :: "(u32 \<Rightarrow> branch_seq) seq_lib" where
  "demo_seq_lib = \<lparr>sq_New = (\<lambda>_ _. \<lparr>sq_Seq = 0, sq_MinSeq = 0\<rparr>), sq_Get = (\<lambda>v i. v i), sq_Set = (\<lambda>i x v. v(i := x)),
     sq_SetForkDetected = (\<lambda>i v. v(i := \<lparr>sq_Seq = 0, sq_MinSeq = 1073741822\<rparr>)),
     sq_InitWithEvent = (\<lambda>i e v. v(i := \<lparr>sq_Seq = ev_Seq e, sq_MinSeq = ev_Seq e\<rparr>)),
     sq_IsForkDetected = (\<lambda>x. x = \<lparr>sq_Seq = 0, sq_MinSeq = 1073741822\<rparr>)\<rparr>"

lemma demo_seq_lib_ok: "seq_lib_ok demo_seq_lib"
  by (simp add: seq_lib_ok_def demo_seq_lib_def)

definition demo_clock :: "(u32 \<Rightarrow> branch_seq) highest_before" where
  "demo_clock = \<lparr>VSeq = (\<lambda>_. \<lparr>sq_Seq = 3, sq_MinSeq = 1\<rparr>), VTime = put_u64 10 @ put_u64 30 @ put_u64 20\<rparr>"


end
