(* ===== verification/Event_Callbacks.thy ===== *)
theory Event_Callbacks
  imports Block_Callbacks Vecmt
begin

text \<open>
  src/gossip/c_event_callbacks.go and src/gossip/checker_helpers.go: what the node does with an event,
  its own or a received one, and the indexes of heads and last events that follow.

  Parameters (\<open>ev_lib\<close>): the DAG index (the engine of the consensus library with the clocks of
  \<open>Vecmt\<close>), the consensus engine, the hash of an epoch state, and whether it is time to flush. The
  engine hands over the blocks that an event decides, each with the events it confirms; every block
  runs through \<open>process_block\<close>. Not part of the model: the calls of the emitter and of subscribers,
  which only notify.
\<close>

section \<open>State and libraries\<close>

record ('s, 'x) ev_lib =
  el_C :: "'s cb_lib"
  el_check :: check_lib
  el_esHash :: "epoch_state \<Rightarrow> bytes"
  el_Add :: "event_payload \<Rightarrow> 'x \<Rightarrow> go_error option \<times> 'x"
  el_MedianTime :: "'x \<Rightarrow> bytes \<Rightarrow> u64 \<Rightarrow> u64 res"
  el_Flush :: "'x \<Rightarrow> 'x"
  el_DropNotFlushed :: "'x \<Rightarrow> 'x"
  el_Reset :: "validators \<Rightarrow> 'x \<Rightarrow> 'x"
  el_Process :: "event_payload \<Rightarrow> 'x \<Rightarrow> go_error + (cblock \<times> event_payload list) list"
  el_Build :: "event_payload \<Rightarrow> 'x \<Rightarrow> go_error + event_payload"
  el_version :: bytes

record 'x service =
  sv_stopped :: bool
  sv_node :: node
  sv_dag :: 'x
  sv_gasCtx :: validation_context
  sv_pubkeys :: "(u32 \<rightharpoonup> pub_key) \<times> u32"
  sv_counter :: nat

abbreviation sv_store :: "'x service \<Rightarrow> evm_log gstore" where "sv_store sv \<equiv> nd_store (sv_node sv)"

definition with_store :: "evm_log gstore \<Rightarrow> 'x service \<Rightarrow> 'x service" where
  "with_store s sv = sv\<lparr>sv_node := (sv_node sv)\<lparr>nd_store := s\<rparr>\<rparr>"

definition errStopped :: go_error where "errStopped = OtherErr ''service is stopped''"
definition errWrongMedianTime :: go_error where "errWrongMedianTime = OtherErr ''wrong event median time''"
definition errWrongEpochHash :: go_error where "errWrongEpochHash = OtherErr ''wrong event epoch hash''"
definition ErrNotEnoughGasPower :: go_error where "ErrNotEnoughGasPower = OtherErr ''not enough gas power''"

definition GetEpochState :: "'l store_lib \<Rightarrow> 'l gstore \<Rightarrow> (epoch_state \<times> 'l gstore) res" where
  "GetEpochState L s = bind_res (getBlockEpochState L s) (\<lambda>((bs, es), s). Inr (es, s))"

section \<open>Validation data of an epoch\<close>

definition gas_config :: "nat \<Rightarrow> gas_power_rules \<Rightarrow> economy_rules \<Rightarrow> gp_config" where
  "gas_config i g cfg = \<lparr>gc_Idx = i, gc_AllocPerSec = AllocPerSec g, gc_MaxAllocPeriod = MaxAllocPeriod g,
     gc_MinEnsuredAlloc = MaxEventGas (eco_Gas cfg), gc_StartupAllocPeriod = StartupAllocPeriod g, gc_MinStartupGas = MinStartupGas g\<rparr>"

fun gas_states ::
  "'l store_lib \<Rightarrow> (bytes \<Rightarrow> bytes set) \<Rightarrow> nat \<Rightarrow> vepoch_state list \<Rightarrow> validator_state list \<Rightarrow> 'l gstore \<Rightarrow>
     (validator_state list \<times> 'l gstore) res" where
  "gas_states L ev i [] sts s = Inr (sts, s)"
| "gas_states L ev i (v # vs) sts s =
     (if i < length sts
      then bind_res (if ve_PrevEpochEvent v \<noteq> zero_hash then GetEvent L (ev (ve_PrevEpochEvent v)) (ve_PrevEpochEvent v) s
                     else Inr (PrevEpochEvent (sts ! i), s)) (\<lambda>(prev, s).
             gas_states L ev (i + 1) vs (sts[i := \<lparr>PrevEpochEvent = prev, GasRefund = ve_GasRefund v\<rparr>]) s)
      else Inl (Panic IndexOutOfRange))"

definition NewGasPowerContext ::
  "'l store_lib \<Rightarrow> (bytes \<Rightarrow> bytes set) \<Rightarrow> validators \<Rightarrow> u32 \<Rightarrow> economy_rules \<Rightarrow> 'l gstore \<Rightarrow> (validation_context \<times> 'l gstore) res" where
  "NewGasPowerContext L ev vs epoch cfg s =
     bind_res (GetEpochState L s) (\<lambda>(es, s).
       bind_res (gas_states L ev 0 (es_ValidatorStates es) (replicate (v_Len vs) \<lparr>PrevEpochEvent = None, GasRefund = 0\<rparr>) s)
         (\<lambda>(sts, s). Inr (\<lparr>vc_Epoch = epoch, vc_Config0 = gas_config 0 (ShortGasPower cfg) cfg,
            vc_Config1 = gas_config 1 (LongGasPower cfg) cfg, vc_EpochStart = es_EpochStart es, vc_Validators = vs,
            vc_ValidatorStates = sts\<rparr>, s)))"

definition NewEpochPubKeys :: "'l store_lib \<Rightarrow> u32 \<Rightarrow> 'l gstore \<Rightarrow> (((u32 \<rightharpoonup> pub_key) \<times> u32) \<times> 'l gstore) res" where
  "NewEpochPubKeys L epoch s =
     bind_res (GetEpochState L s) (\<lambda>(es, s). Inr ((map_option vp_PubKey \<circ> es_ValidatorProfiles es, epoch), s))"

section \<open>Indexes of an epoch\<close>

definition GetHeads :: "u32 \<Rightarrow> 'l gstore \<Rightarrow> (bytes set option \<times> 'l gstore) res" where
  "GetHeads epoch s =
     bind_res (getEpochStore epoch s) (\<lambda>es. case es of None \<Rightarrow> Inr (None, s)
       | Some es \<Rightarrow> bind_res (eps_GetHeads es) (\<lambda>(hs, es). Inr (Some hs, s\<lparr>gs_epochStore := Some es\<rparr>)))"

definition SetHeads :: "u32 \<Rightarrow> bytes set \<Rightarrow> 'l gstore \<Rightarrow> 'l gstore res" where
  "SetHeads epoch hs s =
     bind_res (getEpochStore epoch s) (\<lambda>es. case es of None \<Rightarrow> Inr s
       | Some es \<Rightarrow> Inr (s\<lparr>gs_epochStore := Some (eps_SetHeads hs es)\<rparr>))"

definition GetLastEvents :: "'l store_lib \<Rightarrow> u32 \<Rightarrow> 'l gstore \<Rightarrow> ((u32 \<times> bytes) list option \<times> 'l gstore) res" where
  "GetLastEvents L epoch s =
     bind_res (getEpochStore epoch s) (\<lambda>es. case es of None \<Rightarrow> Inr (None, s)
       | Some es \<Rightarrow> bind_res (eps_GetLastEvents L es) (\<lambda>(ls, es). Inr (Some ls, s\<lparr>gs_epochStore := Some es\<rparr>)))"

definition SetLastEvents :: "u32 \<Rightarrow> (u32 \<times> bytes) list \<Rightarrow> 'l gstore \<Rightarrow> 'l gstore res" where
  "SetLastEvents epoch ls s =
     bind_res (getEpochStore epoch s) (\<lambda>es. case es of None \<Rightarrow> Inr s
       | Some es \<Rightarrow> Inr (s\<lparr>gs_epochStore := Some (eps_SetLastEvents ls es)\<rparr>))"

definition GetLastEvent :: "'l store_lib \<Rightarrow> u32 \<Rightarrow> u32 \<Rightarrow> 'l gstore \<Rightarrow> (bytes option \<times> 'l gstore) res" where
  "GetLastEvent L epoch vid s =
     bind_res (GetLastEvents L epoch s) (\<lambda>(ls, s). Inr (case ls of None \<Rightarrow> None | Some ls \<Rightarrow> map_of ls vid, s))"

text \<open>Heads are the events without descendants. A nil set panics on its lock.\<close>

definition processEventHeads :: "bytes set \<Rightarrow> event_payload \<Rightarrow> bytes set" where
  "processEventHeads heads e = insert (ep_ID e) (heads - set (ev_Parents e))"

definition processLastEvent :: "(u32 \<times> bytes) list \<Rightarrow> event_payload \<Rightarrow> (u32 \<times> bytes) list" where
  "processLastEvent lasts e = AList.update (ev_Creator e) (ep_ID e) lasts"

definition not_nil :: "'a option \<Rightarrow> 'a res" where
  "not_nil x = (case x of None \<Rightarrow> Inl (Panic NilDereference) | Some v \<Rightarrow> Inr v)"

definition index_event :: "'l store_lib \<Rightarrow> u32 \<Rightarrow> event_payload \<Rightarrow> 'l gstore \<Rightarrow> 'l gstore res" where
  "index_event L epoch e s =
     bind_res (GetHeads epoch s) (\<lambda>(hs, s).
       bind_res (not_nil hs) (\<lambda>hs.
         bind_res (SetHeads epoch (processEventHeads hs e) s) (\<lambda>s.
           bind_res (GetLastEvents L epoch s) (\<lambda>(ls, s).
             bind_res (not_nil ls) (\<lambda>ls. SetLastEvents epoch (processLastEvent ls e) s)))))"

section \<open>Processing of an event\<close>

text \<open>The blocks that an event decides; the engine stops at the one that seals the epoch.\<close>

fun run_blocks ::
  "'s cb_lib \<Rightarrow> (u64 \<Rightarrow> u64 set) \<Rightarrow> (bytes \<Rightarrow> bytes set) \<Rightarrow> (cblock \<times> event_payload list) list \<Rightarrow> node \<Rightarrow> node res" where
  "run_blocks C evb eve [] nd = Inr nd"
| "run_blocks C evb eve ((cb, es) # bs) nd =
     bind_res (process_block C evb eve cb es nd) (\<lambda>(vals, nd). if vals \<noteq> None then Inr nd else run_blocks C evb eve bs nd)"

definition processSavedEvent ::
  "('s, 'x) ev_lib \<Rightarrow> (u64 \<Rightarrow> u64 set) \<Rightarrow> (bytes \<Rightarrow> bytes set) \<Rightarrow> event_payload \<Rightarrow> epoch_state \<Rightarrow> 'x service \<Rightarrow>
     (go_error option \<times> 'x service) res" where
  "processSavedEvent E evb eve e es sv =
     (case el_Add E e (sv_dag sv) of
        (Some err, dag) \<Rightarrow> Inr (Some err, sv\<lparr>sv_dag := dag\<rparr>)
      | (None, dag) \<Rightarrow>
          let sv = sv\<lparr>sv_dag := dag\<rparr>
          in bind_res (el_MedianTime E dag (ep_ID e) (es_EpochStart es)) (\<lambda>median.
               if ev_medianTime e \<noteq> median then Inr (Some errWrongMedianTime, sv)
               else (case el_Process E e dag of
                       Inl err \<Rightarrow> Inr (Some err, sv)
                     | Inr blocks \<Rightarrow> bind_res (run_blocks (el_C E) evb eve blocks (sv_node sv)) (\<lambda>nd.
                         Inr (None, sv\<lparr>sv_node := nd\<rparr>)))))"

definition saveAndProcessEvent ::
  "('s, 'x) ev_lib \<Rightarrow> (u64 \<Rightarrow> u64 set) \<Rightarrow> (bytes \<Rightarrow> bytes set) \<Rightarrow> event_payload \<Rightarrow> epoch_state \<Rightarrow> 'x service \<Rightarrow>
     (go_error option \<times> 'x service) res" where
  "saveAndProcessEvent E evb eve e es sv =
     (let sv = with_store (SetEvent (cl_store (el_C E)) (eve (ep_ID e)) e (sv_store sv)) sv
      in bind_res (processSavedEvent E evb eve e es sv) (\<lambda>(err, sv).
           case err of
             Some err \<Rightarrow> Inr (Some err, (with_store (DelEvent (ep_ID e) (sv_store sv)) sv)\<lparr>sv_dag := el_DropNotFlushed E (sv_dag sv)\<rparr>)
           | None \<Rightarrow> Inr (None, sv\<lparr>sv_dag := el_DropNotFlushed E (el_Flush E (sv_dag sv))\<rparr>)))"

definition update_lamport :: "'l store_lib \<Rightarrow> bool \<Rightarrow> event_payload \<Rightarrow> 'l gstore \<Rightarrow> 'l gstore" where
  "update_lamport L newEpoch e s =
     (if newEpoch then SetHighestLamport 0 s
      else let (h, s) = GetHighestLamport L s in if ev_Lamport e > h then SetHighestLamport (ev_Lamport e) s else s)"

definition enter_epoch ::
  "('s, 'x) ev_lib \<Rightarrow> (bytes \<Rightarrow> bytes set) \<Rightarrow> u32 \<Rightarrow> 'x service \<Rightarrow> 'x service res" where
  "enter_epoch E eve newEpoch sv =
     (let L = cl_store (el_C E)
      in bind_res (resetEpochStore L newEpoch (sv_store sv)) (\<lambda>s.
         bind_res (GetEpochState L s) (\<lambda>(es, s).
         bind_res (NewGasPowerContext L eve (es_Validators es) newEpoch (ru_Economy (es_Rules es)) s) (\<lambda>(ctx, s).
         bind_res (NewEpochPubKeys L newEpoch s) (\<lambda>(keys, s).
           Inr ((with_store s sv)\<lparr>sv_dag := el_Reset E (es_Validators es) (sv_dag sv), sv_gasCtx := ctx, sv_pubkeys := keys\<rparr>))))))"

definition connect_event ::
  "('s, 'x) ev_lib \<Rightarrow> (bytes \<Rightarrow> bytes set) \<Rightarrow> bool \<Rightarrow> u32 \<Rightarrow> event_payload \<Rightarrow> 'x service \<Rightarrow> (go_error option \<times> 'x service) res" where
  "connect_event E eve commitNeeded oldEpoch e sv =
     (let L = cl_store (el_C E)
      in bind_res (GetEpochState L (sv_store sv)) (\<lambda>(es, s).
         let newEpoch = es_Epoch es
         in bind_res (index_event L oldEpoch e s) (\<lambda>s.
            let sv = with_store (update_lamport L (newEpoch \<noteq> oldEpoch) e s) sv
            in bind_res (if newEpoch \<noteq> oldEpoch then enter_epoch E eve newEpoch sv else Inr sv) (\<lambda>sv.
               if commitNeeded then bind_res (Commit L (sv_store sv)) (\<lambda>s. Inr (None, with_store s sv)) else Inr (None, sv)))))"

definition processEvent ::
  "('s, 'x) ev_lib \<Rightarrow> (u64 \<Rightarrow> u64 set) \<Rightarrow> (bytes \<Rightarrow> bytes set) \<Rightarrow> bool \<Rightarrow> event_payload \<Rightarrow> 'x service \<Rightarrow>
     (go_error option \<times> 'x service) res" where
  "processEvent E evb eve commitNeeded e sv =
     (let L = cl_store (el_C E)
      in if sv_stopped sv then Inr (Some errStopped, sv)
         else if HasEvent (ep_ID e) (sv_store sv) then Inr (Some ErrAlreadyConnectedEvent, sv)
         else bind_res (GetEpochState L (sv_store sv)) (\<lambda>(es, s).
           let sv = with_store s sv
           in case epoch_Validate (el_check E) (es_Rules es) (es_Epoch es) e of
                Inl (Panic p) \<Rightarrow> Inl (Panic p)
              | Inl (Err err) \<Rightarrow> Inr (Some err, sv)
              | Inr _ \<Rightarrow>
                  if ev_prevEpochHash e \<noteq> None \<and> the (ev_prevEpochHash e) \<noteq> el_esHash E es
                  then Inr (Some errWrongEpochHash, with_store (DelEvent (ep_ID e) (sv_store sv)) sv)
                  else bind_res (saveAndProcessEvent E evb eve e es sv) (\<lambda>(err, sv).
                    case err of Some err \<Rightarrow> Inr (Some err, sv)
                    | None \<Rightarrow> connect_event E eve commitNeeded (es_Epoch es) e sv)))"

section \<open>Building of an event\<close>

text \<open>\<open>uniqueID\<close>: the bytes of a counter, copied to the front of an array of 24 bytes.\<close>

definition sample :: "nat \<Rightarrow> bytes \<times> nat" where
  "sample counter = (take 24 (nat_be (counter + 1) @ replicate 24 0), counter + 1)"

definition prepare_event :: "('s, 'x) ev_lib \<Rightarrow> epoch_state \<Rightarrow> event_payload \<Rightarrow> event_payload" where
  "prepare_event E es e =
     (let version = [0x76, 0x2d] @ el_version E;
          e = (if ev_Seq e \<le> 1 \<and> length (el_version E) > 0 \<and> (word_of_nat (length version) :: u32) \<le> MaxExtraData (ru_Dag (es_Rules es))
               then e\<lparr>ev_extra := version\<rparr> else e)
      in if ev_Lamport e \<le> 1 then e\<lparr>ev_prevEpochHash := Some (el_esHash E es)\<rparr> else e)"

definition spend_gas ::
  "('s, 'x) ev_lib \<Rightarrow> validation_context \<Rightarrow> 'x \<Rightarrow> event_payload option \<Rightarrow> event_payload \<Rightarrow> (go_error + event_payload) res" where
  "spend_gas E ctx dag selfParent e =
     (case CalcGasPower (el_check E) ctx e selfParent of
        Inl (Panic p) \<Rightarrow> Inl (Panic p)
      | Inl (Err err) \<Rightarrow> Inr (Inl err)
      | Inr available \<Rightarrow>
          if ev_gasPowerUsed e > gpl_Min available then Inr (Inl ErrNotEnoughGasPower)
          else Inr (el_Build E (e\<lparr>ev_gasPowerLeft := gpl_Sub available (ev_gasPowerUsed e)\<rparr>) dag))"

definition buildEvent ::
  "('s, 'x) ev_lib \<Rightarrow> (bytes \<Rightarrow> bytes set) \<Rightarrow> event_payload \<Rightarrow> 'x service \<Rightarrow> ((go_error + event_payload) \<times> 'x service) res" where
  "buildEvent E eve e sv =
     (let L = cl_store (el_C E); C = el_check E; (uid, counter) = sample (sv_counter sv);
          e = e\<lparr>ep_ID := id_make (check_lib.cl_dag C) (ev_Epoch e) (ev_Lamport e) uid\<rparr>; sv = sv\<lparr>sv_counter := counter\<rparr>
      in bind_res (GetEpochState L (sv_store sv)) (\<lambda>(es, s).
         let e = prepare_event E es e; (err, dag) = el_Add E e (sv_dag sv); drop = el_DropNotFlushed E dag
         in case err of Some err \<Rightarrow> Inr (Inl err, (with_store s sv)\<lparr>sv_dag := drop\<rparr>)
            | None \<Rightarrow>
                bind_res (el_MedianTime E dag (ep_ID e) (es_EpochStart es)) (\<lambda>median.
                  let e = e\<lparr>ev_medianTime := median\<rparr>; e = e\<lparr>ev_gasPowerUsed := CalcGasPowerUsed e (es_Rules es)\<rparr>
                  in bind_res (case SelfParent C e of None \<Rightarrow> Inr (None, s) | Some i \<Rightarrow> GetEvent L (eve i) i s) (\<lambda>(selfParent, s).
                     bind_res (spend_gas E (sv_gasCtx sv) dag selfParent e) (\<lambda>r. Inr (r, (with_store s sv)\<lparr>sv_dag := drop\<rparr>))))))"

section \<open>What block processing leaves alone\<close>

definition side :: "'l gstore \<Rightarrow> kv \<times> epoch_store option \<times> u32 option \<times> kv" where
  "side s = (t_Events s, gs_epochStore s, c_HighestLamport s, t_HighestLamport s)"

lemma side_sets [simp]:
  "side (SetBlock L ev n b s) = side s" "side (SetBlockIndex L e i n s) = side s" "side (SetTx L i tx s) = side s"
  "side (SetTxPosition L e i p s) = side s" "side (SetReceipts L ev n rs s) = side s" "side (SetBlockEpochState bs es s) = side s"
  by (simp_all add: side_def SetBlock_def SetBlockIndex_def SetTx_def SetTxPosition_def SetReceipts_def SetRawReceipts_def SetBlockEpochState_def)

lemma side_gets:
  "getBlockEpochState L s = Inr (v, s') \<Longrightarrow> side s' = side s"
  "GetBlock L ev n s = Inr (b, s') \<Longrightarrow> side s' = side s"
  "GetEventPayload L e i s = Inr (x, s') \<Longrightarrow> side s' = side s"
  "GetEvent L e i s = Inr (x, s') \<Longrightarrow> side s' = side s"
  "SetCachedEvmBlock ev n eb s = Inr s' \<Longrightarrow> side s' = side s"
  by (auto simp: side_def getBlockEpochState_def GetBlock_def GetEventPayload_def GetEvent_def SetCachedEvmBlock_def
      cache_event_def crit_def bind_res_Inr_iff split: option.splits if_splits)

lemma side_index: "side (index_txs L H ev pos txs s) = side s" "side (store_txs L H txs s) = side s"
  unfolding index_txs_def store_txs_def by (induction txs arbitrary: s) simp_all

lemma side_spill: "spill_ids L ev g ids acc full s = Inr (r, s') \<Longrightarrow> side s' = side s"
proof (induction ids arbitrary: acc full s)
  case (Cons i ids)
  obtain x s1 where x: "GetEventPayload L (ev i) i s = Inr (x, s1)" using Cons.prems by (auto simp: bind_res_Inr_iff)
  have "side s' = side s1" using Cons.prems Cons.IH by (cases x) (auto simp: x crit_def Let_def split: if_splits)
  then show ?case using side_gets(3) [OF x] by simp
qed simp

lemma side_prev: "prev_atropos L evb n s = Inr (r, s') \<Longrightarrow> side s' = side s"
  by (auto simp: prev_atropos_def bind_res_Inr_iff dest: side_gets(2) split: option.splits if_splits)

lemma side_header:
  assumes "reader_GetHeader L T evb h n s = Inr (r, s')" shows "side s' = side s"
proof -
  obtain b s1 where b: "GetBlock L (evb n) n s = Inr (b, s1)"
    using assms by (auto simp: reader_GetHeader_def reader_getBlock_def bind_res_Inr_iff)
  have "s' = s1 \<or> (\<exists>p. prev_atropos L evb n s1 = Inr (p, s'))"
    using assms by (cases b; cases "h \<noteq> zero_hash \<and> h \<noteq> blk_Atropos (the b)")
      (auto simp: reader_GetHeader_def reader_getBlock_def b bind_res_Inr_iff)
  then show ?thesis using side_gets(2) [OF b] side_prev by metis
qed

lemma side_block_fn: "block_fn C evb eve blk cf pre sealing es ep lis nd = Inr nd' \<Longrightarrow> side (nd_store nd') = side (nd_store nd)"
  by (elim block_fn_cases) (auto simp: side_index Let_def dest!: side_gets(5) side_spill)

lemma side_EndBlock: "EndBlock C evb eve p nd = Inr (vals, nd') \<Longrightarrow> side (nd_store nd') = side (nd_store nd)"
proof (cases "skip_block p")
  case False
  assume "EndBlock C evb eve p nd = Inr (vals, nd')"
  from EndBlock_cases [OF this False] obtain prev s1 nd1 es1 lsn1 c sl bs lsn cf pre sealing ep1 lis1 blk where
    h: "(if bc_Idx (block_ctx_of p) \<noteq> 0
      then reader_GetHeader (cl_store C) (cl_types C) evb zero_hash (bc_Idx (block_ctx_of p) - 1) (nd_store nd)
      else Inr (None, nd_store nd)) = Inr (prev, s1)"
    and sl: "(if c then seal_step C sl bs (bp_es p) lsn (nd\<lparr>nd_store := s1\<rparr>) else Inr (bp_es p, lsn, nd\<lparr>nd_store := s1\<rparr>)) = Inr (es1, lsn1, nd1)"
    and bf: "block_fn C evb eve blk cf pre sealing es1 ep1 lis1 nd1 = Inr nd'"
    by metis
  have "side s1 = side (nd_store nd)" using h by (auto dest: side_header split: if_splits)
  moreover have "side (nd_store nd1) = side s1" using sl by (auto simp: seal_step_def bind_res_Inr_iff split: if_splits)
  ultimately show ?thesis using side_block_fn [OF bf] by simp
qed (auto simp: EndBlock_def Let_def bind_res_Inr_iff)

lemma side_process_block:
  assumes "process_block C evb eve cb es nd = Inr (vals, nd')" shows "side (nd_store nd') = side (nd_store nd)"
proof -
  obtain p0 nd1 p where r: "BeginBlock C cb nd = Inr (p0, nd1)" "EndBlock C evb eve p nd1 = Inr (vals, nd')"
    using assms by (auto simp: process_block_def bind_res_Inr_iff)
  obtain bs es0 s0 where "getBlockEpochState (cl_store C) (nd_store nd) = Inr ((bs, es0), s0)"
    using r(1) by (auto simp: BeginBlock_def bind_res_Inr_iff)
  then have "side (nd_store nd1) = side (nd_store nd)" using BeginBlock_frame(1) [OF r(1)] side_gets(1) by fastforce
  with side_EndBlock [OF r(2)] show ?thesis by simp
qed

lemma side_run_blocks: "run_blocks C evb eve bs nd = Inr nd' \<Longrightarrow> side (nd_store nd') = side (nd_store nd)"
proof (induction bs arbitrary: nd)
  case (Cons b bs)
  then show ?case by (cases b) (auto simp: bind_res_Inr_iff dest: side_process_block split: if_splits)
qed simp

section \<open>Refused events\<close>

text \<open>All tables of the store.\<close>

definition tables :: "'l gstore \<Rightarrow> kv list \<times> epoch_store option \<times> u32 option" where
  "tables s = ([t_Blocks s, t_BlockHashes s, t_Events s, t_Genesis s, t_BlockEpochState s, t_HighestLamport s, t_TxPositions s,
     t_Txs s, t_Receipts s], gs_epochStore s, c_HighestLamport s)"

lemma plain_tables: "tables s = tables s' \<Longrightarrow> plain L s = plain L s'"
  by (simp add: tables_def plain_def)

lemma GetEpochState_frame:
  assumes "GetEpochState L s = Inr (es, s')"
  shows "tables s' = tables s \<and> store_ok L W s' = store_ok L W s \<and> side s' = side s \<and> GetEpochState L s' = Inr (es, s')"
proof -
  obtain bs where g: "getBlockEpochState L s = Inr ((bs, es), s')" using assms by (auto simp: GetEpochState_def bind_res_Inr_iff)
  then have "s' = s \<and> c_BlockEpochState s = Some (bs, es) \<or> s' = s\<lparr>c_BlockEpochState := Some (bs, es)\<rparr>"
    by (auto simp: getBlockEpochState_def bind_res_Inr_iff crit_def split: option.splits)
  then show ?thesis using getBlockEpochState_store(2) [OF g] side_gets(1) [OF g]
    by (auto simp: tables_def GetEpochState_def getBlockEpochState_def)
qed

lemma sv_with_store [simp]:
  "sv_store (with_store s sv) = s" "sv_dag (with_store s sv) = sv_dag sv" "sv_gasCtx (with_store s sv) = sv_gasCtx sv"
  "sv_pubkeys (with_store s sv) = sv_pubkeys sv" "nd_heap (sv_node (with_store s sv)) = nd_heap (sv_node sv)"
  "nd_ver (sv_node (with_store s sv)) = nd_ver (sv_node sv)" "nd_sfc (sv_node (with_store s sv)) = nd_sfc (sv_node sv)"
  "with_store s1 (with_store s2 sv) = with_store s1 sv"
  by (simp_all add: with_store_def)

lemma Set_Del_tables: "\<not> HasEvent (ep_ID e) s \<Longrightarrow> tables (DelEvent (ep_ID e) (SetEvent L ev e s)) = tables s"
  by (simp add: tables_def DelEvent_def SetEvent_def HasEvent_def rlp_Set_def fun_upd_idem)

lemma Del_tables: "\<not> HasEvent i s \<Longrightarrow> tables (DelEvent i s) = tables s"
  by (simp add: tables_def DelEvent_def HasEvent_def fun_upd_idem)

lemma connect_event_no_error: "connect_event E eve c old e sv = Inr (err, sv') \<Longrightarrow> err = None"
  by (auto simp: connect_event_def Let_def bind_res_Inr_iff split: if_splits)

lemma processSavedEvent_error:
  "processSavedEvent E evb eve e es sv = Inr (Some err, sv') \<Longrightarrow> sv' = sv\<lparr>sv_dag := snd (el_Add E e (sv_dag sv))\<rparr>"
  by (auto simp: processSavedEvent_def Let_def bind_res_Inr_iff split: prod.splits option.splits if_splits sum.splits)

lemma saveAndProcessEvent_error:
  assumes "saveAndProcessEvent E evb eve e es sv = Inr (Some err, sv')"
  shows "sv' = (with_store (DelEvent (ep_ID e) (SetEvent (cl_store (el_C E)) (eve (ep_ID e)) e (sv_store sv))) sv)
     \<lparr>sv_dag := el_DropNotFlushed E (snd (el_Add E e (sv_dag sv)))\<rparr>"
proof -
  let ?sv = "with_store (SetEvent (cl_store (el_C E)) (eve (ep_ID e)) e (sv_store sv)) sv"
  obtain err1 sv1 where r: "processSavedEvent E evb eve e es ?sv = Inr (err1, sv1)"
    using assms unfolding saveAndProcessEvent_def Let_def bind_res_Inr_iff by (metis prod.collapse)
  then have "err1 = Some err" "sv' = (with_store (DelEvent (ep_ID e) (sv_store sv1)) sv1)\<lparr>sv_dag := el_DropNotFlushed E (sv_dag sv1)\<rparr>"
    using assms unfolding saveAndProcessEvent_def Let_def r by (cases err1; simp)+
  then show ?thesis using processSavedEvent_error [of E evb eve e es ?sv err sv1] r by (simp add: with_store_def)
qed


section \<open>Heads, last events and the highest Lamport time\<close>

text \<open>What the indexes of an epoch stand for: the connected events without connected descendants, the
  last connected event of each validator and the highest Lamport time.\<close>

definition tips :: "event_payload list \<Rightarrow> bytes set" where
  "tips evs = {ep_ID e | e. e \<in> set evs \<and> (\<forall>e' \<in> set evs. ep_ID e \<notin> set (ev_Parents e'))}"

definition last_of :: "event_payload list \<Rightarrow> u32 \<rightharpoonup> bytes" where
  "last_of evs = map_of (rev (map (\<lambda>e. (ev_Creator e, ep_ID e)) evs))"

definition top_lamport :: "event_payload list \<Rightarrow> u32" where
  "top_lamport evs = fold (\<lambda>e l. max l (ev_Lamport e)) evs 0"

definition indexes_ok :: "'l store_lib \<Rightarrow> event_payload list \<Rightarrow> 'l gstore \<Rightarrow> bool" where
  "indexes_ok L evs s \<longleftrightarrow>
     (\<exists>es ls. gs_epochStore s = Some es \<and> c_Heads es = Some (tips evs) \<and> c_LastEvents es = Some ls \<and> map_of ls = last_of evs \<and>
        (\<exists>st s'. GetEpochState L s = Inr (st, s') \<and> es_Epoch st = eps_epoch es)) \<and>
     fst (GetHighestLamport L s) = top_lamport evs \<and>
     (\<forall>e \<in> set evs. HasEvent (ep_ID e) s) \<and> (\<forall>e \<in> set evs. set (ev_Parents e) \<subseteq> ep_ID ` set evs)"

definition store_epoch :: "'l gstore \<Rightarrow> u32" where "store_epoch s = eps_epoch (the (gs_epochStore s))"

lemma tips_snoc:
  assumes "\<forall>x \<in> set evs. set (ev_Parents x) \<subseteq> ep_ID ` set evs" "set (ev_Parents e) \<subseteq> ep_ID ` set evs" "ep_ID e \<notin> ep_ID ` set evs"
  shows "tips (evs @ [e]) = processEventHeads (tips evs) e"
  using assms unfolding tips_def processEventHeads_def by auto

lemma last_of_snoc: "last_of (evs @ [e]) = (last_of evs)(ev_Creator e \<mapsto> ep_ID e)"
  by (simp add: last_of_def)

lemma top_lamport_snoc: "top_lamport (evs @ [e]) = max (top_lamport evs) (ev_Lamport e)"
  by (simp add: top_lamport_def)

lemma index_event_ok:
  assumes "gs_epochStore s = Some es" "eps_epoch es = epoch" "c_Heads es = Some hs" "c_LastEvents es = Some ls"
  shows "index_event L epoch e s =
    Inr (s\<lparr>gs_epochStore := Some (es\<lparr>c_Heads := Some (processEventHeads hs e), c_LastEvents := Some (processLastEvent ls e)\<rparr>)\<rparr>)"
  using assms
  by (simp add: index_event_def GetHeads_def SetHeads_def GetLastEvents_def SetLastEvents_def getEpochStore_def eps_GetHeads_def
      eps_GetLastEvents_def eps_SetHeads_def eps_SetLastEvents_def not_nil_def)

lemma update_lamport_frame:
  "t_Events (update_lamport L c e s) = t_Events s" "gs_epochStore (update_lamport L c e s) = gs_epochStore s"
  "c_BlockEpochState (update_lamport L c e s) = c_BlockEpochState s"
  "fst (GetHighestLamport L (update_lamport L c e s)) = (if c then 0 else max (fst (GetHighestLamport L s)) (ev_Lamport e))"
  by (auto simp: update_lamport_def SetHighestLamport_def GetHighestLamport_def Let_def max_def not_less split: option.splits)

lemma GetEpochState_cached: "GetEpochState L s = Inr (es, s') \<Longrightarrow> \<exists>bs. c_BlockEpochState s' = Some (bs, es)"
  by (auto simp: GetEpochState_def getBlockEpochState_def bind_res_Inr_iff crit_def split: option.splits)

lemma GetEpochState_of_cache: "c_BlockEpochState s = Some (bs, es) \<Longrightarrow> GetEpochState L s = Inr (es, s)"
  by (simp add: GetEpochState_def getBlockEpochState_def)

lemma indexes_Commit:
  assumes "indexes_ok L evs s" "Commit L s = Inr s'"
  shows "indexes_ok L evs s' \<and> store_epoch s' = store_epoch s"
proof -
  obtain v s1 where f: "getBlockEpochState L s = Inr (v, s1)" using assms(2) by (auto simp: Commit_def FlushBlockEpochState_def bind_res_Inr_iff)
  define s2 where "s2 = FlushHighestLamport L (s1\<lparr>t_BlockEpochState := rlp_Set (enc_state L) state_key v (t_BlockEpochState s1)\<rparr>)"
  have s1: "side s1 = side s" "c_BlockEpochState s1 = Some v"
    using side_gets(1) [OF f] f by (auto simp: getBlockEpochState_def bind_res_Inr_iff crit_def split: option.splits)
  obtain es ls st s0 where es: "gs_epochStore s = Some es" "c_Heads es = Some (tips evs)" "c_LastEvents es = Some ls" "map_of ls = last_of evs"
      "GetEpochState L s = Inr (st, s0)" "es_Epoch st = eps_epoch es"
    using assms(1) by (auto simp: indexes_ok_def)
  have s': "s' = s2\<lparr>gs_epochStore := Some (FlushLastEvents L (FlushHeads es))\<rparr>"
    using assms(2) es(1) s1(1) f by (auto simp: Commit_def FlushBlockEpochState_def s2_def FlushHighestLamport_def side_def split: option.splits)
  have st: "\<exists>bs. v = (bs, st)" using f es(5) by (cases v) (auto simp: GetEpochState_def)
  have eps: "c_Heads (FlushLastEvents L (FlushHeads es)) = c_Heads es" "c_LastEvents (FlushLastEvents L (FlushHeads es)) = c_LastEvents es"
      "eps_epoch (FlushLastEvents L (FlushHeads es)) = eps_epoch es"
    by (auto simp: FlushLastEvents_def FlushHeads_def split: option.splits)
  have s2: "t_Events s2 = t_Events s" "c_BlockEpochState s2 = Some v" "fst (GetHighestLamport L s2) = fst (GetHighestLamport L s)"
    using s1 by (auto simp: s2_def side_def FlushHighestLamport_def GetHighestLamport_def loadHighestLamport_def Let_def split: option.splits)
  have "GetEpochState L s' = Inr (st, s')" using st s2(2) by (auto simp: s' intro: GetEpochState_of_cache)
  then show ?thesis
    using assms(1) es eps s2 by (simp add: indexes_ok_def s' store_epoch_def HasEvent_def GetHighestLamport_epoch)
qed

lemma enter_epoch_indexes:
  assumes "enter_epoch E eve n sv = Inr sv'" "fst (GetHighestLamport (cl_store (el_C E)) (sv_store sv)) = 0"
    and "GetEpochState (cl_store (el_C E)) (sv_store sv) = Inr (st, sv_store sv)" "es_Epoch st = n"
  shows "indexes_ok (cl_store (el_C E)) [] (sv_store sv') \<and> store_epoch (sv_store sv') = n"
proof -
  let ?L = "cl_store (el_C E)"
  define es0 where "es0 = \<lparr>eps_epoch = n, t_LastEvents = Map.empty, t_Heads = Map.empty, c_Heads = Some {}, c_LastEvents = Some []\<rparr>"
  have new: "newEpochStore ?L n Map.empty Map.empty = Inr es0"
    by (simp add: newEpochStore_def eps_GetHeads_def eps_GetLastEvents_def loadHeads_def loadLastEvents_def es0_def)
  let ?s = "(sv_store sv)\<lparr>gs_epochStore := Some es0\<rparr>"
  obtain es s1 ctx s2 keys s3 where r: "GetEpochState ?L ?s = Inr (es, s1)" "NewGasPowerContext ?L eve (es_Validators es) n (ru_Economy (es_Rules es)) s1 = Inr (ctx, s2)"
      "NewEpochPubKeys ?L n s2 = Inr (keys, s3)" "sv_store sv' = s3"
    using assms(1) by (auto simp: enter_epoch_def Let_def resetEpochStore_def new bind_res_Inr_iff)
  have gs: "gas_states ?L ev i vs sts s = Inr (x, s') \<Longrightarrow> side s' = side s \<and> c_BlockEpochState s' = c_BlockEpochState s" for ev i vs sts s x s'
  proof (induction vs arbitrary: i sts s)
    case (Cons v vs)
    have "c_BlockEpochState s'' = c_BlockEpochState s" if "GetEvent ?L e j s = Inr (y, s'')" for e j y s''
      using that by (auto simp: GetEvent_def cache_event_def bind_res_Inr_iff split: option.splits)
    with Cons show ?case by (fastforce simp: bind_res_Inr_iff dest: side_gets(4) split: if_splits)
  qed simp
  note c1 = GetEpochState_frame [OF r(1)] GetEpochState_cached [OF r(1)]
  obtain es2 s2' where es2: "GetEpochState ?L s1 = Inr (es2, s2')" "side s2 = side s2'" "c_BlockEpochState s2 = c_BlockEpochState s2'"
    using r(2) gs by (fastforce simp: NewGasPowerContext_def bind_res_Inr_iff)
  have s2': "s2' = s1" "es2 = es" using es2(1) c1 by auto
  obtain bs where bs: "c_BlockEpochState s1 = Some (bs, es)" using c1(2) by blast
  have "NewEpochPubKeys ?L n s2 = Inr (keys, s3)" by (rule r(3))
  then have s3: "s3 = s2" using es2(3) s2' bs by (auto simp: NewEpochPubKeys_def GetEpochState_of_cache)
  have "st = es" using assms(3) r(1) by (auto simp: GetEpochState_def getBlockEpochState_def bind_res_Inr_iff split: option.splits)
  then have ep: "GetEpochState ?L s3 = Inr (es, s3)" "es_Epoch es = n"
    using s3 es2(3) s2' bs assms(4) by (auto intro: GetEpochState_of_cache)
  have sd: "side s3 = side ?s" using s3 es2(2) s2' c1(1) by simp
  then have "fst (GetHighestLamport ?L s3) = fst (GetHighestLamport ?L (sv_store sv))"
    by (auto simp: side_def GetHighestLamport_def loadHighestLamport_def Let_def split: option.splits)
  then show ?thesis
    using sd ep assms(2) r(4) by (auto simp: indexes_ok_def side_def es0_def tips_def last_of_def top_lamport_def store_epoch_def)
qed

lemma saveAndProcessEvent_ok:
  assumes "saveAndProcessEvent E evb eve e es sv = Inr (None, sv')"
  shows "side (sv_store sv') = side (SetEvent (cl_store (el_C E)) (eve (ep_ID e)) e (sv_store sv))"
proof -
  let ?sv = "with_store (SetEvent (cl_store (el_C E)) (eve (ep_ID e)) e (sv_store sv)) sv"
  obtain err1 sv1 where r: "processSavedEvent E evb eve e es ?sv = Inr (err1, sv1)"
    using assms unfolding saveAndProcessEvent_def Let_def bind_res_Inr_iff by (metis prod.collapse)
  then have "err1 = None" "sv_store sv' = sv_store sv1"
    using assms unfolding saveAndProcessEvent_def Let_def r by (cases err1; auto)+
  moreover have "side (sv_store sv1) = side (sv_store ?sv)"
    using r \<open>err1 = None\<close>
    by (auto simp: processSavedEvent_def Let_def bind_res_Inr_iff dest!: side_run_blocks split: prod.splits option.splits if_splits sum.splits)
  ultimately show ?thesis by simp
qed

text \<open>One connected event.\<close>

lemma connected_indexes:
  assumes run: "processEvent E evb eve c e sv = Inr (None, sv')"
    and ok: "indexes_ok (cl_store (el_C E)) evs (sv_store sv)" and par: "set (ev_Parents e) \<subseteq> ep_ID ` set evs"
  shows "indexes_ok (cl_store (el_C E)) (if store_epoch (sv_store sv') = store_epoch (sv_store sv) then evs @ [e] else []) (sv_store sv')"
proof -
  let ?L = "cl_store (el_C E)" and ?s = "sv_store sv"
  obtain es s sv1 where no: "\<not> HasEvent (ep_ID e) ?s" and g: "GetEpochState ?L ?s = Inr (es, s)"
      and sp: "saveAndProcessEvent E evb eve e es (with_store s sv) = Inr (None, sv1)"
      and cn: "connect_event E eve c (es_Epoch es) e sv1 = Inr (None, sv')"
    using run by (auto simp: processEvent_def Let_def bind_res_Inr_iff split: if_splits sum.splits failure.splits option.splits)
  have side1: "side (sv_store sv1) = side (SetEvent ?L (eve (ep_ID e)) e ?s)"
    using saveAndProcessEvent_ok [OF sp] GetEpochState_frame [OF g] by (simp add: side_def SetEvent_def)
  obtain eps ls where eps: "gs_epochStore ?s = Some eps" "c_Heads eps = Some (tips evs)" "c_LastEvents eps = Some ls" "map_of ls = last_of evs"
      "es_Epoch es = eps_epoch eps" and top: "fst (GetHighestLamport ?L ?s) = top_lamport evs"
      and has: "\<forall>x \<in> set evs. HasEvent (ep_ID x) ?s" and pars: "\<forall>x \<in> set evs. set (ev_Parents x) \<subseteq> ep_ID ` set evs"
    using ok g by (auto simp: indexes_ok_def)
  obtain es' s1 where g1: "GetEpochState ?L (sv_store sv1) = Inr (es', s1)" using cn by (auto simp: connect_event_def Let_def bind_res_Inr_iff)
  note f1 = GetEpochState_frame [OF g1]
  have s1: "side s1 = side (SetEvent ?L (eve (ep_ID e)) e ?s)" using f1 side1 by simp
  then have es1: "gs_epochStore s1 = Some eps" using eps(1) by (simp add: side_def SetEvent_def)
  define eps' where "eps' = eps\<lparr>c_Heads := Some (processEventHeads (tips evs) e), c_LastEvents := Some (processLastEvent ls e)\<rparr>"
  have ix: "index_event ?L (es_Epoch es) e s1 = Inr (s1\<lparr>gs_epochStore := Some eps'\<rparr>)"
    unfolding eps'_def by (rule index_event_ok [OF es1 eps(5) [symmetric] eps(2,3)])
  define new where "new \<longleftrightarrow> es_Epoch es' \<noteq> es_Epoch es"
  define s2 where "s2 = update_lamport ?L new e (s1\<lparr>gs_epochStore := Some eps'\<rparr>)"
  note ul = update_lamport_frame [of ?L new e "s1\<lparr>gs_epochStore := Some eps'\<rparr>", folded s2_def]
  obtain bs where "c_BlockEpochState s1 = Some (bs, es')" using GetEpochState_cached [OF g1] by blast
  then have st2: "GetEpochState ?L s2 = Inr (es', s2)" using ul(3) by (auto intro: GetEpochState_of_cache)
  have lam: "fst (GetHighestLamport ?L (s1\<lparr>gs_epochStore := Some eps'\<rparr>)) = top_lamport evs"
    using s1 top by (auto simp: side_def SetEvent_def GetHighestLamport_def loadHighestLamport_def Let_def split: option.splits)
  obtain sv2 where sv2: "(if new then enter_epoch E eve (es_Epoch es') (with_store s2 sv1) else Inr (with_store s2 sv1)) = Inr sv2"
      and com: "sv' = sv2 \<or> (\<exists>s'. Commit ?L (sv_store sv2) = Inr s' \<and> sv' = with_store s' sv2)"
    using cn by (auto simp: connect_event_def Let_def bind_res_Inr_iff g1 ix new_def s2_def split: if_splits)
  have ep: "store_epoch ?s = es_Epoch es" using eps by (simp add: store_epoch_def)
  have "indexes_ok ?L (if store_epoch (sv_store sv2) = store_epoch ?s then evs @ [e] else []) (sv_store sv2)"
  proof (cases new)
    case True
    then show ?thesis
      using enter_epoch_indexes [of E eve "es_Epoch es'" "with_store s2 sv1" sv2 es'] sv2 ul(4) st2 ep by (auto simp: new_def)
  next
    case False
    then have st: "sv_store sv2 = s2" using sv2 by auto
    have "ep_ID e \<notin> ep_ID ` set evs" using has no by auto
    then have "tips (evs @ [e]) = processEventHeads (tips evs) e" using tips_snoc [OF pars par] by simp
    moreover have "HasEvent (ep_ID x) s2" if "x \<in> set (evs @ [e])" for x
      using that has ul(1) s1 by (auto simp: HasEvent_def side_def SetEvent_def rlp_Set_def)
    moreover have "map_of (processLastEvent ls e) = last_of (evs @ [e])"
      using eps(4) by (simp add: processLastEvent_def update_conv' last_of_snoc)
    ultimately have "indexes_ok ?L (evs @ [e]) s2"
      using ul(2,4) st2 lam False eps pars par unfolding indexes_ok_def
      by (auto simp: eps'_def new_def top_lamport_snoc)
    moreover have "store_epoch s2 = store_epoch ?s" using ul(2) eps by (simp add: store_epoch_def eps'_def)
    ultimately show ?thesis using st by simp
  qed
  with com indexes_Commit [of ?L _ "sv_store sv2"] show ?thesis by (elim disjE exE conjE) simp_all
qed

text \<open>
  The events of an epoch as the node sees them: refused events change nothing, a connected event has
  its parents connected before (the buffer in front of \<open>processEvent\<close> orders events so), and the event
  that seals the epoch starts a new one.
\<close>

inductive epoch_run :: "('s, 'x) ev_lib \<Rightarrow> event_payload list \<Rightarrow> 'x service \<Rightarrow> bool" for E where
  start: "indexes_ok (cl_store (el_C E)) [] (sv_store sv) \<Longrightarrow> epoch_run E [] sv"
| refused: "epoch_run E evs sv \<Longrightarrow> processEvent E evb eve c e sv = Inr (Some err, sv') \<Longrightarrow> epoch_run E evs sv'"
| connected: "epoch_run E evs sv \<Longrightarrow> processEvent E evb eve c e sv = Inr (None, sv') \<Longrightarrow> set (ev_Parents e) \<subseteq> ep_ID ` set evs \<Longrightarrow>
    epoch_run E (if store_epoch (sv_store sv') = store_epoch (sv_store sv) then evs @ [e] else []) sv'"

lemma refused_indexes:
  assumes "processEvent E evb eve c e sv = Inr (Some err, sv')" "indexes_ok (cl_store (el_C E)) evs (sv_store sv)"
  shows "indexes_ok (cl_store (el_C E)) evs (sv_store sv')"
proof (cases "sv_stopped sv \<or> HasEvent (ep_ID e) (sv_store sv)")
  case True
  then show ?thesis using assms by (auto simp: processEvent_def Let_def split: if_splits)
next
  case False
  let ?L = "cl_store (el_C E)"
  obtain es s where g: "GetEpochState ?L (sv_store sv) = Inr (es, s)" using assms(2) by (auto simp: indexes_ok_def)
  have no: "\<not> HasEvent (ep_ID e) s" using False GetEpochState_frame [OF g] by (auto simp: HasEvent_def tables_def)
  have "sv' = with_store s sv \<or> sv' = with_store (DelEvent (ep_ID e) s) sv \<or>
      saveAndProcessEvent E evb eve e es (with_store s sv) = Inr (Some err, sv')"
    using assms(1) False g
    by (auto simp: processEvent_def Let_def bind_res_Inr_iff dest: connect_event_no_error split: sum.splits failure.splits if_splits option.splits)
  then have "side (sv_store sv') = side s \<and> c_BlockEpochState (sv_store sv') = c_BlockEpochState s"
    using no by (auto dest!: saveAndProcessEvent_error simp: side_def DelEvent_def SetEvent_def HasEvent_def rlp_Set_def fun_upd_idem)
  moreover obtain bs where "c_BlockEpochState s = Some (bs, es)" using GetEpochState_cached [OF g] by blast
  ultimately have sd: "side (sv_store sv') = side (sv_store sv)" "GetEpochState ?L (sv_store sv') = Inr (es, sv_store sv')"
    using GetEpochState_frame [OF g] by (auto intro: GetEpochState_of_cache)
  then have "fst (GetHighestLamport ?L (sv_store sv')) = fst (GetHighestLamport ?L (sv_store sv))"
    by (auto simp: side_def GetHighestLamport_def loadHighestLamport_def Let_def split: option.splits)
  then show ?thesis using assms(2) sd g by (auto simp: indexes_ok_def side_def HasEvent_def)
qed

lemma epoch_run_indexes: "epoch_run E evs sv \<Longrightarrow> indexes_ok (cl_store (el_C E)) evs (sv_store sv)"
proof (induction rule: epoch_run.induct)
  case (refused evs sv evb eve c e err sv')
  show ?case by (rule refused_indexes [OF refused.hyps(2) refused.IH])
next
  case (connected evs sv evb eve c e sv')
  show ?case by (rule connected_indexes [OF connected.hyps(2) connected.IH connected.hyps(3)])
qed

text \<open>
  C3. However events arrive, the heads of the epoch that the emitter builds on are exactly the connected
  events without connected descendants, the last event recorded for a validator is its last connected
  one, and the highest Lamport time is the greatest of the connected events; sealing an epoch starts
  them over.
\<close>

theorem heads_are_tips:
  assumes "epoch_run E evs sv"
  shows "\<exists>s s' s''. GetHeads (store_epoch (sv_store sv)) (sv_store sv) = Inr (Some (tips evs), s) \<and>
    (\<forall>v. GetLastEvent (cl_store (el_C E)) (store_epoch (sv_store sv)) v (sv_store sv) = Inr (last_of evs v, s')) \<and>
    GetHighestLamport (cl_store (el_C E)) (sv_store sv) = (top_lamport evs, s'')"
proof -
  let ?L = "cl_store (el_C E)" and ?s = "sv_store sv"
  obtain es ls where es: "gs_epochStore ?s = Some es" "c_Heads es = Some (tips evs)" "c_LastEvents es = Some ls" "map_of ls = last_of evs"
      "fst (GetHighestLamport ?L ?s) = top_lamport evs"
    using epoch_run_indexes [OF assms] by (auto simp: indexes_ok_def)
  have s: "?s\<lparr>gs_epochStore := Some es\<rparr> = ?s" using es(1) by simp
  show ?thesis
    using es s
    by (intro exI [of _ ?s] exI [of _ "snd (GetHighestLamport ?L ?s)"])
       (simp add: GetHeads_def GetLastEvent_def GetLastEvents_def getEpochStore_def store_epoch_def eps_GetHeads_def eps_GetLastEvents_def
          prod_eq_iff)
qed

text \<open>
  The identifiers that events get while they are built are not unique: the counter is copied without
  its leading zeros to the front of the array, so that the identifiers of 1 and 256 agree.
\<close>

lemma sample_not_unique: "fst (sample 0) = fst (sample 255)"
proof -
  have a: "nat_be 1 = [1]" using nat_be.simps [of "Suc 0"] nat_be.simps [of 0] by simp
  have "nat_be 256 = [1, 0]" using a nat_be.simps [of 256] by simp
  moreover have "replicate 23 (0 :: u8) = 0 # replicate 22 0" by (simp flip: replicate_Suc)
  ultimately show ?thesis using a by (simp add: sample_def)
qed

section \<open>Built events\<close>

lemma CalcGasPower_frame:
  "CalcGasPower C ctx (e\<lparr>ev_gasPowerLeft := g\<rparr>) sp = CalcGasPower C ctx e sp"
  "CalcGasPower C ctx (e\<lparr>ev_Frame := f\<rparr>) sp = CalcGasPower C ctx e sp"
  by (simp_all add: CalcGasPower_def calcGasPower_def CalcValidatorGasPower_def SelfParent_def)

lemma spend_gas_valid:
  assumes "spend_gas E ctx dag sp e = Inr (Inr e')"
    and frame: "\<And>x y. el_Build E x dag = Inr y \<Longrightarrow> y = x\<lparr>ev_Frame := ev_Frame y\<rparr>"
  shows "gaspower_Validate (el_check E) ctx e' sp = Inr () \<and> (\<exists>g f. e' = e\<lparr>ev_gasPowerLeft := g, ev_Frame := f\<rparr>)"
proof -
  obtain av where av: "CalcGasPower (el_check E) ctx e sp = Inr av" and le: "\<not> ev_gasPowerUsed e > gpl_Min av"
      and b: "el_Build E (e\<lparr>ev_gasPowerLeft := gpl_Sub av (ev_gasPowerUsed e)\<rparr>) dag = Inr e'"
    using assms(1) by (auto simp: spend_gas_def split: sum.splits failure.splits if_splits)
  obtain f where e': "e' = e\<lparr>ev_gasPowerLeft := gpl_Sub av (ev_gasPowerUsed e), ev_Frame := f\<rparr>" using frame [OF b] by (metis)
  have "gaspower_Validate (el_check E) ctx e' sp = Inr ()"
    unfolding e' gaspower_Validate_def CalcGasPower_frame using av by (simp add: gpl_Sub_def)
  then show ?thesis using e' by blast
qed


section \<open>A run\<close>

definition root_event :: event_payload where
  "root_event = run_event\<lparr>ev_Parents := []\<rparr>"

definition stale_event :: event_payload where
  "stale_event = root_event\<lparr>ev_medianTime := 5\<rparr>"

definition demo_E :: "(bytes \<Rightarrow> int, unit) ev_lib" where
  "demo_E = \<lparr>el_C = demo_C\<lparr>cl_store := demo_L\<lparr>enc_event := (\<lambda>_. []), dec_event := (\<lambda>_. Inr stale_event)\<rparr>\<rparr>, el_check = demo_check_lib,
     el_esHash = (\<lambda>_. replicate 32 6), el_Add = (\<lambda>_ d. (None, d)), el_MedianTime = (\<lambda>_ _ _. Inr 900000000000), el_Flush = (\<lambda>d. d),
     el_DropNotFlushed = (\<lambda>d. d), el_Reset = (\<lambda>_ d. d), el_Process = (\<lambda>_ _. Inr []), el_Build = (\<lambda>e _. Inr e), el_version = [49]\<rparr>"

definition demo_sv :: "unit service" where
  "demo_sv = \<lparr>sv_stopped = False,
     sv_node = demo_node\<lparr>nd_store := (nd_store demo_node)\<lparr>gs_epochStore := Some \<lparr>eps_epoch = 2, t_LastEvents = Map.empty, t_Heads = Map.empty,
       c_Heads = Some {}, c_LastEvents = Some []\<rparr>\<rparr>\<rparr>,
     sv_dag = (), sv_gasCtx = demo_ctx\<lparr>vc_ValidatorStates := replicate 2 \<lparr>PrevEpochEvent = None, GasRefund = 0\<rparr>\<rparr>, sv_pubkeys = (Map.empty, 2), sv_counter = 0\<rparr>"

lemma demo_sv_store:
  "sv_store demo_sv = empty_store\<lparr>t_Blocks := t_Blocks (sv_store demo_sv), c_Blocks := c_Blocks (sv_store demo_sv),
     c_BlockEpochState := Some (bs_Copy run_bs, demo_es), gs_epochStore := Some \<lparr>eps_epoch = 2, t_LastEvents = Map.empty, t_Heads = Map.empty,
       c_Heads = Some {}, c_LastEvents = Some []\<rparr>\<rparr>"
  by (simp add: demo_sv_def demo_node_def demo_blocks_def SetBlockEpochState_def SetBlock_def empty_store_def)

lemma demo_start: "indexes_ok (cl_store (el_C demo_E)) [] (sv_store demo_sv)"
  by (subst demo_sv_store)
     (simp add: indexes_ok_def tips_def last_of_def top_lamport_def GetEpochState_def getBlockEpochState_def GetHighestLamport_def
        loadHighestLamport_def Let_def empty_store_def demo_es_def)

lemma root_valid:
  "epoch_Validate demo_check_lib demo_rules 2 root_event = Inr ()" "epoch_Validate demo_check_lib demo_rules 2 stale_event = Inr ()"
proof -
  have "epoch_Validate demo_check_lib demo_rules 2 (root_event\<lparr>ev_medianTime := t\<rparr>) = Inr ()" for t
    by (simp add: epoch_Validate_def demo_check_lib_def root_event_def run_event_def demo_event_def build_def zero_event_def mut_event.defs
        checkGas_def CalcGasPowerUsed_def CheckTxs_def demo_rules_def MainNetRules_def DefaultDagRules_def DefaultEconomyRules_def DefaultGasRules_def
        DefaultEventGas_def Let_def)
  from this [of "ev_medianTime root_event"] this [of 5]
  show "epoch_Validate demo_check_lib demo_rules 2 root_event = Inr ()" "epoch_Validate demo_check_lib demo_rules 2 stale_event = Inr ()"
    by (simp_all add: stale_event_def)
qed

lemma root_event_fields: "ep_ID root_event = [9]" "ep_ID stale_event = [9]" "ev_medianTime root_event = 900000000000" "ev_medianTime stale_event = 5"
  "ev_prevEpochHash root_event = None" "ev_prevEpochHash stale_event = None" "ev_Parents root_event = []" "ev_Lamport root_event = 2"
  by (simp_all add: root_event_def stale_event_def run_event_def demo_event_def build_def zero_event_def mut_event.defs)

lemma demo_epoch: "GetEpochState L (sv_store demo_sv) = Inr (demo_es, sv_store demo_sv)"
  by (rule GetEpochState_of_cache [of _ "bs_Copy run_bs"]) (simp add: demo_sv_store [THEN arg_cong, of c_BlockEpochState])

lemma demo_E_fields:
  "el_check demo_E = demo_check_lib" "el_Add demo_E e d = (None, d)" "el_MedianTime demo_E d i t = Inr 900000000000" "el_Flush demo_E d = d"
  "el_DropNotFlushed demo_E d = d" "el_Process demo_E e d = Inr []" "el_Build demo_E e d = Inr e" "el_esHash demo_E es = replicate 32 6"
  by (simp_all add: demo_E_def)

lemma demo_no_events: "t_Events (sv_store demo_sv) = Map.empty"
  by (subst demo_sv_store) (simp add: empty_store_def)

lemma demo_with_store: "with_store (sv_store sv) sv = sv"
  by (simp add: with_store_def)

lemmas demo_processing = processEvent_def Let_def demo_epoch demo_no_events HasEvent_def saveAndProcessEvent_def processSavedEvent_def
  root_valid root_event_fields demo_with_store demo_E_fields

lemma demo_refused: "\<exists>sv'. processEvent demo_E (\<lambda>_. {}) (\<lambda>_. {}) False stale_event demo_sv = Inr (Some errWrongMedianTime, sv')"
proof -
  have "sv_stopped demo_sv = False" "es_Rules demo_es = demo_rules" "es_Epoch demo_es = 2" by (simp_all add: demo_sv_def demo_es_def)
  then show ?thesis by (simp add: demo_processing)
qed


theorem heads_are_tips_witness:
  "\<exists>sv' s. processEvent demo_E (\<lambda>_. {}) (\<lambda>_. {}) False root_event demo_sv = Inr (None, sv') \<and>
     GetHeads (store_epoch (sv_store sv')) (sv_store sv') = Inr (Some {[9]}, s)"
proof -
  have f: "sv_stopped demo_sv = False" "es_Rules demo_es = demo_rules" "es_Epoch demo_es = 2" by (simp_all add: demo_sv_def demo_es_def)
  let ?L = "cl_store (el_C demo_E)"
  define s1 where "s1 = SetEvent ?L {} root_event (sv_store demo_sv)"
  have s1: "GetEpochState ?L s1 = Inr (demo_es, s1)"
    by (rule GetEpochState_of_cache [of _ "bs_Copy run_bs"]) (simp add: s1_def SetEvent_def demo_sv_store [THEN arg_cong, of c_BlockEpochState])
  have eps: "gs_epochStore s1 = Some \<lparr>eps_epoch = 2, t_LastEvents = Map.empty, t_Heads = Map.empty, c_Heads = Some {}, c_LastEvents = Some []\<rparr>"
    by (simp add: s1_def SetEvent_def demo_sv_store [THEN arg_cong, of gs_epochStore])
  define s2 where "s2 = update_lamport ?L False root_event (s1\<lparr>gs_epochStore := Some \<lparr>eps_epoch = 2, t_LastEvents = Map.empty, t_Heads = Map.empty,
      c_Heads = Some (processEventHeads {} root_event), c_LastEvents = Some (processLastEvent [] root_event)\<rparr>\<rparr>)"
  have ix: "index_event ?L 2 root_event s1 = Inr (s1\<lparr>gs_epochStore := Some \<lparr>eps_epoch = 2, t_LastEvents = Map.empty, t_Heads = Map.empty,
      c_Heads = Some (processEventHeads {} root_event), c_LastEvents = Some (processLastEvent [] root_event)\<rparr>\<rparr>)"
    using index_event_ok [OF eps] by simp
  obtain sv' where r: "processEvent demo_E (\<lambda>_. {}) (\<lambda>_. {}) False root_event demo_sv = Inr (None, sv')" and st: "sv_store sv' = s2"
    using f by (simp add: demo_processing s1_def [symmetric] connect_event_def s1 ix s2_def)
  have ep: "store_epoch (sv_store sv') = store_epoch (sv_store demo_sv)"
    unfolding st s2_def store_epoch_def update_lamport_frame by (simp add: demo_sv_store [THEN arg_cong, of gs_epochStore])
  have "epoch_run demo_E [root_event] sv'"
    using epoch_run.connected [OF epoch_run.start [OF demo_start] r] ep root_event_fields(7) by simp
  moreover have "tips [root_event] = {[9]}" by (simp add: tips_def root_event_fields)
  ultimately show ?thesis using heads_are_tips [of demo_E "[root_event]" sv'] r by auto
qed

lemma demo_gas:
  assumes "ev_Epoch e = 2" "ev_Creator e = 1" "ev_medianTime e = 900000000000" "ev_Parents e = []"
  shows "CalcGasPower demo_check_lib (sv_gasCtx demo_sv) e None = Inr \<lparr>Gas0 = 904000000, Gas1 = 904000000\<rparr>"
proof -
  have sp: "SelfParent demo_check_lib e = None" using assms(4) by (simp add: SelfParent_def demo_check_lib_def be_lib_def)
  have rate: "calcValidatorGasPowerPerSec 1 demo_validators (demo_config i) = Inr (1000000, 3600000000, 5000000)" for i
    by (simp add: calcValidatorGasPowerPerSec_def demo_validators_def demo_config_def big_div_def time_Second_def Let_def)
  have "CalcValidatorGasPower demo_check_lib e 900000000000 1000000000 0 demo_validators (demo_config i) = Inr 904000000" for i
    using assms(2) sp rate by (simp add: CalcValidatorGasPower_def time_Second_def Let_def)
  moreover have "replicate 2 x ! v_GetIdx demo_validators 1 = x" "v_GetIdx demo_validators 1 < 2" for x :: validator_state
    by (simp_all add: demo_validators_def)
  ultimately have "calcGasPower demo_check_lib e None (sv_gasCtx demo_sv) (demo_config i) = Inr 904000000" for i
    using assms(2,3) sp by (simp add: calcGasPower_def demo_sv_def demo_ctx_def Let_def)
  then show ?thesis using assms(1) by (simp add: CalcGasPower_def) (simp add: demo_sv_def demo_ctx_def)
qed


end
