(* ===== verification/Go_Heap.thy ===== *)
theory Go_Heap
  imports Sky_Prelude "HOL-Library.Multiset"
begin

text \<open>
  Package \<open>container/heap\<close> of the standard library, on a slice, as the transaction lists use it. The
  order \<open>Less\<close> of the heap interface is an argument; what it has to satisfy is the locale
  \<open>less_order\<close>, and the heaps of src/evmcore/tx_list.go interpret it.
\<close>

section \<open>Operations\<close>

definition swap_at :: "nat \<Rightarrow> nat \<Rightarrow> 'a list \<Rightarrow> 'a list" where
  "swap_at i j h = h[i := h ! j, j := h ! i]"

function heap_up :: "('a \<Rightarrow> 'a \<Rightarrow> bool) \<Rightarrow> nat \<Rightarrow> 'a list \<Rightarrow> 'a list" where
  "heap_up lt j h =
     (let i = (j - 1) div 2 in if i = j \<or> \<not> lt (h ! j) (h ! i) then h else heap_up lt i (swap_at i j h))"
  by pat_completeness auto
termination by (relation "measure (\<lambda>(_, j, _). j)") auto

text \<open>The child that \<open>down\<close> compares with.\<close>

definition down_child :: "('a \<Rightarrow> 'a \<Rightarrow> bool) \<Rightarrow> nat \<Rightarrow> nat \<Rightarrow> 'a list \<Rightarrow> nat" where
  "down_child lt i n h =
     (let j1 = 2 * i + 1; j2 = j1 + 1 in if j2 < n \<and> lt (h ! j2) (h ! j1) then j2 else j1)"

function heap_down_loop :: "('a \<Rightarrow> 'a \<Rightarrow> bool) \<Rightarrow> nat \<Rightarrow> nat \<Rightarrow> 'a list \<Rightarrow> nat \<times> 'a list" where
  "heap_down_loop lt i n h =
     (if 2 * i + 1 \<ge> n then (i, h)
      else let j = down_child lt i n h
           in if \<not> lt (h ! j) (h ! i) then (i, h) else heap_down_loop lt j n (swap_at i j h))"
  by pat_completeness auto
termination by (relation "measure (\<lambda>(_, i, n, _). n - i)") (auto simp: down_child_def Let_def)

definition heap_down :: "('a \<Rightarrow> 'a \<Rightarrow> bool) \<Rightarrow> nat \<Rightarrow> nat \<Rightarrow> 'a list \<Rightarrow> bool \<times> 'a list" where
  "heap_down lt i0 n h = (let (i, h) = heap_down_loop lt i0 n h in (i > i0, h))"

fun heap_init_loop :: "('a \<Rightarrow> 'a \<Rightarrow> bool) \<Rightarrow> nat \<Rightarrow> nat \<Rightarrow> 'a list \<Rightarrow> 'a list" where
  "heap_init_loop lt 0 n h = h"
| "heap_init_loop lt (Suc i) n h = heap_init_loop lt i n (snd (heap_down lt i n h))"

definition heap_Init :: "('a \<Rightarrow> 'a \<Rightarrow> bool) \<Rightarrow> 'a list \<Rightarrow> 'a list" where
  "heap_Init lt h = heap_init_loop lt (length h div 2) (length h) h"

definition heap_Push :: "('a \<Rightarrow> 'a \<Rightarrow> bool) \<Rightarrow> 'a \<Rightarrow> 'a list \<Rightarrow> 'a list" where
  "heap_Push lt x h = heap_up lt (length h) (h @ [x])"

text \<open>\<open>Pop\<close> of the interface takes the last element; both panic on an empty slice.\<close>

definition pop_last :: "'a list \<Rightarrow> ('a \<times> 'a list) res" where
  "pop_last h = (if h = [] then Inl (Panic IndexOutOfRange) else Inr (last h, butlast h))"

definition heap_Pop :: "('a \<Rightarrow> 'a \<Rightarrow> bool) \<Rightarrow> 'a list \<Rightarrow> ('a \<times> 'a list) res" where
  "heap_Pop lt h =
     (if h = [] then Inl (Panic IndexOutOfRange)
      else let n = length h - 1 in pop_last (snd (heap_down lt 0 n (swap_at 0 n h))))"

definition heap_Remove :: "('a \<Rightarrow> 'a \<Rightarrow> bool) \<Rightarrow> nat \<Rightarrow> 'a list \<Rightarrow> ('a \<times> 'a list) res" where
  "heap_Remove lt i h =
     (if i \<ge> length h then Inl (Panic IndexOutOfRange)
      else let n = length h - 1
           in pop_last (if n \<noteq> i
                then let (moved, h) = heap_down lt i n (swap_at i n h) in if moved then h else heap_up lt i h
                else h))"

declare heap_up.simps [simp del] heap_down_loop.simps [simp del]

section \<open>Contents\<close>

lemma length_swap_at [simp]: "length (swap_at i j h) = length h"
  by (simp add: swap_at_def)

lemma mset_swap_at [simp]: "i < length h \<Longrightarrow> j < length h \<Longrightarrow> mset (swap_at i j h) = mset h"
  by (simp add: swap_at_def mset_swap)

lemma nth_swap_at: "i < length h \<Longrightarrow> j < length h \<Longrightarrow> swap_at i j h ! k = (if k = j then h ! i else if k = i then h ! j else h ! k)"
  by (cases "k < length h") (auto simp: swap_at_def nth_list_update)

lemma heap_up_mset: "j < length h \<Longrightarrow> mset (heap_up lt j h) = mset h \<and> length (heap_up lt j h) = length h"
proof (induction lt j h rule: heap_up.induct)
  case (1 lt j h)
  then show ?case by (subst (1 2) heap_up.simps) (auto simp: Let_def)
qed

lemma heap_up_above: "j < k \<Longrightarrow> j < length h \<Longrightarrow> heap_up lt j h ! k = h ! k"
proof (induction lt j h rule: heap_up.induct)
  case (1 lt j h)
  then show ?case by (subst heap_up.simps) (auto simp: Let_def nth_swap_at)
qed

lemma down_child_bounds: "2 * i + 1 < n \<Longrightarrow> i < down_child lt i n h \<and> down_child lt i n h < n \<and> (down_child lt i n h - 1) div 2 = i"
  by (auto simp: down_child_def Let_def)

lemma heap_down_loop_mset:
  "n \<le> length h \<Longrightarrow> mset (snd (heap_down_loop lt i n h)) = mset h \<and> length (snd (heap_down_loop lt i n h)) = length h \<and>
   i \<le> fst (heap_down_loop lt i n h) \<and> (\<forall>k \<ge> n. snd (heap_down_loop lt i n h) ! k = h ! k) \<and> (\<forall>k < i. snd (heap_down_loop lt i n h) ! k = h ! k)"
proof (induction lt i n h rule: heap_down_loop.induct)
  case (1 lt i n h)
  show ?case
  proof (cases "2 * i + 1 < n \<and> lt (h ! down_child lt i n h) (h ! i)")
    case False
    then show ?thesis by (subst (1 2 3 4 5) heap_down_loop.simps) (auto simp: Let_def not_less)
  next
    case True
    let ?j = "down_child lt i n h"
    have j: "i < ?j" "?j < n" using True down_child_bounds [of i n lt h] by auto
    have "heap_down_loop lt i n h = heap_down_loop lt ?j n (swap_at i ?j h)"
      using True by (subst heap_down_loop.simps) (simp add: Let_def)
    then show ?thesis using 1(1) [of ?j] True 1(2) j by (auto simp: nth_swap_at)
  qed
qed

section \<open>Order\<close>

text \<open>
  \<open>ok_at\<close>: an element is not less than its parent, as far as the parent is at or behind \<open>r\<close> (the part
  of the slice that \<open>Init\<close> has already ordered).
\<close>

definition ok_at :: "('a \<Rightarrow> 'a \<Rightarrow> bool) \<Rightarrow> nat \<Rightarrow> 'a list \<Rightarrow> nat \<Rightarrow> bool" where
  "ok_at lt r h k \<longleftrightarrow> (0 < k \<and> r \<le> (k - 1) div 2 \<longrightarrow> \<not> lt (h ! k) (h ! ((k - 1) div 2)))"

definition heap_ok :: "('a \<Rightarrow> 'a \<Rightarrow> bool) \<Rightarrow> 'a list \<Rightarrow> bool" where
  "heap_ok lt h \<longleftrightarrow> (\<forall>k < length h. ok_at lt 0 h k)"

locale less_order =
  fixes lt :: "'a \<Rightarrow> 'a \<Rightarrow> bool"
  assumes lt_asym: "lt a b \<Longrightarrow> \<not> lt b a"
    and lt_neg_trans: "\<not> lt b a \<Longrightarrow> \<not> lt c b \<Longrightarrow> \<not> lt c a"
begin

lemma up_ok:
  assumes "j < n" "n \<le> length h" "\<forall>k < n. k \<noteq> j \<longrightarrow> ok_at lt 0 h k"
    and "\<forall>k < n. 0 < k \<and> (k - 1) div 2 = j \<and> 0 < j \<longrightarrow> \<not> lt (h ! k) (h ! ((j - 1) div 2))"
  shows "\<forall>k < n. ok_at lt 0 (heap_up lt j h) k"
  using assms
proof (induction j arbitrary: h rule: less_induct)
  case (less j)
  define i where "i = (j - 1) div 2"
  show ?case
  proof (cases "i = j \<or> \<not> lt (h ! j) (h ! i)")
    case True
    then have "ok_at lt 0 h j" by (auto simp: ok_at_def i_def)
    moreover have "heap_up lt j h = h" using True by (subst heap_up.simps) (auto simp: Let_def i_def)
    ultimately show ?thesis using less.prems(3) by metis
  next
    case False
    let ?h = "swap_at i j h"
    have ij: "i < j" "i < n" "(j - 1) div 2 = i" "0 < j" using False less.prems(1) by (auto simp: i_def)
    have nth: "?h ! k = (if k = j then h ! i else if k = i then h ! j else h ! k)" for k
      using ij less.prems(1,2) by (simp add: nth_swap_at)
    have ji: "lt (h ! j) (h ! i)" using False by simp
    have le: "\<not> lt (h ! k) (h ! j)" if "\<not> lt (h ! k) (h ! i)" for k using lt_neg_trans [OF lt_asym [OF ji] that] .
    have oki: "ok_at lt 0 h i" using less.prems(3) ij by simp
    have ok: "ok_at lt 0 ?h k" if k: "k < n" "k \<noteq> i" for k
    proof -
      have hk: "k \<noteq> j \<Longrightarrow> ok_at lt 0 h k" using less.prems(3) k(1) by simp
      have ch: "(k - 1) div 2 = j \<Longrightarrow> 0 < k \<Longrightarrow> \<not> lt (h ! k) (h ! i)" using less.prems(4) k(1) ij by metis
      show ?thesis using hk ch lt_asym [OF ji] le [of k] k(2) ij by (auto simp: ok_at_def nth)
    qed
    have gr: "\<not> lt (?h ! k) (?h ! ((i - 1) div 2))" if k: "k < n" "0 < k" "(k - 1) div 2 = i" "0 < i" for k
    proof -
      have p: "(i - 1) div 2 < i" using k(4) by simp
      have base: "\<not> lt (h ! i) (h ! ((i - 1) div 2))" using oki k(4) by (simp add: ok_at_def)
      have "k \<noteq> i" using k(2,3) by auto
      moreover have "k \<noteq> j \<Longrightarrow> \<not> lt (h ! k) (h ! i)" using less.prems(3) k by (auto simp: ok_at_def)
      ultimately show ?thesis using base lt_neg_trans [OF base, of "h ! k"] p ij(1) by (auto simp: nth)
    qed
    have "heap_up lt j h = heap_up lt i ?h" using False ij by (subst heap_up.simps) (simp add: Let_def)
    then show ?thesis using less.IH [OF ij(1) ij(2), of ?h] less.prems(2) ok gr by simp
  qed
qed

lemma down_ok:
  assumes "i < n" "n \<le> length h" "r \<le> i"
    and "\<forall>k < n. k \<noteq> i \<and> (k = 0 \<or> (k - 1) div 2 \<noteq> i) \<longrightarrow> ok_at lt r h k"
    and "\<forall>k < n. 0 < k \<and> (k - 1) div 2 = i \<and> 0 < i \<and> r \<le> (i - 1) div 2 \<longrightarrow> \<not> lt (h ! k) (h ! ((i - 1) div 2))"
  shows "(\<forall>k < n. k \<noteq> i \<longrightarrow> ok_at lt r (snd (heap_down_loop lt i n h)) k) \<and>
    (i < fst (heap_down_loop lt i n h) \<or> ok_at lt r h i \<longrightarrow> ok_at lt r (snd (heap_down_loop lt i n h)) i) \<and>
    (fst (heap_down_loop lt i n h) = i \<longrightarrow> snd (heap_down_loop lt i n h) = h)"
  using assms
proof (induction "n - i" arbitrary: i h rule: less_induct)
  case (less i)
  let ?j = "down_child lt i n h"
  show ?case
  proof (cases "2 * i + 1 < n \<and> lt (h ! ?j) (h ! i)")
    case False
    have "\<not> lt (h ! k) (h ! i)" if k: "k < n" "0 < k" "(k - 1) div 2 = i" for k
    proof -
      have "k = 2 * i + 1 \<or> k = 2 * i + 2" using k by presburger
      moreover have "\<not> lt (h ! ?j) (h ! i)" using False k by auto
      ultimately show ?thesis
        using k(1) lt_neg_trans [of "h ! (2 * i + 2)" "h ! i" "h ! (2 * i + 1)"] lt_neg_trans [of "h ! (2 * i + 1)" "h ! i" "h ! (2 * i + 2)"]
        by (auto simp: down_child_def Let_def split: if_splits dest: lt_asym)
    qed
    then have "ok_at lt r h k" if "k < n" "k \<noteq> i" for k using less.prems(4) that by (auto simp: ok_at_def)
    moreover have "heap_down_loop lt i n h = (i, h)" using False by (subst heap_down_loop.simps) (auto simp: Let_def not_less)
    ultimately show ?thesis by simp
  next
    case True
    have j: "i < ?j" "?j < n" "(?j - 1) div 2 = i" using True down_child_bounds [of i n lt h] by auto
    let ?h = "swap_at i ?j h"
    have nth: "?h ! k = (if k = ?j then h ! i else if k = i then h ! ?j else h ! k)" for k
      using j less.prems(1,2) by (simp add: nth_swap_at)
    have sib: "\<not> lt (h ! k) (h ! ?j)" if k: "k < n" "0 < k" "(k - 1) div 2 = i" for k
    proof -
      have "k = 2 * i + 1 \<or> k = 2 * i + 2" using k by presburger
      then show ?thesis using k(1) lt_asym by (auto simp: down_child_def Let_def split: if_splits)
    qed
    have okj: "ok_at lt r ?h ?j" using lt_asym [of "h ! ?j" "h ! i"] True j by (simp add: ok_at_def nth)
    have A: "ok_at lt r ?h k" if k: "k < n" "k \<noteq> ?j" "k = 0 \<or> (k - 1) div 2 \<noteq> ?j" for k
    proof (cases "k = i")
      case True
      have "\<not> lt (h ! ?j) (h ! ((i - 1) div 2))" if "0 < i" "r \<le> (i - 1) div 2" using less.prems(5) j that by simp
      then show ?thesis using True j(1) by (auto simp: ok_at_def nth)
    next
      case False
      show ?thesis
      proof (cases "0 < k \<and> (k - 1) div 2 = i")
        case True
        then show ?thesis using sib [OF k(1)] False k(2) j(1) by (simp add: ok_at_def nth)
      next
        case outside: False
        then have "ok_at lt r h k" using less.prems(4) k(1) False by auto
        then show ?thesis using False outside k(2,3) by (auto simp: ok_at_def nth)
      qed
    qed
    have B: "\<not> lt (?h ! k) (?h ! ((?j - 1) div 2))" if k: "k < n" "0 < k" "(k - 1) div 2 = ?j" for k
    proof -
      have ne: "k \<noteq> i" "k \<noteq> ?j" "(k - 1) div 2 \<noteq> i" using k j(1) by auto
      have "r \<le> (k - 1) div 2" using less.prems(3) j(1) k(3) by simp
      moreover have "ok_at lt r h k" using less.prems(4) k(1) ne by blast
      ultimately show ?thesis using ne k(2,3) j by (simp add: ok_at_def nth)
    qed
    have step: "heap_down_loop lt i n h = heap_down_loop lt ?j n ?h"
      using True by (subst heap_down_loop.simps) (simp add: Let_def)
    have jn: "n - ?j < n - i" "?j < n" "n \<le> length ?h" "r \<le> ?j" using j less.prems(2,3) by auto
    have IH: "(\<forall>k < n. k \<noteq> ?j \<longrightarrow> ok_at lt r (snd (heap_down_loop lt ?j n ?h)) k) \<and>
        (?j < fst (heap_down_loop lt ?j n ?h) \<or> ok_at lt r ?h ?j \<longrightarrow> ok_at lt r (snd (heap_down_loop lt ?j n ?h)) ?j)"
      using less.hyps [OF jn] A B by blast
    have "i < fst (heap_down_loop lt ?j n ?h)" using heap_down_loop_mset [of n ?h lt ?j] jn(3) j(1) by simp
    then show ?thesis unfolding step using IH okj j(1) less.prems(1) by (metis nat_neq_iff)
  qed
qed

lemma Init_ok: "heap_ok lt (heap_Init lt h) \<and> mset (heap_Init lt h) = mset h"
proof -
  have "heap_ok lt (heap_init_loop lt i (length g) g) \<and> mset (heap_init_loop lt i (length g) g) = mset g"
    if "\<forall>k < length g. ok_at lt i g k" "i \<le> length g div 2" for i g
    using that
  proof (induction i arbitrary: g)
    case 0
    then show ?case by (simp add: heap_ok_def)
  next
    case (Suc i)
    let ?g = "snd (heap_down_loop lt i (length g) g)"
    have ms: "mset ?g = mset g" "length ?g = length g" using heap_down_loop_mset [of "length g" g lt i] by simp_all
    have old: "ok_at lt i g k" if "k < length g" "k = 0 \<or> (k - 1) div 2 \<noteq> i" for k
      using Suc.prems(1) that by (auto simp: ok_at_def)
    have oki: "ok_at lt i g i" by (auto simp: ok_at_def)
    have A: "\<forall>k < length g. k \<noteq> i \<and> (k = 0 \<or> (k - 1) div 2 \<noteq> i) \<longrightarrow> ok_at lt i g k" using old by blast
    have "\<not> (0 < i \<and> i \<le> (i - 1) div 2)" by presburger
    then have B: "\<forall>k < length g. 0 < k \<and> (k - 1) div 2 = i \<and> 0 < i \<and> i \<le> (i - 1) div 2 \<longrightarrow> \<not> lt (g ! k) (g ! ((i - 1) div 2))" by blast
    have "i < length g" using Suc.prems(2) by linarith
    from down_ok [OF this le_refl le_refl A B] oki have "\<forall>k < length g. ok_at lt i ?g k" by blast
    then have "heap_ok lt (heap_init_loop lt i (length ?g) ?g) \<and> mset (heap_init_loop lt i (length ?g) ?g) = mset ?g"
      using Suc.IH [of ?g] Suc.prems(2) ms by simp
    then show ?case using ms by (simp add: heap_down_def split_def Let_def)
  qed
  moreover have "\<forall>k < length h. ok_at lt (length h div 2) h k" by (auto simp: ok_at_def)
  ultimately show ?thesis by (simp add: heap_Init_def)
qed

lemma Push_ok:
  assumes "heap_ok lt h"
  shows "heap_ok lt (heap_Push lt x h) \<and> mset (heap_Push lt x h) = add_mset x (mset h)"
proof -
  let ?g = "h @ [x]" and ?n = "length h"
  have "\<forall>k < length ?g. ok_at lt 0 (heap_up lt ?n ?g) k"
  proof (rule up_ok)
    show "\<forall>k < length ?g. k \<noteq> ?n \<longrightarrow> ok_at lt 0 ?g k" using assms by (auto simp: heap_ok_def ok_at_def nth_append)
    have "(k - 1) div 2 < k" if "0 < k" for k :: nat using that by simp
    then show "\<forall>k < length ?g. 0 < k \<and> (k - 1) div 2 = ?n \<and> 0 < ?n \<longrightarrow> \<not> lt (?g ! k) (?g ! ((?n - 1) div 2))" by fastforce
  qed simp_all
  then show ?thesis using heap_up_mset [of ?n ?g lt] by (simp add: heap_ok_def heap_Push_def)
qed

lemma root_least: "heap_ok lt h \<Longrightarrow> k < length h \<Longrightarrow> \<not> lt (h ! k) (h ! 0)"
proof (induction k rule: less_induct)
  case (less k)
  show ?case
  proof (cases "k = 0")
    case True
    then show ?thesis using lt_asym by auto
  next
    case False
    then have "\<not> lt (h ! k) (h ! ((k - 1) div 2))" using less.prems by (auto simp: heap_ok_def ok_at_def)
    moreover have "\<not> lt (h ! ((k - 1) div 2)) (h ! 0)" using less.IH [of "(k - 1) div 2"] less.prems False by simp
    ultimately show ?thesis using lt_neg_trans by blast
  qed
qed

text \<open>The prefix that is left when the last element is taken.\<close>

lemma pop_last_ok:
  assumes "length g = Suc n" "\<forall>k < n. ok_at lt 0 g k"
  shows "\<exists>f. pop_last g = Inr (g ! n, f) \<and> heap_ok lt f \<and> mset g = add_mset (g ! n) (mset f)"
proof -
  have ne: "g \<noteq> []" using assms(1) by auto
  have "last g = g ! n" using ne assms(1) by (simp add: last_conv_nth)
  moreover have "heap_ok lt (butlast g)"
    using assms by (auto simp: heap_ok_def ok_at_def nth_butlast)
  moreover have "mset g = add_mset (last g) (mset (butlast g))"
    using ne by (metis append_butlast_last_id mset_append mset.simps add_mset_add_single)
  ultimately show ?thesis using ne by (auto simp: pop_last_def)
qed

lemma Remove_ok:
  assumes "heap_ok lt h" "i < length h"
  shows "\<exists>f. heap_Remove lt i h = Inr (h ! i, f) \<and> heap_ok lt f \<and> mset h = add_mset (h ! i) (mset f)"
proof -
  define n where "n = length h - 1"
  have n: "length h = Suc n" "i \<le> n" using assms(2) by (auto simp: n_def)
  have ok: "\<And>k. k < length h \<Longrightarrow> ok_at lt 0 h k" using assms(1) by (simp add: heap_ok_def)
  show ?thesis
  proof (cases "n = i")
    case True
    then show ?thesis using pop_last_ok [of h n] ok n by (simp add: heap_Remove_def Let_def)
  next
    case False
    let ?s = "swap_at i n h"
    have i: "i < n" using False n by simp
    have nth: "?s ! k = (if k = n then h ! i else if k = i then h ! n else h ! k)" for k
      using n i by (simp add: nth_swap_at)
    have A: "\<forall>k < n. k \<noteq> i \<and> (k = 0 \<or> (k - 1) div 2 \<noteq> i) \<longrightarrow> ok_at lt 0 ?s k"
    proof (intro allI impI)
      fix k assume k: "k < n" "k \<noteq> i \<and> (k = 0 \<or> (k - 1) div 2 \<noteq> i)"
      have "(k - 1) div 2 \<noteq> n" using k(1) by auto
      then show "ok_at lt 0 ?s k" using ok [of k] k n by (auto simp: ok_at_def nth)
    qed
    have B: "\<forall>k < n. 0 < k \<and> (k - 1) div 2 = i \<and> 0 < i \<longrightarrow> \<not> lt (?s ! k) (?s ! ((i - 1) div 2))"
    proof (intro allI impI)
      fix k assume k: "k < n" "0 < k \<and> (k - 1) div 2 = i \<and> 0 < i"
      have ne: "k \<noteq> i" "(i - 1) div 2 \<noteq> i" "(i - 1) div 2 \<noteq> n" using k i by linarith+
      have "\<not> lt (h ! k) (h ! i)" using ok [of k] k n by (auto simp: ok_at_def)
      moreover have "\<not> lt (h ! i) (h ! ((i - 1) div 2))" using ok [of i] k i n by (auto simp: ok_at_def)
      ultimately show "\<not> lt (?s ! k) (?s ! ((i - 1) div 2))" using ne k(1) lt_neg_trans by (simp add: nth)
    qed
    define i' g where "i' = fst (heap_down_loop lt i n ?s)" and "g = snd (heap_down_loop lt i n ?s)"
    have dl: "heap_down_loop lt i n ?s = (i', g)" by (simp add: i'_def g_def)
    have gm: "mset g = mset h" "length g = length h" "g ! n = h ! i" "i \<le> i'"
      using heap_down_loop_mset [of n ?s lt i] n i by (auto simp: dl nth)
    have down: "\<forall>k < n. k \<noteq> i \<longrightarrow> ok_at lt 0 g k" "i < i' \<Longrightarrow> ok_at lt 0 g i" "i' = i \<Longrightarrow> g = ?s"
      using down_ok [of i n ?s 0] i n A B by (simp_all add: dl)
    define f where "f = (if i < i' then g else heap_up lt i g)"
    have fok: "\<forall>k < n. ok_at lt 0 f k"
    proof (cases "i < i'")
      case True
      then show ?thesis using down(1,2) by (auto simp: f_def)
    next
      case False
      then have "g = ?s" using down(3) gm(4) by simp
      then show ?thesis using up_ok [OF i _ down(1)] B gm(2) n False by (simp add: f_def)
    qed
    have fm: "mset f = mset h" "length f = Suc n" "f ! n = h ! i"
      using gm heap_up_mset [of i g lt] heap_up_above [of i n g lt] i n by (auto simp: f_def)
    have "length h - Suc 0 = n" by (simp add: n_def)
    then have "heap_Remove lt i h = pop_last f"
      using assms(2) False by (simp add: heap_Remove_def heap_down_def dl f_def Let_def)
    then show ?thesis using pop_last_ok [OF fm(2) fok] fm by simp
  qed
qed

lemma Pop_ok:
  assumes "heap_ok lt h" "h \<noteq> []"
  shows "\<exists>f. heap_Pop lt h = Inr (h ! 0, f) \<and> heap_ok lt f \<and> mset h = add_mset (h ! 0) (mset f)"
proof (cases "length h = 1")
  case True
  then obtain x where "h = [x]" by (auto simp: length_Suc_conv)
  then show ?thesis by (simp add: heap_Pop_def heap_down_def heap_down_loop.simps pop_last_def swap_at_def heap_ok_def)
next
  case False
  define n where "n = length h - 1"
  have n: "length h = Suc n" "0 < n" using assms(2) False by (cases h; simp add: n_def)+
  have "heap_up lt 0 g = g" for g by (simp add: heap_up.simps)
  then have "heap_Pop lt h = heap_Remove lt 0 h"
    using n assms(2) by (simp add: heap_Pop_def heap_Remove_def heap_down_def split_def Let_def)
  then show ?thesis using Remove_ok [OF assms(1), of 0] assms(2) by simp
qed

end

end
