(* ===== verification/Tx_List.thy ===== *)
theory Tx_List
  imports Go_Heap Inter Refinement "HOL-Library.AList"
begin

text \<open>
  The nonce-sorted transaction lists of src/evmcore/tx_list.go: \<open>txSortedMap\<close>, a map from nonces to
  transactions with a heap of its keys and a cached sorted slice, and \<open>txList\<close>, the list of an account,
  which caches upper bounds of cost and gas. A Go map is an association list with distinct keys;
  \<open>range\<close> visits its entries in an order that is an argument \<open>it\<close> of the operation. A \<open>*Transaction\<close>
  read from the map is an option, \<open>nil\<close> being \<open>None\<close>.
\<close>

section \<open>Nonce heap and sorted map\<close>

definition nonce_Less :: "u64 \<Rightarrow> u64 \<Rightarrow> bool" where
  "nonce_Less a b \<longleftrightarrow> a < b"

record sorted_map =
  sm_items :: "(u64 \<times> transaction) list"
  sm_index :: "u64 list"
  sm_cache :: "transaction list option"

definition newTxSortedMap :: sorted_map where
  "newTxSortedMap = \<lparr>sm_items = [], sm_index = [], sm_cache = None\<rparr>"

definition sm_Get :: "u64 \<Rightarrow> sorted_map \<Rightarrow> transaction option" where
  "sm_Get nonce m = map_of (sm_items m) nonce"

definition sm_Put :: "transaction \<Rightarrow> sorted_map \<Rightarrow> sorted_map" where
  "sm_Put tx m =
     (let nonce = tx_Nonce tx;
          m = (if sm_Get nonce m = None then m\<lparr>sm_index := heap_Push nonce_Less nonce (sm_index m)\<rparr> else m)
      in m\<lparr>sm_items := AList.update nonce tx (sm_items m), sm_cache := None\<rparr>)"

lemma heap_Pop_length: "heap_Pop lt h = Inr (x, g) \<Longrightarrow> length g < length h"
  using heap_down_loop_mset [of "length h - 1" "swap_at 0 (length h - 1) h" lt 0]
  by (auto simp: heap_Pop_def pop_last_def heap_down_def split_def Let_def split: if_splits)

function forward_loop :: "u64 \<Rightarrow> transaction option list \<Rightarrow> sorted_map \<Rightarrow> (transaction option list \<times> sorted_map) res" where
  "forward_loop threshold removed m =
     (if sm_index m \<noteq> [] \<and> sm_index m ! 0 < threshold
      then bind_res (heap_Pop nonce_Less (sm_index m)) (\<lambda>(nonce, index).
             forward_loop threshold (removed @ [sm_Get nonce m])
               (m\<lparr>sm_items := AList.delete nonce (sm_items m), sm_index := index\<rparr>))
      else Inr (removed, m))"
  by pat_completeness auto
termination by (relation "measure (\<lambda>(_, _, m). length (sm_index m))") (auto dest: heap_Pop_length)

declare forward_loop.simps [simp del]

definition sm_Forward :: "u64 \<Rightarrow> sorted_map \<Rightarrow> (transaction option list \<times> sorted_map) res" where
  "sm_Forward threshold m =
     bind_res (forward_loop threshold [] m) (\<lambda>(removed, m).
       case sm_cache m of
         None \<Rightarrow> Inr (removed, m)
       | Some c \<Rightarrow> if length removed > length c then Inl (Panic SliceOutOfRange)
                   else Inr (removed, m\<lparr>sm_cache := Some (drop (length removed) c)\<rparr>))"

text \<open>The order in which \<open>range\<close> visits the entries of a map.\<close>

type_synonym visit = "(u64 \<times> transaction) list \<Rightarrow> (u64 \<times> transaction) list"

definition visit_ok :: "visit \<Rightarrow> bool" where
  "visit_ok it \<longleftrightarrow> (\<forall>l. mset (it l) = mset l)"

definition sm_reheap :: "visit \<Rightarrow> sorted_map \<Rightarrow> sorted_map" where
  "sm_reheap it m = m\<lparr>sm_index := heap_Init nonce_Less (map fst (it (sm_items m))), sm_cache := None\<rparr>"

fun filter_loop :: "(transaction \<Rightarrow> bool) \<Rightarrow> (u64 \<times> transaction) list \<Rightarrow> transaction list \<Rightarrow> (u64 \<times> transaction) list
    \<Rightarrow> transaction list \<times> (u64 \<times> transaction) list" where
  "filter_loop p [] removed items = (removed, items)"
| "filter_loop p ((nonce, tx) # es) removed items =
     (if p tx then filter_loop p es (removed @ [tx]) (AList.delete nonce items)
      else filter_loop p es removed items)"

definition sm_filter :: "visit \<Rightarrow> (transaction \<Rightarrow> bool) \<Rightarrow> sorted_map \<Rightarrow> transaction list \<times> sorted_map" where
  "sm_filter it p m =
     (let (removed, items) = filter_loop p (it (sm_items m)) [] (sm_items m);
          m = m\<lparr>sm_items := items\<rparr>
      in (removed, if removed \<noteq> [] then m\<lparr>sm_cache := None\<rparr> else m))"

definition sm_Filter :: "visit \<Rightarrow> visit \<Rightarrow> (transaction \<Rightarrow> bool) \<Rightarrow> sorted_map \<Rightarrow> transaction list \<times> sorted_map" where
  "sm_Filter it it' p m =
     (let (removed, m) = sm_filter it p m in (removed, if removed \<noteq> [] then sm_reheap it' m else m))"

text \<open>The loop of \<open>Cap\<close>; \<open>size\<close> counts down from the number of items to the threshold.\<close>

fun cap_loop :: "nat \<Rightarrow> nat \<Rightarrow> transaction option list \<Rightarrow> sorted_map \<Rightarrow> (transaction option list \<times> sorted_map) res" where
  "cap_loop threshold 0 drops m = Inr (drops, m)"
| "cap_loop threshold (Suc s) drops m =
     (if Suc s > threshold
      then if s \<ge> length (sm_index m) then Inl (Panic IndexOutOfRange)
           else let nonce = sm_index m ! s
                in cap_loop threshold s (drops @ [sm_Get nonce m]) (m\<lparr>sm_items := AList.delete nonce (sm_items m)\<rparr>)
      else Inr (drops, m))"

definition sm_Cap :: "nat \<Rightarrow> sorted_map \<Rightarrow> (transaction option list \<times> sorted_map) res" where
  "sm_Cap threshold m =
     (if length (sm_items m) \<le> threshold then Inr ([], m)
      else bind_res (cap_loop threshold (length (sm_items m)) [] (m\<lparr>sm_index := sort (sm_index m)\<rparr>)) (\<lambda>(drops, m).
        let m = m\<lparr>sm_index := heap_Init nonce_Less (take threshold (sm_index m))\<rparr>
        in case sm_cache m of
             None \<Rightarrow> Inr (drops, m)
           | Some c \<Rightarrow> if length drops > length c then Inl (Panic SliceOutOfRange)
                       else Inr (drops, m\<lparr>sm_cache := Some (take (length c - length drops) c)\<rparr>)))"

fun remove_scan :: "u64 \<Rightarrow> nat \<Rightarrow> u64 list \<Rightarrow> nat option" where
  "remove_scan nonce i [] = None"
| "remove_scan nonce i (n # ns) = (if n = nonce then Some i else remove_scan nonce (Suc i) ns)"

definition sm_Remove :: "u64 \<Rightarrow> sorted_map \<Rightarrow> (bool \<times> sorted_map) res" where
  "sm_Remove nonce m =
     (if sm_Get nonce m = None then Inr (False, m)
      else bind_res
             (case remove_scan nonce 0 (sm_index m) of
                None \<Rightarrow> Inr (sm_index m)
              | Some i \<Rightarrow> bind_res (heap_Remove nonce_Less i (sm_index m)) (\<lambda>(_, index). Inr index))
             (\<lambda>index. Inr (True, m\<lparr>sm_items := AList.delete nonce (sm_items m), sm_index := index, sm_cache := None\<rparr>)))"

function ready_loop :: "u64 \<Rightarrow> transaction option list \<Rightarrow> sorted_map \<Rightarrow> (transaction option list \<times> sorted_map) res" where
  "ready_loop next ready m =
     (if sm_index m \<noteq> [] \<and> sm_index m ! 0 = next
      then bind_res (heap_Pop nonce_Less (sm_index m)) (\<lambda>(_, index).
             ready_loop (next + 1) (ready @ [sm_Get next m])
               (m\<lparr>sm_items := AList.delete next (sm_items m), sm_index := index\<rparr>))
      else Inr (ready, m))"
  by pat_completeness auto
termination by (relation "measure (\<lambda>(_, _, m). length (sm_index m))") (auto dest: heap_Pop_length)

declare ready_loop.simps [simp del]

definition sm_Ready :: "u64 \<Rightarrow> sorted_map \<Rightarrow> (transaction option list \<times> sorted_map) res" where
  "sm_Ready start m =
     (if sm_index m = [] \<or> sm_index m ! 0 > start then Inr ([], m)
      else bind_res (ready_loop (sm_index m ! 0) [] m) (\<lambda>(ready, m). Inr (ready, m\<lparr>sm_cache := None\<rparr>)))"

definition sm_Len :: "sorted_map \<Rightarrow> nat" where
  "sm_Len m = length (sm_items m)"

text \<open>\<open>sort.Sort\<close> is not stable, but the nonces of the entries differ: the sorted slice is unique.\<close>

definition sm_flatten :: "visit \<Rightarrow> sorted_map \<Rightarrow> transaction list \<times> sorted_map" where
  "sm_flatten it m =
     (case sm_cache m of
        Some c \<Rightarrow> (c, m)
      | None \<Rightarrow> let c = sort_key tx_Nonce (map snd (it (sm_items m))) in (c, m\<lparr>sm_cache := Some c\<rparr>))"

definition sm_Flatten :: "visit \<Rightarrow> sorted_map \<Rightarrow> transaction list \<times> sorted_map" where
  "sm_Flatten it m = (let (cache, m) = sm_flatten it m in (take (length cache) cache, m))"

definition sm_LastElement :: "visit \<Rightarrow> sorted_map \<Rightarrow> (transaction \<times> sorted_map) res" where
  "sm_LastElement it m =
     (let (cache, m) = sm_flatten it m
      in if cache = [] then Inl (Panic IndexOutOfRange) else Inr (cache ! (length cache - 1), m))"

section \<open>Account lists\<close>

record tx_list =
  tl_strict :: bool
  tl_txs :: sorted_map
  tl_costcap :: int
  tl_gascap :: u64

definition newTxList :: "bool \<Rightarrow> tx_list" where
  "newTxList strict = \<lparr>tl_strict = strict, tl_txs = newTxSortedMap, tl_costcap = 0, tl_gascap = 0\<rparr>"

definition tl_Overlaps :: "transaction \<Rightarrow> tx_list \<Rightarrow> bool" where
  "tl_Overlaps tx l \<longleftrightarrow> sm_Get (tx_Nonce tx) (tl_txs l) \<noteq> None"

text \<open>The cost of a transaction is computed by its package; it is the argument \<open>cost\<close>.\<close>

definition bump_threshold :: "u64 \<Rightarrow> transaction \<Rightarrow> int" where
  "bump_threshold priceBump old = (100 + sint priceBump) * tx_GasPrice old div 100"

definition tl_Add :: "(transaction \<Rightarrow> int) \<Rightarrow> transaction \<Rightarrow> u64 \<Rightarrow> tx_list \<Rightarrow> (bool \<times> transaction option) \<times> tx_list" where
  "tl_Add cost tx priceBump l =
     (let old = sm_Get (tx_Nonce tx) (tl_txs l)
      in if (case old of None \<Rightarrow> False
             | Some o_tx \<Rightarrow> tx_GasPrice o_tx \<ge> tx_GasPrice tx \<or> tx_GasPrice tx < bump_threshold priceBump o_tx)
         then ((False, None), l)
         else let l = l\<lparr>tl_txs := sm_Put tx (tl_txs l)\<rparr>;
                  l = (if tl_costcap l < cost tx then l\<lparr>tl_costcap := cost tx\<rparr> else l);
                  l = (if tl_gascap l < tx_Gas tx then l\<lparr>tl_gascap := tx_Gas tx\<rparr> else l)
              in ((True, old), l))"

definition tl_Forward :: "u64 \<Rightarrow> tx_list \<Rightarrow> (transaction option list \<times> tx_list) res" where
  "tl_Forward threshold l = bind_res (sm_Forward threshold (tl_txs l)) (\<lambda>(removed, m). Inr (removed, l\<lparr>tl_txs := m\<rparr>))"

fun lowest_nonce :: "u64 \<Rightarrow> transaction list \<Rightarrow> u64" where
  "lowest_nonce lowest [] = lowest"
| "lowest_nonce lowest (tx # txs) = lowest_nonce (if lowest > tx_Nonce tx then tx_Nonce tx else lowest) txs"

text \<open>The loops of \<open>Filter\<close> range over maps at most four times, with the visiting orders \<open>its\<close>.\<close>

definition tl_Filter :: "(nat \<Rightarrow> visit) \<Rightarrow> (transaction \<Rightarrow> int) \<Rightarrow> int \<Rightarrow> u64 \<Rightarrow> tx_list
    \<Rightarrow> (transaction list \<times> transaction list) \<times> tx_list" where
  "tl_Filter its cost costLimit gasLimit l =
     (if tl_costcap l \<le> costLimit \<and> tl_gascap l \<le> gasLimit then (([], []), l)
      else let l = l\<lparr>tl_costcap := costLimit, tl_gascap := gasLimit\<rparr>;
               (removed, m) = sm_Filter (its 0) (its 1) (\<lambda>tx. tx_Gas tx > gasLimit \<or> cost tx > costLimit) (tl_txs l)
           in if removed = [] then (([], []), l\<lparr>tl_txs := m\<rparr>)
              else let (invalids, m) =
                         (if tl_strict l
                          then let lowest = lowest_nonce (- 1) removed in sm_filter (its 2) (\<lambda>tx. tx_Nonce tx > lowest) m
                          else ([], m))
                   in ((removed, invalids), l\<lparr>tl_txs := sm_reheap (its 3) m\<rparr>))"

definition tl_Cap :: "nat \<Rightarrow> tx_list \<Rightarrow> (transaction option list \<times> tx_list) res" where
  "tl_Cap threshold l = bind_res (sm_Cap threshold (tl_txs l)) (\<lambda>(drops, m). Inr (drops, l\<lparr>tl_txs := m\<rparr>))"

definition tl_Remove :: "(nat \<Rightarrow> visit) \<Rightarrow> transaction \<Rightarrow> tx_list \<Rightarrow> ((bool \<times> transaction list) \<times> tx_list) res" where
  "tl_Remove its tx l =
     bind_res (sm_Remove (tx_Nonce tx) (tl_txs l)) (\<lambda>(removed, m).
       let l = l\<lparr>tl_txs := m\<rparr>
       in if \<not> removed then Inr ((False, []), l)
          else if tl_strict l
          then let (invalids, m) = sm_Filter (its 0) (its 1) (\<lambda>t. tx_Nonce t > tx_Nonce tx) (tl_txs l)
               in Inr ((True, invalids), l\<lparr>tl_txs := m\<rparr>)
          else Inr ((True, []), l))"

definition tl_Ready :: "u64 \<Rightarrow> tx_list \<Rightarrow> (transaction option list \<times> tx_list) res" where
  "tl_Ready start l = bind_res (sm_Ready start (tl_txs l)) (\<lambda>(ready, m). Inr (ready, l\<lparr>tl_txs := m\<rparr>))"

definition tl_Len :: "tx_list \<Rightarrow> nat" where
  "tl_Len l = sm_Len (tl_txs l)"

definition tl_Empty :: "tx_list \<Rightarrow> bool" where
  "tl_Empty l \<longleftrightarrow> tl_Len l = 0"

definition tl_Flatten :: "visit \<Rightarrow> tx_list \<Rightarrow> transaction list \<times> tx_list" where
  "tl_Flatten it l = (let (txs, m) = sm_Flatten it (tl_txs l) in (txs, l\<lparr>tl_txs := m\<rparr>))"

definition tl_LastElement :: "visit \<Rightarrow> tx_list \<Rightarrow> (transaction \<times> tx_list) res" where
  "tl_LastElement it l = bind_res (sm_LastElement it (tl_txs l)) (\<lambda>(tx, m). Inr (tx, l\<lparr>tl_txs := m\<rparr>))"

section \<open>Virtual nonces\<close>

text \<open>The virtual nonces of src/evmcore/tx_noncer.go over the state database's \<open>GetNonce\<close>.\<close>

record tx_noncer =
  tn_fallback :: "bytes \<Rightarrow> u64"
  tn_nonces :: "(bytes \<times> u64) list"

definition newTxNoncer :: "(bytes \<Rightarrow> u64) \<Rightarrow> tx_noncer" where
  "newTxNoncer statedb = \<lparr>tn_fallback = statedb, tn_nonces = []\<rparr>"

definition noncer_load :: "bytes \<Rightarrow> tx_noncer \<Rightarrow> u64 \<times> tx_noncer" where
  "noncer_load addr n =
     (case map_of (tn_nonces n) addr of
        Some v \<Rightarrow> (v, n)
      | None \<Rightarrow> (tn_fallback n addr, n\<lparr>tn_nonces := AList.update addr (tn_fallback n addr) (tn_nonces n)\<rparr>))"

definition noncer_get :: "bytes \<Rightarrow> tx_noncer \<Rightarrow> u64 \<times> tx_noncer" where
  "noncer_get addr n = noncer_load addr n"

definition noncer_set :: "bytes \<Rightarrow> u64 \<Rightarrow> tx_noncer \<Rightarrow> tx_noncer" where
  "noncer_set addr nonce n = n\<lparr>tn_nonces := AList.update addr nonce (tn_nonces n)\<rparr>"

definition noncer_setIfLower :: "bytes \<Rightarrow> u64 \<Rightarrow> tx_noncer \<Rightarrow> tx_noncer" where
  "noncer_setIfLower addr nonce n =
     (let (v, n) = noncer_load addr n
      in if v \<le> nonce then n else n\<lparr>tn_nonces := AList.update addr nonce (tn_nonces n)\<rparr>)"

section \<open>The sorted map as a nonce-sorted list\<close>

text \<open>
  What \<open>txSortedMap\<close> stands for is the list of its transactions in the order of their nonces: every
  operation has a plain counterpart on such a list.
\<close>

abbreviation by_nonce :: "transaction list \<Rightarrow> bool" where
  "by_nonce xs \<equiv> sorted_wrt (\<lambda>a b. tx_Nonce a < tx_Nonce b) xs"

fun run_prefix :: "u64 \<Rightarrow> transaction list \<Rightarrow> transaction list \<times> transaction list" where
  "run_prefix next [] = ([], [])"
| "run_prefix next (t # ts) =
     (if tx_Nonce t = next then (let (run, rest) = run_prefix (next + 1) ts in (t # run, rest)) else ([], t # ts))"

definition plain_Put :: "transaction \<Rightarrow> transaction list \<Rightarrow> transaction list" where
  "plain_Put tx xs = filter (\<lambda>t. tx_Nonce t < tx_Nonce tx) xs @ tx # filter (\<lambda>t. tx_Nonce t > tx_Nonce tx) xs"

definition plain_Ready :: "u64 \<Rightarrow> transaction list \<Rightarrow> transaction list \<times> transaction list" where
  "plain_Ready start xs =
     (if xs = [] \<or> tx_Nonce (hd xs) > start then ([], xs) else run_prefix (tx_Nonce (hd xs)) xs)"

definition items_ok :: "(u64 \<times> transaction) list \<Rightarrow> bool" where
  "items_ok items \<longleftrightarrow> distinct (map fst items) \<and> (\<forall>(n, t) \<in> set items. tx_Nonce t = n)"

definition sm_txs :: "sorted_map \<Rightarrow> transaction list" where
  "sm_txs m = sort_key tx_Nonce (map snd (sm_items m))"

definition sm_core :: "sorted_map \<Rightarrow> bool" where
  "sm_core m \<longleftrightarrow> items_ok (sm_items m) \<and> heap_ok nonce_Less (sm_index m) \<and> mset (sm_index m) = mset (map fst (sm_items m))"

definition sm_ok :: "sorted_map \<Rightarrow> bool" where
  "sm_ok m \<longleftrightarrow> sm_core m \<and> (\<forall>c. sm_cache m = Some c \<longrightarrow> c = sm_txs m)"

interpretation nh: less_order nonce_Less
  by unfold_locales (auto simp: nonce_Less_def)

lemma by_nonce_unique:
  assumes "by_nonce xs" "by_nonce ys" "set xs = set ys"
  shows "xs = ys"
proof -
  have s: "sorted_wrt (<) (map tx_Nonce zs)" if "by_nonce zs" for zs using that by (simp add: sorted_wrt_map)
  have inj: "inj_on tx_Nonce (set xs)"
    using s [OF assms(1)] by (simp add: strict_sorted_iff distinct_map)
  have "map tx_Nonce xs = map tx_Nonce ys" using s [OF assms(1)] s [OF assms(2)] assms(3) by (simp add: strict_sorted_equal)
  then show ?thesis using inj assms(3) by (simp add: map_inj_on)
qed

lemma items_nonces: "items_ok items \<Longrightarrow> map tx_Nonce (map snd items) = map fst items"
  by (auto simp: items_ok_def)

lemma sm_txs_by_nonce:
  assumes "items_ok (sm_items m)"
  shows "by_nonce (sm_txs m)" "set (sm_txs m) = snd ` set (sm_items m)" "length (sm_txs m) = length (sm_items m)"
proof -
  have "distinct (map tx_Nonce (map snd (sm_items m)))" using assms items_nonces by (metis items_ok_def)
  moreover have "mset (map tx_Nonce (sm_txs m)) = mset (map tx_Nonce (map snd (sm_items m)))"
    by (simp add: sm_txs_def multiset.map_comp)
  ultimately have "distinct (map tx_Nonce (sm_txs m))" by (metis mset_eq_imp_distinct_iff)
  moreover have "sorted (map tx_Nonce (sm_txs m))" by (simp add: sm_txs_def)
  ultimately have "sorted_wrt (<) (map tx_Nonce (sm_txs m))" by (simp add: strict_sorted_iff)
  then show "by_nonce (sm_txs m)" by (simp add: sorted_wrt_map)
qed (simp_all add: sm_txs_def)

lemma sm_txs_eq:
  "items_ok (sm_items m) \<Longrightarrow> by_nonce xs \<Longrightarrow> set xs = snd ` set (sm_items m) \<Longrightarrow> sm_txs m = xs"
  using by_nonce_unique [OF sm_txs_by_nonce(1)] sm_txs_by_nonce(2) by simp

lemma by_nonce_filter: "by_nonce xs \<Longrightarrow> by_nonce (filter p xs)"
  by (simp add: sorted_wrt_filter)

lemma sm_Get_txs: "items_ok (sm_items m) \<Longrightarrow> sm_Get n m = find (\<lambda>t. tx_Nonce t = n) (sm_txs m)"
proof -
  assume ok: "items_ok (sm_items m)"
  show ?thesis
  proof (cases "sm_Get n m")
    case None
    then have "n \<notin> fst ` set (sm_items m)" by (simp add: sm_Get_def map_of_eq_None_iff)
    have "tx_Nonce t \<noteq> n" if t: "t \<in> set (sm_txs m)" for t
    proof -
      obtain k where "(k, t) \<in> set (sm_items m)" using t sm_txs_by_nonce(2) [OF ok] by auto
      moreover from this have "tx_Nonce t = k" using ok by (auto simp: items_ok_def)
      ultimately show ?thesis using \<open>n \<notin> fst ` set (sm_items m)\<close> by force
    qed
    then have "\<not> (\<exists>t \<in> set (sm_txs m). tx_Nonce t = n)" by blast
    then show ?thesis using None by (auto simp: find_None_iff2)
  next
    case (Some t)
    then have t: "(n, t) \<in> set (sm_items m)" by (simp add: sm_Get_def map_of_SomeD)
    then have "t \<in> set (sm_txs m)" "tx_Nonce t = n" using ok sm_txs_by_nonce(2) [OF ok] by (force simp: items_ok_def)+
    moreover have "by_nonce xs \<Longrightarrow> t \<in> set xs \<Longrightarrow> tx_Nonce t = n \<Longrightarrow> find (\<lambda>t. tx_Nonce t = n) xs = Some t" for xs
      by (induction xs) auto
    ultimately show ?thesis using Some sm_txs_by_nonce(1) [OF ok] by simp
  qed
qed

text \<open>Deleting the entries that satisfy a predicate.\<close>

lemma items_ok_filter: "items_ok items \<Longrightarrow> items_ok (filter p items)"
  unfolding items_ok_def by (auto simp: distinct_map_filter)

lemma sm_txs_filter:
  assumes "items_ok (sm_items m)" "sm_items m' = filter (\<lambda>(n, t). p t) (sm_items m)"
  shows "sm_txs m' = filter p (sm_txs m)"
proof (rule sm_txs_eq)
  show "items_ok (sm_items m')" using assms by (simp add: items_ok_filter)
  show "by_nonce (filter p (sm_txs m))" using assms(1) by (simp add: by_nonce_filter sm_txs_by_nonce)
  show "set (filter p (sm_txs m)) = snd ` set (sm_items m')" using assms sm_txs_by_nonce(2) [OF assms(1)] by force
qed

lemma delete_as_filter:
  assumes "items_ok items"
  shows "AList.delete n items = filter (\<lambda>(k, t). tx_Nonce t \<noteq> n) items"
proof -
  have "filter (\<lambda>(k, t). n \<noteq> k) items = filter (\<lambda>(k, t). tx_Nonce t \<noteq> n) items"
    using assms by (intro filter_cong) (auto simp: items_ok_def)
  then show ?thesis by (simp add: AList.delete_eq)
qed

lemma sm_core_items: "sm_core m \<Longrightarrow> items_ok (sm_items m)"
  by (simp add: sm_core_def)

text \<open>Taking the root of the heap takes the first transaction.\<close>

lemma sm_core_pop:
  assumes "sm_core m" "sm_index m \<noteq> []"
  shows "\<exists>t rest index. sm_txs m = t # rest \<and> tx_Nonce t = sm_index m ! 0 \<and> sm_Get (sm_index m ! 0) m = Some t \<and>
    heap_Pop nonce_Less (sm_index m) = Inr (sm_index m ! 0, index) \<and>
    (let m' = m\<lparr>sm_items := AList.delete (sm_index m ! 0) (sm_items m), sm_index := index\<rparr>
     in sm_core m' \<and> sm_txs m' = rest)"
proof -
  let ?n = "sm_index m ! 0"
  have ok: "items_ok (sm_items m)" and hp: "heap_ok nonce_Less (sm_index m)"
    and ms: "mset (sm_index m) = mset (map fst (sm_items m))" using assms(1) by (auto simp: sm_core_def)
  have keys: "set (sm_index m) = tx_Nonce ` set (sm_txs m)"
    using mset_eq_setD [OF ms] sm_txs_by_nonce(2) [OF ok] items_nonces [OF ok] by (metis list.set_map)
  then obtain t rest where tr: "sm_txs m = t # rest" using assms(2) by (cases "sm_txs m") auto
  have "\<not> nonce_Less (tx_Nonce t) ?n"
    using nh.root_least [OF hp] keys tr by (metis imageI in_set_conv_nth list.set_intros(1))
  moreover have "?n \<in> tx_Nonce ` set (t # rest)" using keys tr assms(2) by (metis length_greater_0_conv nth_mem)
  moreover have "\<forall>u \<in> set rest. tx_Nonce t < tx_Nonce u" using sm_txs_by_nonce(1) [OF ok] tr by simp
  ultimately have tn: "tx_Nonce t = ?n" by (auto simp: nonce_Less_def)
  have get: "sm_Get ?n m = Some t" using tn by (simp add: sm_Get_txs [OF ok] tr)
  obtain index where index: "heap_Pop nonce_Less (sm_index m) = Inr (?n, index)" "heap_ok nonce_Less index"
      "mset (sm_index m) = add_mset ?n (mset index)" using nh.Pop_ok [OF hp assms(2)] by auto
  let ?m = "m\<lparr>sm_items := AList.delete ?n (sm_items m), sm_index := index\<rparr>"
  have ok': "items_ok (sm_items ?m)" using ok by (simp add: delete_as_filter items_ok_filter)
  have "sm_txs ?m = filter (\<lambda>u. tx_Nonce u \<noteq> ?n) (sm_txs m)"
    using sm_txs_filter [OF ok, of ?m "\<lambda>u. tx_Nonce u \<noteq> ?n"] by (simp add: delete_as_filter [OF ok])
  also have "filter (\<lambda>u. tx_Nonce u \<noteq> ?n) rest = rest"
    using tn \<open>\<forall>u \<in> set rest. tx_Nonce t < tx_Nonce u\<close> by (intro filter_True) auto
  then have "filter (\<lambda>u. tx_Nonce u \<noteq> ?n) (sm_txs m) = rest" using tn tr by simp
  finally have txs: "sm_txs ?m = rest" .
  have nonces: "mset (map fst (sm_items k)) = mset (map tx_Nonce (sm_txs k))" if "items_ok (sm_items k)" for k
    using items_nonces [OF that] by (metis mset_map mset_sort sm_txs_def)
  have "mset index = mset (map fst (sm_items ?m))"
    using index(3) ms nonces [OF ok] nonces [OF ok'] txs tr tn by simp
  then have "sm_core ?m" using ok' index(2) by (simp add: sm_core_def)
  then show ?thesis using tr tn get index(1) txs by (simp add: Let_def)
qed

lemma sm_index_Nil: "sm_core m \<Longrightarrow> sm_index m = [] \<longleftrightarrow> sm_txs m = []"
proof -
  assume "sm_core m"
  then have "length (sm_index m) = length (sm_txs m)"
    using sm_txs_by_nonce(3) [of m] by (metis length_map sm_core_def size_mset)
  then show ?thesis by auto
qed

lemma forward_loop_ok:
  "sm_core m \<Longrightarrow> \<exists>m'. forward_loop threshold removed m =
     Inr (removed @ map Some (filter (\<lambda>t. tx_Nonce t < threshold) (sm_txs m)), m') \<and> sm_core m' \<and>
     sm_txs m' = filter (\<lambda>t. \<not> tx_Nonce t < threshold) (sm_txs m) \<and> sm_cache m' = sm_cache m"
proof (induction "length (sm_index m)" arbitrary: m removed rule: less_induct)
  case less
  show ?case
  proof (cases "sm_index m \<noteq> [] \<and> sm_index m ! 0 < threshold")
    case True
    then obtain t rest index where p: "sm_txs m = t # rest" "tx_Nonce t = sm_index m ! 0" "sm_Get (sm_index m ! 0) m = Some t"
        "heap_Pop nonce_Less (sm_index m) = Inr (sm_index m ! 0, index)"
        "sm_core (m\<lparr>sm_items := AList.delete (sm_index m ! 0) (sm_items m), sm_index := index\<rparr>)"
        "sm_txs (m\<lparr>sm_items := AList.delete (sm_index m ! 0) (sm_items m), sm_index := index\<rparr>) = rest"
      using sm_core_pop [OF less.prems] by (auto simp: Let_def)
    have "length index < length (sm_index m)" using heap_Pop_length [OF p(4)] .
    then show ?thesis using less.hyps [OF _ p(5), of "removed @ [Some t]"] True p
      by (subst forward_loop.simps) simp
  next
    case False
    have "\<not> tx_Nonce u < threshold" if u: "u \<in> set (sm_txs m)" for u
    proof -
      have "sm_index m \<noteq> []" using sm_index_Nil [OF less.prems] u by auto
      moreover obtain t rest where "sm_txs m = t # rest" "tx_Nonce t = sm_index m ! 0"
        using sm_core_pop [OF less.prems] calculation by blast
      moreover have "by_nonce (sm_txs m)" using less.prems by (simp add: sm_core_items sm_txs_by_nonce)
      ultimately show ?thesis using False u by auto
    qed
    then have "filter (\<lambda>t. tx_Nonce t < threshold) (sm_txs m) = []" "filter (\<lambda>t. \<not> tx_Nonce t < threshold) (sm_txs m) = sm_txs m"
      by (auto simp: filter_empty_conv)
    moreover have "forward_loop threshold removed m = Inr (removed, m)" using False by (subst forward_loop.simps) auto
    ultimately show ?thesis using less.prems by simp
  qed
qed

lemma filter_by_nonce:
  assumes "by_nonce xs"
  shows "filter (\<lambda>t. \<not> tx_Nonce t < n) xs = drop (length (filter (\<lambda>t. tx_Nonce t < n) xs)) xs"
  using assms
proof (induction xs)
  case (Cons x xs)
  show ?case
  proof (cases "tx_Nonce x < n")
    case False
    then have "filter (\<lambda>t. tx_Nonce t < n) (x # xs) = []" using Cons.prems by (auto simp: filter_empty_conv)
    then show ?thesis using False Cons by simp
  qed (use Cons in simp)
qed simp

lemma sm_Forward_ok:
  assumes "sm_ok m"
  shows "\<exists>m'. sm_Forward threshold m = Inr (map Some (filter (\<lambda>t. tx_Nonce t < threshold) (sm_txs m)), m') \<and> sm_ok m' \<and>
    sm_txs m' = filter (\<lambda>t. \<not> tx_Nonce t < threshold) (sm_txs m)"
proof -
  have c: "sm_core m" and cache: "\<And>c. sm_cache m = Some c \<Longrightarrow> c = sm_txs m" using assms by (auto simp: sm_ok_def)
  let ?removed = "filter (\<lambda>t. tx_Nonce t < threshold) (sm_txs m)"
  obtain m' where m': "forward_loop threshold [] m = Inr (map Some ?removed, m')" "sm_core m'"
      "sm_txs m' = filter (\<lambda>t. \<not> tx_Nonce t < threshold) (sm_txs m)" "sm_cache m' = sm_cache m"
    using forward_loop_ok [OF c, of threshold "[]"] by auto
  have dr: "sm_txs m' = drop (length ?removed) (sm_txs m)"
    using m'(3) filter_by_nonce [OF sm_txs_by_nonce(1) [OF sm_core_items [OF c]]] by simp
  have le: "length ?removed \<le> length (sm_txs m)" by simp
  show ?thesis
  proof (cases "sm_cache m")
    case None
    then show ?thesis using m' by (simp add: sm_Forward_def sm_ok_def)
  next
    case (Some c)
    then have "c = sm_txs m" using cache by simp
    then have "sm_Forward threshold m = Inr (map Some ?removed, m'\<lparr>sm_cache := Some (sm_txs m')\<rparr>)"
      using Some m'(1,4) le dr by (simp add: sm_Forward_def not_less)
    moreover have "sm_ok (m'\<lparr>sm_cache := Some (sm_txs m')\<rparr>)" "sm_txs (m'\<lparr>sm_cache := Some (sm_txs m')\<rparr>) = sm_txs m'"
      using m'(2) by (simp_all add: sm_ok_def sm_core_def sm_txs_def)
    ultimately show ?thesis using m'(3) by auto
  qed
qed

lemma ready_loop_ok:
  "sm_core m \<Longrightarrow> \<exists>m'. ready_loop next ready m = Inr (ready @ map Some (fst (run_prefix next (sm_txs m))), m') \<and> sm_core m' \<and>
     sm_txs m' = snd (run_prefix next (sm_txs m))"
proof (induction "length (sm_index m)" arbitrary: m ready "next" rule: less_induct)
  case less
  show ?case
  proof (cases "sm_index m = []")
    case True
    then have "sm_txs m = []" using sm_index_Nil [OF less.prems] by simp
    then show ?thesis using True less.prems by (subst ready_loop.simps) simp
  next
    case False
    then obtain t rest index where p: "sm_txs m = t # rest" "tx_Nonce t = sm_index m ! 0" "sm_Get (sm_index m ! 0) m = Some t"
        "heap_Pop nonce_Less (sm_index m) = Inr (sm_index m ! 0, index)"
        "sm_core (m\<lparr>sm_items := AList.delete (sm_index m ! 0) (sm_items m), sm_index := index\<rparr>)"
        "sm_txs (m\<lparr>sm_items := AList.delete (sm_index m ! 0) (sm_items m), sm_index := index\<rparr>) = rest"
      using sm_core_pop [OF less.prems] by (auto simp: Let_def)
    have l: "length index < length (sm_index m)" using heap_Pop_length [OF p(4)] .
    show ?thesis
    proof (cases "sm_index m ! 0 = next")
      case True
      then show ?thesis using less.hyps [OF _ p(5), of "next + 1" "ready @ [Some t]"] False l p
        by (subst ready_loop.simps) (simp add: split_def Let_def)
    next
      case ne: False
      then have "ready_loop next ready m = Inr (ready, m)" by (subst ready_loop.simps) simp
      then show ?thesis using ne p(1,2) less.prems by simp
    qed
  qed
qed

lemma sm_Ready_ok:
  assumes "sm_ok m"
  shows "\<exists>m'. sm_Ready start m = Inr (map Some (fst (plain_Ready start (sm_txs m))), m') \<and> sm_ok m' \<and>
    sm_txs m' = snd (plain_Ready start (sm_txs m))"
proof -
  have c: "sm_core m" using assms by (simp add: sm_ok_def)
  have hd: "sm_index m \<noteq> [] \<Longrightarrow> tx_Nonce (hd (sm_txs m)) = sm_index m ! 0"
    using sm_core_pop [OF c] by force
  show ?thesis
  proof (cases "sm_index m = [] \<or> sm_index m ! 0 > start")
    case True
    then have "plain_Ready start (sm_txs m) = ([], sm_txs m)" using hd sm_index_Nil [OF c] by (auto simp: plain_Ready_def)
    then show ?thesis using True assms by (simp add: sm_Ready_def)
  next
    case False
    then have pr: "plain_Ready start (sm_txs m) = run_prefix (sm_index m ! 0) (sm_txs m)"
      using hd sm_index_Nil [OF c] by (simp add: plain_Ready_def)
    obtain m' where m': "ready_loop (sm_index m ! 0) [] m = Inr (map Some (fst (run_prefix (sm_index m ! 0) (sm_txs m))), m')"
        "sm_core m'" "sm_txs m' = snd (run_prefix (sm_index m ! 0) (sm_txs m))"
      using ready_loop_ok [OF c, of "sm_index m ! 0" "[]"] by auto
    have "sm_ok (m'\<lparr>sm_cache := None\<rparr>)" "sm_txs (m'\<lparr>sm_cache := None\<rparr>) = sm_txs m'"
      using m'(2) by (simp_all add: sm_ok_def sm_core_def sm_txs_def)
    then show ?thesis using False m' pr by (auto simp: sm_Ready_def)
  qed
qed

lemma visit_okD: "visit_ok it \<Longrightarrow> mset (it l) = mset l" "visit_ok it \<Longrightarrow> set (it l) = set l"
  by (simp_all add: visit_ok_def) (metis mset_eq_setD)

lemma filter_loop_ok:
  "filter_loop p es removed items =
     (removed @ map snd (filter (\<lambda>(n, t). p t) es), filter (\<lambda>(k, t). k \<notin> fst ` set (filter (\<lambda>(n, t). p t) es)) items)"
proof (induction p es removed items rule: filter_loop.induct)
  case (2 p nonce tx es removed items)
  have "filter (\<lambda>(k, t). k \<notin> B) (AList.delete nonce items) = filter (\<lambda>(k, t). k \<notin> insert nonce B) items" for B
    by (auto simp: AList.delete_eq intro: filter_cong)
  then show ?case using 2 by simp
qed (simp add: split_def)

lemma sm_filter_ok:
  assumes "items_ok (sm_items m)" "visit_ok it" "sm_filter it p m = (removed, m')"
  shows "mset removed = mset (filter p (sm_txs m))" "items_ok (sm_items m')" "sm_txs m' = filter (\<lambda>t. \<not> p t) (sm_txs m)"
    "removed = [] \<Longrightarrow> m' = m" "sm_index m' = sm_index m"
proof -
  let ?out = "filter (\<lambda>(n, t). p t) (it (sm_items m))"
  have ns: "fst ` set ?out = {k. \<exists>t. (k, t) \<in> set (sm_items m) \<and> p t}" using visit_okD(2) [OF assms(2)] by force
  have items: "filter (\<lambda>(k, t). k \<notin> fst ` set ?out) (sm_items m) = filter (\<lambda>(k, t). \<not> p t) (sm_items m)"
  proof (intro filter_cong refl)
    fix e assume e: "e \<in> set (sm_items m)"
    obtain k t where kt: "e = (k, t)" by (cases e)
    have "p u \<longleftrightarrow> p t" if "(k, u) \<in> set (sm_items m)" for u
      using that e kt assms(1) by (auto simp: items_ok_def dest: eq_key_imp_eq_value)
    then have "k \<in> fst ` set ?out \<longleftrightarrow> p t" unfolding ns using e kt by blast
    then show "(case e of (k, t) \<Rightarrow> k \<notin> fst ` set ?out) = (case e of (k, t) \<Rightarrow> \<not> p t)" by (simp only: kt prod.case)
  qed
  have r: "removed = map snd ?out" and m': "sm_items m' = filter (\<lambda>(k, t). \<not> p t) (sm_items m)"
    and index: "sm_index m' = sm_index m"
    using assms(3) items by (auto simp: sm_filter_def filter_loop_ok Let_def split: if_splits)
  show "sm_index m' = sm_index m" by (rule index)
  have "mset removed = image_mset snd (filter_mset (\<lambda>(n, t). p t) (mset (sm_items m)))"
    by (simp add: r visit_okD(1) [OF assms(2)] mset_filter)
  also have "\<dots> = filter_mset p (image_mset snd (mset (sm_items m)))"
    by (simp add: filter_mset_image_mset split_def)
  finally show "mset removed = mset (filter p (sm_txs m))" by (simp add: sm_txs_def mset_filter)
  show "items_ok (sm_items m')" using assms(1) m' by (simp add: items_ok_filter)
  show "sm_txs m' = filter (\<lambda>t. \<not> p t) (sm_txs m)" by (rule sm_txs_filter [OF assms(1) m'])
  show "m' = m" if "removed = []"
  proof -
    have "?out = []" using that r by simp
    then show ?thesis using assms(3) by (simp add: sm_filter_def filter_loop_ok)
  qed
qed

lemma sm_reheap_ok:
  assumes "items_ok (sm_items m)" "visit_ok it"
  shows "sm_ok (sm_reheap it m)" "sm_txs (sm_reheap it m) = sm_txs m"
proof -
  have "mset (map fst (it (sm_items m))) = mset (map fst (sm_items m))" using visit_okD(1) [OF assms(2)] by (metis mset_map)
  then show "sm_ok (sm_reheap it m)" using assms(1) nh.Init_ok [of "map fst (it (sm_items m))"]
    by (simp add: sm_ok_def sm_core_def sm_reheap_def)
qed (simp add: sm_reheap_def sm_txs_def)

lemma sm_Filter_ok:
  assumes "sm_ok m" "visit_ok it" "visit_ok it'" "sm_Filter it it' p m = (removed, m')"
  shows "mset removed = mset (filter p (sm_txs m))" "sm_ok m'" "sm_txs m' = filter (\<lambda>t. \<not> p t) (sm_txs m)"
proof -
  obtain m1 where m1: "sm_filter it p m = (removed, m1)" "m' = (if removed \<noteq> [] then sm_reheap it' m1 else m1)"
    using assms(4) by (auto simp: sm_Filter_def split: prod.splits)
  have ok: "items_ok (sm_items m)" using assms(1) by (simp add: sm_ok_def sm_core_def)
  note f = sm_filter_ok [OF ok assms(2) m1(1)]
  show "mset removed = mset (filter p (sm_txs m))" by (rule f(1))
  show "sm_ok m'" using m1(2) f(2,4) assms(1) sm_reheap_ok(1) [OF _ assms(3)] by auto
  show "sm_txs m' = filter (\<lambda>t. \<not> p t) (sm_txs m)" using m1(2) f(2,3) sm_reheap_ok(2) [OF _ assms(3)] by simp
qed

lemma sm_flatten_ok:
  assumes "sm_ok m" "visit_ok it"
  shows "\<exists>m'. sm_flatten it m = (sm_txs m, m') \<and> sm_ok m' \<and> sm_txs m' = sm_txs m"
proof (cases "sm_cache m")
  case (Some c)
  then show ?thesis using assms(1) by (auto simp: sm_flatten_def sm_ok_def)
next
  case None
  have ok: "items_ok (sm_items m)" using assms(1) by (simp add: sm_ok_def sm_core_def)
  have i: "items_ok (it (sm_items m))"
    using ok visit_okD [OF assms(2)] by (metis (no_types, lifting) items_ok_def mset_eq_imp_distinct_iff mset_map)
  have "sort_key tx_Nonce (map snd (it (sm_items m))) = sm_txs (m\<lparr>sm_items := it (sm_items m)\<rparr>)" by (simp add: sm_txs_def)
  also have "\<dots> = sm_txs m"
    using i sm_txs_by_nonce [OF ok] visit_okD(2) [OF assms(2)] by (intro sm_txs_eq) simp_all
  finally have e: "sort_key tx_Nonce (map snd (it (sm_items m))) = sm_txs m" .
  have "sm_ok (m\<lparr>sm_cache := Some (sm_txs m)\<rparr>)" "sm_txs (m\<lparr>sm_cache := Some (sm_txs m)\<rparr>) = sm_txs m"
    using assms(1) by (simp_all add: sm_ok_def sm_core_def sm_txs_def)
  then show ?thesis using None e by (simp add: sm_flatten_def Let_def)
qed

lemma items_entry: "items_ok items \<Longrightarrow> (k, t) \<in> set items \<longleftrightarrow> map_of items k = Some t"
  by (simp add: items_ok_def)

lemma plain_Put_by_nonce: "by_nonce xs \<Longrightarrow> by_nonce (plain_Put tx xs)"
  by (auto simp: plain_Put_def sorted_wrt_append sorted_wrt_filter)

lemma sm_Put_ok:
  assumes "sm_ok m"
  shows "sm_ok (sm_Put tx m)" "sm_txs (sm_Put tx m) = plain_Put tx (sm_txs m)"
proof -
  let ?n = "tx_Nonce tx" and ?items = "AList.update (tx_Nonce tx) tx (sm_items m)"
  have ok: "items_ok (sm_items m)" and hp: "heap_ok nonce_Less (sm_index m)"
    and ms: "mset (sm_index m) = mset (map fst (sm_items m))" using assms by (auto simp: sm_ok_def sm_core_def)
  have d: "distinct (map fst ?items)" using ok by (simp add: items_ok_def distinct_update)
  have entry: "(k, t) \<in> set ?items \<longleftrightarrow> (if k = ?n then t = tx else (k, t) \<in> set (sm_items m))" for k t
    using items_entry [OF ok] map_of_eq_Some_iff [OF d, of k t] by (auto simp: update_conv)
  have ok': "items_ok ?items" using d entry ok unfolding items_ok_def by (auto split: if_splits)
  have none: "sm_Get ?n m = None \<longleftrightarrow> ?n \<notin> set (map fst (sm_items m))" by (simp add: sm_Get_def map_of_eq_None_iff)
  have items: "sm_items (sm_Put tx m) = ?items" "sm_cache (sm_Put tx m) = None"
    and index: "sm_index (sm_Put tx m) = (if sm_Get ?n m = None then heap_Push nonce_Less ?n (sm_index m) else sm_index m)"
    by (simp_all add: sm_Put_def Let_def)
  have "mset (sm_index (sm_Put tx m)) = mset (map fst ?items)"
    using index none ms nh.Push_ok [OF hp, of ?n] by (auto simp: update_keys)
  moreover have "heap_ok nonce_Less (sm_index (sm_Put tx m))" using index hp nh.Push_ok [OF hp, of ?n] by simp
  ultimately show "sm_ok (sm_Put tx m)" using ok' items by (simp add: sm_ok_def sm_core_def)
  show "sm_txs (sm_Put tx m) = plain_Put tx (sm_txs m)"
  proof (rule sm_txs_eq)
    show "by_nonce (plain_Put tx (sm_txs m))" using ok by (simp add: plain_Put_by_nonce sm_txs_by_nonce)
    have "t \<in> snd ` set ?items \<longleftrightarrow> t = tx \<or> (t \<in> snd ` set (sm_items m) \<and> tx_Nonce t \<noteq> ?n)" for t
    proof -
      have "t \<in> snd ` set ?items \<longleftrightarrow> (tx_Nonce t, t) \<in> set ?items" using ok' by (force simp: items_ok_def)
      moreover have "t \<in> snd ` set (sm_items m) \<longleftrightarrow> (tx_Nonce t, t) \<in> set (sm_items m)" using ok by (force simp: items_ok_def)
      ultimately show ?thesis using entry by auto
    qed
    then have "snd ` set ?items = insert tx {t \<in> set (sm_txs m). tx_Nonce t \<noteq> ?n}"
      using sm_txs_by_nonce(2) [OF ok] by blast
    moreover have "set (plain_Put tx (sm_txs m)) = insert tx {t \<in> set (sm_txs m). tx_Nonce t \<noteq> ?n}"
      by (auto simp: plain_Put_def)
    ultimately show "set (plain_Put tx (sm_txs m)) = snd ` set (sm_items (sm_Put tx m))" by (simp only: items(1))
  qed (simp add: items ok')
qed

lemma remove_scan_ok: "remove_scan n i ns = (if n \<in> set ns then Some j else None) \<Longrightarrow> n \<in> set ns \<Longrightarrow> j - i < length ns \<and> ns ! (j - i) = n \<and> i \<le> j"
proof (induction n i ns rule: remove_scan.induct)
  case (2 n i x ns)
  show ?case
  proof (cases "x = n")
    case False
    then have "j - Suc i < length ns \<and> ns ! (j - Suc i) = n \<and> Suc i \<le> j" using 2 by simp
    moreover from this have "j - i = Suc (j - Suc i)" by linarith
    ultimately show ?thesis by simp
  qed (use 2 in simp)
qed simp

lemma remove_scan_finds: "n \<in> set ns \<Longrightarrow> \<exists>j. remove_scan n i ns = Some j"
  by (induction n i ns rule: remove_scan.induct) auto

lemma sm_Remove_ok:
  assumes "sm_ok m"
  shows "\<exists>m'. sm_Remove n m = Inr (sm_Get n m \<noteq> None, m') \<and> sm_ok m' \<and> sm_txs m' = filter (\<lambda>t. tx_Nonce t \<noteq> n) (sm_txs m)"
proof -
  have ok: "items_ok (sm_items m)" and hp: "heap_ok nonce_Less (sm_index m)"
    and ms: "mset (sm_index m) = mset (map fst (sm_items m))" using assms by (auto simp: sm_ok_def sm_core_def)
  show ?thesis
  proof (cases "sm_Get n m")
    case None
    then have "\<forall>t \<in> set (sm_txs m). tx_Nonce t \<noteq> n" by (auto simp: sm_Get_txs [OF ok] find_None_iff)
    then show ?thesis using None assms by (simp add: sm_Remove_def)
  next
    case (Some t)
    have d: "distinct (map fst (sm_items m))" using ok by (simp add: items_ok_def)
    have "n \<in> set (map fst (sm_items m))" using Some by (force simp: sm_Get_def dest: map_of_SomeD)
    then have n: "n \<in> set (sm_index m)" using mset_eq_setD [OF ms] by simp
    obtain j where j: "remove_scan n 0 (sm_index m) = Some j" using remove_scan_finds [OF n] by auto
    have "j < length (sm_index m)" "sm_index m ! j = n" using remove_scan_ok [of n 0 "sm_index m" j] j n by auto
    then obtain index where index: "heap_Remove nonce_Less j (sm_index m) = Inr (n, index)" "heap_ok nonce_Less index"
        "mset (sm_index m) = add_mset n (mset index)" using nh.Remove_ok [OF hp, of j] by auto
    let ?m = "m\<lparr>sm_items := AList.delete n (sm_items m), sm_index := index, sm_cache := None\<rparr>"
    have "mset (map fst (AList.delete n (sm_items m))) = mset (remove1 n (map fst (sm_items m)))"
      using d by (simp add: delete_keys distinct_remove1_removeAll)
    also have "\<dots> = mset index" using ms index(3) by (metis add_mset_remove_trivial mset_remove1)
    finally have "sm_ok ?m" using ok index(2) by (simp add: sm_ok_def sm_core_def delete_as_filter items_ok_filter)
    moreover have "sm_txs ?m = filter (\<lambda>t. tx_Nonce t \<noteq> n) (sm_txs m)"
      using sm_txs_filter [OF ok, of ?m "\<lambda>u. tx_Nonce u \<noteq> n"] by (simp add: delete_as_filter [OF ok])
    ultimately show ?thesis using Some j index(1) by (simp add: sm_Remove_def)
  qed
qed

lemma cap_loop_ok:
  assumes "threshold \<le> s" "s \<le> length xs" "by_nonce xs" "sm_index m = map tx_Nonce xs" "items_ok (sm_items m)" "sm_txs m = take s xs"
  shows "\<exists>m'. cap_loop threshold s drops m = Inr (drops @ map Some (rev (drop threshold (take s xs))), m') \<and>
    items_ok (sm_items m') \<and> sm_txs m' = take threshold xs \<and> sm_index m' = sm_index m \<and> sm_cache m' = sm_cache m"
  using assms
proof (induction s arbitrary: drops m)
  case (Suc s)
  show ?case
  proof (cases "threshold < Suc s")
    case True
    let ?n = "tx_Nonce (xs ! s)" and ?m = "m\<lparr>sm_items := AList.delete (tx_Nonce (xs ! s)) (sm_items m)\<rparr>"
    have s: "s < length xs" using Suc.prems(2) by simp
    have ts: "take (Suc s) xs = take s xs @ [xs ! s]" using s by (simp add: take_Suc_conv_app_nth)
    have ne: "\<forall>t \<in> set (take s xs). tx_Nonce t < ?n" "by_nonce (take (Suc s) xs)"
      using sorted_wrt_take [OF Suc.prems(3), of "Suc s"] by (simp_all add: ts sorted_wrt_append)
    have "\<forall>t \<in> set ys. tx_Nonce t < tx_Nonce y \<Longrightarrow> find (\<lambda>t. tx_Nonce t = tx_Nonce y) (ys @ [y]) = Some y" for ys y
      by (induction ys) auto
    then have get: "sm_Get ?n m = Some (xs ! s)"
      using Suc.prems(6) ts ne(1) by (simp add: sm_Get_txs [OF Suc.prems(5)])
    have "sm_txs ?m = filter (\<lambda>t. tx_Nonce t \<noteq> ?n) (take (Suc s) xs)"
      using sm_txs_filter [OF Suc.prems(5), of ?m "\<lambda>u. tx_Nonce u \<noteq> ?n"] Suc.prems(6) by (simp add: delete_as_filter [OF Suc.prems(5)])
    also have "filter (\<lambda>t. tx_Nonce t \<noteq> ?n) (take s xs) = take s xs" using ne(1) by (intro filter_True) auto
    then have "filter (\<lambda>t. tx_Nonce t \<noteq> ?n) (take (Suc s) xs) = take s xs" by (simp add: ts)
    finally have txs: "sm_txs ?m = take s xs" .
    have it: "items_ok (sm_items ?m)" using Suc.prems(5) by (simp add: delete_as_filter items_ok_filter)
    have dr: "rev (drop threshold (take (Suc s) xs)) = xs ! s # rev (drop threshold (take s xs))"
      using True s by (simp add: ts)
    have st: "cap_loop threshold (Suc s) drops m = cap_loop threshold s (drops @ [Some (xs ! s)]) ?m"
      using True s Suc.prems(4) get by (simp add: Let_def)
    have le: "threshold \<le> s" "s \<le> length xs" using True s by simp_all
    show ?thesis unfolding st dr using Suc.IH [OF le Suc.prems(3) _ it txs, of "drops @ [Some (xs ! s)]"] Suc.prems(4) by simp
  next
    case False
    then show ?thesis using Suc.prems by simp
  qed
qed simp

lemma sm_Cap_ok:
  assumes "sm_ok m"
  shows "\<exists>m'. sm_Cap threshold m = Inr (map Some (rev (drop threshold (sm_txs m))), m') \<and> sm_ok m' \<and> sm_txs m' = take threshold (sm_txs m)"
proof -
  let ?xs = "sm_txs m"
  have ok: "items_ok (sm_items m)" and ms: "mset (sm_index m) = mset (map fst (sm_items m))"
    and cache: "\<And>c. sm_cache m = Some c \<Longrightarrow> c = ?xs" using assms by (auto simp: sm_ok_def sm_core_def)
  have nonces: "mset (map fst (sm_items k)) = mset (map tx_Nonce (sm_txs k))" if "items_ok (sm_items k)" for k
    using items_nonces [OF that] by (metis mset_map mset_sort sm_txs_def)
  have len: "length (sm_items m) = length ?xs" using sm_txs_by_nonce(3) [OF ok] by simp
  show ?thesis
  proof (cases "length ?xs \<le> threshold")
    case True
    then show ?thesis using assms len by (simp add: sm_Cap_def)
  next
    case False
    have "sorted (map tx_Nonce ?xs)" by (simp add: sm_txs_def)
    then have "sort (sm_index m) = map tx_Nonce ?xs" using ms nonces [OF ok] by (intro properties_for_sort) (simp_all only:)
    then obtain m1 where m1: "cap_loop threshold (length ?xs) [] (m\<lparr>sm_index := sort (sm_index m)\<rparr>) = Inr (map Some (rev (drop threshold ?xs)), m1)"
        "items_ok (sm_items m1)" "sm_txs m1 = take threshold ?xs" "sm_index m1 = map tx_Nonce ?xs" "sm_cache m1 = sm_cache m"
      using cap_loop_ok [of threshold "length ?xs" ?xs "m\<lparr>sm_index := sort (sm_index m)\<rparr>" "[]"] False ok sm_txs_by_nonce(1) [OF ok]
      by (auto simp: sm_txs_def)
    let ?m = "\<lambda>c. m1\<lparr>sm_index := heap_Init nonce_Less (take threshold (sm_index m1)), sm_cache := c\<rparr>"
    have "mset (take threshold (sm_index m1)) = mset (map fst (sm_items m1))"
      using m1(3,4) nonces [OF m1(2)] by (simp add: take_map)
    then have core: "sm_core (?m c)" "sm_txs (?m c) = take threshold ?xs" for c
      using m1(2,3) nh.Init_ok [of "take threshold (sm_index m1)"] by (simp_all add: sm_core_def sm_txs_def)
    have tk: "take (length ?xs - length (drop threshold ?xs)) ?xs = take threshold ?xs" using False by simp
    have "sm_Cap threshold m = Inr (map Some (rev (drop threshold ?xs)), ?m (map_option (\<lambda>_. take threshold ?xs) (sm_cache m)))"
      using False m1(1,5) cache tk by (cases "sm_cache m") (simp_all add: sm_Cap_def len)
    moreover have "sm_ok (?m (map_option (\<lambda>_. take threshold ?xs) (sm_cache m)))" using core by (auto simp: sm_ok_def)
    ultimately show ?thesis using core(2) by blast
  qed
qed

section \<open>Refinement\<close>

text \<open>
  The calls on a sorted map, with the orders in which their loops range over the map, and what they
  return; the slices of \<open>Filter\<close> have no fixed order and are compared as multisets.
\<close>

datatype sm_op =
    OpGet u64 | OpPut transaction | OpForward u64 | OpFilter visit visit "transaction \<Rightarrow> bool" | OpCap nat
  | OpRemove u64 | OpReady u64 | OpLen | OpFlatten visit

datatype sm_out =
    OutTx "transaction option" | OutUnit | OutTxs "transaction option list" | OutBag "transaction multiset"
  | OutBool bool | OutNat nat

fun sm_op_ok :: "sm_op \<Rightarrow> bool" where
  "sm_op_ok (OpFilter it it' p) \<longleftrightarrow> visit_ok it \<and> visit_ok it'"
| "sm_op_ok (OpFlatten it) \<longleftrightarrow> visit_ok it"
| "sm_op_ok _ \<longleftrightarrow> True"

fun sm_step :: "sm_op \<Rightarrow> sorted_map \<Rightarrow> (sm_out \<times> sorted_map) res" where
  "sm_step (OpGet n) m = Inr (OutTx (sm_Get n m), m)"
| "sm_step (OpPut tx) m = Inr (OutUnit, sm_Put tx m)"
| "sm_step (OpForward n) m = bind_res (sm_Forward n m) (\<lambda>(txs, m). Inr (OutTxs txs, m))"
| "sm_step (OpFilter it it' p) m = (let (txs, m) = sm_Filter it it' p m in Inr (OutBag (mset txs), m))"
| "sm_step (OpCap n) m = bind_res (sm_Cap n m) (\<lambda>(txs, m). Inr (OutTxs txs, m))"
| "sm_step (OpRemove n) m = bind_res (sm_Remove n m) (\<lambda>(b, m). Inr (OutBool b, m))"
| "sm_step (OpReady n) m = bind_res (sm_Ready n m) (\<lambda>(txs, m). Inr (OutTxs txs, m))"
| "sm_step OpLen m = Inr (OutNat (sm_Len m), m)"
| "sm_step (OpFlatten it) m = (let (txs, m) = sm_Flatten it m in Inr (OutTxs (map Some txs), m))"

fun plain_step :: "sm_op \<Rightarrow> transaction list \<Rightarrow> sm_out \<times> transaction list" where
  "plain_step (OpGet n) xs = (OutTx (find (\<lambda>t. tx_Nonce t = n) xs), xs)"
| "plain_step (OpPut tx) xs = (OutUnit, plain_Put tx xs)"
| "plain_step (OpForward n) xs =
     (OutTxs (map Some (filter (\<lambda>t. tx_Nonce t < n) xs)), filter (\<lambda>t. \<not> tx_Nonce t < n) xs)"
| "plain_step (OpFilter it it' p) xs = (OutBag (mset (filter p xs)), filter (\<lambda>t. \<not> p t) xs)"
| "plain_step (OpCap n) xs = (OutTxs (map Some (rev (drop n xs))), take n xs)"
| "plain_step (OpRemove n) xs =
     (OutBool (find (\<lambda>t. tx_Nonce t = n) xs \<noteq> None), filter (\<lambda>t. tx_Nonce t \<noteq> n) xs)"
| "plain_step (OpReady n) xs = (let (run, rest) = plain_Ready n xs in (OutTxs (map Some run), rest))"
| "plain_step OpLen xs = (OutNat (length xs), xs)"
| "plain_step (OpFlatten it) xs = (OutTxs (map Some xs), xs)"

lemma sm_step_refines:
  assumes "sm_ok m" "sm_op_ok op"
  shows "\<exists>r m'. sm_step op m = Inr (r, m') \<and> sm_ok m' \<and> plain_step op (sm_txs m) = (r, sm_txs m')"
proof -
  have ok: "items_ok (sm_items m)" using assms(1) by (simp add: sm_ok_def sm_core_def)
  show ?thesis
  proof (cases op)
    case (OpGet n)
    then show ?thesis using assms(1) by (simp add: sm_Get_txs [OF ok])
  next
    case (OpPut tx)
    then show ?thesis using sm_Put_ok [OF assms(1)] by simp
  next
    case (OpForward n)
    then show ?thesis using sm_Forward_ok [OF assms(1), of n] by auto
  next
    case (OpFilter it it' p)
    obtain removed m' where f: "sm_Filter it it' p m = (removed, m')" by (cases "sm_Filter it it' p m")
    then show ?thesis using OpFilter assms(2) sm_Filter_ok [OF assms(1) _ _ f] by simp
  next
    case (OpCap n)
    then show ?thesis using sm_Cap_ok [OF assms(1), of n] by auto
  next
    case (OpRemove n)
    then show ?thesis using sm_Remove_ok [OF assms(1), of n] by (auto simp: sm_Get_txs [OF ok])
  next
    case (OpReady n)
    then show ?thesis using sm_Ready_ok [OF assms(1), of n] by (auto simp: split_def Let_def)
  next
    case OpLen
    then show ?thesis using assms(1) sm_txs_by_nonce(3) [OF ok] by (simp add: sm_Len_def)
  next
    case (OpFlatten it)
    then show ?thesis using assms(2) sm_flatten_ok [OF assms(1), of it] by (auto simp: sm_Flatten_def)
  qed
qed

interpretation sorted_map_refinement: functional_refinement sm_ok sm_op_ok sm_txs sm_step plain_step
  by unfold_locales (rule sm_step_refines)

lemma newTxSortedMap_ok: "sm_ok newTxSortedMap" "sm_txs newTxSortedMap = []"
  by (simp_all add: newTxSortedMap_def sm_ok_def sm_core_def items_ok_def heap_ok_def sm_txs_def)

text \<open>
  The transaction map refines a list sorted by nonce: whatever calls are made on a new
  \<open>txSortedMap\<close>, none of them panics and each returns what the same call returns on the plain list of
  the transactions held; the heap index and the cached order never show.
\<close>

lemma sorted_map_refines_list:
  assumes "\<forall>op \<in> set ops. sm_op_ok op"
  shows "\<exists>outs m. run_ops sm_step ops newTxSortedMap = Inr (outs, m) \<and> sm_ok m \<and>
    run_abs plain_step ops [] = (outs, sm_txs m)"
  using sorted_map_refinement.run_refines [OF newTxSortedMap_ok(1) assms] newTxSortedMap_ok(2) by simp

section \<open>Account lists as sorted lists\<close>

text \<open>
  The caps bound the cost and the gas of every transaction held, so that \<open>Filter\<close> may return early;
  in the plain list there are no caps, and a strict list keeps what stands before the first transaction
  over a limit.
\<close>

definition tl_ok :: "(transaction \<Rightarrow> int) \<Rightarrow> bool \<Rightarrow> tx_list \<Rightarrow> bool" where
  "tl_ok cost strict l \<longleftrightarrow> sm_ok (tl_txs l) \<and> tl_strict l = strict \<and>
     (\<forall>t \<in> set (sm_txs (tl_txs l)). cost t \<le> tl_costcap l \<and> tx_Gas t \<le> tl_gascap l)"

definition plain_Filter :: "bool \<Rightarrow> (transaction \<Rightarrow> bool) \<Rightarrow> transaction list \<Rightarrow> (transaction list \<times> transaction list) \<times> transaction list" where
  "plain_Filter strict over xs =
     (if strict then ((filter over xs, filter (\<lambda>t. \<not> over t) (dropWhile (\<lambda>t. \<not> over t) xs)), takeWhile (\<lambda>t. \<not> over t) xs)
      else ((filter over xs, []), filter (\<lambda>t. \<not> over t) xs))"

definition plain_Add :: "transaction \<Rightarrow> u64 \<Rightarrow> transaction list \<Rightarrow> (bool \<times> transaction option) \<times> transaction list" where
  "plain_Add tx priceBump xs =
     (case find (\<lambda>t. tx_Nonce t = tx_Nonce tx) xs of
        None \<Rightarrow> ((True, None), plain_Put tx xs)
      | Some t \<Rightarrow> if tx_GasPrice tx \<le> tx_GasPrice t \<or> tx_GasPrice tx < bump_threshold priceBump t then ((False, None), xs)
                  else ((True, Some t), plain_Put tx xs))"

lemma tl_okD: "tl_ok cost strict l \<Longrightarrow> sm_ok (tl_txs l)" "tl_ok cost strict l \<Longrightarrow> items_ok (sm_items (tl_txs l))"
  by (auto simp: tl_ok_def sm_ok_def sm_core_def)

text \<open>Operations that only drop transactions keep the caps valid.\<close>

lemma tl_ok_shrink:
  "tl_ok cost strict l \<Longrightarrow> sm_ok m \<Longrightarrow> set (sm_txs m) \<subseteq> set (sm_txs (tl_txs l)) \<Longrightarrow> tl_ok cost strict (l\<lparr>tl_txs := m\<rparr>)"
  by (auto simp: tl_ok_def)

lemma tl_Add_ok:
  assumes "tl_ok cost strict l" "tl_Add cost tx priceBump l = (r, l')"
  shows "tl_ok cost strict l'" "plain_Add tx priceBump (sm_txs (tl_txs l)) = (r, sm_txs (tl_txs l'))"
proof -
  note get = sm_Get_txs [OF tl_okD(2) [OF assms(1)], of "tx_Nonce tx"] and put = sm_Put_ok [OF tl_okD(1) [OF assms(1)], of tx]
  define l1 where "l1 = l\<lparr>tl_txs := sm_Put tx (tl_txs l), tl_costcap := max (tl_costcap l) (cost tx), tl_gascap := max (tl_gascap l) (tx_Gas tx)\<rparr>"
  have "set (plain_Put tx xs) \<subseteq> insert tx (set xs)" for xs by (auto simp: plain_Put_def)
  then have l1: "tl_ok cost strict l1" "sm_txs (tl_txs l1) = plain_Put tx (sm_txs (tl_txs l))"
    using assms(1) put by (auto simp: tl_ok_def l1_def le_max_iff_disj)
  define old where "old = sm_Get (tx_Nonce tx) (tl_txs l)"
  define rejected where "rejected = (case old of None \<Rightarrow> False
     | Some t \<Rightarrow> tx_GasPrice t \<ge> tx_GasPrice tx \<or> tx_GasPrice tx < bump_threshold priceBump t)"
  have caps: "(let l = l\<lparr>tl_txs := sm_Put tx (tl_txs l)\<rparr>;
             l = (if tl_costcap l < cost tx then l\<lparr>tl_costcap := cost tx\<rparr> else l)
         in if tl_gascap l < tx_Gas tx then l\<lparr>tl_gascap := tx_Gas tx\<rparr> else l) = l1"
    unfolding l1_def by (cases l) (auto simp: max_def Let_def)
  have "tl_Add cost tx priceBump l = (if rejected then ((False, None), l) else ((True, old), l1))"
    unfolding caps [symmetric] by (simp add: tl_Add_def old_def rejected_def Let_def)
  then have "(r, l') = (if rejected then ((False, None), l) else ((True, old), l1))" using assms(2) by simp
  moreover have "plain_Add tx priceBump (sm_txs (tl_txs l)) =
      (if rejected then ((False, None), sm_txs (tl_txs l)) else ((True, old), plain_Put tx (sm_txs (tl_txs l))))"
    by (cases old) (simp_all add: plain_Add_def get [symmetric] old_def [symmetric] rejected_def)
  ultimately show "tl_ok cost strict l'" "plain_Add tx priceBump (sm_txs (tl_txs l)) = (r, sm_txs (tl_txs l'))"
    using l1 assms(1) by (cases rejected; simp)+
qed

lemma lowest_nonce_least: "(\<forall>t \<in> set txs. lowest_nonce n txs \<le> tx_Nonce t) \<and> (lowest_nonce n txs = n \<or> lowest_nonce n txs \<in> tx_Nonce ` set txs) \<and> lowest_nonce n txs \<le> n"
proof (induction n txs rule: lowest_nonce.induct)
  case (2 n tx txs)
  then show ?case by (auto split: if_splits)
qed simp

lemma before_first:
  assumes "by_nonce xs" "\<exists>t \<in> set xs. over t"
    and least: "\<forall>t \<in> set xs. over t \<longrightarrow> n \<le> tx_Nonce t" "\<exists>t \<in> set xs. over t \<and> tx_Nonce t = n"
  shows "filter (\<lambda>t. \<not> over t \<and> \<not> tx_Nonce t > n) xs = takeWhile (\<lambda>t. \<not> over t) xs"
    "filter (\<lambda>t. \<not> over t \<and> tx_Nonce t > n) xs = filter (\<lambda>t. \<not> over t) (dropWhile (\<lambda>t. \<not> over t) xs)"
  using assms
proof (induction xs)
  case (Cons x xs)
  {
    case 1
    show ?case
    proof (cases "over x")
      case True
      then have "n = tx_Nonce x" using 1 by force
      then show ?thesis using True 1 by (auto simp: filter_empty_conv)
    next
      case False
      then have "tx_Nonce x < n" using 1 by auto
      then show ?thesis using False 1 Cons.IH(1) by auto
    qed
  next
    case 2
    show ?case
    proof (cases "over x")
      case True
      then have "n = tx_Nonce x" using 2 by force
      then show ?thesis using True 2 by (auto intro!: filter_cong)
    next
      case False
      then have "tx_Nonce x < n" using 2 by auto
      then show ?thesis using False 2 Cons.IH(2) by auto
    qed
  }
qed simp_all

lemma tl_Filter_ok:
  assumes "tl_ok cost strict l" "\<forall>i. visit_ok (its i)" "tl_Filter its cost costLimit gasLimit l = ((removed, invalids), l')"
  defines "over \<equiv> \<lambda>t. tx_Gas t > gasLimit \<or> cost t > costLimit"
  shows "tl_ok cost strict l'" "\<exists>r i. plain_Filter strict over (sm_txs (tl_txs l)) = ((r, i), sm_txs (tl_txs l')) \<and> mset removed = mset r \<and> mset invalids = mset i"
proof -
  let ?xs = "sm_txs (tl_txs l)"
  have bn: "by_nonce ?xs" using tl_okD [OF assms(1)] by (simp add: sm_txs_by_nonce)
  have none: "plain_Filter strict over ?xs = (([], []), ?xs)" if "filter over ?xs = []"
  proof -
    have no: "\<forall>t \<in> set ?xs. \<not> over t" using that by (simp add: filter_empty_conv)
    then have "dropWhile (\<lambda>t. \<not> over t) ?xs = []" by (simp only: dropWhile_eq_Nil_conv)
    moreover have "filter (\<lambda>t. \<not> over t) ?xs = ?xs" "takeWhile (\<lambda>t. \<not> over t) ?xs = ?xs" using no by simp_all
    ultimately have "filter (\<lambda>t. \<not> over t) ?xs = ?xs" "takeWhile (\<lambda>t. \<not> over t) ?xs = ?xs" "filter (\<lambda>t. \<not> over t) (dropWhile (\<lambda>t. \<not> over t) ?xs) = []"
      by (simp_all only: filter.simps)
    then show ?thesis using that by (simp only: plain_Filter_def if_cancel)
  qed
  have "tl_ok cost strict l' \<and> (\<exists>r i. plain_Filter strict over ?xs = ((r, i), sm_txs (tl_txs l')) \<and> mset removed = mset r \<and> mset invalids = mset i)"
  proof (cases "tl_costcap l \<le> costLimit \<and> tl_gascap l \<le> gasLimit")
    case True
    then have "filter over ?xs = []" using assms(1) by (fastforce simp: tl_ok_def over_def filter_empty_conv)
    then show ?thesis using True assms(1,3) none by (simp add: tl_Filter_def)
  next
    case False
    obtain rem m where f: "sm_Filter (its 0) (its 1) over (tl_txs l) = (rem, m)" by (cases "sm_Filter (its 0) (its 1) over (tl_txs l)")
    note F = sm_Filter_ok [OF tl_okD(1) [OF assms(1)] _ _ f]
    have F1: "mset rem = mset (filter over ?xs)" and F2: "sm_ok m" and F3: "sm_txs m = filter (\<lambda>t. \<not> over t) ?xs"
      using F assms(2) by blast+
    have im: "items_ok (sm_items m)" using F2 by (simp add: sm_ok_def sm_core_def)
    have kept_ok: "tl_ok cost strict (l\<lparr>tl_costcap := costLimit, tl_gascap := gasLimit, tl_txs := k\<rparr>)"
      if "sm_ok k" "set (sm_txs k) \<subseteq> set (sm_txs m)" for k
      using that assms(1) F3 by (fastforce simp: tl_ok_def over_def)
    show ?thesis
    proof (cases "rem = []")
      case True
      then have e: "filter over ?xs = []" using F1 by simp
      then have "sm_txs m = ?xs" using F3 by (metis empty_filter_conv filter_True)
      moreover have "l' = l\<lparr>tl_costcap := costLimit, tl_gascap := gasLimit, tl_txs := m\<rparr>" "removed = []" "invalids = []"
        using assms(3) False f True by (auto simp: tl_Filter_def over_def split_def Let_def)
      ultimately show ?thesis using none [OF e] kept_ok [OF F2] by simp
    next
      case ne: False
      let ?low = "lowest_nonce (- 1) rem"
      define fr where "fr = (if strict then sm_filter (its 2) (\<lambda>t. tx_Nonce t > ?low) m else ([], m))"
      have out: "removed = rem" "invalids = fst fr" "l' = l\<lparr>tl_costcap := costLimit, tl_gascap := gasLimit, tl_txs := sm_reheap (its 3) (snd fr)\<rparr>"
        using assms(1,3) False f ne by (auto simp: tl_Filter_def over_def fr_def tl_ok_def split_def Let_def split: if_splits)
      have sr: "set rem = {t \<in> set ?xs. over t}" using mset_eq_setD [OF F1] by simp
      have fr: "items_ok (sm_items (snd fr)) \<and> (\<exists>i. plain_Filter strict over ?xs = ((filter over ?xs, i), sm_txs (snd fr)) \<and> mset (fst fr) = mset i)"
      proof (cases strict)
        case True
        have ex: "\<exists>t \<in> set ?xs. over t" using ne sr by (cases rem) auto
        have low: "\<forall>t \<in> set ?xs. over t \<longrightarrow> ?low \<le> tx_Nonce t" using lowest_nonce_least [of rem "- 1"] sr by simp
        moreover have "\<exists>t \<in> set ?xs. over t \<and> tx_Nonce t = ?low"
        proof -
          obtain t where t: "t \<in> set ?xs" "over t" using ex by blast
          have "?low \<in> tx_Nonce ` set rem \<or> ?low = - 1" using lowest_nonce_least [of rem "- 1"] by auto
          moreover have "tx_Nonce t = - 1" if "?low = - 1" using low t that by (metis word_order.extremum_unique)
          ultimately show ?thesis using t sr by auto
        qed
        ultimately have bf: "filter (\<lambda>t. \<not> over t \<and> \<not> tx_Nonce t > ?low) ?xs = takeWhile (\<lambda>t. \<not> over t) ?xs"
            "filter (\<lambda>t. \<not> over t \<and> tx_Nonce t > ?low) ?xs = filter (\<lambda>t. \<not> over t) (dropWhile (\<lambda>t. \<not> over t) ?xs)"
          using before_first [OF bn ex] by blast+
        have fr2: "sm_filter (its 2) (\<lambda>t. tx_Nonce t > ?low) m = (fst fr, snd fr)" using True by (simp add: fr_def)
        have "visit_ok (its 2)" using assms(2) by simp
        note G = sm_filter_ok [OF im this fr2]
        show ?thesis using G(1,2,3) True bf by (simp add: plain_Filter_def F3 conj_commute)
      next
        case ns: False
        then show ?thesis using F3 im by (simp add: fr_def plain_Filter_def)
      qed
      have v: "visit_ok (its 3)" using assms(2) by simp
      have rh: "sm_ok (sm_reheap (its 3) (snd fr))" "sm_txs (sm_reheap (its 3) (snd fr)) = sm_txs (snd fr)"
        using sm_reheap_ok [OF _ v] fr by blast+
      moreover have "sm_txs (snd fr) = (if strict then takeWhile (\<lambda>t. \<not> over t) ?xs else filter (\<lambda>t. \<not> over t) ?xs)"
        using fr by (auto simp: plain_Filter_def split: if_splits)
      then have "set (sm_txs (snd fr)) \<subseteq> set (sm_txs m)"
        unfolding F3 by (auto dest: set_takeWhileD split: if_splits)
      ultimately have "tl_ok cost strict l'" using kept_ok [OF rh(1)] out(3) by simp
      then show ?thesis using fr out rh(2) F1 by auto
    qed
  qed
  then show "tl_ok cost strict l'" "\<exists>r i. plain_Filter strict over ?xs = ((r, i), sm_txs (tl_txs l')) \<and> mset removed = mset r \<and> mset invalids = mset i"
    by blast+
qed

text \<open>The calls on an account list and their results.\<close>

datatype tl_op =
    TOverlaps transaction | TAdd transaction u64 | TForward u64 | TFilter "nat \<Rightarrow> visit" int u64 | TCap nat
  | TRemove "nat \<Rightarrow> visit" transaction | TReady u64 | TLen | TEmpty | TFlatten visit

datatype tl_out =
    TOBool bool | TOAdd bool "transaction option" | TOTxs "transaction option list"
  | TOBags "transaction multiset" "transaction multiset" | TORemove bool "transaction multiset" | TONat nat

fun tl_op_ok :: "tl_op \<Rightarrow> bool" where
  "tl_op_ok (TFilter its c g) \<longleftrightarrow> (\<forall>i. visit_ok (its i))"
| "tl_op_ok (TRemove its tx) \<longleftrightarrow> (\<forall>i. visit_ok (its i))"
| "tl_op_ok (TFlatten it) \<longleftrightarrow> visit_ok it"
| "tl_op_ok _ \<longleftrightarrow> True"

fun tl_step :: "(transaction \<Rightarrow> int) \<Rightarrow> tl_op \<Rightarrow> tx_list \<Rightarrow> (tl_out \<times> tx_list) res" where
  "tl_step cost (TOverlaps tx) l = Inr (TOBool (tl_Overlaps tx l), l)"
| "tl_step cost (TAdd tx b) l = (let ((done_ok, old), l) = tl_Add cost tx b l in Inr (TOAdd done_ok old, l))"
| "tl_step cost (TForward n) l = bind_res (tl_Forward n l) (\<lambda>(txs, l). Inr (TOTxs txs, l))"
| "tl_step cost (TFilter its c g) l =
     (let ((removed, invalids), l) = tl_Filter its cost c g l in Inr (TOBags (mset removed) (mset invalids), l))"
| "tl_step cost (TCap n) l = bind_res (tl_Cap n l) (\<lambda>(txs, l). Inr (TOTxs txs, l))"
| "tl_step cost (TRemove its tx) l = bind_res (tl_Remove its tx l) (\<lambda>((b, invalids), l). Inr (TORemove b (mset invalids), l))"
| "tl_step cost (TReady n) l = bind_res (tl_Ready n l) (\<lambda>(txs, l). Inr (TOTxs txs, l))"
| "tl_step cost TLen l = Inr (TONat (tl_Len l), l)"
| "tl_step cost TEmpty l = Inr (TOBool (tl_Empty l), l)"
| "tl_step cost (TFlatten it) l = (let (txs, l) = tl_Flatten it l in Inr (TOTxs (map Some txs), l))"

fun plain_tl_step :: "(transaction \<Rightarrow> int) \<Rightarrow> bool \<Rightarrow> tl_op \<Rightarrow> transaction list \<Rightarrow> tl_out \<times> transaction list" where
  "plain_tl_step cost strict (TOverlaps tx) xs = (TOBool (\<exists>t \<in> set xs. tx_Nonce t = tx_Nonce tx), xs)"
| "plain_tl_step cost strict (TAdd tx b) xs = (let ((done_ok, old), xs) = plain_Add tx b xs in (TOAdd done_ok old, xs))"
| "plain_tl_step cost strict (TForward n) xs =
     (TOTxs (map Some (filter (\<lambda>t. tx_Nonce t < n) xs)), filter (\<lambda>t. \<not> tx_Nonce t < n) xs)"
| "plain_tl_step cost strict (TFilter its c g) xs =
     (let ((removed, invalids), xs) = plain_Filter strict (\<lambda>t. tx_Gas t > g \<or> cost t > c) xs in (TOBags (mset removed) (mset invalids), xs))"
| "plain_tl_step cost strict (TCap n) xs = (TOTxs (map Some (rev (drop n xs))), take n xs)"
| "plain_tl_step cost strict (TRemove its tx) xs =
     (if \<exists>t \<in> set xs. tx_Nonce t = tx_Nonce tx
      then if strict then (TORemove True (mset (filter (\<lambda>t. tx_Nonce t > tx_Nonce tx) xs)), filter (\<lambda>t. tx_Nonce t < tx_Nonce tx) xs)
           else (TORemove True {#}, filter (\<lambda>t. tx_Nonce t \<noteq> tx_Nonce tx) xs)
      else (TORemove False {#}, xs))"
| "plain_tl_step cost strict (TReady n) xs = (let (run, rest) = plain_Ready n xs in (TOTxs (map Some run), rest))"
| "plain_tl_step cost strict TLen xs = (TONat (length xs), xs)"
| "plain_tl_step cost strict TEmpty xs = (TOBool (xs = []), xs)"
| "plain_tl_step cost strict (TFlatten it) xs = (TOTxs (map Some xs), xs)"

lemma run_prefix_set: "set (snd (run_prefix n xs)) \<subseteq> set xs"
  by (induction n xs rule: run_prefix.induct) (auto simp: split_def Let_def)

lemma tl_Remove_ok:
  assumes "tl_ok cost strict l" "\<forall>i. visit_ok (its i)"
  shows "\<exists>r l'. tl_step cost (TRemove its tx) l = Inr (r, l') \<and> tl_ok cost strict l' \<and>
    plain_tl_step cost strict (TRemove its tx) (sm_txs (tl_txs l)) = (r, sm_txs (tl_txs l'))"
proof -
  let ?n = "tx_Nonce tx" and ?xs = "sm_txs (tl_txs l)"
  have strict: "tl_strict l = strict" using assms(1) by (simp add: tl_ok_def)
  have found: "sm_Get ?n (tl_txs l) \<noteq> None \<longleftrightarrow> (\<exists>t \<in> set ?xs. tx_Nonce t = ?n)"
    by (auto simp: sm_Get_txs [OF tl_okD(2) [OF assms(1)]] find_None_iff)
  obtain m where m: "sm_Remove ?n (tl_txs l) = Inr (sm_Get ?n (tl_txs l) \<noteq> None, m)" "sm_ok m" "sm_txs m = filter (\<lambda>t. tx_Nonce t \<noteq> ?n) ?xs"
    using sm_Remove_ok [OF tl_okD(1) [OF assms(1)]] by blast
  have lm: "tl_ok cost strict (l\<lparr>tl_txs := m\<rparr>)" using m(2,3) by (intro tl_ok_shrink [OF assms(1)]) auto
  show ?thesis
  proof (cases "(\<exists>t \<in> set ?xs. tx_Nonce t = ?n) \<and> strict")
    case True
    obtain inv m2 where f: "sm_Filter (its 0) (its 1) (\<lambda>t. tx_Nonce t > ?n) m = (inv, m2)"
      by (cases "sm_Filter (its 0) (its 1) (\<lambda>t. tx_Nonce t > ?n) m")
    have F: "mset inv = mset (filter (\<lambda>t. tx_Nonce t > ?n) (sm_txs m))" "sm_ok m2" "sm_txs m2 = filter (\<lambda>t. \<not> tx_Nonce t > ?n) (sm_txs m)"
      using sm_Filter_ok [OF m(2) _ _ f] assms(2) by blast+
    have xs: "filter (\<lambda>t. tx_Nonce t > ?n) (sm_txs m) = filter (\<lambda>t. tx_Nonce t > ?n) ?xs"
        "filter (\<lambda>t. \<not> tx_Nonce t > ?n) (sm_txs m) = filter (\<lambda>t. tx_Nonce t < ?n) ?xs"
      unfolding m(3) filter_filter by (rule filter_cong; auto)+
    have "tl_ok cost strict (l\<lparr>tl_txs := m2\<rparr>)" using F(2,3) xs by (intro tl_ok_shrink [OF assms(1)]) auto
    then show ?thesis using True m(1) f found F xs strict by (simp add: tl_Remove_def Let_def)
  next
    case False
    have "\<not> (\<exists>t \<in> set ?xs. tx_Nonce t = ?n) \<Longrightarrow> sm_txs m = ?xs" unfolding m(3) by (rule filter_True) blast
    then show ?thesis using False lm m found strict by (auto simp: tl_Remove_def Let_def)
  qed
qed

lemma tl_step_refines:
  assumes "tl_ok cost strict l" "tl_op_ok op"
  shows "\<exists>r l'. tl_step cost op l = Inr (r, l') \<and> tl_ok cost strict l' \<and>
    plain_tl_step cost strict op (sm_txs (tl_txs l)) = (r, sm_txs (tl_txs l'))"
proof -
  note sm = tl_okD(1) [OF assms(1)] and it = tl_okD(2) [OF assms(1)] and shrink = tl_ok_shrink [OF assms(1)]
  have len: "tl_Len l = length (sm_txs (tl_txs l))" using sm_txs_by_nonce(3) [OF it] by (simp add: tl_Len_def sm_Len_def)
  show ?thesis
  proof (cases op)
    case (TOverlaps tx)
    then show ?thesis using assms(1) by (auto simp: tl_Overlaps_def sm_Get_txs [OF it] find_None_iff)
  next
    case (TAdd tx b)
    obtain r1 r2 l' where "tl_Add cost tx b l = ((r1, r2), l')" by (cases "tl_Add cost tx b l"; cases "fst (tl_Add cost tx b l)") auto
    then show ?thesis using TAdd tl_Add_ok [OF assms(1), of tx b "(r1, r2)" l'] by simp
  next
    case (TForward n)
    then show ?thesis using sm_Forward_ok [OF sm, of n] shrink by (fastforce simp: tl_Forward_def)
  next
    case (TFilter its c g)
    obtain r i l' where f: "tl_Filter its cost c g l = ((r, i), l')" by (cases "tl_Filter its cost c g l"; cases "fst (tl_Filter its cost c g l)") auto
    then show ?thesis using TFilter assms(2) tl_Filter_ok [OF assms(1) _ f] by fastforce
  next
    case (TCap n)
    then show ?thesis using sm_Cap_ok [OF sm, of n] shrink by (fastforce simp: tl_Cap_def dest: in_set_takeD)
  next
    case (TRemove its tx)
    then show ?thesis using tl_Remove_ok [OF assms(1)] assms(2) by simp
  next
    case (TReady n)
    have "set (snd (plain_Ready n (sm_txs (tl_txs l)))) \<subseteq> set (sm_txs (tl_txs l))" using run_prefix_set by (auto simp: plain_Ready_def)
    then show ?thesis using TReady sm_Ready_ok [OF sm, of n] shrink by (fastforce simp: tl_Ready_def split_def Let_def)
  next
    case (TFlatten it)
    then show ?thesis using assms(2) sm_flatten_ok [OF sm, of it] shrink by (fastforce simp: tl_Flatten_def sm_Flatten_def)
  qed (use assms(1) len in \<open>simp_all add: tl_Empty_def\<close>)
qed

interpretation tx_list_refinement: functional_refinement "tl_ok cost strict" tl_op_ok "\<lambda>l. sm_txs (tl_txs l)" "tl_step cost" "plain_tl_step cost strict"
  for cost strict by unfold_locales (rule tl_step_refines)

lemma newTxList_ok: "tl_ok cost strict (newTxList strict)" "sm_txs (tl_txs (newTxList strict)) = []"
  using newTxSortedMap_ok by (simp_all add: newTxList_def tl_ok_def)

text \<open>
  C9. An account's transaction list refines the plain list of its transactions: whatever calls are made
  on a new list, none of them panics and each returns what it returns on the plain list. In particular
  \<open>Filter\<close>, which may return at once because of the cached caps, always drops exactly the transactions
  over the limits and, in a strict list, everything behind the first of them; and a replacement is
  refused exactly when its price is not above the old one and the bump.
\<close>

theorem tx_list_refines_list:
  assumes "\<forall>op \<in> set ops. tl_op_ok op"
  shows "\<exists>outs l. run_ops (tl_step cost) ops (newTxList strict) = Inr (outs, l) \<and> tl_ok cost strict l \<and>
    run_abs (plain_tl_step cost strict) ops [] = (outs, sm_txs (tl_txs l))"
  using tx_list_refinement.run_refines [OF newTxList_ok(1) assms] newTxList_ok(2) by simp

section \<open>Witnesses\<close>

definition demo_pool_tx :: "u64 \<Rightarrow> int \<Rightarrow> transaction" where
  "demo_pool_tx n price = \<lparr>tx_Type = 0, tx_Nonce = n, tx_Gas = 21000, tx_GasPrice = price, tx_Value = 0, tx_To = None, tx_Data = [],
     tx_V = 27, tx_R = 1, tx_S = 1, tx_ChainId = 0, tx_AccessList = []\<rparr>"

definition demo_tl_ops :: "tl_op list" where
  "demo_tl_ops = [TAdd (demo_pool_tx 7 10) 10, TAdd (demo_pool_tx 6 50) 10, TAdd (demo_pool_tx 5 10) 10,
     TAdd (demo_pool_tx 5 10) 10, TFilter (\<lambda>_. rev) 20 30000]"

lemma visit_ok_rev: "visit_ok rev"
  by (simp add: visit_ok_def)

theorem tx_list_refines_list_witness:
  "\<exists>outs l. run_ops (tl_step tx_GasPrice) demo_tl_ops (newTxList True) = Inr (outs, l) \<and> tl_ok tx_GasPrice True l \<and>
     sm_txs (tl_txs l) = [demo_pool_tx 5 10] \<and> last outs = TOBags {#demo_pool_tx 6 50#} {#demo_pool_tx 7 10#}"
proof -
  have "\<forall>op \<in> set demo_tl_ops. tl_op_ok op" by (simp add: demo_tl_ops_def visit_ok_rev)
  from tx_list_refines_list [OF this, of tx_GasPrice True] show ?thesis
    by (auto simp: demo_tl_ops_def demo_pool_tx_def plain_Put_def plain_Add_def plain_Filter_def bump_threshold_def)
qed

end
