(* ===== verification/Tx_Priced.thy ===== *)
theory Tx_Priced
  imports Tx_List
begin

text \<open>
  The lookup table of the transaction pool (\<open>txLookup\<close>, \<open>accountSet\<close> of src/evmcore/tx_pool.go) and the
  heap of its remote transactions by price (\<open>priceHeap\<close>, \<open>txPricedList\<close> of src/evmcore/tx_list.go). The
  list points at the table; here the table is an argument of the operations that read it.

  Hash, size, cost and sender of a transaction are computed by the transaction package and are
  parameters. \<open>Size\<close> is a \<open>float64\<close> that holds a whole number of bytes; \<open>numSlots\<close> divides it
  and cuts the fraction off.
\<close>

section \<open>Lookup table\<close>

record pool_lib =
  pl_Hash :: "transaction \<Rightarrow> bytes"
  pl_Size :: "transaction \<Rightarrow> nat"
  pl_Cost :: "transaction \<Rightarrow> int"
  pl_Sender :: "transaction \<Rightarrow> bytes option"

abbreviation txSlotSize :: nat where "txSlotSize \<equiv> 32 * 1024"
abbreviation txMaxSize :: nat where "txMaxSize \<equiv> 4 * txSlotSize"

definition numSlots :: "pool_lib \<Rightarrow> transaction \<Rightarrow> int" where
  "numSlots L tx = int ((pl_Size L tx + txSlotSize - 1) div txSlotSize)"

type_synonym table = "(bytes \<times> transaction) list"

record tx_lookup =
  lk_slots :: int
  lk_locals :: table
  lk_remotes :: table

definition newTxLookup :: tx_lookup where
  "newTxLookup = \<lparr>lk_slots = 0, lk_locals = [], lk_remotes = []\<rparr>"

definition lk_Get :: "bytes \<Rightarrow> tx_lookup \<Rightarrow> transaction option" where
  "lk_Get h t = (case map_of (lk_locals t) h of Some tx \<Rightarrow> Some tx | None \<Rightarrow> map_of (lk_remotes t) h)"

definition lk_OnlyNotExisting :: "bytes list \<Rightarrow> tx_lookup \<Rightarrow> bytes list" where
  "lk_OnlyNotExisting hashes t = filter (\<lambda>h. map_of (lk_locals t) h = None \<and> map_of (lk_remotes t) h = None) hashes"

definition lk_GetLocal :: "bytes \<Rightarrow> tx_lookup \<Rightarrow> transaction option" where
  "lk_GetLocal h t = map_of (lk_locals t) h"

definition lk_GetRemote :: "bytes \<Rightarrow> tx_lookup \<Rightarrow> transaction option" where
  "lk_GetRemote h t = map_of (lk_remotes t) h"

definition lk_Count :: "tx_lookup \<Rightarrow> nat" where
  "lk_Count t = length (lk_locals t) + length (lk_remotes t)"

definition lk_LocalCount :: "tx_lookup \<Rightarrow> nat" where
  "lk_LocalCount t = length (lk_locals t)"

definition lk_RemoteCount :: "tx_lookup \<Rightarrow> nat" where
  "lk_RemoteCount t = length (lk_remotes t)"

definition lk_Add :: "pool_lib \<Rightarrow> transaction \<Rightarrow> bool \<Rightarrow> tx_lookup \<Rightarrow> tx_lookup" where
  "lk_Add L tx local t =
     (let t = t\<lparr>lk_slots := lk_slots t + numSlots L tx\<rparr>
      in if local then t\<lparr>lk_locals := AList.update (pl_Hash L tx) tx (lk_locals t)\<rparr>
         else t\<lparr>lk_remotes := AList.update (pl_Hash L tx) tx (lk_remotes t)\<rparr>)"

definition lk_Remove :: "pool_lib \<Rightarrow> bytes \<Rightarrow> tx_lookup \<Rightarrow> tx_lookup" where
  "lk_Remove L h t =
     (case lk_Get h t of
        None \<Rightarrow> t
      | Some tx \<Rightarrow> t\<lparr>lk_slots := lk_slots t - numSlots L tx, lk_locals := AList.delete h (lk_locals t),
                     lk_remotes := AList.delete h (lk_remotes t)\<rparr>)"

text \<open>The set of accounts, by its members in the order in which they were added.\<close>

type_synonym account_set = "bytes list"

definition as_contains :: "account_set \<Rightarrow> bytes \<Rightarrow> bool" where
  "as_contains as addr \<longleftrightarrow> addr \<in> set as"

definition as_containsTx :: "pool_lib \<Rightarrow> account_set \<Rightarrow> transaction \<Rightarrow> bool" where
  "as_containsTx L as tx = (case pl_Sender L tx of Some addr \<Rightarrow> as_contains as addr | None \<Rightarrow> False)"

definition as_add :: "bytes \<Rightarrow> account_set \<Rightarrow> account_set" where
  "as_add addr as = List.insert addr as"

definition as_addTx :: "pool_lib \<Rightarrow> transaction \<Rightarrow> account_set \<Rightarrow> account_set" where
  "as_addTx L tx as = (case pl_Sender L tx of Some addr \<Rightarrow> as_add addr as | None \<Rightarrow> as)"

definition as_merge :: "account_set \<Rightarrow> account_set \<Rightarrow> account_set" where
  "as_merge other as = fold as_add other as"

fun migrate_loop :: "pool_lib \<Rightarrow> account_set \<Rightarrow> table \<Rightarrow> nat \<Rightarrow> tx_lookup \<Rightarrow> nat \<times> tx_lookup" where
  "migrate_loop L locals [] migrated t = (migrated, t)"
| "migrate_loop L locals ((h, tx) # es) migrated t =
     (if as_containsTx L locals tx
      then migrate_loop L locals es (migrated + 1)
             (t\<lparr>lk_locals := AList.update h tx (lk_locals t), lk_remotes := AList.delete h (lk_remotes t)\<rparr>)
      else migrate_loop L locals es migrated t)"

text \<open>\<open>it\<close> is the order in which \<open>range\<close> visits a table.\<close>

definition lk_RemoteToLocals :: "(table \<Rightarrow> table) \<Rightarrow> pool_lib \<Rightarrow> account_set \<Rightarrow> tx_lookup \<Rightarrow> nat \<times> tx_lookup" where
  "lk_RemoteToLocals it L locals t = migrate_loop L locals (it (lk_remotes t)) 0 t"

text \<open>\<open>skip\<close> is what the random number generator draws.\<close>

fun sample_loop :: "nat \<Rightarrow> bytes list \<Rightarrow> bytes list \<Rightarrow> nat \<Rightarrow> bytes list \<times> nat" where
  "sample_loop mx [] acc skip = (acc, skip)"
| "sample_loop mx (k # ks) acc skip =
     (if length acc \<ge> mx then (acc, skip)
      else if skip > 0 then sample_loop mx ks acc (skip - 1)
      else sample_loop mx ks (acc @ [k]) skip)"

definition lk_SampleHashes :: "(nat \<Rightarrow> nat) \<Rightarrow> (table \<Rightarrow> table) \<Rightarrow> nat \<Rightarrow> tx_lookup \<Rightarrow> bytes list" where
  "lk_SampleHashes randIntn it mx t =
     (let total = length (lk_locals t) + length (lk_remotes t);
          skip = (if total > mx then randIntn (total - mx) else 0);
          (acc, skip) = sample_loop mx (map fst (it (lk_locals t))) [] skip;
          (acc, skip) = sample_loop mx (map fst (it (lk_remotes t))) acc skip
      in acc)"

section \<open>Price heap\<close>

definition price_Less :: "transaction \<Rightarrow> transaction \<Rightarrow> bool" where
  "price_Less a b \<longleftrightarrow>
     (if tx_GasPrice a < tx_GasPrice b then True
      else if tx_GasPrice a > tx_GasPrice b then False
      else tx_Nonce a > tx_Nonce b)"

record tx_priced =
  pr_remotes :: "transaction list"
  pr_stales :: int

definition newTxPricedList :: tx_priced where
  "newTxPricedList = \<lparr>pr_remotes = [], pr_stales = 0\<rparr>"

definition pr_Put :: "transaction \<Rightarrow> bool \<Rightarrow> tx_priced \<Rightarrow> tx_priced" where
  "pr_Put tx local l = (if local then l else l\<lparr>pr_remotes := heap_Push price_Less tx (pr_remotes l)\<rparr>)"

definition pr_Reheap :: "(table \<Rightarrow> table) \<Rightarrow> tx_lookup \<Rightarrow> tx_priced \<Rightarrow> tx_priced" where
  "pr_Reheap it t l = l\<lparr>pr_stales := 0, pr_remotes := heap_Init price_Less (map snd (it (lk_remotes t)))\<rparr>"

definition pr_Removed :: "(table \<Rightarrow> table) \<Rightarrow> tx_lookup \<Rightarrow> nat \<Rightarrow> tx_priced \<Rightarrow> tx_priced" where
  "pr_Removed it t n l =
     (let l = l\<lparr>pr_stales := pr_stales l + int n\<rparr>
      in if pr_stales l \<le> int (length (pr_remotes l) div 4) then l else pr_Reheap it t l)"

function price_cap_loop :: "pool_lib \<Rightarrow> tx_lookup \<Rightarrow> int \<Rightarrow> transaction list \<Rightarrow> tx_priced \<Rightarrow> (transaction list \<times> tx_priced) res" where
  "price_cap_loop L t threshold drops l =
     (if pr_remotes l = [] then Inr (drops, l)
      else let cheapest = pr_remotes l ! 0
           in if lk_GetRemote (pl_Hash L cheapest) t = None
              then bind_res (heap_Pop price_Less (pr_remotes l)) (\<lambda>(_, h).
                     price_cap_loop L t threshold drops (l\<lparr>pr_remotes := h, pr_stales := pr_stales l - 1\<rparr>))
              else if tx_GasPrice cheapest \<ge> threshold then Inr (drops, l)
              else bind_res (heap_Pop price_Less (pr_remotes l)) (\<lambda>(_, h).
                     price_cap_loop L t threshold (drops @ [cheapest]) (l\<lparr>pr_remotes := h\<rparr>)))"
  by pat_completeness auto
termination by (relation "measure (\<lambda>(_, _, _, _, l). length (pr_remotes l))") (auto dest: heap_Pop_length)

definition pr_Cap :: "pool_lib \<Rightarrow> tx_lookup \<Rightarrow> int \<Rightarrow> tx_priced \<Rightarrow> (transaction list \<times> tx_priced) res" where
  "pr_Cap L t threshold l = price_cap_loop L t threshold [] l"

function drop_stale :: "pool_lib \<Rightarrow> tx_lookup \<Rightarrow> tx_priced \<Rightarrow> tx_priced res" where
  "drop_stale L t l =
     (if pr_remotes l \<noteq> [] \<and> lk_GetRemote (pl_Hash L (pr_remotes l ! 0)) t = None
      then bind_res (heap_Pop price_Less (pr_remotes l)) (\<lambda>(_, h).
             drop_stale L t (l\<lparr>pr_stales := pr_stales l - 1, pr_remotes := h\<rparr>))
      else Inr l)"
  by pat_completeness auto
termination by (relation "measure (\<lambda>(_, _, l). length (pr_remotes l))") (auto dest: heap_Pop_length)

definition pr_Underpriced :: "pool_lib \<Rightarrow> tx_lookup \<Rightarrow> transaction \<Rightarrow> tx_priced \<Rightarrow> (bool \<times> tx_priced) res" where
  "pr_Underpriced L t tx l =
     bind_res (drop_stale L t l) (\<lambda>l.
       Inr (if pr_remotes l = [] then False else tx_GasPrice (pr_remotes l ! 0) \<ge> tx_GasPrice tx, l))"

function discard_loop :: "pool_lib \<Rightarrow> tx_lookup \<Rightarrow> int \<Rightarrow> transaction list \<Rightarrow> tx_priced \<Rightarrow> (transaction list \<times> int \<times> tx_priced) res" where
  "discard_loop L t slots drops l =
     (if pr_remotes l \<noteq> [] \<and> slots > 0
      then bind_res (heap_Pop price_Less (pr_remotes l)) (\<lambda>(tx, h).
             if lk_GetRemote (pl_Hash L tx) t = None
             then discard_loop L t slots drops (l\<lparr>pr_remotes := h, pr_stales := pr_stales l - 1\<rparr>)
             else discard_loop L t (slots - numSlots L tx) (drops @ [tx]) (l\<lparr>pr_remotes := h\<rparr>))
      else Inr (drops, slots, l))"
  by pat_completeness auto
termination by (relation "measure (\<lambda>(_, _, _, _, l). length (pr_remotes l))") (auto dest: heap_Pop_length)

text \<open>\<open>Discard\<close> allocates \<open>slots\<close> places, which panics for a negative number.\<close>

definition pr_Discard :: "pool_lib \<Rightarrow> tx_lookup \<Rightarrow> int \<Rightarrow> bool \<Rightarrow> tx_priced \<Rightarrow> ((transaction list \<times> bool) \<times> tx_priced) res" where
  "pr_Discard L t slots force l =
     (if slots < 0 then Inl (Panic (PanicMsg ''makeslice: cap out of range''))
      else bind_res (discard_loop L t slots [] l) (\<lambda>(drops, slots, l).
       Inr (if slots > 0 \<and> \<not> force
            then (([], False), l\<lparr>pr_remotes := fold (heap_Push price_Less) drops (pr_remotes l)\<rparr>)
            else ((drops, True), l))))"

declare price_cap_loop.simps [simp del] drop_stale.simps [simp del] discard_loop.simps [simp del]

section \<open>The table as a set of transactions\<close>

text \<open>
  \<open>U\<close> is a set of transactions on which the hash has no collisions; everything the pool is given is
  taken from it.
\<close>

definition universe :: "pool_lib \<Rightarrow> transaction set \<Rightarrow> bool" where
  "universe L U \<longleftrightarrow> inj_on (pl_Hash L) U \<and> (\<forall>tx \<in> U. 0 < pl_Size L tx)"

definition locals_set :: "tx_lookup \<Rightarrow> transaction set" where
  "locals_set t = snd ` set (lk_locals t)"

definition remotes_set :: "tx_lookup \<Rightarrow> transaction set" where
  "remotes_set t = snd ` set (lk_remotes t)"

abbreviation known :: "tx_lookup \<Rightarrow> transaction set" where
  "known t \<equiv> locals_set t \<union> remotes_set t"

definition table_ok :: "pool_lib \<Rightarrow> table \<Rightarrow> bool" where
  "table_ok L es \<longleftrightarrow> distinct (map fst es) \<and> (\<forall>(h, tx) \<in> set es. h = pl_Hash L tx)"

definition lk_ok :: "pool_lib \<Rightarrow> transaction set \<Rightarrow> tx_lookup \<Rightarrow> bool" where
  "lk_ok L U t \<longleftrightarrow> table_ok L (lk_locals t) \<and> table_ok L (lk_remotes t) \<and> locals_set t \<inter> remotes_set t = {} \<and>
     known t \<subseteq> U \<and> lk_slots t = (\<Sum>tx \<in> known t. numSlots L tx)"

lemma table_entry: "table_ok L es \<Longrightarrow> map_of es h = Some tx \<longleftrightarrow> tx \<in> snd ` set es \<and> pl_Hash L tx = h"
  unfolding table_ok_def by (force simp: map_of_eq_Some_iff)

lemma table_none: "table_ok L es \<Longrightarrow> map_of es h = None \<longleftrightarrow> (\<forall>tx \<in> snd ` set es. pl_Hash L tx \<noteq> h)"
  by (metis not_None_eq table_entry)

lemma table_delete:
  assumes "table_ok L es"
  shows "table_ok L (AList.delete h es)" "snd ` set (AList.delete h es) = {tx \<in> snd ` set es. pl_Hash L tx \<noteq> h}"
  using assms by (auto simp: table_ok_def AList.delete_eq distinct_map_filter image_iff)

lemma table_update:
  assumes "table_ok L es" "map_of es (pl_Hash L tx) = None"
  shows "table_ok L (AList.update (pl_Hash L tx) tx es)" "snd ` set (AList.update (pl_Hash L tx) tx es) = insert tx (snd ` set es)"
proof -
  have "AList.update k v xs = xs @ [(k, v)]" if "map_of xs k = None" for k v and xs :: table
    using that by (induction xs) (auto split: if_splits)
  then have u: "AList.update (pl_Hash L tx) tx es = es @ [(pl_Hash L tx, tx)]" using assms(2) by blast
  show "table_ok L (AList.update (pl_Hash L tx) tx es)" "snd ` set (AList.update (pl_Hash L tx) tx es) = insert tx (snd ` set es)"
    using assms unfolding u by (auto simp: table_ok_def map_of_eq_None_iff)
qed

lemma table_length: "table_ok L es \<Longrightarrow> length es = card (snd ` set es)"
proof -
  assume ok: "table_ok L es"
  then have "\<forall>e \<in> set es. fst e = pl_Hash L (snd e)" by (auto simp: table_ok_def)
  then have "inj_on snd (set es)" by (metis inj_onI prod.collapse)
  then show ?thesis using ok distinct_card [of es] by (simp add: card_image table_ok_def distinct_map)
qed

lemma lk_Get_iff:
  assumes "lk_ok L U t" "universe L U"
  shows "lk_Get h t = Some tx \<longleftrightarrow> tx \<in> known t \<and> pl_Hash L tx = h"
proof -
  have t: "table_ok L (lk_locals t)" "table_ok L (lk_remotes t)" and U: "known t \<subseteq> U" using assms(1) by (auto simp: lk_ok_def)
  have same: "a = b" if "a \<in> known t" "b \<in> known t" "pl_Hash L a = pl_Hash L b" for a b
    using that U assms(2) by (meson inj_onD subsetD universe_def)
  show ?thesis
  proof (cases "map_of (lk_locals t) h")
    case None
    have "\<forall>tx \<in> locals_set t. pl_Hash L tx \<noteq> h" using table_none [OF t(1), of h] None by (simp only: locals_set_def simp_thms)
    then show ?thesis using None table_entry [OF t(2), of h tx] by (auto simp only: lk_Get_def remotes_set_def option.case)
  next
    case (Some u)
    then have "u \<in> known t" "pl_Hash L u = h" using table_entry [OF t(1)] by (auto simp: locals_set_def)
    then show ?thesis using Some same by (auto simp: lk_Get_def)
  qed
qed

lemma lk_Get_None: "lk_ok L U t \<Longrightarrow> universe L U \<Longrightarrow> lk_Get h t = None \<longleftrightarrow> (\<forall>tx \<in> known t. pl_Hash L tx \<noteq> h)"
  using lk_Get_iff [of L U t h] by (metis not_None_eq)

lemma finite_known [simp]: "finite (locals_set t)" "finite (remotes_set t)"
  by (simp_all add: locals_set_def remotes_set_def)

lemma lk_GetRemote_iff: "lk_ok L U t \<Longrightarrow> lk_GetRemote h t = Some tx \<longleftrightarrow> tx \<in> remotes_set t \<and> pl_Hash L tx = h"
  by (simp add: lk_GetRemote_def lk_ok_def table_entry remotes_set_def)

lemma lk_Remove_ok:
  assumes "lk_ok L U t" "universe L U" "tx \<in> U"
  shows "lk_ok L U (lk_Remove L (pl_Hash L tx) t)" "known (lk_Remove L (pl_Hash L tx) t) = known t - {tx}"
    "remotes_set (lk_Remove L (pl_Hash L tx) t) = remotes_set t - {tx}" "locals_set (lk_Remove L (pl_Hash L tx) t) = locals_set t - {tx}"
proof -
  let ?t = "lk_Remove L (pl_Hash L tx) t"
  have t: "table_ok L (lk_locals t)" "table_ok L (lk_remotes t)" and U: "known t \<subseteq> U" and sl: "lk_slots t = (\<Sum>tx \<in> known t. numSlots L tx)"
    using assms(1) by (auto simp: lk_ok_def)
  have same: "pl_Hash L a = pl_Hash L tx \<longleftrightarrow> a = tx" if "a \<in> known t" for a
    using that U assms(2,3) by (meson inj_onD subsetD universe_def)
  have "lk_ok L U ?t \<and> remotes_set ?t = remotes_set t - {tx} \<and> locals_set ?t = locals_set t - {tx}"
  proof (cases "tx \<in> known t")
    case True
    then have get: "lk_Get (pl_Hash L tx) t = Some tx" using lk_Get_iff [OF assms(1,2)] by simp
    have sets: "remotes_set ?t = remotes_set t - {tx}" "locals_set ?t = locals_set t - {tx}"
      using same by (auto simp: lk_Remove_def get remotes_set_def locals_set_def table_delete(2) [OF t(1)] table_delete(2) [OF t(2)])
    have "known ?t = known t - {tx}" using sets by blast
    then have "(\<Sum>tx \<in> known ?t. numSlots L tx) = lk_slots t - numSlots L tx" using True sl by (simp add: sum_diff1)
    then show ?thesis using assms(1) sets table_delete(1) [OF t(1)] table_delete(1) [OF t(2)]
      by (auto simp: lk_ok_def lk_Remove_def get)
  next
    case False
    then have "lk_Get (pl_Hash L tx) t = None" using lk_Get_None [OF assms(1,2)] same by auto
    then show ?thesis using False assms(1) by (simp add: lk_Remove_def)
  qed
  then show "lk_ok L U ?t" "remotes_set ?t = remotes_set t - {tx}" "locals_set ?t = locals_set t - {tx}" "known ?t = known t - {tx}" by blast+
qed

lemma lk_Add_ok:
  assumes "lk_ok L U t" "universe L U" "tx \<in> U" "tx \<notin> known t"
  shows "lk_ok L U (lk_Add L tx local t)" "known (lk_Add L tx local t) = insert tx (known t)"
    "remotes_set (lk_Add L tx local t) = (if local then remotes_set t else insert tx (remotes_set t))"
proof -
  let ?t = "lk_Add L tx local t"
  have t: "table_ok L (lk_locals t)" "table_ok L (lk_remotes t)" and sl: "lk_slots t = (\<Sum>tx \<in> known t. numSlots L tx)"
    using assms(1) by (auto simp: lk_ok_def)
  have new: "\<forall>a \<in> known t. pl_Hash L a \<noteq> pl_Hash L tx"
    using assms unfolding lk_ok_def universe_def by (metis inj_onD subsetD)
  then have none: "map_of (lk_locals t) (pl_Hash L tx) = None" "map_of (lk_remotes t) (pl_Hash L tx) = None"
    using table_none [OF t(1)] table_none [OF t(2)] by (auto simp: locals_set_def remotes_set_def)
  have sets: "remotes_set ?t = (if local then remotes_set t else insert tx (remotes_set t))"
      "locals_set ?t = (if local then insert tx (locals_set t) else locals_set t)"
    using table_update(2) [OF t(1) none(1)] table_update(2) [OF t(2) none(2)] by (simp_all add: lk_Add_def remotes_set_def locals_set_def Let_def)
  show "known ?t = insert tx (known t)" "remotes_set ?t = (if local then remotes_set t else insert tx (remotes_set t))" using sets by auto
  then have "lk_slots ?t = (\<Sum>tx \<in> known ?t. numSlots L tx)" using assms(4) sl by (simp add: lk_Add_def Let_def)
  moreover have "table_ok L (lk_locals ?t)" "table_ok L (lk_remotes ?t)"
    using t table_update(1) [OF t(1) none(1)] table_update(1) [OF t(2) none(2)] by (simp_all add: lk_Add_def Let_def)
  moreover have "locals_set ?t \<inter> remotes_set ?t = {}" "known ?t \<subseteq> U" using sets assms(1,3,4) by (auto simp: lk_ok_def)
  ultimately show "lk_ok L U ?t" by (simp add: lk_ok_def)
qed

lemma known_slots: "lk_ok L U t \<Longrightarrow> universe L U \<Longrightarrow> int (lk_Count t) \<le> lk_slots t"
proof -
  assume ok: "lk_ok L U t" "universe L U"
  have "lk_Count t = card (known t)"
    using ok(1) table_length [of L "lk_locals t"] table_length [of L "lk_remotes t"]
    by (simp add: lk_Count_def lk_ok_def card_Un_disjoint locals_set_def [symmetric] remotes_set_def [symmetric])
  also have "int \<dots> = (\<Sum>tx \<in> known t. 1)" by simp
  also have "\<dots> \<le> (\<Sum>tx \<in> known t. numSlots L tx)"
  proof (rule sum_mono)
    fix tx assume "tx \<in> known t"
    then have "0 < pl_Size L tx" using ok unfolding lk_ok_def universe_def by blast
    then show "1 \<le> numSlots L tx" by (simp add: numSlots_def div_greater_zero_iff Suc_leI)
  qed
  finally show ?thesis using ok(1) by (simp add: lk_ok_def)
qed

lemma migrate_loop_ok:
  assumes "lk_ok L U t" "universe L U" "table_ok L es" "set es \<subseteq> set (lk_remotes t)"
  shows "lk_ok L U (snd (migrate_loop L locals es n t)) \<and> known (snd (migrate_loop L locals es n t)) = known t \<and>
    remotes_set (snd (migrate_loop L locals es n t)) \<subseteq> remotes_set t"
  using assms
proof (induction L locals es n t rule: migrate_loop.induct)
  case (2 L locals h tx es n t)
  have es: "table_ok L es" "set es \<subseteq> set (lk_remotes t)" "h \<notin> fst ` set es" using 2(5,6) by (auto simp: table_ok_def)
  show ?case
  proof (cases "as_containsTx L locals tx")
    case True
    let ?t = "t\<lparr>lk_locals := AList.update h tx (lk_locals t), lk_remotes := AList.delete h (lk_remotes t)\<rparr>"
    have t: "table_ok L (lk_locals t)" "table_ok L (lk_remotes t)" "locals_set t \<inter> remotes_set t = {}" "known t \<subseteq> U"
      using 2(3) by (auto simp: lk_ok_def)
    have h: "h = pl_Hash L tx" "(h, tx) \<in> set (lk_remotes t)" using 2(5,6) by (auto simp: table_ok_def)
    then have tx: "tx \<in> remotes_set t" by (force simp: remotes_set_def)
    have same: "pl_Hash L a = pl_Hash L tx \<longleftrightarrow> a = tx" if "a \<in> known t" for a
      using that tx t(4) 2(4) unfolding universe_def by (metis UnI2 inj_onD subsetD)
    have "\<forall>a \<in> snd ` set (lk_locals t). pl_Hash L a \<noteq> pl_Hash L tx" using same t(3) tx by (auto simp: locals_set_def)
    then have none: "map_of (lk_locals t) (pl_Hash L tx) = None" using table_none [OF t(1)] by simp
    have "{a \<in> remotes_set t. pl_Hash L a \<noteq> pl_Hash L tx} = remotes_set t - {tx}" using same by blast
    moreover have "remotes_set ?t = {a \<in> remotes_set t. pl_Hash L a \<noteq> pl_Hash L tx}"
      unfolding remotes_set_def h(1) using table_delete(2) [OF t(2), of "pl_Hash L tx"] by simp
    moreover have "locals_set ?t = insert tx (locals_set t)"
      unfolding locals_set_def h(1) using table_update(2) [OF t(1) none] by simp
    ultimately have sets: "locals_set ?t = insert tx (locals_set t)" "remotes_set ?t = remotes_set t - {tx}" by (simp_all only:)
    have k: "known ?t = known t" unfolding sets using tx by blast
    have dj: "locals_set ?t \<inter> remotes_set ?t = {}" unfolding sets using t(3) by blast
    have ok: "lk_ok L U ?t"
      using 2(3) k dj table_update(1) [OF t(1) none] table_delete(1) [OF t(2), of h] by (simp add: lk_ok_def h(1))
    have "set es \<subseteq> set (lk_remotes ?t)" using es(2,3) by (force simp: AList.delete_eq)
    then show ?thesis using 2(1) [OF True ok 2(4) es(1)] True k sets by auto
  next
    case False
    then show ?thesis using 2(2) [OF False 2(3,4) es(1,2)] by simp
  qed
qed simp

definition table_visit_ok :: "(table \<Rightarrow> table) \<Rightarrow> bool" where
  "table_visit_ok it \<longleftrightarrow> (\<forall>es. mset (it es) = mset es)"

lemma table_visit_okD: "table_visit_ok it \<Longrightarrow> set (it es) = set es" "table_visit_ok it \<Longrightarrow> table_ok L es \<Longrightarrow> table_ok L (it es)"
proof -
  assume "table_visit_ok it"
  then have m: "mset (it es) = mset es" by (simp add: table_visit_ok_def)
  then show s: "set (it es) = set es" by (rule mset_eq_setD)
  show "table_ok L es \<Longrightarrow> table_ok L (it es)"
    unfolding table_ok_def s using m by (metis mset_eq_imp_distinct_iff mset_map)
qed

lemma lk_RemoteToLocals_ok:
  assumes "lk_ok L U t" "universe L U" "table_visit_ok it" "lk_RemoteToLocals it L locals t = (n, t')"
  shows "lk_ok L U t'" "known t' = known t" "remotes_set t' \<subseteq> remotes_set t"
proof -
  have "table_ok L (it (lk_remotes t))" "set (it (lk_remotes t)) \<subseteq> set (lk_remotes t)"
    using assms(1) table_visit_okD [OF assms(3)] by (simp_all add: lk_ok_def)
  then show "lk_ok L U t'" "known t' = known t" "remotes_set t' \<subseteq> remotes_set t"
    using migrate_loop_ok [OF assms(1,2), of "it (lk_remotes t)" locals 0] assms(4) by (simp_all add: lk_RemoteToLocals_def)
qed

section \<open>What the price heap knows\<close>

text \<open>
  The heap holds every remote transaction of a set \<open>R\<close>, besides stale ones. While transactions are
  thrown out, \<open>R\<close> is what is left of the remote transactions of the table.
\<close>

definition pr_covers :: "transaction set \<Rightarrow> transaction set \<Rightarrow> tx_priced \<Rightarrow> bool" where
  "pr_covers U R l \<longleftrightarrow> heap_ok price_Less (pr_remotes l) \<and> set (pr_remotes l) \<subseteq> U \<and> R \<subseteq> set (pr_remotes l)"

interpretation ph: less_order price_Less
  by unfold_locales (auto simp: price_Less_def split: if_splits)

lemma pr_covers_mono: "pr_covers U R l \<Longrightarrow> R' \<subseteq> R \<Longrightarrow> pr_covers U R' l"
  by (auto simp: pr_covers_def)

lemma pr_Put_ok: "pr_covers U R l \<Longrightarrow> tx \<in> U \<Longrightarrow> pr_covers U (if local then R else insert tx R) (pr_Put tx local l)"
  using ph.Push_ok [of "pr_remotes l" tx] mset_eq_setD [of "heap_Push price_Less tx (pr_remotes l)" "tx # pr_remotes l"]
  by (auto simp: pr_covers_def pr_Put_def)

lemma pr_Reheap_ok: "lk_ok L U t \<Longrightarrow> table_visit_ok it \<Longrightarrow> pr_covers U (remotes_set t) (pr_Reheap it t l)"
proof -
  assume ok: "lk_ok L U t" "table_visit_ok it"
  let ?xs = "map snd (it (lk_remotes t))"
  have "set (heap_Init price_Less ?xs) = remotes_set t"
    using mset_eq_setD [of "heap_Init price_Less ?xs" ?xs] ph.Init_ok [of ?xs] table_visit_okD(1) [OF ok(2)] by (simp add: remotes_set_def)
  then show ?thesis using ok(1) ph.Init_ok [of ?xs] by (simp add: pr_covers_def pr_Reheap_def lk_ok_def)
qed

lemma pr_Removed_ok: "lk_ok L U t \<Longrightarrow> table_visit_ok it \<Longrightarrow> pr_covers U R l \<Longrightarrow> R \<subseteq> remotes_set t \<Longrightarrow> pr_covers U R (pr_Removed it t n l)"
  using pr_Reheap_ok [of L U t it "l\<lparr>pr_stales := pr_stales l + int n\<rparr>"]
  by (auto simp: pr_Removed_def Let_def pr_covers_def)

text \<open>Taking the root of the heap.\<close>

lemma pr_pop:
  assumes "pr_covers U R l" "pr_remotes l \<noteq> []"
  shows "\<exists>h. heap_Pop price_Less (pr_remotes l) = Inr (pr_remotes l ! 0, h) \<and> pr_covers U (R - {pr_remotes l ! 0}) (l\<lparr>pr_remotes := h\<rparr>) \<and>
    pr_remotes l ! 0 \<in> U \<and> set h \<subseteq> set (pr_remotes l) \<and> (\<forall>x \<in> set (pr_remotes l). tx_GasPrice (pr_remotes l ! 0) \<le> tx_GasPrice x) \<and> length h < length (pr_remotes l)"
proof -
  have hp: "heap_ok price_Less (pr_remotes l)" using assms(1) by (simp add: pr_covers_def)
  obtain h where h: "heap_Pop price_Less (pr_remotes l) = Inr (pr_remotes l ! 0, h)" "heap_ok price_Less h"
      "mset (pr_remotes l) = add_mset (pr_remotes l ! 0) (mset h)" using ph.Pop_ok [OF hp assms(2)] by blast
  have s: "set (pr_remotes l) = insert (pr_remotes l ! 0) (set h)" using mset_eq_setD [of "pr_remotes l" "pr_remotes l ! 0 # h"] h(3) by simp
  have "tx_GasPrice (pr_remotes l ! 0) \<le> tx_GasPrice x" if x: "x \<in> set (pr_remotes l)" for x
  proof -
    obtain k where "k < length (pr_remotes l)" "pr_remotes l ! k = x" using x unfolding in_set_conv_nth by blast
    then have "\<not> price_Less x (pr_remotes l ! 0)" using ph.root_least [OF hp] by blast
    then show ?thesis unfolding price_Less_def by (metis not_le)
  qed
  then show ?thesis using h(1,2) s assms(1) heap_Pop_length [OF h(1)] by (auto simp: pr_covers_def)
qed

lemma drop_stale_ok:
  assumes "lk_ok L U t" "pr_covers U (remotes_set t) l"
  shows "\<exists>l'. drop_stale L t l = Inr l' \<and> pr_covers U (remotes_set t) l' \<and>
    (pr_remotes l' \<noteq> [] \<longrightarrow> lk_GetRemote (pl_Hash L (pr_remotes l' ! 0)) t \<noteq> None)"
  using assms(2)
proof (induction "length (pr_remotes l)" arbitrary: l rule: less_induct)
  case less
  show ?case
  proof (cases "pr_remotes l \<noteq> [] \<and> lk_GetRemote (pl_Hash L (pr_remotes l ! 0)) t = None")
    case True
    then obtain h where h: "heap_Pop price_Less (pr_remotes l) = Inr (pr_remotes l ! 0, h)"
        "pr_covers U (remotes_set t - {pr_remotes l ! 0}) (l\<lparr>pr_remotes := h\<rparr>)" "length h < length (pr_remotes l)"
      using pr_pop [OF less.prems] by blast
    have "pr_remotes l ! 0 \<notin> remotes_set t" using True lk_GetRemote_iff [OF assms(1)] by (metis option.distinct(1))
    then have "pr_covers U (remotes_set t) (l\<lparr>pr_stales := pr_stales l - 1, pr_remotes := h\<rparr>)" using h(2) by (simp add: pr_covers_def)
    from less.hyps [OF _ this] show ?thesis using True h(1,3) by (subst drop_stale.simps) simp
  next
    case False
    then have "drop_stale L t l = Inr l" by (subst drop_stale.simps) auto
    then show ?thesis using False less.prems by auto
  qed
qed

lemma pr_Underpriced_ok:
  assumes "lk_ok L U t" "universe L U" "pr_covers U (remotes_set t) l"
  shows "\<exists>l'. pr_Underpriced L t tx l = Inr (remotes_set t \<noteq> {} \<and> (\<forall>r \<in> remotes_set t. tx_GasPrice tx \<le> tx_GasPrice r), l') \<and>
    pr_covers U (remotes_set t) l'"
proof -
  obtain l' where l': "drop_stale L t l = Inr l'" "pr_covers U (remotes_set t) l'"
      "pr_remotes l' \<noteq> [] \<longrightarrow> lk_GetRemote (pl_Hash L (pr_remotes l' ! 0)) t \<noteq> None"
    using drop_stale_ok [OF assms(1,3)] by blast
  show ?thesis
  proof (cases "pr_remotes l' = []")
    case True
    then show ?thesis using l' by (auto simp: pr_Underpriced_def pr_covers_def)
  next
    case False
    let ?r = "pr_remotes l' ! 0"
    obtain r where r: "r \<in> remotes_set t" "pl_Hash L r = pl_Hash L ?r"
      using l'(3) False lk_GetRemote_iff [OF assms(1)] by (metis not_None_eq)
    have "?r \<in> U" "r \<in> U" using pr_pop [OF l'(2) False] r(1) assms(1) by (auto simp: lk_ok_def)
    then have "?r \<in> remotes_set t" using r assms(2) by (metis inj_onD universe_def)
    moreover have "\<forall>x \<in> remotes_set t. tx_GasPrice ?r \<le> tx_GasPrice x" using pr_pop [OF l'(2) False] l'(2) by (auto simp: pr_covers_def)
    ultimately have "tx_GasPrice ?r \<ge> tx_GasPrice tx \<longleftrightarrow> remotes_set t \<noteq> {} \<and> (\<forall>r \<in> remotes_set t. tx_GasPrice tx \<le> tx_GasPrice r)"
      by force
    then show ?thesis using l'(1,2) False by (simp add: pr_Underpriced_def)
  qed
qed

text \<open>What \<open>Discard\<close> takes out: live remote transactions, none dearer than what stays.\<close>

lemma discard_loop_ok:
  assumes "lk_ok L U t" "universe L U" "pr_covers U (remotes_set t - set drops) l" "set drops \<subseteq> remotes_set t"
    "\<forall>d \<in> set drops. \<forall>x \<in> set (pr_remotes l). tx_GasPrice d \<le> tx_GasPrice x"
  shows "\<exists>drops' slots' l'. discard_loop L t slots drops l = Inr (drops', slots', l') \<and>
    pr_covers U (remotes_set t - set drops') l' \<and> set drops' \<subseteq> remotes_set t \<and>
    (\<forall>d \<in> set drops'. \<forall>x \<in> set (pr_remotes l'). tx_GasPrice d \<le> tx_GasPrice x) \<and> (slots' \<le> 0 \<or> pr_remotes l' = [])"
  using assms(3-5)
proof (induction "length (pr_remotes l)" arbitrary: l slots drops rule: less_induct)
  case less
  show ?case
  proof (cases "pr_remotes l \<noteq> [] \<and> slots > 0")
    case True
    let ?x = "pr_remotes l ! 0"
    obtain h where h: "heap_Pop price_Less (pr_remotes l) = Inr (?x, h)" "pr_covers U (remotes_set t - set drops - {?x}) (l\<lparr>pr_remotes := h\<rparr>)"
        "?x \<in> U" "set h \<subseteq> set (pr_remotes l)" "\<forall>y \<in> set (pr_remotes l). tx_GasPrice ?x \<le> tx_GasPrice y" "length h < length (pr_remotes l)"
      using pr_pop [OF less.prems(1)] True by blast
    show ?thesis
    proof (cases "lk_GetRemote (pl_Hash L ?x) t")
      case None
      let ?l = "l\<lparr>pr_remotes := h, pr_stales := pr_stales l - 1\<rparr>"
      have "?x \<notin> remotes_set t" using None lk_GetRemote_iff [OF assms(1)] by (metis option.distinct(1))
      then have c: "pr_covers U (remotes_set t - set drops) ?l" using h(2) by (simp add: pr_covers_def)
      have "\<forall>d \<in> set drops. \<forall>x \<in> set (pr_remotes ?l). tx_GasPrice d \<le> tx_GasPrice x" using less.prems(3) h(4) by auto
      with less.hyps [OF _ c less.prems(2), of slots] show ?thesis using True None h(1,6) by (subst discard_loop.simps) simp
    next
      case (Some r)
      then have "r \<in> remotes_set t" "pl_Hash L r = pl_Hash L ?x" using lk_GetRemote_iff [OF assms(1)] by blast+
      moreover have "r \<in> U" using calculation(1) assms(1) by (auto simp: lk_ok_def)
      ultimately have x: "?x \<in> remotes_set t" using h(3) assms(2) by (metis inj_onD universe_def)
      let ?l = "l\<lparr>pr_remotes := h\<rparr>"
      have c: "pr_covers U (remotes_set t - set (drops @ [?x])) ?l" using h(2) by (simp add: Diff_insert [symmetric] insert_commute)
      have "\<forall>d \<in> set (drops @ [?x]). \<forall>x \<in> set (pr_remotes ?l). tx_GasPrice d \<le> tx_GasPrice x" using less.prems(3) h(4,5) by auto
      moreover have "set (drops @ [?x]) \<subseteq> remotes_set t" using x less.prems(2) by simp
      ultimately show ?thesis using less.hyps [OF _ c, of "slots - numSlots L ?x"] True Some h(1,6) by (subst discard_loop.simps) simp
    qed
  next
    case False
    then have "discard_loop L t slots drops l = Inr (drops, slots, l)" by (subst discard_loop.simps) auto
    then show ?thesis using False less.prems by auto
  qed
qed

lemma push_all_ok: "pr_covers U R (l\<lparr>pr_remotes := h\<rparr>) \<Longrightarrow> set drops \<subseteq> U \<Longrightarrow>
    pr_covers U (R \<union> set drops) (l\<lparr>pr_remotes := fold (heap_Push price_Less) drops h\<rparr>)"
proof (induction drops arbitrary: h R)
  case (Cons d ds)
  then have "pr_covers U (insert d R) (l\<lparr>pr_remotes := heap_Push price_Less d h\<rparr>)"
    using pr_Put_ok [of U R "l\<lparr>pr_remotes := h\<rparr>" d False] by (simp add: pr_Put_def)
  from Cons.IH [OF this] Cons.prems(2) show ?case by (simp add: insert_absorb)
qed simp

lemma pr_Discard_ok:
  assumes "lk_ok L U t" "universe L U" "pr_covers U (remotes_set t) l" "0 \<le> slots"
  shows "\<exists>drops ok l'. pr_Discard L t slots force l = Inr ((drops, ok), l') \<and> pr_covers U (remotes_set t - set drops) l' \<and>
    set drops \<subseteq> remotes_set t \<and> (force \<longrightarrow> ok) \<and>
    (\<forall>d \<in> set drops. \<forall>x \<in> remotes_set t - set drops. tx_GasPrice d \<le> tx_GasPrice x)"
proof -
  obtain drops s l' where d: "discard_loop L t slots [] l = Inr (drops, s, l')" "pr_covers U (remotes_set t - set drops) l'"
      "set drops \<subseteq> remotes_set t" "\<forall>d \<in> set drops. \<forall>x \<in> set (pr_remotes l'). tx_GasPrice d \<le> tx_GasPrice x"
    using discard_loop_ok [OF assms(1,2), of "[]" l slots] assms(3) by auto
  show ?thesis
  proof (cases "s > 0 \<and> \<not> force")
    case True
    have "set drops \<subseteq> U" using d(3) assms(1) by (auto simp: lk_ok_def)
    then have "pr_covers U (remotes_set t) (l'\<lparr>pr_remotes := fold (heap_Push price_Less) drops (pr_remotes l')\<rparr>)"
      using push_all_ok [of U "remotes_set t - set drops" "pr_remotes l'" l' drops] d(2,3) by (simp add: Un_absorb2)
    then show ?thesis using True d(1) assms(4) by (simp add: pr_Discard_def) blast
  next
    case False
    have "\<forall>d \<in> set drops. \<forall>x \<in> remotes_set t - set drops. tx_GasPrice d \<le> tx_GasPrice x" using d(2,4) by (auto simp: pr_covers_def)
    then show ?thesis using False d assms(4) by (auto simp: pr_Discard_def)
  qed
qed

lemma price_cap_loop_ok:
  assumes "lk_ok L U t" "universe L U" "pr_covers U (remotes_set t - set drops) l" "set drops \<subseteq> remotes_set t"
    "\<forall>d \<in> set drops. tx_GasPrice d < threshold"
  shows "\<exists>drops' l'. price_cap_loop L t threshold drops l = Inr (drops', l') \<and>
    pr_covers U (remotes_set t - set drops') l' \<and> set drops' = {r \<in> remotes_set t. tx_GasPrice r < threshold}"
  using assms(3-5)
proof (induction "length (pr_remotes l)" arbitrary: l drops rule: less_induct)
  case less
  show ?case
  proof (cases "pr_remotes l = []")
    case True
    then have "remotes_set t \<subseteq> set drops" using less.prems(1) by (auto simp: pr_covers_def)
    then have "set drops = {r \<in> remotes_set t. tx_GasPrice r < threshold}" using less.prems(2,3) by blast
    then show ?thesis using True less.prems(1) by (subst price_cap_loop.simps) simp
  next
    case False
    let ?x = "pr_remotes l ! 0"
    obtain h where h: "heap_Pop price_Less (pr_remotes l) = Inr (?x, h)" "pr_covers U (remotes_set t - set drops - {?x}) (l\<lparr>pr_remotes := h\<rparr>)"
        "?x \<in> U" "set h \<subseteq> set (pr_remotes l)" "\<forall>y \<in> set (pr_remotes l). tx_GasPrice ?x \<le> tx_GasPrice y" "length h < length (pr_remotes l)"
      using pr_pop [OF less.prems(1) False] by blast
    show ?thesis
    proof (cases "lk_GetRemote (pl_Hash L ?x) t")
      case None
      let ?l = "l\<lparr>pr_remotes := h, pr_stales := pr_stales l - 1\<rparr>"
      have "?x \<notin> remotes_set t" using None lk_GetRemote_iff [OF assms(1)] by (metis option.distinct(1))
      then have c: "pr_covers U (remotes_set t - set drops) ?l" using h(2) by (simp add: pr_covers_def)
      from less.hyps [OF _ c less.prems(2,3)] show ?thesis using False None h(1,6) by (subst price_cap_loop.simps) (simp add: Let_def)
    next
      case (Some r)
      then have "r \<in> remotes_set t" "pl_Hash L r = pl_Hash L ?x" using lk_GetRemote_iff [OF assms(1)] by blast+
      moreover have "r \<in> U" using calculation(1) assms(1) by (auto simp: lk_ok_def)
      ultimately have x: "?x \<in> remotes_set t" using h(3) assms(2) by (metis inj_onD universe_def)
      show ?thesis
      proof (cases "tx_GasPrice ?x \<ge> threshold")
        case True
        have "r \<in> set drops" if "r \<in> remotes_set t" "tx_GasPrice r < threshold" for r
        proof (rule ccontr)
          assume "r \<notin> set drops"
          then have "r \<in> set (pr_remotes l)" using that(1) less.prems(1) by (auto simp: pr_covers_def)
          then show False using h(5) True that(2) by fastforce
        qed
        then have "set drops = {r \<in> remotes_set t. tx_GasPrice r < threshold}" using less.prems(2,3) by blast
        then show ?thesis using True False Some less.prems(1) by (subst price_cap_loop.simps) (simp add: Let_def)
      next
        case low: False
        let ?l = "l\<lparr>pr_remotes := h\<rparr>"
        have c: "pr_covers U (remotes_set t - set (drops @ [?x])) ?l" using h(2) by (simp add: Diff_insert [symmetric] insert_commute)
        have "\<forall>d \<in> set (drops @ [?x]). tx_GasPrice d < threshold" "set (drops @ [?x]) \<subseteq> remotes_set t" using less.prems(2,3) low x by auto
        then show ?thesis using less.hyps [OF _ c] False Some low h(1,6) by (subst price_cap_loop.simps) (simp add: Let_def)
      qed
    qed
  qed
qed

end
