(* ===== verification/Tx_Pool.thy ===== *)
theory Tx_Pool
  imports Tx_Priced Evm_Core
begin

text \<open>
  The transaction pool of src/evmcore/tx_pool.go: admission, promotion from the queue to the pending
  lists, demotion and eviction, all under the lock of the pool. Metrics, logging and the
  announcement of transactions are left out; the journal is the list of the transactions handed to it.

  The chain the pool reads (\<open>MinGasPrice\<close>, \<open>TxExists\<close>, gas limit, state) is a parameter, the current
  state being its nonces and balances. \<open>now\<close> is the time of the call, and \<open>Os\<close> holds the orders in which
  its loops range over maps. Times count nanoseconds from Go's zero time, which a missing heartbeat reads
  as.
\<close>

section \<open>Pool\<close>

record pool_config =
  pc_PriceLimit :: u64
  pc_PriceBump :: u64
  pc_AccountSlots :: u64
  pc_GlobalSlots :: u64
  pc_AccountQueue :: u64
  pc_GlobalQueue :: u64
  pc_NoLocals :: bool
  pc_Lifetime :: int
  pc_Rejournal :: int

definition DefaultTxPoolConfig :: pool_config where
  "DefaultTxPoolConfig = \<lparr>pc_PriceLimit = 1, pc_PriceBump = 10, pc_AccountSlots = 16, pc_GlobalSlots = 1024,
     pc_AccountQueue = 32, pc_GlobalQueue = 256, pc_NoLocals = False, pc_Lifetime = 3 * 3600 * 1000000000,
     pc_Rejournal = 3600 * 1000000000\<rparr>"

definition sanitize :: "pool_config \<Rightarrow> pool_config" where
  "sanitize c =
     (let c = (if pc_Rejournal c < 1000000000 then c\<lparr>pc_Rejournal := 1000000000\<rparr> else c);
          c = (if pc_PriceLimit c < 1 then c\<lparr>pc_PriceLimit := pc_PriceLimit DefaultTxPoolConfig\<rparr> else c);
          c = (if pc_PriceBump c < 1 then c\<lparr>pc_PriceBump := pc_PriceBump DefaultTxPoolConfig\<rparr> else c);
          c = (if pc_AccountSlots c < 1 then c\<lparr>pc_AccountSlots := pc_AccountSlots DefaultTxPoolConfig\<rparr> else c);
          c = (if pc_GlobalSlots c < 1 then c\<lparr>pc_GlobalSlots := pc_GlobalSlots DefaultTxPoolConfig\<rparr> else c);
          c = (if pc_AccountQueue c < 1 then c\<lparr>pc_AccountQueue := pc_AccountQueue DefaultTxPoolConfig\<rparr> else c);
          c = (if pc_GlobalQueue c < 1 then c\<lparr>pc_GlobalQueue := pc_GlobalQueue DefaultTxPoolConfig\<rparr> else c)
      in if pc_Lifetime c < 1 then c\<lparr>pc_Lifetime := pc_Lifetime DefaultTxPoolConfig\<rparr> else c)"

type_synonym lists = "(bytes \<times> tx_list) list"

record tx_pool =
  p_config :: pool_config
  p_gasPrice :: int
  p_eip2718 :: bool
  p_GetNonce :: "bytes \<Rightarrow> u64"
  p_GetBalance :: "bytes \<Rightarrow> int"
  p_noncer :: tx_noncer
  p_maxGas :: u64
  p_locals :: account_set
  p_journal :: "transaction list option"
  p_pending :: lists
  p_queue :: lists
  p_beats :: "(bytes \<times> int) list"
  p_all :: tx_lookup
  p_priced :: tx_priced
  p_events :: "transaction list"

record chain =
  ch_params :: eth_params
  ch_MinGasPrice :: int
  ch_TxExists :: "bytes \<Rightarrow> bool"

record orders =
  o_list :: "nat \<Rightarrow> visit"
  o_table :: "table \<Rightarrow> table"
  o_accts :: "lists \<Rightarrow> lists"

definition ErrTxPoolOverflow :: go_error where
  "ErrTxPoolOverflow = OtherErr ''txpool is full''"

definition validateTx :: "pool_lib \<Rightarrow> chain \<Rightarrow> transaction \<Rightarrow> bool \<Rightarrow> tx_pool \<Rightarrow> unit res" where
  "validateTx L C tx local p =
     (if \<not> p_eip2718 p \<and> tx_Type tx \<noteq> LegacyTxType then Inl (Err ErrTxTypeNotSupported)
      else if pl_Size L tx > txMaxSize then Inl (Err ErrOversizedData)
      else if tx_Value tx < 0 then Inl (Err ErrNegativeValue)
      else if p_maxGas p < tx_Gas tx then Inl (Err ErrGasLimit)
      else case pl_Sender L tx of
        None \<Rightarrow> Inl (Err ErrInvalidSender)
      | Some from_addr \<Rightarrow>
          let local = (local \<or> as_contains (p_locals p) from_addr)
          in if \<not> local \<and> tx_GasPrice tx < p_gasPrice p then Inl (Err ErrUnderpriced)
             else if p_GetNonce p from_addr > tx_Nonce tx then Inl (Err ErrNonceTooLow)
             else if p_GetBalance p from_addr < pl_Cost L tx then Inl (Err ErrInsufficientFunds)
             else bind_res (IntrinsicGas (ch_params C) (tx_Data tx) (tx_AccessList tx) (tx_To tx = None)) (\<lambda>intrGas.
               if tx_Gas tx < intrGas then Inl (Err ErrIntrinsicGas)
               else if ch_MinGasPrice C > tx_GasPrice tx then Inl (Err ErrUnderpriced)
               else if ch_TxExists C (pl_Hash L tx) then Inl (Err ErrUnderpriced)
               else Inr ()))"

text \<open>
  The sender of a transaction that is already in the pool is known to be derivable; where the code drops
  the error of \<open>Sender\<close> it goes on with the zero address.
\<close>

definition sender :: "pool_lib \<Rightarrow> transaction \<Rightarrow> bytes" where
  "sender L tx = (case pl_Sender L tx of Some a \<Rightarrow> a | None \<Rightarrow> replicate 20 0)"

definition the_removed :: "pool_lib \<Rightarrow> orders \<Rightarrow> nat \<Rightarrow> tx_pool \<Rightarrow> tx_pool" where
  "the_removed L Os n p = p\<lparr>p_priced := pr_Removed (o_table Os) (p_all p) n (p_priced p)\<rparr>"

definition forget :: "pool_lib \<Rightarrow> transaction \<Rightarrow> tx_pool \<Rightarrow> tx_pool" where
  "forget L tx p = p\<lparr>p_all := lk_Remove L (pl_Hash L tx) (p_all p)\<rparr>"

definition replace_old :: "pool_lib \<Rightarrow> orders \<Rightarrow> transaction option \<Rightarrow> tx_pool \<Rightarrow> tx_pool" where
  "replace_old L Os old p = (case old of None \<Rightarrow> p | Some o_tx \<Rightarrow> the_removed L Os 1 (forget L o_tx p))"

definition list_at :: "bool \<Rightarrow> bytes \<Rightarrow> lists \<Rightarrow> tx_list" where
  "list_at strict a ls = (case map_of ls a of Some l \<Rightarrow> l | None \<Rightarrow> newTxList strict)"

definition learn :: "pool_lib \<Rightarrow> transaction \<Rightarrow> bool \<Rightarrow> tx_pool \<Rightarrow> tx_pool" where
  "learn L tx local p = p\<lparr>p_all := lk_Add L tx local (p_all p), p_priced := pr_Put tx local (p_priced p)\<rparr>"

definition enqueueTx :: "pool_lib \<Rightarrow> orders \<Rightarrow> int \<Rightarrow> transaction \<Rightarrow> bool \<Rightarrow> bool \<Rightarrow> tx_pool \<Rightarrow> (go_error + bool) \<times> tx_pool" where
  "enqueueTx L Os now tx local addAll p =
     (let from_addr = sender L tx;
          ((inserted, old), l) = tl_Add (pl_Cost L) tx (pc_PriceBump (p_config p)) (list_at False from_addr (p_queue p));
          p = p\<lparr>p_queue := AList.update from_addr l (p_queue p)\<rparr>
      in if \<not> inserted then (Inl ErrReplaceUnderpriced, p)
         else let p = replace_old L Os old p;
                  p = (if addAll then learn L tx local p else p);
                  p = (if map_of (p_beats p) from_addr = None then p\<lparr>p_beats := AList.update from_addr now (p_beats p)\<rparr> else p)
              in (Inr (old \<noteq> None), p))"

definition journalTx :: "bytes \<Rightarrow> transaction \<Rightarrow> tx_pool \<Rightarrow> tx_pool" where
  "journalTx from_addr tx p =
     (case p_journal p of None \<Rightarrow> p
      | Some j \<Rightarrow> if as_contains (p_locals p) from_addr then p\<lparr>p_journal := Some (j @ [tx])\<rparr> else p)"

definition promoteTx :: "pool_lib \<Rightarrow> orders \<Rightarrow> int \<Rightarrow> bytes \<Rightarrow> transaction \<Rightarrow> tx_pool \<Rightarrow> bool \<times> tx_pool" where
  "promoteTx L Os now addr tx p =
     (let ((inserted, old), l) = tl_Add (pl_Cost L) tx (pc_PriceBump (p_config p)) (list_at True addr (p_pending p));
          p = p\<lparr>p_pending := AList.update addr l (p_pending p)\<rparr>
      in if \<not> inserted then (False, the_removed L Os 1 (forget L tx p))
         else let p = replace_old L Os old p
              in (True, p\<lparr>p_noncer := noncer_set addr (tx_Nonce tx + 1) (p_noncer p), p_beats := AList.update addr now (p_beats p)\<rparr>))"

fun enqueue_all :: "pool_lib \<Rightarrow> orders \<Rightarrow> int \<Rightarrow> transaction list \<Rightarrow> tx_pool \<Rightarrow> tx_pool" where
  "enqueue_all L Os now [] p = p"
| "enqueue_all L Os now (tx # txs) p = enqueue_all L Os now txs (snd (enqueueTx L Os now tx False False p))"

definition remove_future :: "orders \<Rightarrow> bytes \<Rightarrow> transaction \<Rightarrow> tx_pool \<Rightarrow> tx_pool res" where
  "remove_future Os addr tx p =
     (case map_of (p_queue p) addr of
        None \<Rightarrow> Inr p
      | Some l \<Rightarrow> bind_res (tl_Remove (o_list Os) tx l) (\<lambda>(_, l).
          let p = p\<lparr>p_queue := AList.update addr l (p_queue p)\<rparr>
          in Inr (if tl_Empty l then p\<lparr>p_queue := AList.delete addr (p_queue p), p_beats := AList.delete addr (p_beats p)\<rparr> else p)))"

definition remove_pending :: "pool_lib \<Rightarrow> orders \<Rightarrow> int \<Rightarrow> bytes \<Rightarrow> transaction \<Rightarrow> transaction list \<Rightarrow> tx_list \<Rightarrow> tx_pool \<Rightarrow> tx_pool" where
  "remove_pending L Os now addr tx invalids l p =
     (let p = p\<lparr>p_pending := AList.update addr l (p_pending p)\<rparr>;
          p = (if tl_Empty l then p\<lparr>p_pending := AList.delete addr (p_pending p)\<rparr> else p);
          p = enqueue_all L Os now invalids p
      in p\<lparr>p_noncer := noncer_setIfLower addr (tx_Nonce tx) (p_noncer p)\<rparr>)"

definition removeTx :: "pool_lib \<Rightarrow> orders \<Rightarrow> int \<Rightarrow> bytes \<Rightarrow> bool \<Rightarrow> tx_pool \<Rightarrow> tx_pool res" where
  "removeTx L Os now h outofbound p =
     (case lk_Get h (p_all p) of
        None \<Rightarrow> Inr p
      | Some tx \<Rightarrow>
          let addr = sender L tx;
              p = p\<lparr>p_all := lk_Remove L h (p_all p)\<rparr>;
              p = (if outofbound then the_removed L Os 1 p else p)
          in case map_of (p_pending p) addr of
               None \<Rightarrow> remove_future Os addr tx p
             | Some l \<Rightarrow> bind_res (tl_Remove (o_list Os) tx l) (\<lambda>((removed, invalids), l).
                 if removed then Inr (remove_pending L Os now addr tx invalids l p)
                 else remove_future Os addr tx (p\<lparr>p_pending := AList.update addr l (p_pending p)\<rparr>)))"

fun remove_txs :: "pool_lib \<Rightarrow> orders \<Rightarrow> int \<Rightarrow> transaction list \<Rightarrow> bool \<Rightarrow> tx_pool \<Rightarrow> tx_pool res" where
  "remove_txs L Os now [] outofbound p = Inr p"
| "remove_txs L Os now (tx # txs) outofbound p =
     bind_res (removeTx L Os now (pl_Hash L tx) outofbound p) (remove_txs L Os now txs outofbound)"

definition SetGasPriceWithCap :: "pool_lib \<Rightarrow> orders \<Rightarrow> int \<Rightarrow> int \<Rightarrow> int \<Rightarrow> tx_pool \<Rightarrow> tx_pool res" where
  "SetGasPriceWithCap L Os now price cap p =
     bind_res (pr_Cap L (p_all p) cap (p_priced p)) (\<lambda>(drops, l).
       remove_txs L Os now drops False (p\<lparr>p_gasPrice := price, p_priced := l\<rparr>))"

text \<open>Making room when the pool is full; the error of the transaction is part of the result.\<close>

definition make_room :: "pool_lib \<Rightarrow> orders \<Rightarrow> int \<Rightarrow> transaction \<Rightarrow> bool \<Rightarrow> tx_pool \<Rightarrow> (go_error option \<times> tx_pool) res" where
  "make_room L Os now tx isLocal p =
     (let cf = p_config p; limit = pc_GlobalSlots cf + pc_GlobalQueue cf
      in if word_of_int (int (lk_Count (p_all p)) + numSlots L tx) > limit
         then bind_res (if isLocal then Inr (False, p_priced p) else pr_Underpriced L (p_all p) tx (p_priced p)) (\<lambda>(under, l).
                let p = p\<lparr>p_priced := l\<rparr>
                in if under then Inr (Some ErrUnderpriced, p)
                   else bind_res (pr_Discard L (p_all p) (lk_slots (p_all p) - sint limit + numSlots L tx) isLocal (p_priced p))
                     (\<lambda>((drops, success), l).
                        let p = p\<lparr>p_priced := l\<rparr>
                        in if \<not> isLocal \<and> \<not> success then Inr (Some ErrTxPoolOverflow, p)
                           else bind_res (remove_txs L Os now drops False p) (\<lambda>p. Inr (None, p))))
         else Inr (None, p))"

definition replace_pending :: "pool_lib \<Rightarrow> orders \<Rightarrow> int \<Rightarrow> transaction \<Rightarrow> bool \<Rightarrow> tx_list \<Rightarrow> tx_pool \<Rightarrow> (go_error + bool) \<times> tx_pool" where
  "replace_pending L Os now tx isLocal l p =
     (let from_addr = sender L tx; ((inserted, old), l) = tl_Add (pl_Cost L) tx (pc_PriceBump (p_config p)) l;
          p = p\<lparr>p_pending := AList.update from_addr l (p_pending p)\<rparr>
      in if \<not> inserted then (Inl ErrReplaceUnderpriced, p)
         else let p = learn L tx isLocal (replace_old L Os old p);
                  p = journalTx from_addr tx p
              in (Inr (old \<noteq> None), p\<lparr>p_events := p_events p @ [tx], p_beats := AList.update from_addr now (p_beats p)\<rparr>))"

definition mark_local :: "pool_lib \<Rightarrow> orders \<Rightarrow> bytes \<Rightarrow> bool \<Rightarrow> tx_pool \<Rightarrow> tx_pool" where
  "mark_local L Os from_addr local p =
     (if local \<and> \<not> as_contains (p_locals p) from_addr
      then let p = p\<lparr>p_locals := as_add from_addr (p_locals p)\<rparr>;
               (migrated, t) = lk_RemoteToLocals (o_table Os) L (p_locals p) (p_all p)
           in the_removed L Os migrated (p\<lparr>p_all := t\<rparr>)
      else p)"

definition add_queued ::
  "pool_lib \<Rightarrow> orders \<Rightarrow> int \<Rightarrow> transaction \<Rightarrow> bool \<Rightarrow> bool \<Rightarrow> tx_pool \<Rightarrow> (go_error + bool) \<times> tx_pool" where
  "add_queued L Os now tx local isLocal p =
     (case enqueueTx L Os now tx isLocal True p of
        (Inl e, p) \<Rightarrow> (Inl e, p)
      | (Inr replaced, p) \<Rightarrow> (Inr replaced, journalTx (sender L tx) tx (mark_local L Os (sender L tx) local p)))"

definition add ::
  "pool_lib \<Rightarrow> chain \<Rightarrow> orders \<Rightarrow> int \<Rightarrow> transaction \<Rightarrow> bool \<Rightarrow> tx_pool \<Rightarrow> ((go_error + bool) \<times> tx_pool) res" where
  "add L C Os now tx local p =
     (if lk_Get (pl_Hash L tx) (p_all p) \<noteq> None then Inr (Inl ErrAlreadyKnown, p)
      else let isLocal = (local \<or> as_containsTx L (p_locals p) tx)
           in case validateTx L C tx isLocal p of
                Inl (Panic e) \<Rightarrow> Inl (Panic e)
              | Inl (Err e) \<Rightarrow> Inr (Inl e, p)
              | Inr _ \<Rightarrow>
                  bind_res (make_room L Os now tx isLocal p) (\<lambda>(err, p).
                    case err of
                      Some e \<Rightarrow> Inr (Inl e, p)
                    | None \<Rightarrow>
                        Inr (case map_of (p_pending p) (sender L tx) of
                               None \<Rightarrow> add_queued L Os now tx local isLocal p
                             | Some l \<Rightarrow> if tl_Overlaps tx l then replace_pending L Os now tx isLocal l p
                                         else add_queued L Os now tx local isLocal p)))"

fun addTxs_loop :: "pool_lib \<Rightarrow> chain \<Rightarrow> orders \<Rightarrow> int \<Rightarrow> transaction list \<Rightarrow> bool \<Rightarrow> account_set \<Rightarrow> tx_pool \<Rightarrow>
    ((go_error option list \<times> account_set) \<times> tx_pool) res" where
  "addTxs_loop L C Os now [] local dirty p = Inr (([], dirty), p)"
| "addTxs_loop L C Os now (tx # txs) local dirty p =
     bind_res (add L C Os now tx local p) (\<lambda>(r, p).
       let dirty = (if r = Inr False then as_addTx L tx dirty else dirty);
           err = (case r of Inl e \<Rightarrow> Some e | Inr _ \<Rightarrow> None)
       in bind_res (addTxs_loop L C Os now txs local dirty p) (\<lambda>((errs, dirty), p). Inr ((err # errs, dirty), p)))"

definition addTxsLocked :: "pool_lib \<Rightarrow> chain \<Rightarrow> orders \<Rightarrow> int \<Rightarrow> transaction list \<Rightarrow> bool \<Rightarrow> tx_pool \<Rightarrow>
    ((go_error option list \<times> account_set) \<times> tx_pool) res" where
  "addTxsLocked L C Os now txs local p = addTxs_loop L C Os now txs local [] p"

section \<open>Promotion and demotion\<close>

text \<open>Dropping the transactions a list returned; \<open>nil\<close> in such a slice would panic.\<close>

fun forget_all :: "pool_lib \<Rightarrow> transaction option list \<Rightarrow> tx_pool \<Rightarrow> tx_pool res" where
  "forget_all L [] p = Inr p"
| "forget_all L (None # txs) p = Inl (Panic NilDereference)"
| "forget_all L (Some tx # txs) p = forget_all L txs (forget L tx p)"

fun promote_all :: "pool_lib \<Rightarrow> orders \<Rightarrow> int \<Rightarrow> bytes \<Rightarrow> transaction option list \<Rightarrow> transaction list \<Rightarrow> tx_pool \<Rightarrow> (transaction list \<times> tx_pool) res" where
  "promote_all L Os now addr [] promoted p = Inr (promoted, p)"
| "promote_all L Os now addr (None # txs) promoted p = Inl (Panic NilDereference)"
| "promote_all L Os now addr (Some tx # txs) promoted p =
     (let (done_ok, p) = promoteTx L Os now addr tx p
      in promote_all L Os now addr txs (if done_ok then promoted @ [tx] else promoted) p)"

definition put_queue :: "bytes \<Rightarrow> tx_list \<Rightarrow> tx_pool \<Rightarrow> tx_pool" where
  "put_queue addr l p = p\<lparr>p_queue := AList.update addr l (p_queue p)\<rparr>"

definition put_pending :: "bytes \<Rightarrow> tx_list \<Rightarrow> tx_pool \<Rightarrow> tx_pool" where
  "put_pending addr l p = p\<lparr>p_pending := AList.update addr l (p_pending p)\<rparr>"

definition promote_account ::
  "pool_lib \<Rightarrow> orders \<Rightarrow> int \<Rightarrow> bytes \<Rightarrow> transaction list \<Rightarrow> tx_pool \<Rightarrow> (transaction list \<times> tx_pool) res" where
  "promote_account L Os now addr promoted p =
     (case map_of (p_queue p) addr of
        None \<Rightarrow> Inr (promoted, p)
      | Some l \<Rightarrow>
          bind_res (tl_Forward (p_GetNonce p addr) l) (\<lambda>(forwards, l).
          bind_res (forget_all L forwards (put_queue addr l p)) (\<lambda>p.
          let ((drops, _), l) = tl_Filter (o_list Os) (pl_Cost L) (p_GetBalance p addr) (p_maxGas p) l
          in bind_res (forget_all L (map Some drops) (put_queue addr l p)) (\<lambda>p.
          let (start, nn) = noncer_get addr (p_noncer p)
          in bind_res (tl_Ready start l) (\<lambda>(readies, l).
          bind_res (promote_all L Os now addr readies promoted (put_queue addr l (p\<lparr>p_noncer := nn\<rparr>))) (\<lambda>(promoted, p).
          bind_res (if as_contains (p_locals p) addr then Inr ([], l)
                    else if sint (pc_AccountQueue (p_config p)) < 0 then Inl (Panic IndexOutOfRange)
                    else tl_Cap (nat (sint (pc_AccountQueue (p_config p)))) l) (\<lambda>(caps, l).
          bind_res (forget_all L caps (put_queue addr l p)) (\<lambda>p.
          let p = the_removed L Os (length forwards + length drops + length caps) p
          in Inr (promoted,
               if tl_Empty l then p\<lparr>p_queue := AList.delete addr (p_queue p), p_beats := AList.delete addr (p_beats p)\<rparr>
               else p)))))))))"

fun promoteExecutables ::
  "pool_lib \<Rightarrow> orders \<Rightarrow> int \<Rightarrow> bytes list \<Rightarrow> transaction list \<Rightarrow> tx_pool \<Rightarrow> (transaction list \<times> tx_pool) res" where
  "promoteExecutables L Os now [] promoted p = Inr (promoted, p)"
| "promoteExecutables L Os now (addr # addrs) promoted p =
     bind_res (promote_account L Os now addr promoted p) (\<lambda>(promoted, p). promoteExecutables L Os now addrs promoted p)"

fun all_txs :: "transaction option list \<Rightarrow> transaction list res" where
  "all_txs [] = Inr []"
| "all_txs (None # txs) = Inl (Panic NilDereference)"
| "all_txs (Some tx # txs) = bind_res (all_txs txs) (\<lambda>ts. Inr (tx # ts))"

definition demote_account :: "pool_lib \<Rightarrow> orders \<Rightarrow> int \<Rightarrow> bytes \<Rightarrow> tx_pool \<Rightarrow> tx_pool res" where
  "demote_account L Os now addr p =
     (case map_of (p_pending p) addr of
        None \<Rightarrow> Inr p
      | Some l \<Rightarrow>
          let nonce = p_GetNonce p addr
          in bind_res (tl_Forward nonce l) (\<lambda>(olds, l).
          bind_res (forget_all L olds (put_pending addr l p)) (\<lambda>p.
          let ((drops, invalids), l) = tl_Filter (o_list Os) (pl_Cost L) (p_GetBalance p addr) (p_maxGas p) l
          in bind_res (forget_all L (map Some drops) (put_pending addr l p)) (\<lambda>p.
          let p = the_removed L Os (length olds + length drops) p;
              p = enqueue_all L Os now invalids p
          in bind_res (if tl_Len l > 0 \<and> sm_Get nonce (tl_txs l) = None
                       then bind_res (tl_Cap 0 l) (\<lambda>(gapped, l).
                              bind_res (all_txs gapped) (\<lambda>txs. Inr (l, enqueue_all L Os now txs (put_pending addr l p))))
                       else Inr (l, p)) (\<lambda>(l, p).
          Inr (if tl_Empty l then p\<lparr>p_pending := AList.delete addr (p_pending p)\<rparr> else p))))))"

fun demote_loop :: "pool_lib \<Rightarrow> orders \<Rightarrow> int \<Rightarrow> bytes list \<Rightarrow> tx_pool \<Rightarrow> tx_pool res" where
  "demote_loop L Os now [] p = Inr p"
| "demote_loop L Os now (addr # addrs) p = bind_res (demote_account L Os now addr p) (demote_loop L Os now addrs)"

definition demoteUnexecutables :: "pool_lib \<Rightarrow> orders \<Rightarrow> int \<Rightarrow> tx_pool \<Rightarrow> tx_pool res" where
  "demoteUnexecutables L Os now p = demote_loop L Os now (map fst (o_accts Os (p_pending p))) p"

section \<open>Account lists, continued\<close>

text \<open>The results of the list operations that the pool relies on.\<close>

lemma tl_Forward_ok:
  assumes "tl_ok cost strict l"
  shows "\<exists>l'. tl_Forward n l = Inr (map Some (filter (\<lambda>t. tx_Nonce t < n) (sm_txs (tl_txs l))), l') \<and> tl_ok cost strict l' \<and>
    sm_txs (tl_txs l') = filter (\<lambda>t. \<not> tx_Nonce t < n) (sm_txs (tl_txs l))"
  using sm_Forward_ok [OF tl_okD(1) [OF assms], of n] tl_ok_shrink [OF assms] by (fastforce simp: tl_Forward_def)

lemma tl_Cap_ok:
  assumes "tl_ok cost strict l"
  shows "\<exists>l'. tl_Cap n l = Inr (map Some (rev (drop n (sm_txs (tl_txs l)))), l') \<and> tl_ok cost strict l' \<and>
    sm_txs (tl_txs l') = take n (sm_txs (tl_txs l))"
  using sm_Cap_ok [OF tl_okD(1) [OF assms], of n] tl_ok_shrink [OF assms] by (fastforce simp: tl_Cap_def dest: in_set_takeD)

lemma run_prefix_append: "fst (run_prefix n xs) @ snd (run_prefix n xs) = xs"
  by (induction n xs rule: run_prefix.induct) (simp_all add: split_def Let_def)

lemma tl_Ready_ok:
  assumes "tl_ok cost strict l"
  shows "\<exists>run rest l'. tl_Ready n l = Inr (map Some run, l') \<and> tl_ok cost strict l' \<and>
    sm_txs (tl_txs l) = run @ rest \<and> sm_txs (tl_txs l') = rest"
proof -
  have "fst (plain_Ready n xs) @ snd (plain_Ready n xs) = xs" for xs by (simp add: plain_Ready_def run_prefix_append)
  then have split: "sm_txs (tl_txs l) = fst (plain_Ready n (sm_txs (tl_txs l))) @ snd (plain_Ready n (sm_txs (tl_txs l)))" by simp
  obtain m where m: "sm_Ready n (tl_txs l) = Inr (map Some (fst (plain_Ready n (sm_txs (tl_txs l)))), m)" "sm_ok m"
      "sm_txs m = snd (plain_Ready n (sm_txs (tl_txs l)))" using sm_Ready_ok [OF tl_okD(1) [OF assms]] by blast
  have "set (sm_txs m) \<subseteq> set (sm_txs (tl_txs l))" unfolding m(3) by (subst (2) split) simp
  then have "tl_ok cost strict (l\<lparr>tl_txs := m\<rparr>)" using tl_ok_shrink [OF assms m(2)] by simp
  then show ?thesis using m(1,3) split by (intro exI [of _ "fst (plain_Ready n (sm_txs (tl_txs l)))"] exI [of _ "snd (plain_Ready n (sm_txs (tl_txs l)))"] exI [of _ "l\<lparr>tl_txs := m\<rparr>"]) (simp add: tl_Ready_def)
qed

lemma tl_Flatten_ok:
  assumes "tl_ok cost strict l" "visit_ok it"
  shows "\<exists>l'. tl_Flatten it l = (sm_txs (tl_txs l), l') \<and> tl_ok cost strict l' \<and> sm_txs (tl_txs l') = sm_txs (tl_txs l)"
  using sm_flatten_ok [OF tl_okD(1) [OF assms(1)] assms(2)] tl_ok_shrink [OF assms(1)] by (fastforce simp: tl_Flatten_def sm_Flatten_def)

lemma tl_Len_txs: "tl_ok cost strict l \<Longrightarrow> tl_Len l = length (sm_txs (tl_txs l))"
  using sm_txs_by_nonce(3) [OF tl_okD(2)] by (simp add: tl_Len_def sm_Len_def)

lemma tl_Empty_txs: "tl_ok cost strict l \<Longrightarrow> tl_Empty l \<longleftrightarrow> sm_txs (tl_txs l) = []"
  by (simp add: tl_Empty_def tl_Len_txs)

lemma tl_by_nonce: "tl_ok cost strict l \<Longrightarrow> by_nonce (sm_txs (tl_txs l))"
  by (simp add: sm_txs_by_nonce tl_okD)

lemma tl_same_nonce: "tl_ok cost strict l \<Longrightarrow> a \<in> set (sm_txs (tl_txs l)) \<Longrightarrow> b \<in> set (sm_txs (tl_txs l)) \<Longrightarrow> tx_Nonce a = tx_Nonce b \<Longrightarrow> a = b"
proof -
  assume l: "tl_ok cost strict l" "a \<in> set (sm_txs (tl_txs l))" "b \<in> set (sm_txs (tl_txs l))" "tx_Nonce a = tx_Nonce b"
  have "sorted_wrt (<) (map tx_Nonce (sm_txs (tl_txs l)))" using tl_by_nonce [OF l(1)] by (simp add: sorted_wrt_map)
  then have "distinct (map tx_Nonce (sm_txs (tl_txs l)))" by (simp add: strict_sorted_iff)
  then show ?thesis using l(2-4) by (auto simp: distinct_map dest: inj_onD)
qed

text \<open>Removing a transaction: what is taken out of a list, and what goes with it in a strict one.\<close>

lemma tl_Remove_raw:
  assumes "tl_ok cost strict l" "\<forall>i. visit_ok (its i)"
  shows "\<exists>r inv l'. tl_Remove its tx l = Inr ((r, inv), l') \<and> tl_ok cost strict l' \<and>
    r = (\<exists>t \<in> set (sm_txs (tl_txs l)). tx_Nonce t = tx_Nonce tx) \<and>
    mset inv = (if r \<and> strict then mset (filter (\<lambda>t. tx_Nonce t > tx_Nonce tx) (sm_txs (tl_txs l))) else {#}) \<and>
    sm_txs (tl_txs l') = (if r \<and> strict then filter (\<lambda>t. tx_Nonce t < tx_Nonce tx) (sm_txs (tl_txs l))
       else filter (\<lambda>t. tx_Nonce t \<noteq> tx_Nonce tx) (sm_txs (tl_txs l)))"
proof -
  let ?xs = "sm_txs (tl_txs l)"
  obtain r l' where s: "tl_step cost (TRemove its tx) l = Inr (r, l')" "tl_ok cost strict l'"
      "plain_tl_step cost strict (TRemove its tx) ?xs = (r, sm_txs (tl_txs l'))" using tl_Remove_ok [OF assms] by blast
  then obtain b inv where b: "tl_Remove its tx l = Inr ((b, inv), l')" "r = TORemove b (mset inv)"
    by (cases "tl_Remove its tx l") (auto split: prod.splits)
  have "\<not> (\<exists>t \<in> set ?xs. tx_Nonce t = tx_Nonce tx) \<Longrightarrow> filter (\<lambda>t. tx_Nonce t \<noteq> tx_Nonce tx) ?xs = ?xs" by (rule filter_True) blast
  then show ?thesis using s(2,3) b by (auto split: if_splits)
qed

section \<open>Where a transaction is\<close>

text \<open>
  Every transaction the pool knows is in one of the account lists, the pending or the queued one of its
  sender, or in transfer between them (\<open>X\<close>). The two kinds of lists play symmetric roles.
\<close>

definition txs_at :: "lists \<Rightarrow> bytes \<Rightarrow> transaction list" where
  "txs_at ls a = (case map_of ls a of None \<Rightarrow> [] | Some l \<Rightarrow> sm_txs (tl_txs l))"

definition held :: "lists \<Rightarrow> lists \<Rightarrow> transaction set" where
  "held ls ms = (\<Union>a. set (txs_at ls a) \<union> set (txs_at ms a))"

definition lists_ok :: "pool_lib \<Rightarrow> transaction set \<Rightarrow> bool \<Rightarrow> lists \<Rightarrow> bool" where
  "lists_ok L U strict ls \<longleftrightarrow> distinct (map fst ls) \<and> (\<forall>a l. map_of ls a = Some l \<longrightarrow> tl_ok (pl_Cost L) strict l) \<and>
     (\<forall>a. \<forall>t \<in> set (txs_at ls a). t \<in> U \<and> pl_Sender L t = Some a)"

definition parts :: "pool_lib \<Rightarrow> transaction set \<Rightarrow> bool \<Rightarrow> bool \<Rightarrow> transaction set \<Rightarrow> transaction set \<Rightarrow> lists \<Rightarrow> lists \<Rightarrow> bool" where
  "parts L U s1 s2 K X ls ms \<longleftrightarrow> lists_ok L U s1 ls \<and> lists_ok L U s2 ms \<and> K = held ls ms \<union> X \<and> held ls ms \<inter> X = {} \<and>
     (\<forall>a. \<forall>t \<in> set (txs_at ls a). \<forall>u \<in> set (txs_at ms a). tx_Nonce t \<noteq> tx_Nonce u)"

lemma parts_swap: "parts L U s1 s2 K X ls ms \<longleftrightarrow> parts L U s2 s1 K X ms ls"
proof -
  have "held ls ms = held ms ls" by (auto simp: held_def)
  then show ?thesis unfolding parts_def by metis
qed

lemma txs_at_update: "txs_at (AList.update a l ls) b = (if b = a then sm_txs (tl_txs l) else txs_at ls b)"
  by (simp add: txs_at_def update_conv)

lemma txs_at_delete: "txs_at (AList.delete a ls) b = (if b = a then [] else txs_at ls b)"
  by (simp add: txs_at_def delete_conv)

lemma lists_ok_at: "lists_ok L U strict ls \<Longrightarrow> map_of ls a = Some l \<Longrightarrow> tl_ok (pl_Cost L) strict l \<and> txs_at ls a = sm_txs (tl_txs l)"
  by (simp add: lists_ok_def txs_at_def)

lemma lists_ok_update:
  assumes "lists_ok L U strict ls" "tl_ok (pl_Cost L) strict l" "\<forall>t \<in> set (sm_txs (tl_txs l)). t \<in> U \<and> pl_Sender L t = Some a"
  shows "lists_ok L U strict (AList.update a l ls)"
  using assms unfolding lists_ok_def txs_at_update by (auto simp: distinct_update update_conv split: if_splits)

lemma held_iff:
  assumes "lists_ok L U s1 ls" "lists_ok L U s2 ms"
  shows "t \<in> held ls ms \<longleftrightarrow> (\<exists>a. pl_Sender L t = Some a \<and> (t \<in> set (txs_at ls a) \<or> t \<in> set (txs_at ms a)))"
  using assms unfolding held_def lists_ok_def by blast

text \<open>A list is replaced: what it gains comes from the transfer, what it loses goes there.\<close>

lemma parts_update:
  assumes P: "parts L U s1 s2 K X ls ms" and l: "tl_ok (pl_Cost L) s1 l"
    and new: "\<forall>t \<in> set (sm_txs (tl_txs l)). t \<in> U \<and> pl_Sender L t = Some a" "set (sm_txs (tl_txs l)) \<subseteq> set (txs_at ls a) \<union> X"
    and nonces: "\<forall>t \<in> set (sm_txs (tl_txs l)). \<forall>u \<in> set (txs_at ms a). tx_Nonce t \<noteq> tx_Nonce u"
  shows "parts L U s1 s2 K ((X \<union> set (txs_at ls a)) - set (sm_txs (tl_txs l))) (AList.update a l ls) ms"
proof -
  let ?new = "set (sm_txs (tl_txs l))" and ?old = "set (txs_at ls a)" and ?ls = "AList.update a l ls"
  have ok: "lists_ok L U s1 ls" "lists_ok L U s2 ms" "K = held ls ms \<union> X" "held ls ms \<inter> X = {}"
    and dj: "\<And>a t u. t \<in> set (txs_at ls a) \<Longrightarrow> u \<in> set (txs_at ms a) \<Longrightarrow> tx_Nonce t \<noteq> tx_Nonce u"
    using P by (auto simp: parts_def)
  have ok': "lists_ok L U s1 ?ls" by (rule lists_ok_update [OF ok(1) l new(1)])
  have snd_old: "pl_Sender L t = Some a" if "t \<in> ?old" for t using ok(1) that by (simp add: lists_ok_def)
  have held_old: "?old \<subseteq> held ls ms" by (auto simp: held_def)
  have h: "t \<in> held ?ls ms \<longleftrightarrow> t \<in> ?new \<or> (t \<in> held ls ms \<and> t \<notin> ?old)" if "t \<notin> ?new \<or> t \<in> ?new" for t
  proof (cases "pl_Sender L t = Some a")
    case True
    then have "t \<in> held ?ls ms \<longleftrightarrow> t \<in> ?new \<or> t \<in> set (txs_at ms a)" using held_iff [OF ok' ok(2)] by (simp add: txs_at_update)
    moreover have "t \<in> held ls ms \<longleftrightarrow> t \<in> ?old \<or> t \<in> set (txs_at ms a)" using held_iff [OF ok(1,2)] True by simp
    moreover have "t \<in> ?old \<Longrightarrow> t \<notin> set (txs_at ms a)" using dj by blast
    ultimately show ?thesis by blast
  next
    case False
    then have "t \<notin> ?new" "t \<notin> ?old" using new(1) snd_old by auto
    moreover have "t \<in> held ?ls ms \<longleftrightarrow> t \<in> held ls ms" using held_iff [OF ok' ok(2)] held_iff [OF ok(1,2)] False by (auto simp: txs_at_update)
    ultimately show ?thesis by blast
  qed
  have H: "held ?ls ms = ?new \<union> (held ls ms - ?old)" using h by blast
  have "K = held ?ls ms \<union> ((X \<union> ?old) - ?new)" unfolding H ok(3) using new(2) held_old by blast
  moreover have "held ?ls ms \<inter> ((X \<union> ?old) - ?new) = {}" unfolding H using ok(4) by blast
  moreover have "\<forall>b. \<forall>t \<in> set (txs_at ?ls b). \<forall>u \<in> set (txs_at ms b). tx_Nonce t \<noteq> tx_Nonce u"
    using dj nonces by (simp add: txs_at_update)
  ultimately show ?thesis using ok'(1) ok(2) unfolding parts_def by blast
qed

lemma parts_delete:
  assumes "parts L U s1 s2 K X ls ms" "txs_at ls a = []"
  shows "parts L U s1 s2 K X (AList.delete a ls) ms"
proof -
  have "txs_at (AList.delete a ls) b = txs_at ls b" for b using assms(2) by (simp add: txs_at_delete)
  then have "lists_ok L U s1 (AList.delete a ls)" "held (AList.delete a ls) ms = held ls ms"
    using assms(1) by (auto simp: parts_def lists_ok_def held_def delete_conv distinct_delete split: if_splits)
  then show ?thesis using assms(1) \<open>\<And>b. txs_at (AList.delete a ls) b = txs_at ls b\<close> by (simp add: parts_def)
qed

lemma parts_drop: "parts L U s1 s2 K X ls ms \<Longrightarrow> t \<in> X \<Longrightarrow> parts L U s1 s2 (K - {t}) (X - {t}) ls ms"
  unfolding parts_def by blast

lemma parts_new: "parts L U s1 s2 K X ls ms \<Longrightarrow> t \<notin> K \<Longrightarrow> parts L U s1 s2 (insert t K) (insert t X) ls ms"
  unfolding parts_def by blast

text \<open>What an accepted \<open>Add\<close> changes.\<close>

lemma tl_Add_set:
  assumes "tl_ok cost strict l" "tl_Add cost tx bump l = ((inserted, old), l')"
  shows "tl_ok cost strict l'"
    "\<not> inserted \<Longrightarrow> sm_txs (tl_txs l') = sm_txs (tl_txs l) \<and> (\<exists>t \<in> set (sm_txs (tl_txs l)). tx_Nonce t = tx_Nonce tx)"
    "inserted \<Longrightarrow> old = None \<Longrightarrow> (\<forall>t \<in> set (sm_txs (tl_txs l)). tx_Nonce t \<noteq> tx_Nonce tx) \<and> set (sm_txs (tl_txs l')) = insert tx (set (sm_txs (tl_txs l)))"
    "inserted \<Longrightarrow> old = Some t \<Longrightarrow> t \<in> set (sm_txs (tl_txs l)) \<and> tx_Nonce t = tx_Nonce tx \<and> set (sm_txs (tl_txs l')) = insert tx (set (sm_txs (tl_txs l)) - {t})"
proof -
  let ?xs = "sm_txs (tl_txs l)"
  note add = tl_Add_ok [OF assms]
  show "tl_ok cost strict l'" by (rule add(1))
  have put: "set (plain_Put tx ?xs) = insert tx {t \<in> set ?xs. tx_Nonce t \<noteq> tx_Nonce tx}" by (auto simp: plain_Put_def)
  show "\<not> inserted \<Longrightarrow> sm_txs (tl_txs l') = ?xs \<and> (\<exists>t \<in> set ?xs. tx_Nonce t = tx_Nonce tx)"
    using add(2) by (auto simp: plain_Add_def find_Some_iff split: option.splits if_splits)
  show "inserted \<Longrightarrow> old = None \<Longrightarrow> (\<forall>t \<in> set ?xs. tx_Nonce t \<noteq> tx_Nonce tx) \<and> set (sm_txs (tl_txs l')) = insert tx (set ?xs)"
    using add(2) put by (auto simp: plain_Add_def find_None_iff split: option.splits if_splits)
  show "t \<in> set ?xs \<and> tx_Nonce t = tx_Nonce tx \<and> set (sm_txs (tl_txs l')) = insert tx (set ?xs - {t})" if "inserted" "old = Some t"
  proof -
    have "find (\<lambda>t. tx_Nonce t = tx_Nonce tx) ?xs = Some t" "sm_txs (tl_txs l') = plain_Put tx ?xs"
      using add(2) that by (auto simp: plain_Add_def split: option.splits if_splits)
    moreover from this(1) have t: "t \<in> set ?xs" "tx_Nonce t = tx_Nonce tx" by (auto simp: find_Some_iff)
    moreover have "{u \<in> set ?xs. tx_Nonce u \<noteq> tx_Nonce tx} = set ?xs - {t}" using tl_same_nonce [OF assms(1)] t by auto
    ultimately show ?thesis using put by simp
  qed
qed

lemma tl_Add_replaces:
  assumes "tl_ok cost strict l" "tl_Add cost tx bump l = ((inserted, old), l')" "inserted"
  shows "set (sm_txs (tl_txs l')) = insert tx (set (sm_txs (tl_txs l)) - set_option old)" "set_option old \<subseteq> set (sm_txs (tl_txs l))"
proof -
  have "set (sm_txs (tl_txs l')) = insert tx (set (sm_txs (tl_txs l)) - set_option old) \<and> set_option old \<subseteq> set (sm_txs (tl_txs l))"
  proof (cases old)
    case None
    then show ?thesis using tl_Add_set(3) [OF assms(1,2,3) None] by simp
  next
    case (Some u)
    then show ?thesis using tl_Add_set(4) [OF assms(1,2,3) Some] by simp
  qed
  then show "set (sm_txs (tl_txs l')) = insert tx (set (sm_txs (tl_txs l)) - set_option old)" "set_option old \<subseteq> set (sm_txs (tl_txs l))" by blast+
qed

section \<open>Invariant of the pool\<close>

text \<open>
  \<open>K\<close> is what the lists and the transfer \<open>X\<close> hold together; between operations it is what the lookup table
  knows. \<open>D\<close> are transactions that the price heap has given up and that are about to leave the pool.
\<close>

definition pool_inv :: "pool_lib \<Rightarrow> transaction set \<Rightarrow> transaction set \<Rightarrow> transaction set \<Rightarrow> transaction set \<Rightarrow> tx_pool \<Rightarrow> bool" where
  "pool_inv L U K X D p \<longleftrightarrow> lk_ok L U (p_all p) \<and> parts L U True False K X (p_pending p) (p_queue p) \<and>
     pr_covers U (remotes_set (p_all p) - D) (p_priced p)"

definition pool_ok :: "pool_lib \<Rightarrow> transaction set \<Rightarrow> tx_pool \<Rightarrow> bool" where
  "pool_ok L U p \<longleftrightarrow> pool_inv L U (known (p_all p)) {} {} p"

definition orders_ok :: "orders \<Rightarrow> bool" where
  "orders_ok Os \<longleftrightarrow> (\<forall>i. visit_ok (o_list Os i)) \<and> table_visit_ok (o_table Os) \<and> (\<forall>ls. mset (o_accts Os ls) = mset ls)"

abbreviation pool_env :: "pool_lib \<Rightarrow> transaction set \<Rightarrow> orders \<Rightarrow> bool" where
  "pool_env L U Os \<equiv> universe L U \<and> orders_ok Os"

lemma pool_inv_removed:
  assumes "pool_env L U Os" "pool_inv L U K X D p"
  shows "pool_inv L U K X D (the_removed L Os n p)"
  using assms pr_Removed_ok [of L U "p_all p" "o_table Os" "remotes_set (p_all p) - D" "p_priced p" n]
  by (auto simp: pool_inv_def the_removed_def orders_ok_def)

lemma pool_inv_forget:
  assumes "pool_env L U Os" "pool_inv L U K X D p" "t \<in> X" "t \<in> U"
  shows "pool_inv L U (K - {t}) (X - {t}) D (forget L t p)"
proof -
  have lk: "lk_ok L U (p_all p)" and u: "universe L U" using assms(1,2) by (auto simp: pool_inv_def)
  note r = lk_Remove_ok [OF lk u assms(4)]
  have "pr_covers U (remotes_set (lk_Remove L (pl_Hash L t) (p_all p)) - D) (p_priced p)"
    unfolding r(3) using assms(2) by (auto simp: pool_inv_def elim: pr_covers_mono)
  then show ?thesis using assms(2) r(1) parts_drop [OF _ assms(3)] by (simp add: pool_inv_def forget_def)
qed

lemma pool_inv_put_queue:
  assumes "pool_inv L U K X D p" "tl_ok (pl_Cost L) False l" "\<forall>t \<in> set (sm_txs (tl_txs l)). t \<in> U \<and> pl_Sender L t = Some a"
    "set (sm_txs (tl_txs l)) \<subseteq> set (txs_at (p_queue p) a) \<union> X"
    "\<forall>t \<in> set (sm_txs (tl_txs l)). \<forall>u \<in> set (txs_at (p_pending p) a). tx_Nonce t \<noteq> tx_Nonce u"
  shows "pool_inv L U K ((X \<union> set (txs_at (p_queue p) a)) - set (sm_txs (tl_txs l))) D (put_queue a l p)"
proof -
  have "parts L U False True K X (p_queue p) (p_pending p)" using assms(1) parts_swap by (auto simp: pool_inv_def)
  from parts_update [OF this assms(2-5)] show ?thesis using assms(1) parts_swap by (auto simp: pool_inv_def put_queue_def)
qed

lemma pool_inv_put_pending:
  assumes "pool_inv L U K X D p" "tl_ok (pl_Cost L) True l" "\<forall>t \<in> set (sm_txs (tl_txs l)). t \<in> U \<and> pl_Sender L t = Some a"
    "set (sm_txs (tl_txs l)) \<subseteq> set (txs_at (p_pending p) a) \<union> X"
    "\<forall>t \<in> set (sm_txs (tl_txs l)). \<forall>u \<in> set (txs_at (p_queue p) a). tx_Nonce t \<noteq> tx_Nonce u"
  shows "pool_inv L U K ((X \<union> set (txs_at (p_pending p) a)) - set (sm_txs (tl_txs l))) D (put_pending a l p)"
  using parts_update [of L U True False K X "p_pending p" "p_queue p" l a] assms by (simp add: pool_inv_def put_pending_def)

lemma pool_inv_lists:
  assumes "pool_inv L U K X D p"
  shows "lists_ok L U True (p_pending p)" "lists_ok L U False (p_queue p)"
    "t \<in> set (txs_at (p_pending p) a) \<Longrightarrow> u \<in> set (txs_at (p_queue p) a) \<Longrightarrow> tx_Nonce t \<noteq> tx_Nonce u"
    "t \<in> set (txs_at (p_pending p) a) \<or> t \<in> set (txs_at (p_queue p) a) \<Longrightarrow> t \<in> U \<and> pl_Sender L t = Some a"
    "K = held (p_pending p) (p_queue p) \<union> X" "held (p_pending p) (p_queue p) \<inter> X = {}"
  using assms by (auto simp: pool_inv_def parts_def lists_ok_def)

text \<open>A list that loses some of its transactions; they are in transfer afterwards.\<close>

lemma pool_inv_shrink_queue:
  assumes "pool_inv L U K X D p" "tl_ok (pl_Cost L) False l" "set (sm_txs (tl_txs l)) \<subseteq> set (txs_at (p_queue p) a)"
  shows "pool_inv L U K (X \<union> (set (txs_at (p_queue p) a) - set (sm_txs (tl_txs l)))) D (put_queue a l p)"
proof -
  note I = pool_inv_lists [OF assms(1)]
  have s: "\<forall>t \<in> set (sm_txs (tl_txs l)). t \<in> U \<and> pl_Sender L t = Some a" using I(4) assms(3) by blast
  have n: "\<forall>t \<in> set (sm_txs (tl_txs l)). \<forall>u \<in> set (txs_at (p_pending p) a). tx_Nonce t \<noteq> tx_Nonce u"
    using I(3) assms(3) by (metis subsetD)
  have "set (txs_at (p_queue p) a) \<subseteq> held (p_pending p) (p_queue p)" by (auto simp: held_def)
  then have "(X \<union> set (txs_at (p_queue p) a)) - set (sm_txs (tl_txs l)) = X \<union> (set (txs_at (p_queue p) a) - set (sm_txs (tl_txs l)))"
    using I(6) assms(3) by blast
  then show ?thesis using pool_inv_put_queue [OF assms(1,2) s _ n] assms(3) by auto
qed

lemma pool_inv_shrink_pending:
  assumes "pool_inv L U K X D p" "tl_ok (pl_Cost L) True l" "set (sm_txs (tl_txs l)) \<subseteq> set (txs_at (p_pending p) a)"
  shows "pool_inv L U K (X \<union> (set (txs_at (p_pending p) a) - set (sm_txs (tl_txs l)))) D (put_pending a l p)"
proof -
  note I = pool_inv_lists [OF assms(1)]
  have s: "\<forall>t \<in> set (sm_txs (tl_txs l)). t \<in> U \<and> pl_Sender L t = Some a" using I(4) assms(3) by blast
  have n: "\<forall>t \<in> set (sm_txs (tl_txs l)). \<forall>u \<in> set (txs_at (p_queue p) a). tx_Nonce t \<noteq> tx_Nonce u"
    using I(3) assms(3) by (metis subsetD)
  have "set (txs_at (p_pending p) a) \<subseteq> held (p_pending p) (p_queue p)" by (auto simp: held_def)
  then have "(X \<union> set (txs_at (p_pending p) a)) - set (sm_txs (tl_txs l)) = X \<union> (set (txs_at (p_pending p) a) - set (sm_txs (tl_txs l)))"
    using I(6) assms(3) by blast
  then show ?thesis using pool_inv_put_pending [OF assms(1,2) s _ n] assms(3) by auto
qed

lemma pool_inv_delete_queue:
  "pool_inv L U K X D p \<Longrightarrow> txs_at (p_queue p) a = [] \<Longrightarrow> pool_inv L U K X D (p\<lparr>p_queue := AList.delete a (p_queue p), p_beats := b\<rparr>)"
  using parts_delete [of L U False True K X "p_queue p" "p_pending p" a] parts_swap by (auto simp: pool_inv_def)

lemma pool_inv_delete_pending:
  "pool_inv L U K X D p \<Longrightarrow> txs_at (p_pending p) a = [] \<Longrightarrow> pool_inv L U K X D (p\<lparr>p_pending := AList.delete a (p_pending p)\<rparr>)"
  using parts_delete [of L U True False K X "p_pending p" "p_queue p" a] by (simp add: pool_inv_def)

lemma txs_at_put [simp]:
  "txs_at (p_queue (put_queue a l p)) b = (if b = a then sm_txs (tl_txs l) else txs_at (p_queue p) b)"
  "txs_at (p_pending (put_pending a l p)) b = (if b = a then sm_txs (tl_txs l) else txs_at (p_pending p) b)"
  "p_pending (put_queue a l p) = p_pending p" "p_queue (put_pending a l p) = p_queue p"
  "p_all (put_queue a l p) = p_all p" "p_all (put_pending a l p) = p_all p"
  "p_config (put_queue a l p) = p_config p" "p_config (put_pending a l p) = p_config p"
  by (simp_all add: put_queue_def put_pending_def txs_at_update)

text \<open>Forgetting transactions that are in transfer.\<close>

lemma forget_all_ok:
  assumes "pool_env L U Os" "pool_inv L U K X D p" "set txs \<subseteq> X" "X \<subseteq> U" "distinct txs"
  shows "\<exists>t. forget_all L (map Some txs) p = Inr (p\<lparr>p_all := t\<rparr>) \<and> pool_inv L U (K - set txs) (X - set txs) D (p\<lparr>p_all := t\<rparr>) \<and>
    known t = known (p_all p) - set txs \<and> remotes_set t = remotes_set (p_all p) - set txs"
  using assms(2-5)
proof (induction txs arbitrary: p K X)
  case Nil
  then show ?case by (intro exI [of _ "p_all p"]) simp
next
  case (Cons t ts)
  have tX: "t \<in> X" "t \<in> U" using Cons.prems by auto
  have lk: "lk_ok L U (p_all p)" and u: "universe L U" using assms(1) Cons.prems(1) by (auto simp: pool_inv_def)
  note r = lk_Remove_ok [OF lk u tX(2)]
  have f: "forget L t p = p\<lparr>p_all := lk_Remove L (pl_Hash L t) (p_all p)\<rparr>" by (simp add: forget_def)
  have inv: "pool_inv L U (K - {t}) (X - {t}) D (forget L t p)" by (rule pool_inv_forget [OF assms(1) Cons.prems(1) tX])
  have sub: "set ts \<subseteq> X - {t}" "X - {t} \<subseteq> U" "distinct ts" using Cons.prems by auto
  obtain t' where t': "forget_all L (map Some ts) (forget L t p) = Inr ((forget L t p)\<lparr>p_all := t'\<rparr>)"
      "pool_inv L U (K - {t} - set ts) (X - {t} - set ts) D ((forget L t p)\<lparr>p_all := t'\<rparr>)"
      "known t' = known (p_all (forget L t p)) - set ts" "remotes_set t' = remotes_set (p_all (forget L t p)) - set ts"
    using Cons.IH [OF inv sub] by blast
  have e: "(forget L t p)\<lparr>p_all := t'\<rparr> = p\<lparr>p_all := t'\<rparr>" by (simp add: f)
  have "K - {t} - set ts = K - set (t # ts)" "X - {t} - set ts = X - set (t # ts)" by auto
  moreover have "known t' = known (p_all p) - set (t # ts)" "remotes_set t' = remotes_set (p_all p) - set (t # ts)"
    using t'(3,4) r(2,3) by (auto simp: f)
  ultimately show ?case using t'(1,2) e by (intro exI [of _ t']) simp
qed

text \<open>A transaction in transfer finds its place in a list whose nonce is free.\<close>

lemma list_at_ok:
  assumes "lists_ok L U strict ls"
  shows "tl_ok (pl_Cost L) strict (list_at strict a ls)" "sm_txs (tl_txs (list_at strict a ls)) = txs_at ls a"
  using assms newTxList_ok by (auto simp: list_at_def txs_at_def lists_ok_def split: option.splits)

lemma sender_Some: "pl_Sender L t = Some a \<Longrightarrow> sender L t = a"
  by (simp add: sender_def)

lemma pool_inv_other:
  assumes "pool_inv L U K X D p" "p_all p' = p_all p" "p_pending p' = p_pending p" "p_queue p' = p_queue p" "p_priced p' = p_priced p"
  shows "pool_inv L U K X D p'"
  using assms by (simp add: pool_inv_def)

lemma enqueueTx_transfer:
  assumes "pool_inv L U K X D p" "t \<in> X" "t \<in> U" "pl_Sender L t = Some a"
    "\<forall>u \<in> set (txs_at (p_queue p) a). tx_Nonce u \<noteq> tx_Nonce t" "\<forall>u \<in> set (txs_at (p_pending p) a). tx_Nonce u \<noteq> tx_Nonce t"
  shows "\<exists>p'. enqueueTx L Os now t False False p = (Inr False, p') \<and> pool_inv L U K (X - {t}) D p' \<and> p_pending p' = p_pending p \<and>
    (\<forall>b. set (txs_at (p_queue p') b) = (if b = a then insert t (set (txs_at (p_queue p) b)) else set (txs_at (p_queue p) b))) \<and>
    p_all p' = p_all p \<and> p_config p' = p_config p \<and> (\<forall>b. b \<noteq> a \<longrightarrow> map_of (p_queue p') b = map_of (p_queue p) b)"
proof -
  note I = pool_inv_lists [OF assms(1)]
  have sa: "sender L t = a" using assms(4) by (rule sender_Some)
  let ?l = "list_at False a (p_queue p)"
  obtain ins old l where add: "tl_Add (pl_Cost L) t (pc_PriceBump (p_config p)) ?l = ((ins, old), l)"
    by (cases "tl_Add (pl_Cost L) t (pc_PriceBump (p_config p)) ?l"; cases "fst (tl_Add (pl_Cost L) t (pc_PriceBump (p_config p)) ?l)") auto
  note A = tl_Add_set [OF list_at_ok(1) [OF I(2)] add] and at = list_at_ok(2) [OF I(2), of a]
  have ins: "ins" using A(2) assms(5) at by auto
  have old: "old = None" using A(4) ins assms(5) at by (cases old) auto
  have set: "set (sm_txs (tl_txs l)) = insert t (set (txs_at (p_queue p) a))" using A(3) ins old at by simp
  have inv: "pool_inv L U K ((X \<union> set (txs_at (p_queue p) a)) - set (sm_txs (tl_txs l))) D (put_queue a l p)"
  proof (rule pool_inv_put_queue [OF assms(1) A(1)])
    show "\<forall>t \<in> set (sm_txs (tl_txs l)). \<forall>u \<in> set (txs_at (p_pending p) a). tx_Nonce t \<noteq> tx_Nonce u"
      using assms(6) I(3) unfolding set by (metis insert_iff)
  qed (use assms(2-4) I(4) in \<open>auto simp: set\<close>)
  have "set (txs_at (p_queue p) a) \<subseteq> held (p_pending p) (p_queue p)" by (auto simp: held_def)
  then have X: "(X \<union> set (txs_at (p_queue p) a)) - set (sm_txs (tl_txs l)) = X - {t}" using I(6) set by auto
  define p' where "p' = snd (enqueueTx L Os now t False False p)"
  have e: "enqueueTx L Os now t False False p = (Inr False, p')"
    using add ins old by (simp add: enqueueTx_def sa p'_def replace_old_def Let_def)
  have f: "p_all p' = p_all p" "p_pending p' = p_pending p" "p_queue p' = p_queue (put_queue a l p)" "p_priced p' = p_priced p" "p_config p' = p_config p"
    using add ins old by (simp_all add: p'_def enqueueTx_def sa replace_old_def put_queue_def Let_def)
  have "pool_inv L U K (X - {t}) D p'" using pool_inv_other [OF inv [unfolded X]] f by (simp add: put_queue_def)
  moreover have "\<forall>b. b \<noteq> a \<longrightarrow> map_of (p_queue p') b = map_of (p_queue p) b" using f(3) by (simp add: put_queue_def update_conv)
  ultimately show ?thesis using e f set by auto
qed

lemma enqueue_all_ok:
  assumes "pool_inv L U K X D p" "set ts \<subseteq> X" "\<forall>t \<in> set ts. t \<in> U \<and> pl_Sender L t = Some a" "distinct (map tx_Nonce ts)"
    "\<forall>t \<in> set ts. (\<forall>u \<in> set (txs_at (p_queue p) a). tx_Nonce u \<noteq> tx_Nonce t) \<and> (\<forall>u \<in> set (txs_at (p_pending p) a). tx_Nonce u \<noteq> tx_Nonce t)"
  shows "pool_inv L U K (X - set ts) D (enqueue_all L Os now ts p) \<and> p_pending (enqueue_all L Os now ts p) = p_pending p \<and>
    (\<forall>b. set (txs_at (p_queue (enqueue_all L Os now ts p)) b) = (if b = a then set ts \<union> set (txs_at (p_queue p) b) else set (txs_at (p_queue p) b))) \<and>
    p_all (enqueue_all L Os now ts p) = p_all p \<and> p_config (enqueue_all L Os now ts p) = p_config p \<and> (\<forall>b. b \<noteq> a \<longrightarrow> map_of (p_queue (enqueue_all L Os now ts p)) b = map_of (p_queue p) b)"
  using assms
proof (induction ts arbitrary: p X)
  case (Cons t ts)
  have t: "t \<in> X" "t \<in> U" "pl_Sender L t = Some a" using Cons.prems by auto
  have free: "\<forall>u \<in> set (txs_at (p_queue p) a). tx_Nonce u \<noteq> tx_Nonce t" "\<forall>u \<in> set (txs_at (p_pending p) a). tx_Nonce u \<noteq> tx_Nonce t"
    using Cons.prems(5) by auto
  obtain p' where p': "enqueueTx L Os now t False False p = (Inr False, p')" "pool_inv L U K (X - {t}) D p'" "p_pending p' = p_pending p"
      "\<forall>b. set (txs_at (p_queue p') b) = (if b = a then insert t (set (txs_at (p_queue p) b)) else set (txs_at (p_queue p) b))"
      "p_all p' = p_all p" "p_config p' = p_config p" "\<forall>b. b \<noteq> a \<longrightarrow> map_of (p_queue p') b = map_of (p_queue p) b"
    using enqueueTx_transfer [OF Cons.prems(1) t free] by blast
  have ne: "\<forall>u \<in> set ts. tx_Nonce u \<noteq> tx_Nonce t \<and> u \<noteq> t" using Cons.prems(4) by (auto simp: image_iff)
  have "set ts \<subseteq> X - {t}" "\<forall>t \<in> set ts. t \<in> U \<and> pl_Sender L t = Some a" "distinct (map tx_Nonce ts)" using Cons.prems(2-4) ne by auto
  moreover have "\<forall>s \<in> set ts. (\<forall>u \<in> set (txs_at (p_queue p') a). tx_Nonce u \<noteq> tx_Nonce s) \<and> (\<forall>u \<in> set (txs_at (p_pending p') a). tx_Nonce u \<noteq> tx_Nonce s)"
    using Cons.prems(5) p'(3,4) ne by force
  ultimately have IH: "pool_inv L U K (X - {t} - set ts) D (enqueue_all L Os now ts p') \<and> p_pending (enqueue_all L Os now ts p') = p_pending p' \<and>
    (\<forall>b. set (txs_at (p_queue (enqueue_all L Os now ts p')) b) = (if b = a then set ts \<union> set (txs_at (p_queue p') b) else set (txs_at (p_queue p') b))) \<and>
    p_all (enqueue_all L Os now ts p') = p_all p' \<and> p_config (enqueue_all L Os now ts p') = p_config p' \<and> (\<forall>b. b \<noteq> a \<longrightarrow> map_of (p_queue (enqueue_all L Os now ts p')) b = map_of (p_queue p') b)"
    by (rule Cons.IH [OF p'(2)])
  have "X - {t} - set ts = X - set (t # ts)" by auto
  then show ?case using IH p'(1,3-7) by simp
qed simp

lemma promoteTx_transfer:
  assumes "pool_inv L U K X D p" "t \<in> X" "t \<in> U" "pl_Sender L t = Some a"
    "\<forall>u \<in> set (txs_at (p_queue p) a). tx_Nonce u \<noteq> tx_Nonce t" "\<forall>u \<in> set (txs_at (p_pending p) a). tx_Nonce u \<noteq> tx_Nonce t"
  shows "\<exists>p'. promoteTx L Os now a t p = (True, p') \<and> pool_inv L U K (X - {t}) D p' \<and> p_queue p' = p_queue p \<and>
    (\<forall>b. set (txs_at (p_pending p') b) = (if b = a then insert t (set (txs_at (p_pending p) b)) else set (txs_at (p_pending p) b))) \<and>
    p_all p' = p_all p \<and> p_config p' = p_config p"
proof -
  note I = pool_inv_lists [OF assms(1)]
  let ?l = "list_at True a (p_pending p)"
  obtain ins old l where add: "tl_Add (pl_Cost L) t (pc_PriceBump (p_config p)) ?l = ((ins, old), l)"
    by (cases "tl_Add (pl_Cost L) t (pc_PriceBump (p_config p)) ?l"; cases "fst (tl_Add (pl_Cost L) t (pc_PriceBump (p_config p)) ?l)") auto
  note A = tl_Add_set [OF list_at_ok(1) [OF I(1)] add] and at = list_at_ok(2) [OF I(1), of a]
  have ins: "ins" using A(2) assms(6) at by auto
  have old: "old = None" using A(4) ins assms(6) at by (cases old) auto
  have set: "set (sm_txs (tl_txs l)) = insert t (set (txs_at (p_pending p) a))" using A(3) ins old at by simp
  have inv: "pool_inv L U K ((X \<union> set (txs_at (p_pending p) a)) - set (sm_txs (tl_txs l))) D (put_pending a l p)"
  proof (rule pool_inv_put_pending [OF assms(1) A(1)])
    show "\<forall>t \<in> set (sm_txs (tl_txs l)). \<forall>u \<in> set (txs_at (p_queue p) a). tx_Nonce t \<noteq> tx_Nonce u"
      using assms(5) I(3) unfolding set by (metis insert_iff)
  qed (use assms(2-4) I(4) in \<open>auto simp: set\<close>)
  have "set (txs_at (p_pending p) a) \<subseteq> held (p_pending p) (p_queue p)" by (auto simp: held_def)
  then have X: "(X \<union> set (txs_at (p_pending p) a)) - set (sm_txs (tl_txs l)) = X - {t}" using I(6) set by auto
  define p' where "p' = snd (promoteTx L Os now a t p)"
  have e: "promoteTx L Os now a t p = (True, p')"
    using add ins old by (simp add: promoteTx_def p'_def replace_old_def Let_def)
  have f: "p_all p' = p_all p" "p_queue p' = p_queue p" "p_pending p' = p_pending (put_pending a l p)" "p_priced p' = p_priced p" "p_config p' = p_config p"
    using add ins old by (simp_all add: p'_def promoteTx_def replace_old_def put_pending_def Let_def)
  have "pool_inv L U K (X - {t}) D p'" using pool_inv_other [OF inv [unfolded X]] f by (simp add: put_pending_def)
  then show ?thesis using e f set by auto
qed

lemma promote_all_ok:
  assumes "pool_inv L U K X D p" "set ts \<subseteq> X" "\<forall>t \<in> set ts. t \<in> U \<and> pl_Sender L t = Some a" "distinct (map tx_Nonce ts)"
    "\<forall>t \<in> set ts. (\<forall>u \<in> set (txs_at (p_queue p) a). tx_Nonce u \<noteq> tx_Nonce t) \<and> (\<forall>u \<in> set (txs_at (p_pending p) a). tx_Nonce u \<noteq> tx_Nonce t)"
  shows "\<exists>p'. promote_all L Os now a (map Some ts) promoted p = Inr (promoted @ ts, p') \<and> pool_inv L U K (X - set ts) D p' \<and>
    p_queue p' = p_queue p \<and> p_all p' = p_all p \<and> p_config p' = p_config p"
  using assms
proof (induction ts arbitrary: p X promoted)
  case (Cons t ts)
  have t: "t \<in> X" "t \<in> U" "pl_Sender L t = Some a" using Cons.prems by auto
  have free: "\<forall>u \<in> set (txs_at (p_queue p) a). tx_Nonce u \<noteq> tx_Nonce t" "\<forall>u \<in> set (txs_at (p_pending p) a). tx_Nonce u \<noteq> tx_Nonce t"
    using Cons.prems(5) by auto
  obtain p' where p': "promoteTx L Os now a t p = (True, p')" "pool_inv L U K (X - {t}) D p'" "p_queue p' = p_queue p"
      "\<forall>b. set (txs_at (p_pending p') b) = (if b = a then insert t (set (txs_at (p_pending p) b)) else set (txs_at (p_pending p) b))"
      "p_all p' = p_all p" "p_config p' = p_config p"
    using promoteTx_transfer [OF Cons.prems(1) t free] by blast
  have ne: "\<forall>u \<in> set ts. tx_Nonce u \<noteq> tx_Nonce t \<and> u \<noteq> t" using Cons.prems(4) by (auto simp: image_iff)
  have pre: "set ts \<subseteq> X - {t}" "\<forall>t \<in> set ts. t \<in> U \<and> pl_Sender L t = Some a" "distinct (map tx_Nonce ts)" using Cons.prems(2-4) ne by auto
  have "\<forall>s \<in> set ts. (\<forall>u \<in> set (txs_at (p_queue p') a). tx_Nonce u \<noteq> tx_Nonce s) \<and> (\<forall>u \<in> set (txs_at (p_pending p') a). tx_Nonce u \<noteq> tx_Nonce s)"
    using Cons.prems(5) p'(3,4) ne by force
  from Cons.IH [OF p'(2) pre this, of "promoted @ [t]"]
  obtain q where q: "promote_all L Os now a (map Some ts) (promoted @ [t]) p' = Inr ((promoted @ [t]) @ ts, q)"
      "pool_inv L U K (X - {t} - set ts) D q" "p_queue q = p_queue p'" "p_all q = p_all p'" "p_config q = p_config p'" by blast
  have "X - {t} - set ts = X - set (t # ts)" by auto
  then show ?case using q p'(1,3,5,6) by simp
qed simp

section \<open>Removal\<close>

lemma filter_nonce_set:
  "tl_ok cost strict l \<Longrightarrow> t \<in> set (sm_txs (tl_txs l)) \<Longrightarrow>
   set (filter (\<lambda>u. tx_Nonce u \<noteq> tx_Nonce t) (sm_txs (tl_txs l))) = set (sm_txs (tl_txs l)) - {t}"
  using tl_same_nonce [of cost strict l _ t] by auto

lemma remove_future_ok:
  assumes "pool_env L U Os" "pool_inv L U K {} D p" "t \<in> set (txs_at (p_queue p) a)"
  shows "\<exists>p'. remove_future Os a t p = Inr p' \<and> pool_inv L U (K - {t}) {} D p' \<and> p_all p' = p_all p \<and> p_config p' = p_config p \<and>
    (\<forall>b. b \<noteq> a \<longrightarrow> map_of (p_queue p') b = map_of (p_queue p) b) \<and> set (txs_at (p_queue p') a) = set (txs_at (p_queue p) a) - {t}"
proof -
  note I = pool_inv_lists [OF assms(2)]
  obtain l where l: "map_of (p_queue p) a = Some l" using assms(3) by (cases "map_of (p_queue p) a") (auto simp: txs_at_def)
  have lo: "tl_ok (pl_Cost L) False l" and at: "txs_at (p_queue p) a = sm_txs (tl_txs l)" using lists_ok_at [OF I(2) l] by auto
  have v: "\<forall>i. visit_ok (o_list Os i)" using assms(1) by (simp add: orders_ok_def)
  obtain r inv l' where rm: "tl_Remove (o_list Os) t l = Inr ((r, inv), l')" "tl_ok (pl_Cost L) False l'"
      "sm_txs (tl_txs l') = filter (\<lambda>u. tx_Nonce u \<noteq> tx_Nonce t) (sm_txs (tl_txs l))"
    using tl_Remove_raw [OF lo v, of t] by auto
  have s: "set (sm_txs (tl_txs l')) = set (txs_at (p_queue p) a) - {t}" using filter_nonce_set [OF lo] assms(3) rm(3) at by simp
  have "{} \<union> (set (txs_at (p_queue p) a) - set (sm_txs (tl_txs l'))) = {t}" using s assms(3) by auto
  then have "pool_inv L U K {t} D (put_queue a l' p)" using pool_inv_shrink_queue [OF assms(2) rm(2), of a] s by auto
  then have q: "pool_inv L U (K - {t}) {} D (put_queue a l' p)" using parts_drop [of L U True False K "{t}" _ _ t] by (simp add: pool_inv_def)
  define p' where "p' = (if tl_Empty l' then (put_queue a l' p)\<lparr>p_queue := AList.delete a (p_queue (put_queue a l' p)), p_beats := AList.delete a (p_beats p)\<rparr> else put_queue a l' p)"
  have "pool_inv L U (K - {t}) {} D p'" using q pool_inv_delete_queue [OF q, of a] tl_Empty_txs [OF rm(2)] by (simp add: p'_def)
  moreover have "remove_future Os a t p = Inr p'" using l rm(1) by (simp add: remove_future_def p'_def put_queue_def Let_def)
  moreover have "p_all p' = p_all p" "p_config p' = p_config p" by (simp_all add: p'_def)
  moreover have "\<forall>b. b \<noteq> a \<longrightarrow> map_of (p_queue p') b = map_of (p_queue p) b" by (simp add: p'_def put_queue_def delete_conv update_conv)
  moreover have "txs_at (p_queue p') a = sm_txs (tl_txs l')"
    by (cases "tl_Empty l'") (simp_all add: p'_def put_queue_def txs_at_delete txs_at_update tl_Empty_txs [OF rm(2)])
  then have "set (txs_at (p_queue p') a) = set (txs_at (p_queue p) a) - {t}" using s by simp
  ultimately show ?thesis by blast
qed

lemma remove_pending_ok:
  assumes "pool_env L U Os" "pool_inv L U K {} D p" "map_of (p_pending p) a = Some l" "t \<in> set (txs_at (p_pending p) a)"
    and rm: "tl_ok (pl_Cost L) True l'" "mset invalids = mset (filter (\<lambda>u. tx_Nonce u > tx_Nonce t) (sm_txs (tl_txs l)))"
      "sm_txs (tl_txs l') = filter (\<lambda>u. tx_Nonce u < tx_Nonce t) (sm_txs (tl_txs l))"
  shows "pool_inv L U (K - {t}) {} D (remove_pending L Os now a t invalids l' p)"
    "p_all (remove_pending L Os now a t invalids l' p) = p_all p" "p_config (remove_pending L Os now a t invalids l' p) = p_config p"
    "b \<noteq> a \<Longrightarrow> map_of (p_queue (remove_pending L Os now a t invalids l' p)) b = map_of (p_queue p) b"
proof -
  note I = pool_inv_lists [OF assms(2)]
  let ?xs = "sm_txs (tl_txs l)"
  have lo: "tl_ok (pl_Cost L) True l" and at: "txs_at (p_pending p) a = ?xs" using lists_ok_at [OF I(1) assms(3)] by auto
  have inv: "set invalids = {u \<in> set ?xs. tx_Nonce u > tx_Nonce t}" using mset_eq_setD [OF rm(2)] by simp
  have dist: "distinct (map tx_Nonce invalids)"
  proof -
    have "sorted_wrt (<) (map tx_Nonce ?xs)" using tl_by_nonce [OF lo] by (simp add: sorted_wrt_map)
    then have "distinct (map tx_Nonce (filter (\<lambda>u. tx_Nonce u > tx_Nonce t) ?xs))" by (simp add: strict_sorted_iff distinct_map_filter)
    then show ?thesis using rm(2) by (metis mset_eq_imp_distinct_iff mset_map)
  qed
  have "set ?xs - set (sm_txs (tl_txs l')) = insert t (set invalids)"
    unfolding rm(3) inv using tl_same_nonce [OF lo] assms(4) at by fastforce
  then have "pool_inv L U K (insert t (set invalids)) D (put_pending a l' p)"
    using pool_inv_shrink_pending [OF assms(2) rm(1), of a] at rm(3) by auto
  then have q: "pool_inv L U (K - {t}) (set invalids) D (put_pending a l' p)"
    using parts_drop [of L U True False K "insert t (set invalids)" _ _ t] inv by (simp add: pool_inv_def insert_Diff_if)
  define p1 where "p1 = (if tl_Empty l' then (put_pending a l' p)\<lparr>p_pending := AList.delete a (p_pending (put_pending a l' p))\<rparr> else put_pending a l' p)"
  have p1: "pool_inv L U (K - {t}) (set invalids) D p1" "p_all p1 = p_all p" "p_queue p1 = p_queue p" "p_config p1 = p_config p"
    using q pool_inv_delete_pending [OF q, of a] tl_Empty_txs [OF rm(1)] by (simp_all add: p1_def)
  have at1: "set (txs_at (p_pending p1) a) = {u \<in> set ?xs. tx_Nonce u < tx_Nonce t}"
    using rm(3) tl_Empty_txs [OF rm(1)] by (auto simp: p1_def txs_at_delete filter_empty_conv)
  have "\<forall>u \<in> set ?xs. u \<in> U \<and> pl_Sender L u = Some a" using I(4) [of _ a] at by simp
  then have "\<forall>u \<in> set invalids. u \<in> U \<and> pl_Sender L u = Some a" using inv by blast
  moreover have "\<forall>s \<in> set ?xs. \<forall>u \<in> set (txs_at (p_queue p) a). tx_Nonce u \<noteq> tx_Nonce s" using I(3) [of _ a] at by metis
  then have "\<forall>s \<in> set invalids. (\<forall>u \<in> set (txs_at (p_queue p1) a). tx_Nonce u \<noteq> tx_Nonce s) \<and> (\<forall>u \<in> set (txs_at (p_pending p1) a). tx_Nonce u \<noteq> tx_Nonce s)"
    unfolding at1 p1(3) inv by auto
  ultimately have e: "pool_inv L U (K - {t}) (set invalids - set invalids) D (enqueue_all L Os now invalids p1)"
      "p_all (enqueue_all L Os now invalids p1) = p_all p1" "p_config (enqueue_all L Os now invalids p1) = p_config p1"
      "\<forall>b. b \<noteq> a \<longrightarrow> map_of (p_queue (enqueue_all L Os now invalids p1)) b = map_of (p_queue p1) b"
    using enqueue_all_ok [OF p1(1) subset_refl _ dist] by blast+
  have r: "remove_pending L Os now a t invalids l' p = (enqueue_all L Os now invalids p1)\<lparr>p_noncer := noncer_setIfLower a (tx_Nonce t) (p_noncer (enqueue_all L Os now invalids p1))\<rparr>"
    by (simp add: remove_pending_def p1_def put_pending_def Let_def)
  show "pool_inv L U (K - {t}) {} D (remove_pending L Os now a t invalids l' p)" unfolding r using e(1) by (simp add: pool_inv_def)
  show "p_all (remove_pending L Os now a t invalids l' p) = p_all p" "p_config (remove_pending L Os now a t invalids l' p) = p_config p"
    unfolding r using e(2,3) p1(2,4) by simp_all
  show "b \<noteq> a \<Longrightarrow> map_of (p_queue (remove_pending L Os now a t invalids l' p)) b = map_of (p_queue p) b"
    unfolding r using e(4) p1(3) by simp
qed

lemma pool_inv_all:
  assumes "pool_env L U Os" "pool_inv L U K X D p" "t \<in> U"
  shows "pool_inv L U K X D (p\<lparr>p_all := lk_Remove L (pl_Hash L t) (p_all p)\<rparr>)"
proof -
  have lk: "lk_ok L U (p_all p)" and u: "universe L U" using assms(1,2) by (auto simp: pool_inv_def)
  note r = lk_Remove_ok [OF lk u assms(3)]
  have "pr_covers U (remotes_set (lk_Remove L (pl_Hash L t) (p_all p)) - D) (p_priced p)"
    unfolding r(3) using assms(2) by (auto simp: pool_inv_def elim: pr_covers_mono)
  then show ?thesis using assms(2) r(1) by (simp add: pool_inv_def)
qed

lemma removeTx_ok:
  assumes "pool_env L U Os" "pool_inv L U (known (p_all p)) {} D p" "t \<in> U"
  shows "\<exists>p'. removeTx L Os now (pl_Hash L t) out p = Inr p' \<and> pool_inv L U (known (p_all p')) {} D p' \<and>
    known (p_all p') = known (p_all p) - {t} \<and> p_config p' = p_config p \<and>
    (\<forall>b. pl_Sender L t \<noteq> Some b \<longrightarrow> map_of (p_queue p') b = map_of (p_queue p) b)"
proof -
  note I = pool_inv_lists [OF assms(2)]
  have lk: "lk_ok L U (p_all p)" and u: "universe L U" using assms(1,2) by (auto simp: pool_inv_def)
  have v: "\<forall>i. visit_ok (o_list Os i)" using assms(1) by (simp add: orders_ok_def)
  note r = lk_Remove_ok [OF lk u assms(3)]
  show ?thesis
  proof (cases "t \<in> known (p_all p)")
    case False
    then have "\<forall>u \<in> known (p_all p). pl_Hash L u \<noteq> pl_Hash L t"
      using lk u assms(3) unfolding lk_ok_def universe_def by (metis inj_onD subsetD)
    then have "lk_Get (pl_Hash L t) (p_all p) = None" using lk_Get_None [OF lk u] by blast
    moreover have "known (p_all p) - {t} = known (p_all p)" using False by blast
    ultimately show ?thesis using assms(2) by (simp add: removeTx_def)
  next
    case True
    then have get: "lk_Get (pl_Hash L t) (p_all p) = Some t" using lk_Get_iff [OF lk u] by simp
    have "t \<in> held (p_pending p) (p_queue p)" using True I(5) by simp
    then obtain a where a: "pl_Sender L t = Some a" "t \<in> set (txs_at (p_pending p) a) \<or> t \<in> set (txs_at (p_queue p) a)"
      using held_iff [OF I(1,2)] by blast
    define p1 where "p1 = p\<lparr>p_all := lk_Remove L (pl_Hash L t) (p_all p)\<rparr>"
    define q where "q = (if out then the_removed L Os 1 p1 else p1)"
    have p1: "pool_inv L U (known (p_all p)) {} D p1" unfolding p1_def by (rule pool_inv_all [OF assms])
    have q: "pool_inv L U (known (p_all p)) {} D q" using p1 pool_inv_removed [OF assms(1) p1] by (simp add: q_def)
    have f: "p_pending q = p_pending p" "p_queue q = p_queue p" "p_config q = p_config p" "known (p_all q) = known (p_all p) - {t}"
      using r(2) by (simp_all add: q_def p1_def the_removed_def)
    have red: "removeTx L Os now (pl_Hash L t) out p = (case map_of (p_pending q) a of
               None \<Rightarrow> remove_future Os a t q
             | Some l \<Rightarrow> bind_res (tl_Remove (o_list Os) t l) (\<lambda>((removed, invalids), l).
                 if removed then Inr (remove_pending L Os now a t invalids l q)
                 else remove_future Os a t (q\<lparr>p_pending := AList.update a l (p_pending q)\<rparr>)))"
      by (simp only: removeTx_def get option.case Let_def sender_Some [OF a(1)] p1_def [symmetric] q_def [symmetric])
    show ?thesis
    proof (cases "map_of (p_pending q) a")
      case None
      then have "t \<in> set (txs_at (p_queue q) a)" using a(2) f by (auto simp: txs_at_def)
      from remove_future_ok [OF assms(1) q this] show ?thesis using red None f a(1) by auto
    next
      case (Some l)
      have lo: "tl_ok (pl_Cost L) True l" and at: "txs_at (p_pending p) a = sm_txs (tl_txs l)"
        using lists_ok_at [OF I(1), of a l] Some f(1) by auto
      obtain rm inv l' where R: "tl_Remove (o_list Os) t l = Inr ((rm, inv), l')" "tl_ok (pl_Cost L) True l'"
          "rm = (\<exists>u \<in> set (sm_txs (tl_txs l)). tx_Nonce u = tx_Nonce t)"
          "mset inv = (if rm then mset (filter (\<lambda>u. tx_Nonce u > tx_Nonce t) (sm_txs (tl_txs l))) else {#})"
          "sm_txs (tl_txs l') = (if rm then filter (\<lambda>u. tx_Nonce u < tx_Nonce t) (sm_txs (tl_txs l))
             else filter (\<lambda>u. tx_Nonce u \<noteq> tx_Nonce t) (sm_txs (tl_txs l)))"
        using tl_Remove_raw [OF lo v, of t] by auto
      show ?thesis
      proof (cases rm)
        case True
        then obtain u where "u \<in> set (txs_at (p_pending p) a)" "tx_Nonce u = tx_Nonce t" using R(3) at by auto
        then have tp: "t \<in> set (txs_at (p_pending p) a)" using a(2) I(3) by blast
        have "pool_inv L U (known (p_all p) - {t}) {} D (remove_pending L Os now a t inv l' q)"
            "p_all (remove_pending L Os now a t inv l' q) = p_all q" "p_config (remove_pending L Os now a t inv l' q) = p_config q"
            "\<forall>b. b \<noteq> a \<longrightarrow> map_of (p_queue (remove_pending L Os now a t inv l' q)) b = map_of (p_queue q) b"
          using remove_pending_ok [OF assms(1) q Some _ R(2)] tp f(1) R(4,5) True by auto
        then show ?thesis using red Some R(1) True f a(1) by simp
      next
        case False
        then have tq: "t \<in> set (txs_at (p_queue p) a)" using R(3) a(2) at by auto
        have same: "sm_txs (tl_txs l') = sm_txs (tl_txs l)" using R(3,5) False by (auto intro: filter_True)
        have "{} \<union> (set (txs_at (p_pending q) a) - set (sm_txs (tl_txs l'))) = {}" using same at f(1) by simp
        then have "pool_inv L U (known (p_all p)) {} D (put_pending a l' q)"
          using pool_inv_shrink_pending [OF q R(2), of a] same at f(1) by auto
        moreover have "t \<in> set (txs_at (p_queue (put_pending a l' q)) a)" using tq f(2) by simp
        ultimately obtain p' where "remove_future Os a t (put_pending a l' q) = Inr p'" "pool_inv L U (known (p_all p) - {t}) {} D p'"
            "p_all p' = p_all q" "p_config p' = p_config q" "\<forall>b. b \<noteq> a \<longrightarrow> map_of (p_queue p') b = map_of (p_queue q) b"
          using remove_future_ok [OF assms(1), of "known (p_all p)" D "put_pending a l' q" t a] by auto
        then show ?thesis using red Some R(1) False f a(1) by (simp add: put_pending_def)
      qed
    qed
  qed
qed

lemma remove_txs_ok:
  assumes "pool_env L U Os" "pool_inv L U (known (p_all p)) {} D p" "set ts \<subseteq> U"
  shows "\<exists>p'. remove_txs L Os now ts out p = Inr p' \<and> pool_inv L U (known (p_all p')) {} D p' \<and>
    known (p_all p') = known (p_all p) - set ts \<and> p_config p' = p_config p \<and>
    (\<forall>b. (\<forall>t \<in> set ts. pl_Sender L t \<noteq> Some b) \<longrightarrow> map_of (p_queue p') b = map_of (p_queue p) b)"
  using assms(2,3)
proof (induction ts arbitrary: p)
  case (Cons t ts)
  obtain p1 where p1: "removeTx L Os now (pl_Hash L t) out p = Inr p1" "pool_inv L U (known (p_all p1)) {} D p1"
      "known (p_all p1) = known (p_all p) - {t}" "p_config p1 = p_config p"
      "\<forall>b. pl_Sender L t \<noteq> Some b \<longrightarrow> map_of (p_queue p1) b = map_of (p_queue p) b"
    using removeTx_ok [OF assms(1) Cons.prems(1), of t now out] Cons.prems(2) by auto
  obtain p2 where "remove_txs L Os now ts out p1 = Inr p2" "pool_inv L U (known (p_all p2)) {} D p2"
      "known (p_all p2) = known (p_all p1) - set ts" "p_config p2 = p_config p1"
      "\<forall>b. (\<forall>t \<in> set ts. pl_Sender L t \<noteq> Some b) \<longrightarrow> map_of (p_queue p2) b = map_of (p_queue p1) b" using Cons.IH [OF p1(2)] Cons.prems(2) by auto
  then show ?case using p1 by (auto simp: set_diff_eq)
qed simp

lemma pool_inv_settled:
  assumes "pool_inv L U (known (p_all p)) {} D p" "known (p_all p) \<inter> D = {}"
  shows "pool_ok L U p"
proof -
  have "remotes_set (p_all p) - D = remotes_set (p_all p)" using assms(2) by blast
  then show ?thesis using assms(1) by (simp add: pool_ok_def pool_inv_def)
qed

lemma SetGasPriceWithCap_ok:
  assumes "pool_env L U Os" "pool_ok L U p"
  shows "\<exists>p'. SetGasPriceWithCap L Os now price cap p = Inr p' \<and> pool_ok L U p' \<and> p_config p' = p_config p \<and>
    known (p_all p') = known (p_all p) - {r \<in> remotes_set (p_all p). tx_GasPrice r < cap}"
proof -
  have inv: "pool_inv L U (known (p_all p)) {} {} p" and lk: "lk_ok L U (p_all p)" and u: "universe L U"
    using assms by (auto simp: pool_ok_def pool_inv_def)
  have "pr_covers U (remotes_set (p_all p) - set []) (p_priced p)" using inv by (simp add: pool_inv_def)
  then obtain drops l where d: "pr_Cap L (p_all p) cap (p_priced p) = Inr (drops, l)" "pr_covers U (remotes_set (p_all p) - set drops) l"
      "set drops = {r \<in> remotes_set (p_all p). tx_GasPrice r < cap}"
    using price_cap_loop_ok [OF lk u, of "[]" "p_priced p" cap] unfolding pr_Cap_def by auto
  let ?p = "p\<lparr>p_gasPrice := price, p_priced := l\<rparr>"
  have "pool_inv L U (known (p_all ?p)) {} (set drops) ?p" using inv d(2) by (simp add: pool_inv_def)
  moreover have "set drops \<subseteq> U" using d(3) lk by (auto simp: lk_ok_def)
  ultimately obtain p' where p': "remove_txs L Os now drops False ?p = Inr p'" "pool_inv L U (known (p_all p')) {} (set drops) p'"
      "known (p_all p') = known (p_all p) - set drops" "p_config p' = p_config p"
    using remove_txs_ok [OF assms(1), of ?p "set drops" drops now False] by auto
  have "pool_ok L U p'" using p'(3) by (intro pool_inv_settled [OF p'(2)]) auto
  then show ?thesis using d(1,3) p' by (simp add: SetGasPriceWithCap_def)
qed

section \<open>Admission\<close>

lemma replace_old_ok:
  assumes "pool_env L U Os" "pool_inv L U K (set_option old) D p" "set_option old \<subseteq> U"
  shows "pool_inv L U (K - set_option old) {} D (replace_old L Os old p)" "known (p_all (replace_old L Os old p)) = known (p_all p) - set_option old"
    "p_config (replace_old L Os old p) = p_config p"
proof -
  have lk: "lk_ok L U (p_all p)" and u: "universe L U" using assms(1,2) by (auto simp: pool_inv_def)
  show "pool_inv L U (K - set_option old) {} D (replace_old L Os old p)"
    using assms(2,3) pool_inv_forget [OF assms(1,2)] pool_inv_removed [OF assms(1)] by (cases old) (fastforce simp: replace_old_def)+
  show "known (p_all (replace_old L Os old p)) = known (p_all p) - set_option old"
    using assms(3) lk_Remove_ok(2) [OF lk u] by (cases old) (simp_all add: replace_old_def the_removed_def forget_def)
  show "p_config (replace_old L Os old p) = p_config p" by (cases old) (simp_all add: replace_old_def the_removed_def forget_def)
qed

lemma learn_ok:
  assumes "universe L U" "pool_inv L U K X D p" "t \<in> U" "t \<notin> known (p_all p)"
  shows "pool_inv L U K X D (learn L t local p)" "known (p_all (learn L t local p)) = insert t (known (p_all p))"
proof -
  have lk: "lk_ok L U (p_all p)" and c: "pr_covers U (remotes_set (p_all p) - D) (p_priced p)" using assms(2) by (auto simp: pool_inv_def)
  note a = lk_Add_ok [OF lk assms(1,3,4), of local]
  have "remotes_set (lk_Add L t local (p_all p)) - D \<subseteq> (if local then remotes_set (p_all p) - D else insert t (remotes_set (p_all p) - D))"
    using a(3) by auto
  then have "pr_covers U (remotes_set (lk_Add L t local (p_all p)) - D) (pr_Put t local (p_priced p))"
    using pr_covers_mono [OF pr_Put_ok [OF c assms(3), of local]] by blast
  then show "pool_inv L U K X D (learn L t local p)" using assms(2) a(1) by (simp add: pool_inv_def learn_def)
  show "known (p_all (learn L t local p)) = insert t (known (p_all p))" using a(2) by (simp add: learn_def)
qed

text \<open>A new transaction enters a list and takes the place of the old one of its nonce, if any.\<close>

lemma settle_new:
  assumes env: "pool_env L U Os" and inv: "pool_inv L U (insert t (known (p_all p))) (set_option old) {} p"
    and t: "t \<in> U" "t \<notin> known (p_all p)" and old: "set_option old \<subseteq> U" "t \<notin> set_option old"
  shows "pool_ok L U (learn L t local (replace_old L Os old p))"
    "known (p_all (learn L t local (replace_old L Os old p))) = insert t (known (p_all p) - set_option old)"
proof -
  note r = replace_old_ok [OF env inv old(1)]
  have n: "t \<notin> known (p_all (replace_old L Os old p))" using r(2) t(2) by simp
  note a = learn_ok [OF _ r(1) t(1) n, of local]
  show k: "known (p_all (learn L t local (replace_old L Os old p))) = insert t (known (p_all p) - set_option old)"
    using a(2) r(2) env by simp
  have "insert t (known (p_all p)) - set_option old = insert t (known (p_all p) - set_option old)" using old(2) by auto
  then show "pool_ok L U (learn L t local (replace_old L Os old p))" using a(1) env k by (simp add: pool_ok_def)
qed

lemma enqueueTx_new:
  assumes env: "pool_env L U Os" and inv: "pool_ok L U p" and t: "t \<in> U" "t \<notin> known (p_all p)" "pl_Sender L t = Some a"
    "\<forall>u \<in> set (txs_at (p_pending p) a). tx_Nonce u \<noteq> tx_Nonce t"
  shows "\<exists>r p'. enqueueTx L Os now t local True p = (r, p') \<and> pool_ok L U p' \<and> p_config p' = p_config p \<and>
    (r = Inl ErrReplaceUnderpriced \<and> known (p_all p') = known (p_all p) \<or> (\<exists>b. r = Inr b) \<and> t \<in> known (p_all p'))"
proof -
  have pi: "pool_inv L U (known (p_all p)) {} {} p" using inv by (simp add: pool_ok_def)
  note I = pool_inv_lists [OF pi]
  have sa: "sender L t = a" using t(3) by (rule sender_Some)
  let ?l = "list_at False a (p_queue p)"
  obtain ins old l where add: "tl_Add (pl_Cost L) t (pc_PriceBump (p_config p)) ?l = ((ins, old), l)"
    by (cases "tl_Add (pl_Cost L) t (pc_PriceBump (p_config p)) ?l"; cases "fst (tl_Add (pl_Cost L) t (pc_PriceBump (p_config p)) ?l)") auto
  note A = tl_Add_set [OF list_at_ok(1) [OF I(2)] add] and at = list_at_ok(2) [OF I(2), of a]
  show ?thesis
  proof (cases ins)
    case False
    have "set (txs_at (p_queue p) a) - set (sm_txs (tl_txs l)) = {}" using A(2) False at by simp
    then have q: "pool_ok L U (put_queue a l p)" using pool_inv_shrink_queue [OF pi A(1), of a] A(2) False at by (simp add: pool_ok_def)
    have "enqueueTx L Os now t local True p = (Inl ErrReplaceUnderpriced, put_queue a l p)"
      using add False by (simp add: enqueueTx_def sa put_queue_def Let_def)
    then show ?thesis using q by simp
  next
    case True
    have set: "set (sm_txs (tl_txs l)) = insert t (set (txs_at (p_queue p) a) - set_option old)" and os: "set_option old \<subseteq> set (txs_at (p_queue p) a)"
      using tl_Add_replaces [OF list_at_ok(1) [OF I(2)] add True] at by simp_all
    have held: "set (txs_at (p_queue p) a) \<subseteq> known (p_all p)" using I(5) by (auto simp: held_def)
    have ne: "t \<notin> set (txs_at (p_queue p) a)" using held t(2) by blast
    have new: "pool_inv L U (insert t (known (p_all p))) {t} {} p" using pi parts_new [OF _ t(2)] by (auto simp: pool_inv_def)
    have "pool_inv L U (insert t (known (p_all p))) (({t} \<union> set (txs_at (p_queue p) a)) - set (sm_txs (tl_txs l))) {} (put_queue a l p)"
    proof (rule pool_inv_put_queue [OF new A(1)])
      show "\<forall>t \<in> set (sm_txs (tl_txs l)). \<forall>u \<in> set (txs_at (p_pending p) a). tx_Nonce t \<noteq> tx_Nonce u"
        using t(4) I(3) [of _ a] unfolding set by (metis Diff_iff insert_iff)
      show "\<forall>u \<in> set (sm_txs (tl_txs l)). u \<in> U \<and> pl_Sender L u = Some a" using t(1,3) I(4) [of _ a] unfolding set by (metis Diff_iff insert_iff)
      show "set (sm_txs (tl_txs l)) \<subseteq> set (txs_at (p_queue p) a) \<union> {t}" unfolding set by blast
    qed
    moreover have "({t} \<union> set (txs_at (p_queue p) a)) - set (sm_txs (tl_txs l)) = set_option old" using set os ne by auto
    ultimately have q: "pool_inv L U (insert t (known (p_all (put_queue a l p)))) (set_option old) {} (put_queue a l p)" by simp
    have o: "set_option old \<subseteq> U" "t \<notin> set_option old" using os I(4) [of _ a] ne by auto
    note s = settle_new [OF env q t(1) _ o, of local]
    define p' where "p' = snd (enqueueTx L Os now t local True p)"
    have e: "enqueueTx L Os now t local True p = (Inr (old \<noteq> None), p')"
      using add True by (simp add: enqueueTx_def sa p'_def Let_def)
    have f: "p_all p' = p_all (learn L t local (replace_old L Os old (put_queue a l p)))"
        "p_pending p' = p_pending (learn L t local (replace_old L Os old (put_queue a l p)))"
        "p_queue p' = p_queue (learn L t local (replace_old L Os old (put_queue a l p)))"
        "p_priced p' = p_priced (learn L t local (replace_old L Os old (put_queue a l p)))" "p_config p' = p_config p"
      using add True by (cases old; simp add: p'_def enqueueTx_def sa put_queue_def replace_old_def learn_def the_removed_def forget_def Let_def)+
    have "pool_ok L U p'" using s(1) t(2) f by (simp add: pool_ok_def pool_inv_def)
    moreover have "t \<in> known (p_all p')" using s(2) t(2) f(1) by simp
    ultimately show ?thesis using e f(5) by auto
  qed
qed

lemma pool_ok_other:
  assumes "pool_ok L U p" "p_all p' = p_all p" "p_pending p' = p_pending p" "p_queue p' = p_queue p" "p_priced p' = p_priced p"
  shows "pool_ok L U p'"
  using assms by (simp add: pool_ok_def pool_inv_def)

lemma replace_pending_ok:
  assumes env: "pool_env L U Os" and inv: "pool_ok L U p" and t: "t \<in> U" "t \<notin> known (p_all p)" "pl_Sender L t = Some a"
    and l0: "map_of (p_pending p) a = Some l0" "tl_Overlaps t l0"
  shows "\<exists>r p'. replace_pending L Os now t local l0 p = (r, p') \<and> pool_ok L U p' \<and> p_config p' = p_config p \<and>
    (r = Inl ErrReplaceUnderpriced \<and> known (p_all p') = known (p_all p) \<or> (\<exists>b. r = Inr b) \<and> t \<in> known (p_all p'))"
proof -
  have pi: "pool_inv L U (known (p_all p)) {} {} p" using inv by (simp add: pool_ok_def)
  note I = pool_inv_lists [OF pi]
  have sa: "sender L t = a" using t(3) by (rule sender_Some)
  have lo: "tl_ok (pl_Cost L) True l0" and at: "txs_at (p_pending p) a = sm_txs (tl_txs l0)" using lists_ok_at [OF I(1) l0(1)] by auto
  obtain ins old l where add: "tl_Add (pl_Cost L) t (pc_PriceBump (p_config p)) l0 = ((ins, old), l)"
    by (cases "tl_Add (pl_Cost L) t (pc_PriceBump (p_config p)) l0"; cases "fst (tl_Add (pl_Cost L) t (pc_PriceBump (p_config p)) l0)") auto
  note A = tl_Add_set [OF lo add]
  obtain u where u: "u \<in> set (txs_at (p_pending p) a)" "tx_Nonce u = tx_Nonce t"
    using l0(2) unfolding tl_Overlaps_def sm_Get_txs [OF tl_okD(2) [OF lo]] at find_None_iff by blast
  show ?thesis
  proof (cases ins)
    case False
    have "set (txs_at (p_pending p) a) - set (sm_txs (tl_txs l)) = {}" using A(2) False at by simp
    then have q: "pool_ok L U (put_pending a l p)" using pool_inv_shrink_pending [OF pi A(1), of a] A(2) False at by (simp add: pool_ok_def)
    have "replace_pending L Os now t local l0 p = (Inl ErrReplaceUnderpriced, put_pending a l p)"
      using add False by (simp add: replace_pending_def sa put_pending_def Let_def)
    then show ?thesis using q by simp
  next
    case True
    have set: "set (sm_txs (tl_txs l)) = insert t (set (txs_at (p_pending p) a) - set_option old)" and os: "set_option old \<subseteq> set (txs_at (p_pending p) a)"
      using tl_Add_replaces [OF lo add True] at by simp_all
    have "set (txs_at (p_pending p) a) \<subseteq> known (p_all p)" using I(5) by (auto simp: held_def)
    then have ne: "t \<notin> set (txs_at (p_pending p) a)" using t(2) by blast
    have new: "pool_inv L U (insert t (known (p_all p))) {t} {} p" using pi parts_new [OF _ t(2)] by (auto simp: pool_inv_def)
    have "pool_inv L U (insert t (known (p_all p))) (({t} \<union> set (txs_at (p_pending p) a)) - set (sm_txs (tl_txs l))) {} (put_pending a l p)"
    proof (rule pool_inv_put_pending [OF new A(1)])
      show "\<forall>t \<in> set (sm_txs (tl_txs l)). \<forall>u \<in> set (txs_at (p_queue p) a). tx_Nonce t \<noteq> tx_Nonce u"
        using u I(3) [of _ a] unfolding set by (metis Diff_iff insert_iff)
      show "\<forall>u \<in> set (sm_txs (tl_txs l)). u \<in> U \<and> pl_Sender L u = Some a" using t(1,3) I(4) [of _ a] unfolding set by (metis Diff_iff insert_iff)
      show "set (sm_txs (tl_txs l)) \<subseteq> set (txs_at (p_pending p) a) \<union> {t}" unfolding set by blast
    qed
    moreover have "({t} \<union> set (txs_at (p_pending p) a)) - set (sm_txs (tl_txs l)) = set_option old" using set os ne by auto
    ultimately have q: "pool_inv L U (insert t (known (p_all (put_pending a l p)))) (set_option old) {} (put_pending a l p)" by simp
    have o: "set_option old \<subseteq> U" "t \<notin> set_option old" using os I(4) [of _ a] ne by auto
    note s = settle_new [OF env q t(1) _ o, of local]
    define p' where "p' = snd (replace_pending L Os now t local l0 p)"
    have e: "replace_pending L Os now t local l0 p = (Inr (old \<noteq> None), p')"
      using add True by (simp add: replace_pending_def sa p'_def Let_def)
    have f: "p_all p' = p_all (learn L t local (replace_old L Os old (put_pending a l p)))"
        "p_pending p' = p_pending (learn L t local (replace_old L Os old (put_pending a l p)))"
        "p_queue p' = p_queue (learn L t local (replace_old L Os old (put_pending a l p)))"
        "p_priced p' = p_priced (learn L t local (replace_old L Os old (put_pending a l p)))" "p_config p' = p_config p"
      using add True by (cases old; cases "p_journal p"; simp add: p'_def replace_pending_def sa put_pending_def replace_old_def learn_def the_removed_def forget_def journalTx_def Let_def)+
    have "pool_ok L U p'" using pool_ok_other [OF s(1)] t(2) f by simp
    moreover have "t \<in> known (p_all p')" using s(2) t(2) f(1) by simp
    ultimately show ?thesis using e f(5) by auto
  qed
qed

lemma mark_local_ok:
  assumes "pool_env L U Os" "pool_ok L U p"
  shows "pool_ok L U (mark_local L Os a local p)" "known (p_all (mark_local L Os a local p)) = known (p_all p)" "p_config (mark_local L Os a local p) = p_config p"
proof -
  have lk: "lk_ok L U (p_all p)" and u: "universe L U" and c: "pr_covers U (remotes_set (p_all p)) (p_priced p)" and v: "table_visit_ok (o_table Os)"
    using assms by (auto simp: pool_ok_def pool_inv_def orders_ok_def)
  obtain n t where m: "lk_RemoteToLocals (o_table Os) L (as_add a (p_locals p)) (p_all p) = (n, t)" by fastforce
  note r = lk_RemoteToLocals_ok [OF lk u v m]
  let ?p = "p\<lparr>p_locals := as_add a (p_locals p), p_all := t\<rparr>"
  have inv: "pool_inv L U (known (p_all p)) {} {} ?p"
    using assms(2) r pr_covers_mono [OF c r(3)] by (simp add: pool_ok_def pool_inv_def)
  have "pool_inv L U (known (p_all p)) {} {} (the_removed L Os n ?p)" by (rule pool_inv_removed [OF assms(1) inv])
  then have "pool_ok L U (the_removed L Os n ?p)" using r(2) by (simp add: pool_ok_def the_removed_def)
  then show "pool_ok L U (mark_local L Os a local p)" "known (p_all (mark_local L Os a local p)) = known (p_all p)" "p_config (mark_local L Os a local p) = p_config p"
    using assms(2) m r(2) by (simp_all add: mark_local_def the_removed_def Let_def)
qed

lemma add_queued_ok:
  assumes "pool_env L U Os" "pool_ok L U p" "t \<in> U" "t \<notin> known (p_all p)" "pl_Sender L t = Some a"
    "\<forall>u \<in> set (txs_at (p_pending p) a). tx_Nonce u \<noteq> tx_Nonce t"
  shows "\<exists>r p'. add_queued L Os now t local isLocal p = (r, p') \<and> pool_ok L U p' \<and> p_config p' = p_config p \<and>
    (r = Inl ErrReplaceUnderpriced \<and> known (p_all p') = known (p_all p) \<or> (\<exists>b. r = Inr b) \<and> t \<in> known (p_all p'))"
proof -
  obtain r p1 where p1: "enqueueTx L Os now t isLocal True p = (r, p1)" "pool_ok L U p1" "p_config p1 = p_config p"
      "r = Inl ErrReplaceUnderpriced \<and> known (p_all p1) = known (p_all p) \<or> (\<exists>b. r = Inr b) \<and> t \<in> known (p_all p1)"
    using enqueueTx_new [OF assms] by blast
  have j: "p_all (journalTx b t q) = p_all q" "p_pending (journalTx b t q) = p_pending q" "p_queue (journalTx b t q) = p_queue q"
      "p_priced (journalTx b t q) = p_priced q" "p_config (journalTx b t q) = p_config q" for b q
    by (simp_all add: journalTx_def split: option.splits)
  note m = mark_local_ok [OF assms(1) p1(2), of "sender L t" local]
  have "pool_ok L U (journalTx (sender L t) t (mark_local L Os (sender L t) local p1))" by (rule pool_ok_other [OF m(1)]) (simp_all add: j)
  then show ?thesis using p1 m(2,3) j by (cases r) (auto simp: add_queued_def)
qed

lemma discard_slots:
  assumes "lk_ok L U t" "universe L U" "word_of_int (int (lk_Count t) + numSlots L tx) > (limit :: u64)"
  shows "0 \<le> lk_slots t - sint limit + numSlots L tx"
proof -
  let ?x = "int (lk_Count t) + numSlots L tx"
  have "0 \<le> ?x" by (simp add: numSlots_def)
  moreover have "uint (word_of_int x :: u64) \<le> x" if "0 \<le> x" for x using that by (simp add: uint_word_of_int zmod_le_nonneg_dividend)
  ultimately have "uint (word_of_int ?x :: u64) \<le> ?x" by blast
  moreover have "uint limit < uint (word_of_int ?x :: u64)" using assms(3) by (simp add: word_less_def)
  moreover have "sint limit \<le> uint limit"
  proof -
    have "sint limit = signed_take_bit 63 (uint limit)" by (simp add: sint_uint)
    moreover have "- (2 ^ 63) \<le> (0 :: int)" by simp
    then have "- (2 ^ 63) \<le> uint limit" using uint_ge_0 [of limit] by (rule order_trans)
    ultimately show ?thesis by (simp only: signed_take_bit_int_less_eq_self_iff)
  qed
  ultimately show ?thesis using known_slots [OF assms(1,2)] by linarith
qed

lemma make_room_ok:
  assumes "pool_env L U Os" "pool_ok L U p"
  shows "\<exists>err p'. make_room L Os now t isLocal p = Inr (err, p') \<and> pool_ok L U p' \<and> p_config p' = p_config p \<and>
    known (p_all p') \<subseteq> known (p_all p) \<and> (err \<noteq> None \<longrightarrow> known (p_all p') = known (p_all p))"
proof -
  have lk: "lk_ok L U (p_all p)" and u: "universe L U" and c: "pr_covers U (remotes_set (p_all p)) (p_priced p)"
    using assms by (auto simp: pool_ok_def pool_inv_def)
  let ?limit = "pc_GlobalSlots (p_config p) + pc_GlobalQueue (p_config p)"
  show ?thesis
  proof (cases "word_of_int (int (lk_Count (p_all p)) + numSlots L t) > ?limit")
    case False
    then show ?thesis using assms(2) by (simp add: make_room_def Let_def)
  next
    case True
    obtain under l where un: "(if isLocal then Inr (False, p_priced p) else pr_Underpriced L (p_all p) t (p_priced p)) = Inr (under, l)"
        "pr_covers U (remotes_set (p_all p)) l"
      using pr_Underpriced_ok [OF lk u c, of t] c by (cases isLocal) auto
    let ?p = "p\<lparr>p_priced := l\<rparr>"
    have p1: "pool_ok L U ?p" using assms(2) un(2) by (simp add: pool_ok_def pool_inv_def)
    obtain drops ok l2 where d: "pr_Discard L (p_all p) (lk_slots (p_all p) - sint ?limit + numSlots L t) isLocal l = Inr ((drops, ok), l2)"
        "pr_covers U (remotes_set (p_all p) - set drops) l2" "set drops \<subseteq> remotes_set (p_all p)"
      using pr_Discard_ok [OF lk u un(2) discard_slots [OF lk u True], of isLocal] by blast
    let ?q = "p\<lparr>p_priced := l2\<rparr>"
    have q: "pool_inv L U (known (p_all ?q)) {} (set drops) ?q" using assms(2) d(2) by (simp add: pool_ok_def pool_inv_def)
    have "set drops \<subseteq> U" using d(3) lk by (auto simp: lk_ok_def)
    then obtain r where r: "remove_txs L Os now drops False ?q = Inr r" "pool_inv L U (known (p_all r)) {} (set drops) r"
        "known (p_all r) = known (p_all p) - set drops" "p_config r = p_config p" using remove_txs_ok [OF assms(1) q, of drops now False] by auto
    have rok: "pool_ok L U r" using r(3) by (intro pool_inv_settled [OF r(2)]) auto
    have full: "pool_ok L U ?q" if "drops = []" using q that by (simp add: pool_ok_def)
    have nd: "drops = []" if "\<not> ok" using d(1) that by (auto simp: pr_Discard_def split: if_splits dest!: bind_res_Inr_iff [THEN iffD1])
    show ?thesis
    proof (cases "under \<or> (\<not> isLocal \<and> \<not> ok)")
      case True
      then show ?thesis using \<open>word_of_int (int (lk_Count (p_all p)) + numSlots L t) > ?limit\<close> un(1) d(1) p1 full nd by (auto simp: make_room_def Let_def)
    next
      case False
      have "make_room L Os now t isLocal p = Inr (None, r)"
        using True un(1) d(1) r(1) False by (auto simp: make_room_def Let_def)
      then show ?thesis using rok r(3,4) by auto
    qed
  qed
qed

text \<open>
  The outcome of \<open>add\<close>: an error, or the transaction is in the pool. An error other than that of a
  cheap replacement leaves the content of the pool as it was.
\<close>

lemma validateTx_sender: "validateTx L C t local p = Inr x \<Longrightarrow> \<exists>a. pl_Sender L t = Some a"
  by (auto simp: validateTx_def split: if_splits option.splits)

lemma validateTx_no_panic: "validateTx L C t local p \<noteq> Inl (Panic e)"
proof (cases "IntrinsicGas (ch_params C) (tx_Data t) (tx_AccessList t) (tx_To t = None)")
  case (Inl f)
  then have "f \<noteq> Panic e" using IntrinsicGas_no_panic by metis
  then show ?thesis using Inl by (simp add: validateTx_def Let_def split: option.splits)
next
  case (Inr g)
  then show ?thesis by (simp add: validateTx_def Let_def split: option.splits)
qed

lemma add_ok:
  assumes "pool_env L U Os" "pool_ok L U p" "t \<in> U"
  shows "\<exists>r p'. add L C Os now t local p = Inr (r, p') \<and> pool_ok L U p' \<and> p_config p' = p_config p \<and>
    (case r of Inl e \<Rightarrow> e = ErrReplaceUnderpriced \<or> known (p_all p') = known (p_all p) | Inr _ \<Rightarrow> t \<in> known (p_all p'))"
proof -
  have lk: "lk_ok L U (p_all p)" and u: "universe L U" using assms by (auto simp: pool_ok_def pool_inv_def)
  show ?thesis
  proof (cases "lk_Get (pl_Hash L t) (p_all p)")
    case (Some x)
    then show ?thesis using assms(2) by (simp add: add_def)
  next
    case None
    then have fresh: "t \<notin> known (p_all p)" using lk_Get_None [OF lk u] by auto
    let ?loc = "local \<or> as_containsTx L (p_locals p) t"
    show ?thesis
    proof (cases "validateTx L C t ?loc p")
      case (Inl f)
      then obtain e where "f = Err e" using validateTx_no_panic by (cases f) blast+
      then show ?thesis using None Inl assms(2) by (simp add: add_def)
    next
      case (Inr x)
      obtain a where a: "pl_Sender L t = Some a" using validateTx_sender [OF Inr] by blast
      obtain err q where q: "make_room L Os now t ?loc p = Inr (err, q)" "pool_ok L U q" "p_config q = p_config p"
          "known (p_all q) \<subseteq> known (p_all p)" "err \<noteq> None \<longrightarrow> known (p_all q) = known (p_all p)"
        using make_room_ok [OF assms(1,2), of now t ?loc] by blast
      show ?thesis
      proof (cases err)
        case (Some e)
        then show ?thesis using None Inr q by (simp add: add_def)
      next
        case ok: None
        have f: "t \<notin> known (p_all q)" using fresh q(4) by blast
        define R where "R = (case map_of (p_pending q) a of None \<Rightarrow> add_queued L Os now t local ?loc q
             | Some l \<Rightarrow> if tl_Overlaps t l then replace_pending L Os now t ?loc l q else add_queued L Os now t local ?loc q)"
        have "add L C Os now t local p = Inr R"
          using None Inr q(1) ok by (simp add: add_def sender_Some [OF a] R_def Let_def)
        moreover have "\<exists>r p'. R = (r, p') \<and> pool_ok L U p' \<and> p_config p' = p_config q \<and>
          (r = Inl ErrReplaceUnderpriced \<and> known (p_all p') = known (p_all q) \<or> (\<exists>b. r = Inr b) \<and> t \<in> known (p_all p'))"
        proof (cases "\<exists>l. map_of (p_pending q) a = Some l \<and> tl_Overlaps t l")
          case True
          then show ?thesis using replace_pending_ok [OF assms(1) q(2) assms(3) f a] by (auto simp: R_def)
        next
          case False
          have "\<forall>u \<in> set (txs_at (p_pending q) a). tx_Nonce u \<noteq> tx_Nonce t"
          proof (cases "map_of (p_pending q) a")
            case (Some l)
            have lo: "tl_ok (pl_Cost L) True l" "txs_at (p_pending q) a = sm_txs (tl_txs l)"
              using lists_ok_at [OF _ Some] q(2) by (auto simp: pool_ok_def pool_inv_def parts_def)
            have "find (\<lambda>u. tx_Nonce u = tx_Nonce t) (sm_txs (tl_txs l)) = None"
              using False Some by (auto simp: tl_Overlaps_def sm_Get_txs [OF tl_okD(2) [OF lo(1)]])
            then show ?thesis using lo(2) by (auto simp: find_None_iff)
          qed (simp add: txs_at_def)
          then show ?thesis using add_queued_ok [OF assms(1) q(2) assms(3) f a] False by (auto simp: R_def split: option.splits)
        qed
        ultimately show ?thesis using q(3) by (fastforce split: sum.splits)
      qed
    qed
  qed
qed

section \<open>Promotion, demotion and limits\<close>

text \<open>A list of the queue loses \<open>ts\<close>, which are then forgotten.\<close>

lemma distinct_of_nonces: "distinct (map tx_Nonce ts) \<Longrightarrow> distinct ts"
  by (simp add: distinct_map)

lemma tl_distinct: "tl_ok cost strict l \<Longrightarrow> distinct (map tx_Nonce (sm_txs (tl_txs l)))"
proof -
  assume "tl_ok cost strict l"
  then have "sorted_wrt (<) (map tx_Nonce (sm_txs (tl_txs l)))" using tl_by_nonce by (simp add: sorted_wrt_map)
  then show ?thesis by (simp add: strict_sorted_iff)
qed

lemma queue_drop:
  assumes "pool_env L U Os" "pool_ok L U p" "map_of (p_queue p) a = Some l" "tl_ok (pl_Cost L) False l'"
    "set (sm_txs (tl_txs l')) = set (sm_txs (tl_txs l)) - set ts" "set ts \<subseteq> set (sm_txs (tl_txs l))" "distinct ts"
  shows "\<exists>t. forget_all L (map Some ts) (put_queue a l' p) = Inr ((put_queue a l' p)\<lparr>p_all := t\<rparr>) \<and> pool_ok L U ((put_queue a l' p)\<lparr>p_all := t\<rparr>)"
proof -
  have pi: "pool_inv L U (known (p_all p)) {} {} p" using assms(2) by (simp add: pool_ok_def)
  note I = pool_inv_lists [OF pi]
  have at: "txs_at (p_queue p) a = sm_txs (tl_txs l)" using lists_ok_at [OF I(2) assms(3)] by simp
  have "{} \<union> (set (txs_at (p_queue p) a) - set (sm_txs (tl_txs l'))) = set ts" using at assms(5,6) by auto
  then have x: "pool_inv L U (known (p_all p)) (set ts) {} (put_queue a l' p)"
    using pool_inv_shrink_queue [OF pi assms(4), of a] at assms(5) by simp
  have "set ts \<subseteq> set (txs_at (p_queue p) a)" using assms(6) at by simp
  then have "set ts \<subseteq> U" using I(4) [of _ a] by blast
  then obtain t where t: "forget_all L (map Some ts) (put_queue a l' p) = Inr ((put_queue a l' p)\<lparr>p_all := t\<rparr>)"
      "pool_inv L U (known (p_all p) - set ts) (set ts - set ts) {} ((put_queue a l' p)\<lparr>p_all := t\<rparr>)"
      "known t = known (p_all (put_queue a l' p)) - set ts"
    using forget_all_ok [OF assms(1) x subset_refl _ assms(7)] by blast
  have "pool_ok L U ((put_queue a l' p)\<lparr>p_all := t\<rparr>)" using t(2,3) by (simp add: pool_ok_def)
  then show ?thesis using t(1) by blast
qed

lemma pending_drop:
  assumes "pool_env L U Os" "pool_ok L U p" "map_of (p_pending p) a = Some l" "tl_ok (pl_Cost L) True l'"
    "set (sm_txs (tl_txs l')) \<union> set ts \<union> Y = set (sm_txs (tl_txs l))" "set (sm_txs (tl_txs l')) \<inter> (set ts \<union> Y) = {}" "set ts \<inter> Y = {}" "distinct ts"
  shows "\<exists>t. forget_all L (map Some ts) (put_pending a l' p) = Inr ((put_pending a l' p)\<lparr>p_all := t\<rparr>) \<and>
    pool_inv L U (known t) Y {} ((put_pending a l' p)\<lparr>p_all := t\<rparr>)"
proof -
  have pi: "pool_inv L U (known (p_all p)) {} {} p" using assms(2) by (simp add: pool_ok_def)
  note I = pool_inv_lists [OF pi]
  have at: "txs_at (p_pending p) a = sm_txs (tl_txs l)" using lists_ok_at [OF I(1) assms(3)] by simp
  have "{} \<union> (set (txs_at (p_pending p) a) - set (sm_txs (tl_txs l'))) = set ts \<union> Y"
    unfolding at assms(5) [symmetric] using assms(6) by auto
  moreover have "set (sm_txs (tl_txs l')) \<subseteq> set (txs_at (p_pending p) a)" unfolding at assms(5) [symmetric] by blast
  ultimately have x: "pool_inv L U (known (p_all p)) (set ts \<union> Y) {} (put_pending a l' p)"
    using pool_inv_shrink_pending [OF pi assms(4), of a] by simp
  have "set ts \<union> Y \<subseteq> set (txs_at (p_pending p) a)" unfolding at assms(5) [symmetric] by auto
  then have "set ts \<union> Y \<subseteq> U" using I(4) [of _ a] by blast
  then obtain t where t: "forget_all L (map Some ts) (put_pending a l' p) = Inr ((put_pending a l' p)\<lparr>p_all := t\<rparr>)"
      "pool_inv L U (known (p_all p) - set ts) ((set ts \<union> Y) - set ts) {} ((put_pending a l' p)\<lparr>p_all := t\<rparr>)"
      "known t = known (p_all (put_pending a l' p)) - set ts"
    using forget_all_ok [OF assms(1) x _ _ assms(8)] by blast
  have "(set ts \<union> Y) - set ts = Y" using assms(7) by blast
  then show ?thesis using t by (intro exI [of _ t]) simp
qed

lemma tl_Filter_sets:
  assumes "tl_ok cost strict l" "\<forall>i. visit_ok (its i)" "tl_Filter its cost c g l = ((drops, invalids), l')"
  shows "tl_ok cost strict l'" "set (sm_txs (tl_txs l')) \<union> set drops \<union> set invalids = set (sm_txs (tl_txs l))"
    "set (sm_txs (tl_txs l')) \<inter> (set drops \<union> set invalids) = {}" "set drops \<inter> set invalids = {}" "distinct drops" "distinct (map tx_Nonce invalids)"
    "\<not> strict \<Longrightarrow> invalids = []"
proof -
  let ?over = "\<lambda>t. tx_Gas t > g \<or> cost t > c" and ?xs = "sm_txs (tl_txs l)"
  note F = tl_Filter_ok [OF assms]
  show "tl_ok cost strict l'" by (rule F(1))
  obtain r i where ri: "plain_Filter strict ?over ?xs = ((r, i), sm_txs (tl_txs l'))" "mset drops = mset r" "mset invalids = mset i" using F(2) by blast
  have sets: "set drops = set r" "set invalids = set i" by (rule mset_eq_setD [OF ri(2)], rule mset_eq_setD [OF ri(3)])
  have dn: "distinct (map tx_Nonce ?xs)" by (rule tl_distinct [OF assms(1)])
  have td: "takeWhile (\<lambda>t. \<not> ?over t) ?xs @ dropWhile (\<lambda>t. \<not> ?over t) ?xs = ?xs" by (rule takeWhile_dropWhile_id)
  have "distinct (takeWhile (\<lambda>t. \<not> ?over t) ?xs @ dropWhile (\<lambda>t. \<not> ?over t) ?xs)" unfolding td by (rule distinct_of_nonces [OF dn])
  then have tw: "set (takeWhile (\<lambda>t. \<not> ?over t) ?xs) \<inter> set (dropWhile (\<lambda>t. \<not> ?over t) ?xs) = {}" by (simp only: distinct_append)
  have all: "set ?xs = set (takeWhile (\<lambda>t. \<not> ?over t) ?xs) \<union> set (dropWhile (\<lambda>t. \<not> ?over t) ?xs)"
    using arg_cong [OF td, of set] by (simp only: set_append)
  have tk: "\<forall>t \<in> set (takeWhile (\<lambda>t. \<not> ?over t) ?xs). \<not> ?over t" by (auto dest: set_takeWhileD)
  have r: "set r = {t \<in> set ?xs. ?over t}" using ri(1) by (auto simp: plain_Filter_def split: if_splits)
  have eqs: "sm_txs (tl_txs l') = (if strict then takeWhile (\<lambda>t. \<not> ?over t) ?xs else filter (\<lambda>t. \<not> ?over t) ?xs)"
      "i = (if strict then filter (\<lambda>t. \<not> ?over t) (dropWhile (\<lambda>t. \<not> ?over t) ?xs) else [])"
    using ri(1) by (auto simp: plain_Filter_def split: if_splits)
  have il: "set i = (if strict then {t \<in> set (dropWhile (\<lambda>t. \<not> ?over t) ?xs). \<not> ?over t} else {})"
      "set (sm_txs (tl_txs l')) = (if strict then set (takeWhile (\<lambda>t. \<not> ?over t) ?xs) else {t \<in> set ?xs. \<not> ?over t})"
    unfolding eqs by simp_all
  let ?tk = "set (takeWhile (\<lambda>t. \<not> ?over t) ?xs)" and ?dr = "set (dropWhile (\<lambda>t. \<not> ?over t) ?xs)"
  show "set (sm_txs (tl_txs l')) \<union> set drops \<union> set invalids = set ?xs"
  proof (cases strict)
    case True
    have "?tk \<union> {t \<in> ?tk \<union> ?dr. ?over t} \<union> {t \<in> ?dr. \<not> ?over t} = ?tk \<union> ?dr" by blast
    then show ?thesis unfolding sets r il all using True by simp
  next
    case False
    have "{t \<in> set ?xs. \<not> ?over t} \<union> {t \<in> set ?xs. ?over t} = set ?xs" by blast
    then show ?thesis unfolding sets r il using False by simp
  qed
  show "set (sm_txs (tl_txs l')) \<inter> (set drops \<union> set invalids) = {}"
  proof (cases strict)
    case True
    have "?tk \<inter> ({t \<in> set ?xs. ?over t} \<union> {t \<in> ?dr. \<not> ?over t}) = {}" using tw tk by blast
    then show ?thesis unfolding sets r il using True by simp
  next
    case False
    have "{t \<in> set ?xs. \<not> ?over t} \<inter> {t \<in> set ?xs. ?over t} = {}" by blast
    then show ?thesis unfolding sets r il using False by simp
  qed
  show "set drops \<inter> set invalids = {}" unfolding sets r il by (cases strict) auto
  have "distinct r" using ri(1) distinct_of_nonces [OF dn] by (auto simp: plain_Filter_def split: if_splits)
  then show "distinct drops" using ri(2) by (metis mset_eq_imp_distinct_iff)
  have "distinct (map tx_Nonce (takeWhile (\<lambda>t. \<not> ?over t) ?xs @ dropWhile (\<lambda>t. \<not> ?over t) ?xs))" unfolding td by (rule dn)
  then have "distinct (map tx_Nonce (dropWhile (\<lambda>t. \<not> ?over t) ?xs))" by (simp only: map_append distinct_append)
  then have "distinct (map tx_Nonce i)" using ri(1) by (auto simp: plain_Filter_def distinct_map_filter split: if_splits)
  then show "distinct (map tx_Nonce invalids)" using ri(3) by (metis mset_eq_imp_distinct_iff mset_map)
  show "\<not> strict \<Longrightarrow> invalids = []" using ri(1,3) by (simp add: plain_Filter_def)
qed

lemma pool_ok_at:
  assumes "pool_ok L U p"
  shows "map_of (p_queue p) a = Some l \<Longrightarrow> tl_ok (pl_Cost L) False l \<and> txs_at (p_queue p) a = sm_txs (tl_txs l)"
    "map_of (p_pending p) a = Some l \<Longrightarrow> tl_ok (pl_Cost L) True l \<and> txs_at (p_pending p) a = sm_txs (tl_txs l)"
  using assms lists_ok_at by (auto simp: pool_ok_def pool_inv_def parts_def)

lemma queue_of_put [simp]: "map_of (p_queue (put_queue a l p)) a = Some l" "map_of (p_pending (put_pending a l p)) a = Some l"
  by (simp_all add: put_queue_def put_pending_def update_conv)

text \<open>The executable run of a queued list moves to the pending list.\<close>

lemma promote_run:
  assumes "pool_ok L U p" "map_of (p_queue p) a = Some l" "tl_ok (pl_Cost L) False l'" "sm_txs (tl_txs l) = run @ rest" "sm_txs (tl_txs l') = rest"
  shows "\<exists>p'. promote_all L Os now a (map Some run) promoted (put_queue a l' (p\<lparr>p_noncer := nn\<rparr>)) = Inr (promoted @ run, p') \<and>
    pool_ok L U p' \<and> map_of (p_queue p') a = Some l' \<and> p_config p' = p_config p"
proof -
  let ?p = "p\<lparr>p_noncer := nn\<rparr>"
  have ok: "pool_ok L U ?p" using assms(1) by (simp add: pool_ok_def pool_inv_def)
  then have pi: "pool_inv L U (known (p_all ?p)) {} {} ?p" by (simp add: pool_ok_def)
  note I = pool_inv_lists [OF pi]
  have lo: "tl_ok (pl_Cost L) False l" and at: "txs_at (p_queue ?p) a = sm_txs (tl_txs l)" using pool_ok_at(1) [OF ok, of a l] assms(2) by auto
  have dn: "distinct (map tx_Nonce (run @ rest))" using tl_distinct [OF lo] assms(4) by simp
  then have dr: "set run \<inter> set rest = {}" using distinct_of_nonces [OF dn] by (simp only: distinct_append)
  have "{} \<union> (set (txs_at (p_queue ?p) a) - set (sm_txs (tl_txs l'))) = set run" unfolding at assms(4,5) using dr by auto
  moreover have "set (sm_txs (tl_txs l')) \<subseteq> set (txs_at (p_queue ?p) a)" unfolding at assms(4,5) by simp
  ultimately have x: "pool_inv L U (known (p_all ?p)) (set run) {} (put_queue a l' ?p)" using pool_inv_shrink_queue [OF pi assms(3), of a] by simp
  have "set run \<subseteq> set (txs_at (p_queue ?p) a)" unfolding at assms(4) by simp
  then have s: "\<forall>t \<in> set run. t \<in> U \<and> pl_Sender L t = Some a" using I(4) [of _ a] by blast
  have pn: "\<forall>t \<in> set run. \<forall>u \<in> set (txs_at (p_pending ?p) a). tx_Nonce u \<noteq> tx_Nonce t" using I(3) [of _ a] \<open>set run \<subseteq> set (txs_at (p_queue ?p) a)\<close> by blast
  have "\<forall>t \<in> set run. \<forall>u \<in> set rest. tx_Nonce u \<noteq> tx_Nonce t" using dn by (auto simp: image_iff)
  then have free: "\<forall>t \<in> set run. (\<forall>u \<in> set (txs_at (p_queue (put_queue a l' ?p)) a). tx_Nonce u \<noteq> tx_Nonce t) \<and>
      (\<forall>u \<in> set (txs_at (p_pending (put_queue a l' ?p)) a). tx_Nonce u \<noteq> tx_Nonce t)" using pn assms(5) by simp
  have "distinct (map tx_Nonce run)" using dn by simp
  from promote_all_ok [OF x subset_refl s this free, of Os now promoted]
  obtain p' where p': "promote_all L Os now a (map Some run) promoted (put_queue a l' ?p) = Inr (promoted @ run, p')"
      "pool_inv L U (known (p_all ?p)) (set run - set run) {} p'" "p_queue p' = p_queue (put_queue a l' ?p)" "p_all p' = p_all (put_queue a l' ?p)"
      "p_config p' = p_config (put_queue a l' ?p)" by blast
  have "pool_ok L U p'" using p'(2,4) by (simp add: pool_ok_def)
  then show ?thesis using p'(1,3,5) by (intro exI [of _ p']) simp
qed

lemma pool_ok_removed: "pool_env L U Os \<Longrightarrow> pool_ok L U p \<Longrightarrow> pool_ok L U (the_removed L Os n p)"
  using pool_inv_removed [of L U Os "known (p_all p)" "{}" "{}" p n] by (simp add: pool_ok_def the_removed_def)

lemma promote_account_ok:
  assumes env: "pool_env L U Os" and ok: "pool_ok L U p" and cfg: "0 \<le> sint (pc_AccountQueue (p_config p))"
  shows "\<exists>promoted' p'. promote_account L Os now a promoted p = Inr (promoted', p') \<and> pool_ok L U p' \<and> p_config p' = p_config p"
proof (cases "map_of (p_queue p) a")
  case None
  then show ?thesis using ok by (simp add: promote_account_def)
next
  case (Some l)
  have v: "\<forall>i. visit_ok (o_list Os i)" using env by (simp add: orders_ok_def)
  have lo: "tl_ok (pl_Cost L) False l" using pool_ok_at(1) [OF ok Some] by simp
  let ?n = "p_GetNonce p a"
  let ?fw = "filter (\<lambda>t. tx_Nonce t < ?n) (sm_txs (tl_txs l))"
  obtain l1 where l1: "tl_Forward ?n l = Inr (map Some ?fw, l1)" "tl_ok (pl_Cost L) False l1"
      "sm_txs (tl_txs l1) = filter (\<lambda>t. \<not> tx_Nonce t < ?n) (sm_txs (tl_txs l))" using tl_Forward_ok [OF lo] by blast
  have fw: "set (sm_txs (tl_txs l1)) = set (sm_txs (tl_txs l)) - set ?fw" "set ?fw \<subseteq> set (sm_txs (tl_txs l))" "distinct ?fw"
    unfolding l1(3) using distinct_of_nonces [OF tl_distinct [OF lo]] by auto
  obtain t1 where t1: "forget_all L (map Some ?fw) (put_queue a l1 p) = Inr ((put_queue a l1 p)\<lparr>p_all := t1\<rparr>)"
      "pool_ok L U ((put_queue a l1 p)\<lparr>p_all := t1\<rparr>)" using queue_drop [OF env ok Some l1(2) fw] by blast
  define p1 where "p1 = (put_queue a l1 p)\<lparr>p_all := t1\<rparr>"
  have p1: "pool_ok L U p1" "map_of (p_queue p1) a = Some l1" "p_config p1 = p_config p" using t1(2) by (simp_all add: p1_def)
  obtain drops inv l2 where fl: "tl_Filter (o_list Os) (pl_Cost L) (p_GetBalance p1 a) (p_maxGas p1) l1 = ((drops, inv), l2)"
    by (cases "tl_Filter (o_list Os) (pl_Cost L) (p_GetBalance p1 a) (p_maxGas p1) l1"; cases "fst (tl_Filter (o_list Os) (pl_Cost L) (p_GetBalance p1 a) (p_maxGas p1) l1)") auto
  note F = tl_Filter_sets [OF l1(2) v fl]
  have dp: "set (sm_txs (tl_txs l2)) = set (sm_txs (tl_txs l1)) - set drops" "set drops \<subseteq> set (sm_txs (tl_txs l1))" using F(2,3,7) by auto
  obtain t2 where t2: "forget_all L (map Some drops) (put_queue a l2 p1) = Inr ((put_queue a l2 p1)\<lparr>p_all := t2\<rparr>)"
      "pool_ok L U ((put_queue a l2 p1)\<lparr>p_all := t2\<rparr>)" using queue_drop [OF env p1(1,2) F(1) dp F(5)] by blast
  define p2 where "p2 = (put_queue a l2 p1)\<lparr>p_all := t2\<rparr>"
  have p2: "pool_ok L U p2" "map_of (p_queue p2) a = Some l2" "p_config p2 = p_config p" using t2(2) p1(3) by (simp_all add: p2_def)
  obtain start nn where nn: "noncer_get a (p_noncer p2) = (start, nn)" by fastforce
  obtain run rest l3 where r: "tl_Ready start l2 = Inr (map Some run, l3)" "tl_ok (pl_Cost L) False l3" "sm_txs (tl_txs l2) = run @ rest" "sm_txs (tl_txs l3) = rest"
    using tl_Ready_ok [OF F(1)] by blast
  obtain p3 where p3: "promote_all L Os now a (map Some run) promoted (put_queue a l3 (p2\<lparr>p_noncer := nn\<rparr>)) = Inr (promoted @ run, p3)"
      "pool_ok L U p3" "map_of (p_queue p3) a = Some l3" "p_config p3 = p_config p"
    using promote_run [OF p2(1,2) r(2-4), of Os now promoted nn] p2(3) by auto
  let ?m = "nat (sint (pc_AccountQueue (p_config p)))"
  have "\<exists>caps l4. (if as_contains (p_locals p3) a then Inr ([], l3) else tl_Cap ?m l3) = Inr (map Some caps, l4) \<and> tl_ok (pl_Cost L) False l4 \<and>
      set (sm_txs (tl_txs l4)) = set rest - set caps \<and> set caps \<subseteq> set rest \<and> distinct caps"
  proof (cases "as_contains (p_locals p3) a")
    case True
    then show ?thesis using r(2,4) by (intro exI [of _ "[]"] exI [of _ l3]) simp
  next
    case False
    have d: "distinct rest" using distinct_of_nonces [OF tl_distinct [OF r(2)]] r(4) by simp
    have "set (take ?m rest) \<union> set (drop ?m rest) = set rest" "set (take ?m rest) \<inter> set (drop ?m rest) = {}"
      using d by (metis append_take_drop_id set_append, metis append_take_drop_id distinct_append)
    then have "set (take ?m rest) = set rest - set (drop ?m rest)" by blast
    then show ?thesis using tl_Cap_ok [OF r(2), of ?m] False r(4) d set_drop_subset [of ?m rest] by (auto intro!: exI [of _ "rev (drop ?m rest)"])
  qed
  then obtain caps l4 where c: "(if as_contains (p_locals p3) a then Inr ([], l3) else tl_Cap ?m l3) = Inr (map Some caps, l4)" "tl_ok (pl_Cost L) False l4"
      "set (sm_txs (tl_txs l4)) = set (sm_txs (tl_txs l3)) - set caps" "set caps \<subseteq> set (sm_txs (tl_txs l3))" "distinct caps" using r(4) by auto
  obtain t4 where t4: "forget_all L (map Some caps) (put_queue a l4 p3) = Inr ((put_queue a l4 p3)\<lparr>p_all := t4\<rparr>)"
      "pool_ok L U ((put_queue a l4 p3)\<lparr>p_all := t4\<rparr>)" using queue_drop [OF env p3(2,3) c(2-5)] by blast
  define p4 where "p4 = the_removed L Os (length ?fw + length drops + length caps) ((put_queue a l4 p3)\<lparr>p_all := t4\<rparr>)"
  have p4: "pool_ok L U p4" "txs_at (p_queue p4) a = sm_txs (tl_txs l4)" "p_config p4 = p_config p"
    using pool_ok_removed [OF env t4(2)] p3(4) by (simp_all add: p4_def the_removed_def txs_at_def)
  define p5 where "p5 = (if tl_Empty l4 then p4\<lparr>p_queue := AList.delete a (p_queue p4), p_beats := AList.delete a (p_beats p4)\<rparr> else p4)"
  have "pool_ok L U p5"
    using p4(1,2) pool_inv_delete_queue [of L U "known (p_all p4)" "{}" "{}" p4 a] tl_Empty_txs [OF c(2)] by (simp add: p5_def pool_ok_def)
  moreover have "p_config p5 = p_config p" using p4(3) by (simp add: p5_def)
  moreover have "\<not> sint (pc_AccountQueue (p_config p3)) < 0" using cfg p3(4) by simp
  then have cap: "(if as_contains (p_locals p3) a then Inr ([], l3) else if sint (pc_AccountQueue (p_config p3)) < 0 then Inl (Panic IndexOutOfRange)
      else tl_Cap (nat (sint (pc_AccountQueue (p_config p3)))) l3) = Inr (map Some caps, l4)"
    using c(1) p3(4) by (cases "as_contains (p_locals p3) a") auto
  have "promote_account L Os now a promoted p = Inr (promoted @ run, p5)"
    unfolding promote_account_def Some option.case l1(1) bind_res_simps prod.case t1(1) p1_def [symmetric] fl Let_def t2(1) p2_def [symmetric] nn r(1) p3(1) cap t4(1)
    by (simp add: p5_def p4_def)
  ultimately show ?thesis by blast
qed

lemma promoteExecutables_ok:
  assumes "pool_env L U Os" "pool_ok L U p" "0 \<le> sint (pc_AccountQueue (p_config p))"
  shows "\<exists>promoted' p'. promoteExecutables L Os now addrs promoted p = Inr (promoted', p') \<and> pool_ok L U p' \<and> p_config p' = p_config p"
  using assms(2,3)
proof (induction addrs arbitrary: promoted p)
  case (Cons a addrs)
  obtain pr p1 where p1: "promote_account L Os now a promoted p = Inr (pr, p1)" "pool_ok L U p1" "p_config p1 = p_config p"
    using promote_account_ok [OF assms(1) Cons.prems] by blast
  then show ?case using Cons.IH [OF p1(2), of pr] Cons.prems(2) by simp
qed simp

text \<open>Transactions that leave a pending list go back to the queue.\<close>

lemma enqueue_back:
  assumes "pool_inv L U (known (p_all p)) (set ts) {} p" "distinct (map tx_Nonce ts)"
    "\<forall>t \<in> set ts. t \<in> U \<and> pl_Sender L t = Some a"
    "\<forall>t \<in> set ts. \<forall>u \<in> set (txs_at (p_queue p) a) \<union> set (txs_at (p_pending p) a). tx_Nonce u \<noteq> tx_Nonce t"
  shows "pool_ok L U (enqueue_all L Os now ts p)" "p_pending (enqueue_all L Os now ts p) = p_pending p" "p_config (enqueue_all L Os now ts p) = p_config p"
proof -
  have "\<forall>t \<in> set ts. (\<forall>u \<in> set (txs_at (p_queue p) a). tx_Nonce u \<noteq> tx_Nonce t) \<and> (\<forall>u \<in> set (txs_at (p_pending p) a). tx_Nonce u \<noteq> tx_Nonce t)"
    using assms(4) by blast
  note e = enqueue_all_ok [OF assms(1) subset_refl assms(3,2) this, of Os now]
  show "pool_ok L U (enqueue_all L Os now ts p)" using e by (simp add: pool_ok_def)
  show "p_pending (enqueue_all L Os now ts p) = p_pending p" "p_config (enqueue_all L Os now ts p) = p_config p" using e by blast+
qed

lemma all_txs_Some: "all_txs (map Some ts) = Inr ts"
  by (induction ts) simp_all

text \<open>What a pending list and the queue of the same account have to do with each other.\<close>

lemma pending_facts:
  assumes "pool_ok L U p" "map_of (p_pending p) a = Some l"
  shows "\<forall>t \<in> set (sm_txs (tl_txs l)). t \<in> U \<and> pl_Sender L t = Some a"
    "\<forall>t \<in> set (sm_txs (tl_txs l)). \<forall>u \<in> set (txs_at (p_queue p) a). tx_Nonce u \<noteq> tx_Nonce t"
proof -
  have pi: "pool_inv L U (known (p_all p)) {} {} p" using assms(1) by (simp add: pool_ok_def)
  have at: "txs_at (p_pending p) a = sm_txs (tl_txs l)" using pool_ok_at(2) [OF assms] by simp
  show "\<forall>t \<in> set (sm_txs (tl_txs l)). t \<in> U \<and> pl_Sender L t = Some a" using pool_inv_lists(4) [OF pi, of _ a] at by simp
  show "\<forall>t \<in> set (sm_txs (tl_txs l)). \<forall>u \<in> set (txs_at (p_queue p) a). tx_Nonce u \<noteq> tx_Nonce t" using pool_inv_lists(3) [OF pi, of _ a] at by metis
qed

lemma demote_filter:
  assumes env: "pool_env L U Os" and ok: "pool_ok L U p" and l: "map_of (p_pending p) a = Some l"
    and fl: "tl_Filter (o_list Os) (pl_Cost L) c g l = ((drops, ivs), l')"
  shows "\<exists>q. forget_all L (map Some drops) (put_pending a l' p) = Inr q \<and>
    (let r = enqueue_all L Os now ivs (the_removed L Os n q)
     in pool_ok L U r \<and> map_of (p_pending r) a = Some l' \<and> tl_ok (pl_Cost L) True l' \<and> p_config r = p_config p)"
proof -
  have v: "\<forall>i. visit_ok (o_list Os i)" using env by (simp add: orders_ok_def)
  have lo: "tl_ok (pl_Cost L) True l" using pool_ok_at(2) [OF ok l] by simp
  note F = tl_Filter_sets [OF lo v fl] and pf = pending_facts [OF ok l]
  obtain t where t: "forget_all L (map Some drops) (put_pending a l' p) = Inr ((put_pending a l' p)\<lparr>p_all := t\<rparr>)"
      "pool_inv L U (known t) (set ivs) {} ((put_pending a l' p)\<lparr>p_all := t\<rparr>)"
    using pending_drop [OF env ok l F(1-5)] by blast
  define q where "q = the_removed L Os n ((put_pending a l' p)\<lparr>p_all := t\<rparr>)"
  have q: "pool_inv L U (known (p_all q)) (set ivs) {} q" using pool_inv_removed [OF env t(2)] by (simp add: q_def the_removed_def)
  have f: "p_pending q = p_pending (put_pending a l' p)" "p_queue q = p_queue p" "p_config q = p_config p" by (simp_all add: q_def the_removed_def)
  have sub: "set ivs \<subseteq> set (sm_txs (tl_txs l))" "set (sm_txs (tl_txs l')) \<subseteq> set (sm_txs (tl_txs l))" "set (sm_txs (tl_txs l')) \<inter> set ivs = {}" using F(2,3) by blast+
  have s: "\<forall>t \<in> set ivs. t \<in> U \<and> pl_Sender L t = Some a" using pf(1) sub(1) by blast
  have "tx_Nonce u \<noteq> tx_Nonce s" if su: "s \<in> set ivs" "u \<in> set (sm_txs (tl_txs l'))" for s u
  proof
    assume "tx_Nonce u = tx_Nonce s"
    then have "u = s" using tl_same_nonce [OF lo] su sub(1,2) by blast
    then show False using su sub(3) by blast
  qed
  then have "\<forall>t \<in> set ivs. \<forall>u \<in> set (txs_at (p_queue q) a) \<union> set (txs_at (p_pending q) a). tx_Nonce u \<noteq> tx_Nonce t"
    using pf(2) sub(1) unfolding f by auto
  note e = enqueue_back [OF q F(6) s this, of Os now]
  have "map_of (p_pending (enqueue_all L Os now ivs q)) a = Some l'" using e(2) f(1) by simp
  then show ?thesis using t(1) e(1,3) f(3) F(1) by (intro exI [of _ "(put_pending a l' p)\<lparr>p_all := t\<rparr>"]) (simp add: q_def Let_def)
qed

lemma demote_gapped:
  assumes env: "pool_env L U Os" and ok: "pool_ok L U p" and l: "map_of (p_pending p) a = Some l"
  shows "\<exists>l' ts. tl_Cap 0 l = Inr (map Some ts, l') \<and> tl_ok (pl_Cost L) True l' \<and>
    pool_ok L U (enqueue_all L Os now ts (put_pending a l' p)) \<and> map_of (p_pending (enqueue_all L Os now ts (put_pending a l' p))) a = Some l' \<and>
    p_config (enqueue_all L Os now ts (put_pending a l' p)) = p_config p"
proof -
  have lo: "tl_ok (pl_Cost L) True l" and at: "txs_at (p_pending p) a = sm_txs (tl_txs l)" using pool_ok_at(2) [OF ok l] by simp_all
  have pi: "pool_inv L U (known (p_all p)) {} {} p" using ok by (simp add: pool_ok_def)
  note pf = pending_facts [OF ok l]
  let ?ts = "rev (sm_txs (tl_txs l))"
  obtain l' where l': "tl_Cap 0 l = Inr (map Some ?ts, l')" "tl_ok (pl_Cost L) True l'" "sm_txs (tl_txs l') = []" using tl_Cap_ok [OF lo, of 0] by auto
  have q: "pool_inv L U (known (p_all (put_pending a l' p))) (set ?ts) {} (put_pending a l' p)"
    using pool_inv_shrink_pending [OF pi l'(2), of a] l'(3) at by simp
  have "distinct (map tx_Nonce ?ts)" using tl_distinct [OF lo] by (simp add: rev_map [symmetric])
  moreover have "\<forall>t \<in> set ?ts. \<forall>u \<in> set (txs_at (p_queue (put_pending a l' p)) a) \<union> set (txs_at (p_pending (put_pending a l' p)) a). tx_Nonce u \<noteq> tx_Nonce t"
    using pf(2) l'(3) by simp
  moreover have "\<forall>t \<in> set ?ts. t \<in> U \<and> pl_Sender L t = Some a" using pf(1) by simp
  ultimately have e: "pool_ok L U (enqueue_all L Os now ?ts (put_pending a l' p))" "p_pending (enqueue_all L Os now ?ts (put_pending a l' p)) = p_pending (put_pending a l' p)"
      "p_config (enqueue_all L Os now ?ts (put_pending a l' p)) = p_config (put_pending a l' p)"
    using enqueue_back [OF q] by blast+
  then show ?thesis using l' by (intro exI [of _ l'] exI [of _ ?ts]) simp
qed

lemma demote_account_ok:
  assumes env: "pool_env L U Os" and ok: "pool_ok L U p"
  shows "\<exists>p'. demote_account L Os now a p = Inr p' \<and> pool_ok L U p' \<and> p_config p' = p_config p"
proof (cases "map_of (p_pending p) a")
  case None
  then show ?thesis using ok by (simp add: demote_account_def)
next
  case (Some l)
  have lo: "tl_ok (pl_Cost L) True l" using pool_ok_at(2) [OF ok Some] by simp
  let ?n = "p_GetNonce p a"
  let ?fw = "filter (\<lambda>t. tx_Nonce t < ?n) (sm_txs (tl_txs l))"
  obtain l1 where l1: "tl_Forward ?n l = Inr (map Some ?fw, l1)" "tl_ok (pl_Cost L) True l1"
      "sm_txs (tl_txs l1) = filter (\<lambda>t. \<not> tx_Nonce t < ?n) (sm_txs (tl_txs l))" using tl_Forward_ok [OF lo] by blast
  have fw: "set (sm_txs (tl_txs l1)) \<union> set ?fw \<union> {} = set (sm_txs (tl_txs l))" "set (sm_txs (tl_txs l1)) \<inter> (set ?fw \<union> {}) = {}" "set ?fw \<inter> {} = {}" "distinct ?fw"
    unfolding l1(3) using distinct_of_nonces [OF tl_distinct [OF lo]] by auto
  obtain t1 where t1: "forget_all L (map Some ?fw) (put_pending a l1 p) = Inr ((put_pending a l1 p)\<lparr>p_all := t1\<rparr>)"
      "pool_inv L U (known t1) {} {} ((put_pending a l1 p)\<lparr>p_all := t1\<rparr>)" using pending_drop [OF env ok Some l1(2) fw] by blast
  define p1 where "p1 = (put_pending a l1 p)\<lparr>p_all := t1\<rparr>"
  have p1: "pool_ok L U p1" "map_of (p_pending p1) a = Some l1" "p_config p1 = p_config p" using t1(2) by (simp_all add: p1_def pool_ok_def)
  obtain drops inv l2 where fl: "tl_Filter (o_list Os) (pl_Cost L) (p_GetBalance p1 a) (p_maxGas p1) l1 = ((drops, inv), l2)"
    by (cases "tl_Filter (o_list Os) (pl_Cost L) (p_GetBalance p1 a) (p_maxGas p1) l1"; cases "fst (tl_Filter (o_list Os) (pl_Cost L) (p_GetBalance p1 a) (p_maxGas p1) l1)") auto
  obtain q where q: "forget_all L (map Some drops) (put_pending a l2 p1) = Inr q"
      "let r = enqueue_all L Os now inv (the_removed L Os (length (map Some ?fw) + length drops) q)
       in pool_ok L U r \<and> map_of (p_pending r) a = Some l2 \<and> tl_ok (pl_Cost L) True l2 \<and> p_config r = p_config p1"
    using demote_filter [OF env p1(1,2) fl] by blast
  define r where "r = enqueue_all L Os now inv (the_removed L Os (length (map Some ?fw) + length drops) q)"
  have r: "pool_ok L U r" "map_of (p_pending r) a = Some l2" "tl_ok (pl_Cost L) True l2" "p_config r = p_config p" using q(2) p1(3) by (simp_all add: r_def Let_def)
  define s where "s = (if tl_Len l2 > 0 \<and> sm_Get ?n (tl_txs l2) = None
       then bind_res (tl_Cap 0 l2) (\<lambda>(gapped, l). bind_res (all_txs gapped) (\<lambda>txs. Inr (l, enqueue_all L Os now txs (put_pending a l r))))
       else Inr (l2, r))"
  obtain l3 p3 where p3: "s = Inr (l3, p3)" "pool_ok L U p3" "map_of (p_pending p3) a = Some l3" "tl_ok (pl_Cost L) True l3" "p_config p3 = p_config p"
  proof (cases "tl_Len l2 > 0 \<and> sm_Get ?n (tl_txs l2) = None")
    case True
    obtain l' ts where g: "tl_Cap 0 l2 = Inr (map Some ts, l')" "tl_ok (pl_Cost L) True l'" "pool_ok L U (enqueue_all L Os now ts (put_pending a l' r))"
        "map_of (p_pending (enqueue_all L Os now ts (put_pending a l' r))) a = Some l'" "p_config (enqueue_all L Os now ts (put_pending a l' r)) = p_config r"
      using demote_gapped [OF env r(1,2)] by blast
    then have "s = Inr (l', enqueue_all L Os now ts (put_pending a l' r))" using True by (simp add: s_def all_txs_Some)
    then show ?thesis using that g r(4) by simp
  next
    case False
    then have "s = Inr (l2, r)" by (auto simp: s_def)
    then show ?thesis using that r by simp
  qed
  define p4 where "p4 = (if tl_Empty l3 then p3\<lparr>p_pending := AList.delete a (p_pending p3)\<rparr> else p3)"
  have "txs_at (p_pending p3) a = sm_txs (tl_txs l3)" using pool_ok_at(2) [OF p3(2,3)] by simp
  then have "pool_ok L U p4"
    using p3(2) pool_inv_delete_pending [of L U "known (p_all p3)" "{}" "{}" p3 a] tl_Empty_txs [OF p3(4)] by (simp add: p4_def pool_ok_def)
  moreover have "p_config p4 = p_config p" using p3(5) by (simp add: p4_def)
  moreover have "demote_account L Os now a p = Inr p4"
    unfolding demote_account_def Some option.case Let_def l1(1) bind_res_simps prod.case t1(1) p1_def [symmetric] fl q(1) r_def [symmetric] s_def [symmetric] p3(1)
    by (simp add: p4_def)
  ultimately show ?thesis by blast
qed

lemma demoteUnexecutables_ok:
  assumes "pool_env L U Os" "pool_ok L U p"
  shows "\<exists>p'. demoteUnexecutables L Os now p = Inr p' \<and> pool_ok L U p' \<and> p_config p' = p_config p"
proof -
  have "\<exists>p'. demote_loop L Os now as p = Inr p' \<and> pool_ok L U p' \<and> p_config p' = p_config p" if "pool_ok L U p" for as p
    using that
  proof (induction as arbitrary: p)
    case (Cons a as)
    obtain p1 where "demote_account L Os now a p = Inr p1" "pool_ok L U p1" "p_config p1 = p_config p" using demote_account_ok [OF assms(1) Cons.prems] by blast
    then show ?case using Cons.IH [of p1] by simp
  qed simp
  then show ?thesis using assms(2) by (simp add: demoteUnexecutables_def)
qed

end
