(* ===== verification/Pool_Full.thy ===== *)
theory Pool_Full
  imports Tx_Pool
begin

text \<open>
  No account of the transaction pool is left with an empty pending list. The reorganisation reads the
  last transaction of every pending list, which panics on an empty one.
\<close>

definition full :: "pool_lib \<Rightarrow> tx_pool \<Rightarrow> bool" where
  "full L p \<longleftrightarrow> (\<forall>a l. map_of (p_pending p) a = Some l \<longrightarrow> tl_ok (pl_Cost L) True l \<and> sm_txs (tl_txs l) \<noteq> [])"

lemma full_at: "full L p \<Longrightarrow> map_of (p_pending p) a = Some l \<Longrightarrow> tl_ok (pl_Cost L) True l \<and> sm_txs (tl_txs l) \<noteq> []"
  by (simp add: full_def)

lemma full_same: "full L p \<Longrightarrow> p_pending p' = p_pending p \<Longrightarrow> full L p'"
  by (simp add: full_def)

lemma full_put:
  "full L p \<Longrightarrow> tl_ok (pl_Cost L) True l \<Longrightarrow> sm_txs (tl_txs l) \<noteq> [] \<Longrightarrow> p_pending p' = AList.update a l (p_pending p) \<Longrightarrow> full L p'"
  by (auto simp: full_def update_conv)

text \<open>A list that may have become empty is dropped from the map.\<close>

lemma full_settle:
  assumes "full L p" "tl_ok (pl_Cost L) True l"
    "map_of (p_pending p') = (if tl_Empty l then (map_of (p_pending p))(a := None) else (map_of (p_pending p))(a \<mapsto> l))"
  shows "full L p'"
  using assms tl_Empty_txs [OF assms(2)] by (auto simp: full_def split: if_splits)

lemma pending_frames [simp]:
  "p_pending (the_removed L Os n p) = p_pending p" "p_pending (forget L t p) = p_pending p" "p_pending (replace_old L Os old p) = p_pending p"
  "p_pending (learn L t loc p) = p_pending p" "p_pending (journalTx a t p) = p_pending p" "p_pending (mark_local L Os a loc p) = p_pending p"
  by (simp_all add: the_removed_def forget_def replace_old_def learn_def journalTx_def mark_local_def Let_def split_def split: option.splits)

lemma pending_enqueueTx [simp]: "p_pending (snd (enqueueTx L Os now t loc addAll p)) = p_pending p"
  by (simp add: enqueueTx_def Let_def split_def)

lemma pending_enqueue_all [simp]: "p_pending (enqueue_all L Os now ts p) = p_pending p"
  by (induction ts arbitrary: p) simp_all

lemma pending_forget_all: "forget_all L ts p = Inr p' \<Longrightarrow> p_pending p' = p_pending p"
  by (induction L ts p rule: forget_all.induct) simp_all

lemma pending_remove_future: "remove_future Os a t p = Inr p' \<Longrightarrow> p_pending p' = p_pending p"
  by (auto simp: remove_future_def bind_res_Inr_iff Let_def split: option.splits if_splits)

lemma full_remove_pending:
  assumes "full L p" "tl_ok (pl_Cost L) True l"
  shows "full L (remove_pending L Os now a t invalids l p)"
  by (rule full_settle [OF assms, of _ a]) (simp add: remove_pending_def Let_def update_conv' delete_conv' fun_upd_def fun_eq_iff)

lemma full_removeTx:
  assumes "orders_ok Os" "full L p" "removeTx L Os now h out p = Inr p'"
  shows "full L p'"
proof (cases "lk_Get h (p_all p)")
  case None
  then show ?thesis using assms(2,3) by (simp add: removeTx_def)
next
  case (Some t)
  define q where "q = (let q = p\<lparr>p_all := lk_Remove L h (p_all p)\<rparr> in if out then the_removed L Os 1 q else q)"
  have q: "full L q" by (rule full_same [OF assms(2)]) (simp add: q_def Let_def)
  have v: "\<forall>i. visit_ok (o_list Os i)" using assms(1) by (simp add: orders_ok_def)
  have pq: "p_pending q = p_pending p" by (simp add: q_def Let_def)
  have r: "(case map_of (p_pending q) (sender L t) of
               None \<Rightarrow> remove_future Os (sender L t) t q
             | Some l \<Rightarrow> bind_res (tl_Remove (o_list Os) t l) (\<lambda>((removed, invalids), l).
                 if removed then Inr (remove_pending L Os now (sender L t) t invalids l q)
                 else remove_future Os (sender L t) t (q\<lparr>p_pending := AList.update (sender L t) l (p_pending q)\<rparr>))) = Inr p'"
    using assms(3) Some by (simp only: removeTx_def q_def Let_def option.case)
  show ?thesis
  proof (cases "map_of (p_pending q) (sender L t)")
    case None
    then show ?thesis using r full_same [OF q pending_remove_future] by simp
  next
    case (Some l)
    note l = full_at [OF q Some]
    obtain b invs l' where R: "tl_Remove (o_list Os) t l = Inr ((b, invs), l')" "tl_ok (pl_Cost L) True l'"
        "b = (\<exists>u \<in> set (sm_txs (tl_txs l)). tx_Nonce u = tx_Nonce t)"
        "sm_txs (tl_txs l') = (if b then filter (\<lambda>u. tx_Nonce u < tx_Nonce t) (sm_txs (tl_txs l))
             else filter (\<lambda>u. tx_Nonce u \<noteq> tx_Nonce t) (sm_txs (tl_txs l)))"
      using tl_Remove_raw [OF conjunct1 [OF l] v, of t] by auto
    show ?thesis
    proof (cases b)
      case True
      then show ?thesis using r Some R(1) full_remove_pending [OF q R(2)] by auto
    next
      case False
      then have "sm_txs (tl_txs l') = sm_txs (tl_txs l)" using R(3,4) by (auto intro: filter_True)
      then have "full L (q\<lparr>p_pending := AList.update (sender L t) l' (p_pending q)\<rparr>)" using full_put [OF q R(2), of _ "sender L t"] l by simp
      then show ?thesis using r Some R(1) False full_same [OF _ pending_remove_future] by simp
    qed
  qed
qed

lemma full_remove_txs:
  "orders_ok Os \<Longrightarrow> full L p \<Longrightarrow> remove_txs L Os now ts out p = Inr p' \<Longrightarrow> full L p'"
  by (induction ts arbitrary: p) (auto simp: bind_res_Inr_iff intro: full_removeTx)

lemma full_SetGasPriceWithCap:
  assumes "orders_ok Os" "full L p" "SetGasPriceWithCap L Os now price cap p = Inr p'"
  shows "full L p'"
proof -
  obtain drops l where "remove_txs L Os now drops False (p\<lparr>p_gasPrice := price, p_priced := l\<rparr>) = Inr p'"
    using assms(3) by (auto simp: SetGasPriceWithCap_def bind_res_Inr_iff)
  then show ?thesis by (rule full_remove_txs [OF assms(1) full_same [OF assms(2)], rotated]) simp
qed

lemma full_make_room:
  assumes "orders_ok Os" "full L p" "make_room L Os now t isLocal p = Inr (e, p')"
  shows "full L p'"
proof -
  have "p_pending p' = p_pending p \<or> (\<exists>drops l. remove_txs L Os now drops False (p\<lparr>p_priced := l\<rparr>) = Inr p')"
    using assms(3) by (auto simp: make_room_def bind_res_Inr_iff Let_def split: if_splits)
  moreover have "full L (p\<lparr>p_priced := l\<rparr>)" for l by (rule full_same [OF assms(2)]) simp
  ultimately show ?thesis using full_same [OF assms(2), of p'] full_remove_txs [OF assms(1)] by blast
qed

text \<open>An accepted transaction is in the list, and one is refused only for the sake of another.\<close>

lemma tl_Add_full:
  assumes "tl_ok cost strict l" "tl_Add cost t bump l = ((b, old), l')"
  shows "tl_ok cost strict l' \<and> sm_txs (tl_txs l') \<noteq> []"
proof (cases b)
  case True
  then show ?thesis using tl_Add_set(1) [OF assms] tl_Add_replaces(1) [OF assms True] by auto
next
  case False
  then show ?thesis using tl_Add_set(1,2) [OF assms] by auto
qed

lemma full_replace_pending:
  assumes "full L p" "map_of (p_pending p) (sender L t) = Some l"
  shows "full L (snd (replace_pending L Os now t isLocal l p))"
proof -
  obtain b old l' where add: "tl_Add (pl_Cost L) t (pc_PriceBump (p_config p)) l = ((b, old), l')" by (metis prod.exhaust)
  note l' = tl_Add_full [OF conjunct1 [OF full_at [OF assms]] add]
  show ?thesis by (rule full_put [OF assms(1) conjunct1 [OF l'] conjunct2 [OF l'], of _ "sender L t"]) (simp add: replace_pending_def add Let_def)
qed

lemma pending_add_queued: "p_pending (snd (add_queued L Os now t local isLocal p)) = p_pending p"
  using pending_enqueueTx [of L Os now t isLocal True p] by (cases "enqueueTx L Os now t isLocal True p") (auto simp: add_queued_def simp del: pending_enqueueTx split: sum.splits)

lemma full_add:
  assumes "orders_ok Os" "full L p" "add L C Os now t local p = Inr (r, p')"
  shows "full L p'"
proof -
  let ?loc = "local \<or> as_containsTx L (p_locals p) t"
  show ?thesis
  proof (cases "p' = p")
    case False
    then obtain x where v: "lk_Get (pl_Hash L t) (p_all p) = None" "validateTx L C t ?loc p = Inr x"
      using assms(3) by (auto simp: add_def Let_def split: if_splits sum.splits failure.splits)
    then obtain e q where q: "make_room L Os now t ?loc p = Inr (e, q)" using assms(3) by (auto simp: add_def Let_def bind_res_Inr_iff)
    note fq = full_make_room [OF assms(1,2) q]
    show ?thesis
    proof (cases e)
      case None
      then have "p' = snd (case map_of (p_pending q) (sender L t) of
             None \<Rightarrow> add_queued L Os now t local ?loc q
           | Some l \<Rightarrow> if tl_Overlaps t l then replace_pending L Os now t ?loc l q else add_queued L Os now t local ?loc q)"
        using assms(3) v q by (simp add: add_def Let_def)
      then show ?thesis using full_replace_pending [OF fq] full_same [OF fq pending_add_queued] by (auto split: option.splits)
    next
      case (Some x)
      then show ?thesis using assms(3) v q fq by (simp add: add_def Let_def)
    qed
  qed (use assms(2) in simp)
qed

lemma full_addTxs_loop:
  "orders_ok Os \<Longrightarrow> full L p \<Longrightarrow> addTxs_loop L C Os now ts local dirty p = Inr (r, p') \<Longrightarrow> full L p'"
proof (induction ts arbitrary: p dirty r)
  case (Cons t ts)
  obtain r1 p1 where p1: "add L C Os now t local p = Inr (r1, p1)" using Cons.prems(3) by (auto simp: bind_res_Inr_iff)
  obtain d r2 where "addTxs_loop L C Os now ts local d p1 = Inr (r2, p')" using Cons.prems(3) p1 by (auto simp: bind_res_Inr_iff Let_def)
  then show ?case using Cons.IH [OF Cons.prems(1) full_add [OF Cons.prems(1,2) p1]] by blast
qed simp

lemma full_promoteTx:
  assumes "full L p"
  shows "full L (snd (promoteTx L Os now a t p))"
proof -
  obtain b old l' where add: "tl_Add (pl_Cost L) t (pc_PriceBump (p_config p)) (list_at True a (p_pending p)) = ((b, old), l')" by (metis prod.exhaust)
  have "tl_ok (pl_Cost L) True (list_at True a (p_pending p))"
    using full_at [OF assms] newTxList_ok by (auto simp: list_at_def split: option.splits)
  note l' = tl_Add_full [OF this add]
  show ?thesis by (rule full_put [OF assms conjunct1 [OF l'] conjunct2 [OF l'], of _ a]) (simp add: promoteTx_def add Let_def)
qed

lemma full_promote_all: "full L p \<Longrightarrow> promote_all L Os now a ts promoted p = Inr (r, p') \<Longrightarrow> full L p'"
proof (induction L Os now a ts promoted p rule: promote_all.induct)
  case (3 L Os now a t ts promoted p)
  obtain b q where q: "promoteTx L Os now a t p = (b, q)" by force
  then show ?case using 3 full_promoteTx [OF "3.prems"(1), of Os now a t] by auto
qed auto

lemma full_promote_account:
  assumes "full L p" "promote_account L Os now a promoted p = Inr (r, p')"
  shows "full L p'"
proof (cases "map_of (p_queue p) a")
  case None
  then show ?thesis using assms by (simp add: promote_account_def)
next
  case (Some l)
  obtain fw l1 p1 where s1: "tl_Forward (p_GetNonce p a) l = Inr (fw, l1)" "forget_all L fw (put_queue a l1 p) = Inr p1"
    using assms(2) Some by (auto simp: promote_account_def bind_res_Inr_iff)
  obtain drops x l2 where f: "tl_Filter (o_list Os) (pl_Cost L) (p_GetBalance p1 a) (p_maxGas p1) l1 = ((drops, x), l2)" by (metis prod.exhaust)
  obtain p2 where s2: "forget_all L (map Some drops) (put_queue a l2 p1) = Inr p2"
    using assms(2) Some s1 f by (auto simp: promote_account_def bind_res_Inr_iff)
  obtain start nn where n: "noncer_get a (p_noncer p2) = (start, nn)" by force
  obtain rd l3 pr p3 where s3: "tl_Ready start l2 = Inr (rd, l3)" "promote_all L Os now a rd promoted (put_queue a l3 (p2\<lparr>p_noncer := nn\<rparr>)) = Inr (pr, p3)"
    using assms(2) Some s1 f s2 n by (auto simp: promote_account_def bind_res_Inr_iff)
  let ?cap = "if as_contains (p_locals p3) a then Inr ([], l3) else if sint (pc_AccountQueue (p_config p3)) < 0 then Inl (Panic IndexOutOfRange)
      else tl_Cap (nat (sint (pc_AccountQueue (p_config p3)))) l3"
  have H: "bind_res ?cap (\<lambda>(caps, l). bind_res (forget_all L caps (put_queue a l p3)) (\<lambda>p.
          let p = the_removed L Os (length fw + length drops + length caps) p
          in Inr (pr, if tl_Empty l then p\<lparr>p_queue := AList.delete a (p_queue p), p_beats := AList.delete a (p_beats p)\<rparr> else p))) = Inr (r, p')"
    using assms(2) unfolding promote_account_def Some option.case s1 bind_res_simps prod.case f Let_def s2 n s3 .
  obtain caps l4 where c: "?cap = Inr (caps, l4)" using H by (cases ?cap) auto
  obtain p4 where s4: "forget_all L caps (put_queue a l4 p3) = Inr p4" using H unfolding c by (auto simp: bind_res_Inr_iff)
  then have s5: "p_pending p' = p_pending p4" using H unfolding c by (auto simp: Let_def)
  have "p_pending p2 = p_pending p" using pending_forget_all [OF s1(2)] pending_forget_all [OF s2] by simp
  then have "full L (put_queue a l3 (p2\<lparr>p_noncer := nn\<rparr>))" using full_same [OF assms(1)] by simp
  note full_promote_all [OF this s3(2)]
  then show ?thesis using full_same [of L p3 p'] pending_forget_all [OF s4] s5 by simp
qed

lemma full_promoteExecutables:
  "full L p \<Longrightarrow> promoteExecutables L Os now as promoted p = Inr (r, p') \<Longrightarrow> full L p'"
proof (induction as arbitrary: p promoted)
  case (Cons a as)
  obtain pr p1 where "promote_account L Os now a promoted p = Inr (pr, p1)" "promoteExecutables L Os now as pr p1 = Inr (r, p')"
    using Cons.prems(2) by (auto simp: bind_res_Inr_iff)
  then show ?case using Cons.IH full_promote_account [OF Cons.prems(1)] by blast
qed simp

text \<open>The list of an account whose transactions are demoted; only that list changes.\<close>

lemma full_demote_account:
  assumes "orders_ok Os" "full L p" "demote_account L Os now a p = Inr p'"
  shows "full L p'"
proof (cases "map_of (p_pending p) a")
  case None
  then show ?thesis using assms by (simp add: demote_account_def)
next
  case (Some l)
  have v: "\<forall>i. visit_ok (o_list Os i)" using assms(1) by (simp add: orders_ok_def)
  note l = full_at [OF assms(2) Some]
  obtain olds l1 where s1: "tl_Forward (p_GetNonce p a) l = Inr (olds, l1)" "tl_ok (pl_Cost L) True l1" using tl_Forward_ok [OF conjunct1 [OF l]] by blast
  obtain p1 where s2: "forget_all L olds (put_pending a l1 p) = Inr p1" using assms(3) Some s1 by (auto simp: demote_account_def bind_res_Inr_iff)
  obtain drops invs l2 where f: "tl_Filter (o_list Os) (pl_Cost L) (p_GetBalance p1 a) (p_maxGas p1) l1 = ((drops, invs), l2)" by (metis prod.exhaust)
  note l2 = tl_Filter_sets(1) [OF s1(2) v f]
  obtain p2 where s3: "forget_all L (map Some drops) (put_pending a l2 p1) = Inr p2"
    using assms(3) Some s1 s2 f by (auto simp: demote_account_def bind_res_Inr_iff)
  define p3 where "p3 = enqueue_all L Os now invs (the_removed L Os (length olds + length drops) p2)"
  have pd: "map_of (p_pending p3) = (map_of (p_pending p))(a \<mapsto> l2)"
    using pending_forget_all [OF s2] pending_forget_all [OF s3] by (simp add: p3_def put_pending_def update_conv' fun_upd_def fun_eq_iff)
  let ?gap = "if tl_Len l2 > 0 \<and> sm_Get (p_GetNonce p a) (tl_txs l2) = None
      then bind_res (tl_Cap 0 l2) (\<lambda>(gapped, l). bind_res (all_txs gapped) (\<lambda>txs. Inr (l, enqueue_all L Os now txs (put_pending a l p3))))
      else Inr (l2, p3)"
  have H: "bind_res ?gap (\<lambda>(l, p). Inr (if tl_Empty l then p\<lparr>p_pending := AList.delete a (p_pending p)\<rparr> else p)) = Inr p'"
    using assms(3) unfolding demote_account_def Some option.case Let_def s1(1) bind_res_simps prod.case s2 f s3 p3_def .
  obtain l4 p4 where g: "?gap = Inr (l4, p4)" using H by (cases ?gap) auto
  obtain l3 where l3: "tl_Cap 0 l2 = Inr (map Some (rev (drop 0 (sm_txs (tl_txs l2)))), l3)" "tl_ok (pl_Cost L) True l3"
    using tl_Cap_ok [OF l2, of 0] by blast
  have "tl_ok (pl_Cost L) True l4 \<and> map_of (p_pending p4) = (map_of (p_pending p))(a \<mapsto> l4)"
    using g l3 l2 pd by (auto simp: all_txs_Some bind_res_Inr_iff put_pending_def update_conv' fun_upd_def fun_eq_iff split: if_splits)
  moreover have "p' = (if tl_Empty l4 then p4\<lparr>p_pending := AList.delete a (p_pending p4)\<rparr> else p4)" using H unfolding g by simp
  ultimately show ?thesis by (intro full_settle [OF assms(2), of l4 p' a]) (auto simp: delete_conv' fun_upd_def fun_eq_iff)
qed

lemma full_demoteUnexecutables:
  assumes "orders_ok Os" "full L p" "demoteUnexecutables L Os now p = Inr p'"
  shows "full L p'"
proof -
  have "full L p'" if "full L p" "demote_loop L Os now as p = Inr p'" for as p
    using that by (induction as arbitrary: p) (auto simp: bind_res_Inr_iff intro: full_demote_account [OF assms(1)])
  then show ?thesis using assms(2,3) by (simp add: demoteUnexecutables_def)
qed

end
