(* ===== verification/Pool_Limits.thy ===== *)
theory Pool_Limits
  imports Pool_Full
begin

text \<open>
  The limits of the transaction pool of src/evmcore/tx_pool.go: the truncation of the queue and of the
  pending lists and the eviction of idle accounts, and what any sequence of operations keeps.
\<close>

section \<open>Limits\<close>

definition queued_total :: "lists \<Rightarrow> u64" where
  "queued_total ls = sum_list (map (\<lambda>(_, l). word_of_nat (tl_Len l)) ls)"

fun drop_last :: "pool_lib \<Rightarrow> orders \<Rightarrow> int \<Rightarrow> transaction list \<Rightarrow> u64 \<Rightarrow> tx_pool \<Rightarrow> (u64 \<times> tx_pool) res" where
  "drop_last L Os now [] dropn p = Inr (dropn, p)"
| "drop_last L Os now (tx # txs) dropn p =
     (if dropn > 0 then bind_res (removeTx L Os now (pl_Hash L tx) True p) (drop_last L Os now txs (dropn - 1))
      else Inr (dropn, p))"

text \<open>The accounts are given with the one of the latest heartbeat first.\<close>

fun truncate_loop :: "pool_lib \<Rightarrow> orders \<Rightarrow> int \<Rightarrow> bytes list \<Rightarrow> u64 \<Rightarrow> tx_pool \<Rightarrow> tx_pool res" where
  "truncate_loop L Os now [] dropn p = Inr p"
| "truncate_loop L Os now (addr # addrs) dropn p =
     (if dropn > 0
      then case map_of (p_queue p) addr of
             None \<Rightarrow> Inl (Panic NilDereference)
           | Some l \<Rightarrow>
               let len = word_of_nat (tl_Len l); (txs, l) = tl_Flatten (o_list Os 0) l; p = put_queue addr l p
               in if len \<le> dropn
                  then bind_res (remove_txs L Os now txs True p) (truncate_loop L Os now addrs (dropn - len))
                  else bind_res (drop_last L Os now (rev txs) dropn p) (\<lambda>(dropn, p). truncate_loop L Os now addrs dropn p)
      else Inr p)"

definition beat_of :: "tx_pool \<Rightarrow> bytes \<Rightarrow> int" where
  "beat_of p a = (case map_of (p_beats p) a of Some b \<Rightarrow> b | None \<Rightarrow> 0)"

definition truncateQueue :: "pool_lib \<Rightarrow> orders \<Rightarrow> int \<Rightarrow> tx_pool \<Rightarrow> tx_pool res" where
  "truncateQueue L Os now p =
     (let queued = queued_total (p_queue p); limit = pc_GlobalQueue (p_config p)
      in if queued \<le> limit then Inr p
         else let addresses = filter (\<lambda>a. \<not> as_contains (p_locals p) a) (map fst (o_accts Os (p_queue p)))
              in truncate_loop L Os now (rev (sort_key (beat_of p) addresses)) (queued - limit) p)"

fun evict_loop :: "pool_lib \<Rightarrow> orders \<Rightarrow> int \<Rightarrow> bytes list \<Rightarrow> tx_pool \<Rightarrow> tx_pool res" where
  "evict_loop L Os now [] p = Inr p"
| "evict_loop L Os now (addr # addrs) p =
     (if as_contains (p_locals p) addr then evict_loop L Os now addrs p
      else if min (2 ^ 63 - 1) (now - beat_of p addr) > pc_Lifetime (p_config p)
      then case map_of (p_queue p) addr of
             None \<Rightarrow> Inl (Panic NilDereference)
           | Some l \<Rightarrow> let (txs, l) = tl_Flatten (o_list Os 0) l
                       in bind_res (remove_txs L Os now txs True (put_queue addr l p)) (evict_loop L Os now addrs)
      else evict_loop L Os now addrs p)"

definition evict :: "pool_lib \<Rightarrow> orders \<Rightarrow> int \<Rightarrow> tx_pool \<Rightarrow> tx_pool res" where
  "evict L Os now p = evict_loop L Os now (map fst (o_accts Os (p_queue p))) p"

text \<open>
  Truncation of the pending lists. Sending the longest of one round down to the length of the next, a
  round takes the last transaction of each offender. \<open>pops\<close> is the order in which go-ethereum's priority
  queue gives back what was pushed to it. The counter of pending transactions is not read from the lists
  again, so that a round may end below the limit.
\<close>

fun drop_caps :: "pool_lib \<Rightarrow> bytes \<Rightarrow> transaction option list \<Rightarrow> tx_pool \<Rightarrow> tx_pool res" where
  "drop_caps L addr [] p = Inr p"
| "drop_caps L addr (None # txs) p = Inl (Panic NilDereference)"
| "drop_caps L addr (Some tx # txs) p =
     (let p = forget L tx p in drop_caps L addr txs (p\<lparr>p_noncer := noncer_setIfLower addr (tx_Nonce tx) (p_noncer p)\<rparr>))"

definition cap_one :: "pool_lib \<Rightarrow> orders \<Rightarrow> bytes \<Rightarrow> tx_pool \<Rightarrow> tx_pool res" where
  "cap_one L Os addr p =
     (case map_of (p_pending p) addr of
        None \<Rightarrow> Inl (Panic NilDereference)
      | Some l \<Rightarrow>
          if tl_Len l = 0 then Inl (Panic IndexOutOfRange)
          else bind_res (tl_Cap (tl_Len l - 1) l) (\<lambda>(caps, l).
               bind_res (drop_caps L addr caps (put_pending addr l p)) (\<lambda>p. Inr (the_removed L Os (length caps) p))))"

fun cap_each :: "pool_lib \<Rightarrow> orders \<Rightarrow> bytes list \<Rightarrow> u64 \<Rightarrow> tx_pool \<Rightarrow> (u64 \<times> tx_pool) res" where
  "cap_each L Os [] pending p = Inr (pending, p)"
| "cap_each L Os (addr # addrs) pending p = bind_res (cap_one L Os addr p) (cap_each L Os addrs (pending - 1))"

partial_function (option) cap_rounds ::
  "pool_lib \<Rightarrow> orders \<Rightarrow> (nat \<Rightarrow> bool) \<Rightarrow> bytes list \<Rightarrow> u64 \<Rightarrow> tx_pool \<Rightarrow> (u64 \<times> tx_pool) res option" where
  [code]: "cap_rounds L Os over addrs pending p =
     (if pending \<le> pc_GlobalSlots (p_config p) then Some (Inr (pending, p))
      else case map_of (p_pending p) (last addrs) of
        None \<Rightarrow> Some (Inl (Panic NilDereference))
      | Some l \<Rightarrow>
          if over (tl_Len l)
          then (case cap_each L Os addrs pending p of
                  Inl e \<Rightarrow> Some (Inl e)
                | Inr r \<Rightarrow> cap_rounds L Os over addrs (fst r) (snd r))
          else Some (Inr (pending, p)))"

fun offend_loop ::
  "pool_lib \<Rightarrow> orders \<Rightarrow> bytes list \<Rightarrow> bytes list \<Rightarrow> u64 \<Rightarrow> tx_pool \<Rightarrow> (bytes list \<times> u64 \<times> tx_pool) res option" where
  "offend_loop L Os [] offenders pending p = Some (Inr (offenders, pending, p))"
| "offend_loop L Os (offender # spammers) offenders pending p =
     (if pending \<le> pc_GlobalSlots (p_config p) then Some (Inr (offenders, pending, p))
      else if offenders = [] then offend_loop L Os spammers [offender] pending p
      else case map_of (p_pending p) offender of
        None \<Rightarrow> Some (Inl (Panic NilDereference))
      | Some l \<Rightarrow>
          (case cap_rounds L Os (\<lambda>n. n > tl_Len l) offenders pending p of
             None \<Rightarrow> None
           | Some (Inl e) \<Rightarrow> Some (Inl e)
           | Some (Inr (pending, p)) \<Rightarrow> offend_loop L Os spammers (offenders @ [offender]) pending p))"

definition high_roller :: "tx_pool \<Rightarrow> bytes \<times> tx_list \<Rightarrow> bool" where
  "high_roller p al \<longleftrightarrow> \<not> as_contains (p_locals p) (fst al) \<and> word_of_nat (tl_Len (snd al)) > pc_AccountSlots (p_config p)"

definition truncatePending ::
  "pool_lib \<Rightarrow> orders \<Rightarrow> ((bytes \<times> nat) list \<Rightarrow> (bytes \<times> nat) list) \<Rightarrow> tx_pool \<Rightarrow> tx_pool res option" where
  "truncatePending L Os pops p =
     (let pending = queued_total (p_pending p)
      in if pending \<le> pc_GlobalSlots (p_config p) then Some (Inr p)
         else let spammers = pops (map (\<lambda>al. (fst al, tl_Len (snd al))) (filter (high_roller p) (o_accts Os (p_pending p))))
              in case offend_loop L Os (map fst spammers) [] pending p of
                   None \<Rightarrow> None
                 | Some (Inl e) \<Rightarrow> Some (Inl e)
                 | Some (Inr (offenders, pending, p)) \<Rightarrow>
                     if pending > pc_GlobalSlots (p_config p) \<and> offenders \<noteq> []
                     then (case cap_rounds L Os (\<lambda>n. word_of_nat n > pc_AccountSlots (p_config p)) offenders pending p of
                             None \<Rightarrow> None
                           | Some r \<Rightarrow> Some (map_sum (\<lambda>e. e) snd r))
                     else Some (Inr p))"

section \<open>Queued transactions\<close>

text \<open>
  Dropping queued transactions of one account after another: what is dropped for one leaves the lists of
  the others alone, so that the entry read for the next is still there.
\<close>

lemma tl_Flatten_queue:
  assumes "pool_env L U Os" "pool_ok L U p" "map_of (p_queue p) a = Some l"
  shows "\<exists>ts l'. tl_Flatten (o_list Os 0) l = (ts, l') \<and> pool_ok L U (put_queue a l' p) \<and> ts = txs_at (p_queue p) a \<and>
    (\<forall>t \<in> set ts. t \<in> U \<and> pl_Sender L t = Some a)"
proof -
  have l: "tl_ok (pl_Cost L) False l" "txs_at (p_queue p) a = sm_txs (tl_txs l)" using pool_ok_at(1) [OF assms(2,3)] by auto
  obtain l' where l': "tl_Flatten (o_list Os 0) l = (sm_txs (tl_txs l), l')" "tl_ok (pl_Cost L) False l'" "sm_txs (tl_txs l') = sm_txs (tl_txs l)"
    using tl_Flatten_ok [OF l(1), of "o_list Os 0"] assms(1) by (auto simp: orders_ok_def)
  have pi: "pool_inv L U (known (p_all p)) {} {} p" using assms(2) by (simp add: pool_ok_def)
  have "{} \<union> (set (txs_at (p_queue p) a) - set (sm_txs (tl_txs l'))) = {}" using l(2) l'(3) by simp
  then have "pool_ok L U (put_queue a l' p)" using pool_inv_shrink_queue [OF pi l'(2), of a] l(2) l'(3) by (simp add: pool_ok_def)
  moreover have "\<forall>t \<in> set (txs_at (p_queue p) a). t \<in> U \<and> pl_Sender L t = Some a" using pool_inv_lists(4) [OF pi] by blast
  ultimately show ?thesis using l'(1) l(2) by auto
qed

lemma drop_last_ok:
  assumes "pool_env L U Os" "pool_ok L U p" "\<forall>t \<in> set ts. t \<in> U \<and> pl_Sender L t = Some a"
  shows "\<exists>d p'. drop_last L Os now ts n p = Inr (d, p') \<and> pool_ok L U p' \<and> p_config p' = p_config p \<and>
    (\<forall>b. b \<noteq> a \<longrightarrow> map_of (p_queue p') b = map_of (p_queue p) b)"
  using assms(2,3)
proof (induction ts arbitrary: n p)
  case (Cons t ts)
  obtain p1 where p1: "removeTx L Os now (pl_Hash L t) True p = Inr p1" "pool_ok L U p1" "p_config p1 = p_config p"
      "\<forall>b. b \<noteq> a \<longrightarrow> map_of (p_queue p1) b = map_of (p_queue p) b"
    using removeTx_ok [OF assms(1), of p "{}" t now True] Cons.prems by (auto simp: pool_ok_def)
  show ?case
  proof (cases "n > 0")
    case True
    have "\<forall>t \<in> set ts. t \<in> U \<and> pl_Sender L t = Some a" using Cons.prems(2) by simp
    from Cons.IH [OF p1(2) this]
    obtain d p2 where "drop_last L Os now ts (n - 1) p1 = Inr (d, p2)" "pool_ok L U p2" "p_config p2 = p_config p1"
        "\<forall>b. b \<noteq> a \<longrightarrow> map_of (p_queue p2) b = map_of (p_queue p1) b" by blast
    then show ?thesis using True p1 by simp
  qed (use Cons.prems(1) in simp)
qed simp

lemma remove_flattened:
  assumes "pool_env L U Os" "pool_ok L U p" "\<forall>t \<in> set ts. t \<in> U \<and> pl_Sender L t = Some a"
  shows "\<exists>p'. remove_txs L Os now ts out p = Inr p' \<and> pool_ok L U p' \<and> p_config p' = p_config p \<and>
    (\<forall>b. b \<noteq> a \<longrightarrow> map_of (p_queue p') b = map_of (p_queue p) b)"
  using remove_txs_ok [OF assms(1), of p "{}" ts now out] assms(2,3) by (fastforce simp: pool_ok_def)

lemma truncate_loop_ok:
  assumes "pool_env L U Os" "pool_ok L U p" "distinct as" "\<forall>a \<in> set as. map_of (p_queue p) a \<noteq> None"
  shows "\<exists>p'. truncate_loop L Os now as n p = Inr p' \<and> pool_ok L U p' \<and> p_config p' = p_config p"
  using assms(2-4)
proof (induction as arbitrary: n p)
  case (Cons a as)
  obtain l where l: "map_of (p_queue p) a = Some l" using Cons.prems(3) by auto
  obtain ts l' where f: "tl_Flatten (o_list Os 0) l = (ts, l')" "pool_ok L U (put_queue a l' p)" "\<forall>t \<in> set ts. t \<in> U \<and> pl_Sender L t = Some a"
    using tl_Flatten_queue [OF assms(1) Cons.prems(1) l] by blast
  have others: "map_of (p_queue (put_queue a l' p)) b = map_of (p_queue p) b" if "b \<noteq> a" for b
    using that by (simp add: put_queue_def update_conv)
  obtain p1 where p1: "remove_txs L Os now ts True (put_queue a l' p) = Inr p1" "pool_ok L U p1" "p_config p1 = p_config p"
      "\<forall>b. b \<noteq> a \<longrightarrow> map_of (p_queue p1) b = map_of (p_queue p) b" using remove_flattened [OF assms(1) f(2,3), of now True] others unfolding txs_at_put by metis
  have "\<forall>t \<in> set (rev ts). t \<in> U \<and> pl_Sender L t = Some a" using f(3) by simp
  from drop_last_ok [OF assms(1) f(2) this, of now n]
  obtain d p2 where p2: "drop_last L Os now (rev ts) n (put_queue a l' p) = Inr (d, p2)" "pool_ok L U p2" "p_config p2 = p_config p"
      "\<forall>b. b \<noteq> a \<longrightarrow> map_of (p_queue p2) b = map_of (p_queue p) b" using others unfolding txs_at_put by metis
  have rest: "distinct as" "a \<notin> set as" "\<forall>b \<in> set as. map_of (p_queue p) b \<noteq> None" using Cons.prems(2,3) by auto
  have "\<forall>b \<in> set as. map_of (p_queue p1) b \<noteq> None" "\<forall>b \<in> set as. map_of (p_queue p2) b \<noteq> None" using rest(2,3) p1(4) p2(4) by metis+
  note IH = Cons.IH [OF p1(2) rest(1) this(1)] Cons.IH [OF p2(2) rest(1) this(2)]
  show ?case
  proof (cases "n > 0")
    case True
    then show ?thesis using IH(1) [of "n - word_of_nat (tl_Len l)"] IH(2) [of d] l f(1) p1(1,3) p2(1,3) by (simp add: Let_def)
  qed (use Cons.prems(1) in simp)
qed simp

lemma range_accounts:
  assumes "orders_ok Os" "pool_ok L U p"
  shows "distinct (map fst (o_accts Os (p_queue p)))" "a \<in> set (map fst (o_accts Os (p_queue p))) \<Longrightarrow> map_of (p_queue p) a \<noteq> None"
    "distinct (map fst (o_accts Os (p_pending p)))" "a \<in> set (map fst (o_accts Os (p_pending p))) \<Longrightarrow> map_of (p_pending p) a \<noteq> None"
proof -
  have d: "distinct (map fst (p_queue p))" "distinct (map fst (p_pending p))" using assms(2) by (auto simp: pool_ok_def pool_inv_def parts_def lists_ok_def)
  have m: "mset (map fst (o_accts Os ls)) = mset (map fst ls)" for ls using assms(1) by (simp add: orders_ok_def)
  show "distinct (map fst (o_accts Os (p_queue p)))" "distinct (map fst (o_accts Os (p_pending p)))"
    using d mset_eq_imp_distinct_iff [OF m] by blast+
  have "set (map fst (o_accts Os ls)) = set (map fst ls)" for ls by (rule mset_eq_setD [OF m])
  then show "a \<in> set (map fst (o_accts Os (p_queue p))) \<Longrightarrow> map_of (p_queue p) a \<noteq> None" "a \<in> set (map fst (o_accts Os (p_pending p))) \<Longrightarrow> map_of (p_pending p) a \<noteq> None"
    by (simp_all add: map_of_eq_None_iff)
qed

lemma truncateQueue_ok:
  assumes "pool_env L U Os" "pool_ok L U p"
  shows "\<exists>p'. truncateQueue L Os now p = Inr p' \<and> pool_ok L U p' \<and> p_config p' = p_config p"
proof -
  let ?as = "rev (sort_key (beat_of p) (filter (\<lambda>a. \<not> as_contains (p_locals p) a) (map fst (o_accts Os (p_queue p)))))"
  have o: "orders_ok Os" using assms(1) by simp
  have "distinct ?as" using range_accounts(1) [OF o assms(2)] by simp
  moreover have "\<forall>a \<in> set ?as. map_of (p_queue p) a \<noteq> None" using range_accounts(2) [OF o assms(2)] by auto
  ultimately show ?thesis using truncate_loop_ok [OF assms] assms(2) by (simp add: truncateQueue_def Let_def)
qed

lemma evict_ok:
  assumes "pool_env L U Os" "pool_ok L U p"
  shows "\<exists>p'. evict L Os now p = Inr p' \<and> pool_ok L U p' \<and> p_config p' = p_config p"
proof -
  have "\<exists>p'. evict_loop L Os now as p = Inr p' \<and> pool_ok L U p' \<and> p_config p' = p_config p"
    if "pool_ok L U p" "distinct as" "\<forall>a \<in> set as. map_of (p_queue p) a \<noteq> None" for as p
    using that
  proof (induction as arbitrary: p)
    case (Cons a as)
    obtain l where l: "map_of (p_queue p) a = Some l" using Cons.prems(3) by auto
    obtain ts l' where f: "tl_Flatten (o_list Os 0) l = (ts, l')" "pool_ok L U (put_queue a l' p)" "\<forall>t \<in> set ts. t \<in> U \<and> pl_Sender L t = Some a"
      using tl_Flatten_queue [OF assms(1) Cons.prems(1) l] by blast
    have others: "map_of (p_queue (put_queue a l' p)) b = map_of (p_queue p) b" if "b \<noteq> a" for b
      using that by (simp add: put_queue_def update_conv)
    obtain p1 where p1: "remove_txs L Os now ts True (put_queue a l' p) = Inr p1" "pool_ok L U p1" "p_config p1 = p_config p"
        "\<forall>b. b \<noteq> a \<longrightarrow> map_of (p_queue p1) b = map_of (p_queue p) b" using remove_flattened [OF assms(1) f(2,3), of now True] others unfolding txs_at_put by metis
    have rest: "distinct as" "a \<notin> set as" "\<forall>b \<in> set as. map_of (p_queue p) b \<noteq> None" using Cons.prems(2,3) by auto
    have "\<forall>b \<in> set as. map_of (p_queue p1) b \<noteq> None" using rest(2,3) p1(4) by metis
    from Cons.IH [OF p1(2) rest(1) this] Cons.IH [OF Cons.prems(1) rest(1,3)]
    show ?case using l f(1) p1(1,3) by simp
  qed simp
  then show ?thesis using range_accounts(1,2) [of Os L U p] assms by (simp add: evict_def)
qed

lemma full_put_queue [simp]: "full L (put_queue a l p) = full L p"
  by (simp add: full_def)

lemma full_drop_last: "orders_ok Os \<Longrightarrow> full L p \<Longrightarrow> drop_last L Os now ts n p = Inr (d, p') \<Longrightarrow> full L p'"
  by (induction ts arbitrary: n p) (auto simp: bind_res_Inr_iff intro: full_removeTx split: if_splits)

lemma full_truncateQueue:
  assumes "orders_ok Os" "full L p" "truncateQueue L Os now p = Inr p'"
  shows "full L p'"
proof -
  have "full L p'" if "full L p" "truncate_loop L Os now as n p = Inr p'" for as n p
    using that
  proof (induction as arbitrary: n p)
    case (Cons a as)
    show ?case
    proof (cases "n > 0")
      case True
      then obtain l where l: "map_of (p_queue p) a = Some l" using Cons.prems(2) by (auto split: option.splits)
      obtain ts l' where f: "tl_Flatten (o_list Os 0) l = (ts, l')" by force
      let ?q = "put_queue a l' p" and ?len = "word_of_nat (tl_Len l) :: u64"
      have q: "full L ?q" using Cons.prems(1) by simp
      have r: "(if ?len \<le> n then bind_res (remove_txs L Os now ts True ?q) (truncate_loop L Os now as (n - ?len))
          else bind_res (drop_last L Os now (rev ts) n ?q) (\<lambda>(n, p). truncate_loop L Os now as n p)) = Inr p'"
        using True l f Cons.prems(2) by (simp add: Let_def)
      have "\<exists>q m. full L q \<and> truncate_loop L Os now as m q = Inr p'"
      proof (cases "?len \<le> n")
        case True
        then obtain q' where "remove_txs L Os now ts True ?q = Inr q'" "truncate_loop L Os now as (n - ?len) q' = Inr p'" using r by (auto simp: bind_res_Inr_iff)
        then show ?thesis using full_remove_txs [OF assms(1) q] by blast
      next
        case False
        then obtain d q' where "drop_last L Os now (rev ts) n ?q = Inr (d, q')" "truncate_loop L Os now as d q' = Inr p'" using r by (auto simp: bind_res_Inr_iff)
        then show ?thesis using full_drop_last [OF assms(1) q] by blast
      qed
      then show ?thesis using Cons.IH by blast
    qed (use Cons.prems in simp)
  qed simp
  then show ?thesis using assms(2,3) by (auto simp: truncateQueue_def Let_def split: if_splits)
qed

lemma full_evict:
  assumes "orders_ok Os" "full L p" "evict L Os now p = Inr p'"
  shows "full L p'"
proof -
  have "full L p'" if "full L p" "evict_loop L Os now as p = Inr p'" for as p
    using that
  proof (induction as arbitrary: p)
    case (Cons a as)
    have "\<exists>q. full L q \<and> evict_loop L Os now as q = Inr p'"
    proof (cases "evict_loop L Os now as p = Inr p'")
      case False
      then obtain l where l: "map_of (p_queue p) a = Some l"
          "(let (txs, l) = tl_Flatten (o_list Os 0) l in bind_res (remove_txs L Os now txs True (put_queue a l p)) (evict_loop L Os now as)) = Inr p'"
        using Cons.prems(2) by (auto split: if_splits option.splits)
      obtain ts l' where f: "tl_Flatten (o_list Os 0) l = (ts, l')" by force
      obtain q where "remove_txs L Os now ts True (put_queue a l' p) = Inr q" "evict_loop L Os now as q = Inr p'"
        using l(2) f by (auto simp: bind_res_Inr_iff)
      moreover have "full L (put_queue a l' p)" using Cons.prems(1) by simp
      ultimately show ?thesis using full_remove_txs [OF assms(1)] by blast
    qed (use Cons.prems(1) in blast)
    then show ?case using Cons.IH by blast
  qed simp
  then show ?thesis using assms(2,3) by (simp add: evict_def)
qed

section \<open>Pending transactions\<close>

definition len_at :: "tx_pool \<Rightarrow> bytes \<Rightarrow> nat" where
  "len_at p a = length (txs_at (p_pending p) a)"

definition pops_ok :: "((bytes \<times> nat) list \<Rightarrow> (bytes \<times> nat) list) \<Rightarrow> bool" where
  "pops_ok pops \<longleftrightarrow> (\<forall>xs. mset (pops xs) = mset xs \<and> sorted_wrt (\<lambda>x y. snd x \<ge> snd y) (pops xs))"

text \<open>The counter stays in line with the lists, and the lists of the other accounts stay as they are.\<close>

definition counted :: "tx_pool \<Rightarrow> u64 \<Rightarrow> bool" where
  "counted p n \<longleftrightarrow> n = queued_total (p_pending p)"

lemma queued_total_update:
  assumes "distinct (map fst ls)" "map_of ls a = Some l"
  shows "queued_total (AList.update a l' ls) = queued_total ls - word_of_nat (tl_Len l) + word_of_nat (tl_Len l')"
  using assms
proof (induction ls)
  case (Cons x ls)
  obtain b m where x: "x = (b, m)" by force
  show ?case
  proof (cases "a = b")
    case False
    then show ?thesis using Cons x by (simp add: queued_total_def)
  qed (use Cons.prems x in \<open>simp add: queued_total_def\<close>)
qed simp

lemma cap_one_ok:
  assumes "pool_env L U Os" "pool_ok L U p" "map_of (p_pending p) a = Some l" "len_at p a = Suc n" "counted p c"
  shows "\<exists>p'. cap_one L Os a p = Inr p' \<and> pool_ok L U p' \<and> p_config p' = p_config p \<and> p_locals p' = p_locals p \<and> len_at p' a = n \<and>
    map_of (p_pending p') a \<noteq> None \<and> (\<forall>b. b \<noteq> a \<longrightarrow> map_of (p_pending p') b = map_of (p_pending p) b) \<and> counted p' (c - 1)"
proof -
  have pi: "pool_inv L U (known (p_all p)) {} {} p" using assms(2) by (simp add: pool_ok_def)
  have l: "tl_ok (pl_Cost L) True l" "txs_at (p_pending p) a = sm_txs (tl_txs l)" using pool_ok_at(2) [OF assms(2,3)] by auto
  define xs where "xs = sm_txs (tl_txs l)"
  have len: "length xs = Suc n" "tl_Len l = Suc n" using assms(4) l tl_Len_txs [OF l(1)] by (simp_all add: len_at_def xs_def)
  define t where "t = xs ! n"
  have dt: "drop n xs = [t]" "xs = take n xs @ [t]"
    using len(1) Cons_nth_drop_Suc [of n xs] take_Suc_conv_app_nth [of n xs] by (simp_all add: t_def)
  obtain l' where l': "tl_Cap n l = Inr ([Some t], l')" "tl_ok (pl_Cost L) True l'" "sm_txs (tl_txs l') = take n xs"
    using tl_Cap_ok [OF l(1), of n] dt(1) by (auto simp: xs_def)
  have d: "distinct xs" using tl_distinct [OF l(1)] distinct_of_nonces by (auto simp: xs_def)
  then have nt: "t \<notin> set (take n xs)" using dt(2) by (metis distinct_append disjoint_iff list.set_intros(1))
  have sx: "set xs = insert t (set (take n xs))" by (subst dt(2)) simp
  have "{} \<union> (set (txs_at (p_pending p) a) - set (sm_txs (tl_txs l'))) = {t}" 
    unfolding l(2) l'(3) xs_def [symmetric] using sx nt by auto
  moreover have "set (sm_txs (tl_txs l')) \<subseteq> set (txs_at (p_pending p) a)" unfolding l(2) l'(3) xs_def [symmetric] by (rule set_take_subset)
  ultimately have x: "pool_inv L U (known (p_all p)) {t} {} (put_pending a l' p)" using pool_inv_shrink_pending [OF pi l'(2), of a] by simp
  have "t \<in> set (txs_at (p_pending p) a)" unfolding l(2) xs_def [symmetric] by (subst dt(2)) simp
  then have tU: "t \<in> U" using pool_inv_lists(4) [OF pi] by blast
  define q where "q = forget L t (put_pending a l' p)"
  have "known (p_all q) = known (p_all p) - {t}"
    using lk_Remove_ok(2) [of L U "p_all p" t] assms(1,2) tU by (simp add: q_def forget_def pool_ok_def pool_inv_def)
  then have q: "pool_ok L U q" using pool_inv_forget [OF assms(1) x _ tU] by (simp add: q_def pool_ok_def)
  define r where "r = q\<lparr>p_noncer := noncer_setIfLower a (tx_Nonce t) (p_noncer q)\<rparr>"
  have r: "pool_ok L U r" using q by (simp add: r_def pool_ok_def pool_inv_def)
  have e: "cap_one L Os a p = Inr (the_removed L Os 1 r)"
    unfolding cap_one_def assms(3) option.case using len(2) l'(1) by (simp add: r_def q_def Let_def)
  have f: "p_pending (the_removed L Os 1 r) = AList.update a l' (p_pending p)" "p_config (the_removed L Os 1 r) = p_config p" "p_locals (the_removed L Os 1 r) = p_locals p"
    by (simp_all add: the_removed_def r_def q_def forget_def put_pending_def)
  note f1 = f [unfolded pending_frames]
  have dk: "distinct (map fst (p_pending p))" using assms(2) by (auto simp: pool_ok_def pool_inv_def parts_def lists_ok_def)
  have "tl_Len l' = n" using tl_Len_txs [OF l'(2)] l'(3) len(1) by simp
  then have "counted (the_removed L Os 1 r) (c - 1)" using queued_total_update [OF dk assms(3), of l'] assms(5) len(2) by (simp add: counted_def f1)
  moreover have "len_at (the_removed L Os 1 r) a = n" using l'(3) len(1) by (simp add: len_at_def f1 txs_at_update)
  ultimately show ?thesis using e f pool_ok_removed [OF assms(1) r, of 1] by (auto simp: update_conv)
qed

definition leveled :: "tx_pool \<Rightarrow> bytes list \<Rightarrow> nat \<Rightarrow> bool" where
  "leveled p as n \<longleftrightarrow> (\<forall>a \<in> set as. map_of (p_pending p) a \<noteq> None \<and> len_at p a = n)"

definition apart :: "bytes list \<Rightarrow> tx_pool \<Rightarrow> tx_pool \<Rightarrow> bool" where
  "apart as p p' \<longleftrightarrow> p_config p' = p_config p \<and> p_locals p' = p_locals p \<and> (\<forall>b. b \<notin> set as \<longrightarrow> map_of (p_pending p') b = map_of (p_pending p) b)"

lemma apart_refl [simp]: "apart as p p"
  by (simp add: apart_def)

lemma apart_trans: "apart as p p' \<Longrightarrow> apart bs p' p'' \<Longrightarrow> set as \<subseteq> set cs \<Longrightarrow> set bs \<subseteq> set cs \<Longrightarrow> apart cs p p''"
  unfolding apart_def by (metis subsetD)

lemma apart_len: "apart as p p' \<Longrightarrow> b \<notin> set as \<Longrightarrow> len_at p' b = len_at p b"
  by (simp add: apart_def len_at_def txs_at_def)

lemma apart_leveled: "apart as p p' \<Longrightarrow> set as \<inter> set bs = {} \<Longrightarrow> leveled p bs n \<Longrightarrow> leveled p' bs n"
  using apart_len [of as p p'] unfolding leveled_def apart_def by (metis disjoint_iff)

lemma cap_each_ok:
  assumes "pool_env L U Os" "pool_ok L U p" "distinct as" "leveled p as (Suc n)" "counted p c"
  shows "\<exists>c' p'. cap_each L Os as c p = Inr (c', p') \<and> pool_ok L U p' \<and> leveled p' as n \<and> counted p' c' \<and> apart as p p'"
  using assms(2-5)
proof (induction as arbitrary: p c)
  case (Cons a as)
  obtain l where l: "map_of (p_pending p) a = Some l" "len_at p a = Suc n" using Cons.prems(3) by (auto simp: leveled_def)
  obtain p1 where p1: "cap_one L Os a p = Inr p1" "pool_ok L U p1" "counted p1 (c - 1)" "apart [a] p p1" "leveled p1 [a] n"
    using cap_one_ok [OF assms(1) Cons.prems(1) l Cons.prems(4)] by (auto simp: apart_def leveled_def)
  have na: "a \<notin> set as" "distinct as" using Cons.prems(2) by auto
  have "leveled p as (Suc n)" using Cons.prems(3) by (simp add: leveled_def)
  from apart_leveled [OF p1(4) _ this] have "leveled p1 as (Suc n)" using na(1) by simp
  from Cons.IH [OF p1(2) na(2) this p1(3)] obtain c' p'
    where p': "cap_each L Os as (c - 1) p1 = Inr (c', p')" "pool_ok L U p'" "leveled p' as n" "counted p' c'" "apart as p1 p'" by blast
  have "leveled p' [a] n" using apart_leveled [OF p'(5) _ p1(5)] na(1) by simp
  then have "leveled p' (a # as) n" using p'(3) by (simp add: leveled_def)
  moreover have "apart (a # as) p p'" by (rule apart_trans [OF p1(4) p'(5)]) auto
  ultimately show ?case using p1(1) p' by simp
qed (simp add: leveled_def)

text \<open>
  The rounds end: they take one transaction of each offender at a time, and stop once the offenders are
  down to the bound, or the pool is.
\<close>

lemma len_at_Len: "pool_ok L U p \<Longrightarrow> map_of (p_pending p) a = Some l \<Longrightarrow> tl_Len l = len_at p a"
  using pool_ok_at(2) [of L U p a l] tl_Len_txs [of "pl_Cost L" True l] by (simp add: len_at_def)

lemma cap_rounds_ok:
  assumes "pool_env L U Os" "pool_ok L U p" "distinct as" "as \<noteq> []" "leveled p as n" "counted p c" "\<not> over 0"
  shows "\<exists>c' p' m. cap_rounds L Os over as c p = Some (Inr (c', p')) \<and> pool_ok L U p' \<and> counted p' c' \<and> apart as p p' \<and>
    leveled p' as m \<and> (c' \<le> pc_GlobalSlots (p_config p') \<or> \<not> over m) \<and> (m = n \<or> over (Suc m)) \<and> (\<forall>k. k \<le> n \<and> \<not> over k \<and> (\<forall>j. k < j \<and> j \<le> n \<longrightarrow> over j) \<longrightarrow> k \<le> m)"
  using assms(2,5,6)
proof (induction n arbitrary: p c)
  case 0
  have "last as \<in> set as" using assms(4) by simp
  then obtain l where l: "map_of (p_pending p) (last as) = Some l" "len_at p (last as) = 0" using 0(2) by (auto simp: leveled_def)
  then have "tl_Len l = 0" using len_at_Len [OF 0(1) l(1)] by simp
  then have "cap_rounds L Os over as c p = Some (Inr (c, p))" using l(1) assms(7) by (subst cap_rounds.simps) simp
  then show ?case using 0 assms(7) by auto
next
  case (Suc n)
  have "last as \<in> set as" using assms(4) by simp
  then obtain l where l: "map_of (p_pending p) (last as) = Some l" "len_at p (last as) = Suc n" using Suc.prems(2) by (auto simp: leveled_def)
  then have len: "tl_Len l = Suc n" using len_at_Len [OF Suc.prems(1) l(1)] by simp
  show ?case
  proof (cases "c \<le> pc_GlobalSlots (p_config p) \<or> \<not> over (Suc n)")
    case True
    then have "cap_rounds L Os over as c p = Some (Inr (c, p))" using l(1) len by (subst cap_rounds.simps) auto
    then show ?thesis using Suc.prems True by (intro exI [of _ c] exI [of _ p] exI [of _ "Suc n"]) simp
  next
    case False
    obtain c1 p1 where p1: "cap_each L Os as c p = Inr (c1, p1)" "pool_ok L U p1" "leveled p1 as n" "counted p1 c1" "apart as p p1"
      using cap_each_ok [OF assms(1) Suc.prems(1) assms(3) Suc.prems(2,3)] by blast
    obtain c' p' m where r: "cap_rounds L Os over as c1 p1 = Some (Inr (c', p'))" "pool_ok L U p'" "counted p' c'" "apart as p1 p'"
        "leveled p' as m" "c' \<le> pc_GlobalSlots (p_config p') \<or> \<not> over m" "m = n \<or> over (Suc m)" "\<forall>k. k \<le> n \<and> \<not> over k \<and> (\<forall>j. k < j \<and> j \<le> n \<longrightarrow> over j) \<longrightarrow> k \<le> m"
      using Suc.IH [OF p1(2,3,4)] by blast
    have e: "cap_rounds L Os over as c p = Some (Inr (c', p'))" using False l(1) len p1(1) r(1) by (subst cap_rounds.simps) simp
    have "k \<le> m" if "k \<le> Suc n" "\<not> over k" "\<forall>j. k < j \<and> j \<le> Suc n \<longrightarrow> over j" for k
      using that False r(8) by (cases "k = Suc n") auto
    moreover have "m = Suc n \<or> over (Suc m)" using r(7) False by auto
    ultimately show ?thesis using e r(2,3,5,6) apart_trans [OF p1(5) r(4)] by blast
  qed
qed

text \<open>The offenders are kept at one length, that of the last one popped.\<close>

definition next_down :: "tx_pool \<Rightarrow> bytes list \<Rightarrow> nat \<Rightarrow> bool" where
  "next_down p spammers n \<longleftrightarrow> sorted_wrt (\<lambda>x y. len_at p x \<ge> len_at p y) spammers \<and>
     (\<forall>s \<in> set spammers. map_of (p_pending p) s \<noteq> None \<and> len_at p s \<le> n)"

lemma next_down_apart:
  assumes "apart as p p'" "set as \<inter> set spammers = {}" "next_down p spammers n"
  shows "next_down p' spammers n"
proof -
  have same: "len_at p' s = len_at p s" "map_of (p_pending p') s = map_of (p_pending p) s" if "s \<in> set spammers" for s
    using assms(1,2) that apart_len [OF assms(1)] by (auto simp: apart_def)
  have "sorted_wrt (\<lambda>x y. len_at p' x \<ge> len_at p' y) spammers"
    by (rule sorted_wrt_mono_rel [of _ "\<lambda>x y. len_at p x \<ge> len_at p y"]) (use assms(3) same(1) in \<open>auto simp: next_down_def\<close>)
  then show ?thesis using assms(3) same by (simp add: next_down_def)
qed

lemma next_down_Cons: "next_down p (a # spammers) n \<longleftrightarrow> next_down p spammers (len_at p a) \<and> map_of (p_pending p) a \<noteq> None \<and> len_at p a \<le> n"
  unfolding next_down_def by (auto intro: order_trans)

lemma full_len: "full L p \<Longrightarrow> map_of (p_pending p) a \<noteq> None \<Longrightarrow> 0 < len_at p a"
  by (auto simp: full_def len_at_def txs_at_def)

lemma full_leveled:
  assumes "full L p" "pool_ok L U p'" "apart as p p'" "leveled p' as m" "0 < m"
  shows "full L p'"
proof -
  have "tl_ok (pl_Cost L) True l \<and> sm_txs (tl_txs l) \<noteq> []" if l: "map_of (p_pending p') a = Some l" for a l
  proof (cases "a \<in> set as")
    case True
    then show ?thesis using pool_ok_at(2) [OF assms(2) l] assms(4,5) by (auto simp: leveled_def len_at_def)
  next
    case False
    then show ?thesis using assms(1,3) l by (simp add: apart_def full_def)
  qed
  then show ?thesis by (simp add: full_def)
qed

lemma offend_loop_ok:
  assumes "pool_env L U Os" "pool_ok L U p \<and> full L p" "distinct (offenders @ spammers)" "counted p c"
    "c > pc_GlobalSlots (p_config p) \<Longrightarrow> leveled p offenders n \<and> next_down p spammers n"
  shows "\<exists>offs c' p' m. offend_loop L Os spammers offenders c p = Some (Inr (offs, c', p')) \<and> (pool_ok L U p' \<and> full L p') \<and> counted p' c' \<and>
    apart (offenders @ spammers) p p' \<and> distinct offs \<and>
    (c' \<le> pc_GlobalSlots (p_config p') \<or> leveled p' offs m \<and> set offs = set offenders \<union> set spammers)"
  using assms(2-5)
proof (induction spammers arbitrary: p offenders c n)
  case Nil
  show ?case
  proof (cases "c \<le> pc_GlobalSlots (p_config p)")
    case False
    then show ?thesis using Nil by (intro exI [of _ offenders] exI [of _ c] exI [of _ p] exI [of _ n]) simp
  qed (use Nil in simp)
next
  case (Cons a rest)
  show ?case
  proof (cases "c \<le> pc_GlobalSlots (p_config p)")
    case True
    then show ?thesis using Cons.prems by simp
  next
    case False
    then have lv: "leveled p offenders n" "next_down p rest (len_at p a)" "len_at p a \<le> n" and na: "map_of (p_pending p) a \<noteq> None"
      using Cons.prems(4) by (auto simp: next_down_Cons)
    obtain l where l: "map_of (p_pending p) a = Some l" using na by auto
    have len: "tl_Len l = len_at p a" by (rule len_at_Len [OF conjunct1 [OF Cons.prems(1)] l])
    have d: "distinct ((offenders @ [a]) @ rest)" "a \<notin> set offenders" "set offenders \<inter> set rest = {}" "distinct offenders" using Cons.prems(2) by auto
    have la: "leveled p [a] (len_at p a)" using l by (simp add: leveled_def)
    show ?thesis
    proof (cases "offenders = []")
      case True
      then show ?thesis using Cons.IH [OF Cons.prems(1) d(1) Cons.prems(3)] lv(2) la False by simp
    next
      case ne: False
      have "\<not> 0 > tl_Len l" by simp
      from cap_rounds_ok [OF assms(1) conjunct1 [OF Cons.prems(1)] d(4) ne lv(1) Cons.prems(3), of "\<lambda>k. k > tl_Len l", OF this]
      obtain c1 p1 m where r: "cap_rounds L Os (\<lambda>k. k > tl_Len l) offenders c p = Some (Inr (c1, p1))" "pool_ok L U p1" "counted p1 c1"
          "apart offenders p p1" "leveled p1 offenders m" "c1 \<le> pc_GlobalSlots (p_config p1) \<or> \<not> m > tl_Len l" "tl_Len l \<le> m"
        using lv(3) len by auto
      have "0 < m" using r(7) len full_len [of L p a] l Cons.prems(1) by simp
      then have ok1: "pool_ok L U p1 \<and> full L p1" using full_leveled [OF _ r(2,4,5)] r(2) Cons.prems(1) by blast
      have "leveled p1 [a] (len_at p a)" by (rule apart_leveled [OF r(4) _ la]) (use d(2) in simp)
      moreover have "next_down p1 rest (len_at p a)" by (rule next_down_apart [OF r(4) d(3) lv(2)])
      ultimately have "c1 > pc_GlobalSlots (p_config p1) \<Longrightarrow> leveled p1 (offenders @ [a]) (len_at p a) \<and> next_down p1 rest (len_at p a)"
        using r(5-7) len by (auto simp: leveled_def)
      from Cons.IH [OF ok1 d(1) r(3) this] obtain offs c' p' k where s: "offend_loop L Os rest (offenders @ [a]) c1 p1 = Some (Inr (offs, c', p'))" "pool_ok L U p' \<and> full L p'" "counted p' c'"
          "apart ((offenders @ [a]) @ rest) p1 p'" "distinct offs" "c' \<le> pc_GlobalSlots (p_config p') \<or> leveled p' offs k \<and> set offs = set (offenders @ [a]) \<union> set rest" by blast
      have "offend_loop L Os (a # rest) offenders c p = Some (Inr (offs, c', p'))" using False ne l r(1) s(1) by simp
      moreover have "apart (offenders @ a # rest) p p'" by (rule apart_trans [OF r(4) s(4)]) auto
      moreover have "set (offenders @ [a]) \<union> set rest = set offenders \<union> set (a # rest)" by simp
      ultimately show ?thesis using s(2,3,5,6) by metis
    qed
  qed
qed

text \<open>
  After the truncation either the pending lists fit into the global limit, or no remote account is above
  its own.
\<close>

definition pending_bounded :: "tx_pool \<Rightarrow> bool" where
  "pending_bounded p \<longleftrightarrow> queued_total (p_pending p) \<le> pc_GlobalSlots (p_config p) \<or>
     (\<forall>(a, l) \<in> set (p_pending p). as_contains (p_locals p) a \<or> word_of_nat (tl_Len l) \<le> pc_AccountSlots (p_config p))"

lemma spammers_ok:
  assumes "orders_ok Os" "pool_ok L U p" "pops_ok pops"
    "spammers = map fst (pops (map (\<lambda>al. (fst al, tl_Len (snd al))) (filter (high_roller p) (o_accts Os (p_pending p)))))"
  shows "distinct spammers" "\<exists>n. next_down p spammers n"
    "a \<in> set spammers \<longleftrightarrow> (\<exists>l. map_of (p_pending p) a = Some l \<and> high_roller p (a, l))"
proof -
  let ?acc = "filter (high_roller p) (o_accts Os (p_pending p))"
  let ?in = "map (\<lambda>al. (fst al, tl_Len (snd al))) ?acc"
  have dk: "distinct (map fst (p_pending p))" using assms(2) by (auto simp: pool_ok_def pool_inv_def parts_def lists_ok_def)
  have m: "mset (pops ?in) = mset ?in" and srt: "sorted_wrt (\<lambda>x y. snd x \<ge> snd y) (pops ?in)" using assms(3) by (auto simp: pops_ok_def)
  have "mset spammers = image_mset fst (mset (pops ?in))" unfolding assms(4) by (rule mset_map)
  then have "mset spammers = mset (map fst ?acc)" unfolding m by (simp add: image_mset.compositionality comp_def flip: mset_map)
  moreover have "distinct (map fst ?acc)" by (rule distinct_map_filter [OF range_accounts(3) [OF assms(1,2)]])
  ultimately show "distinct spammers" by (metis mset_eq_imp_distinct_iff)
  have so: "set (o_accts Os (p_pending p)) = set (p_pending p)" using assms(1) by (metis mset_eq_setD orders_ok_def)
  have sp: "set (pops ?in) = set ?in" by (rule mset_eq_setD [OF m])
  have mem: "(a, l) \<in> set (p_pending p) \<longleftrightarrow> map_of (p_pending p) a = Some l" for a l using dk by simp
  show iff: "a \<in> set spammers \<longleftrightarrow> (\<exists>l. map_of (p_pending p) a = Some l \<and> high_roller p (a, l))" for a
    unfolding assms(4) set_map sp set_filter so mem [symmetric] by force
  have lens: "snd x = len_at p (fst x)" if x: "x \<in> set (pops ?in)" for x
  proof -
    obtain b l where "x = (b, tl_Len l)" "(b, l) \<in> set (p_pending p)" using x so unfolding sp by auto
    then show ?thesis using len_at_Len [OF assms(2)] mem by simp
  qed
  have "sorted_wrt (\<lambda>x y. len_at p (fst x) \<ge> len_at p (fst y)) (pops ?in)"
    by (rule sorted_wrt_mono_rel [OF _ srt]) (use lens in simp)
  then have "sorted_wrt (\<lambda>x y. len_at p x \<ge> len_at p y) spammers" unfolding assms(4) by (simp add: sorted_wrt_map)
  moreover have "len_at p s \<le> Max (len_at p ` set spammers)" if "s \<in> set spammers" for s using that by simp
  ultimately have "next_down p spammers (Max (len_at p ` set spammers))" using iff unfolding next_down_def by auto
  then show "\<exists>n. next_down p spammers n" by blast
qed

lemma pending_bounded_intro:
  assumes "pool_ok L U p'" "apart spammers p p'" "leveled p' spammers m" "\<not> word_of_nat m > pc_AccountSlots (p_config p')"
    "\<And>a. a \<in> set spammers \<longleftrightarrow> (\<exists>l. map_of (p_pending p) a = Some l \<and> high_roller p (a, l))"
  shows "pending_bounded p'"
proof -
  have dk: "distinct (map fst (p_pending p'))" using assms(1) by (auto simp: pool_ok_def pool_inv_def parts_def lists_ok_def)
  have "as_contains (p_locals p') a \<or> word_of_nat (tl_Len l) \<le> pc_AccountSlots (p_config p')" if al: "(a, l) \<in> set (p_pending p')" for a l
  proof (cases "a \<in> set spammers")
    case True
    have "map_of (p_pending p') a = Some l" using al dk by simp
    then have "tl_Len l = m" using True assms(3) len_at_Len [OF assms(1)] by (simp add: leveled_def)
    then show ?thesis using assms(4) by (simp add: not_less)
  next
    case False
    have "map_of (p_pending p') a = Some l" using al dk by simp
    then have "map_of (p_pending p) a = Some l" using False assms(2) by (simp add: apart_def)
    then have "\<not> high_roller p (a, l)" using False assms(5) by blast
    then show ?thesis using assms(2) by (simp add: high_roller_def apart_def not_less)
  qed
  then show ?thesis by (auto simp: pending_bounded_def)
qed

lemma truncatePending_ok:
  assumes "pool_env L U Os" "pool_ok L U p" "pops_ok pops" "full L p" "pc_AccountSlots (p_config p) \<noteq> 0"
  shows "\<exists>p'. truncatePending L Os pops p = Some (Inr p') \<and> pool_ok L U p' \<and> full L p' \<and> p_config p' = p_config p \<and> pending_bounded p'"
proof (cases "queued_total (p_pending p) \<le> pc_GlobalSlots (p_config p)")
  case True
  then show ?thesis using assms(2,4) by (simp add: truncatePending_def pending_bounded_def)
next
  case False
  define sp where "sp = map fst (pops (map (\<lambda>al. (fst al, tl_Len (snd al))) (filter (high_roller p) (o_accts Os (p_pending p)))))"
  have o: "orders_ok Os" using assms(1) by simp
  note S = spammers_ok [OF o assms(2,3) sp_def]
  obtain n where n: "next_down p sp n" using S(2) by blast
  have "distinct ([] @ sp)" "counted p (queued_total (p_pending p))" using S(1) by (simp_all add: counted_def)
  from offend_loop_ok [OF assms(1) conjI [OF assms(2,4)] this, of n] obtain offs c1 p1 m
    where r: "offend_loop L Os sp [] (queued_total (p_pending p)) p = Some (Inr (offs, c1, p1))" "pool_ok L U p1" "counted p1 c1" "full L p1"
      "apart sp p p1" "distinct offs" "c1 \<le> pc_GlobalSlots (p_config p1) \<or> leveled p1 offs m \<and> set offs = set sp"
    using n by (auto simp: leveled_def)
  let ?over = "\<lambda>n. word_of_nat n > pc_AccountSlots (p_config p1)"
  have red: "truncatePending L Os pops p = (if c1 > pc_GlobalSlots (p_config p1) \<and> offs \<noteq> []
      then (case cap_rounds L Os ?over offs c1 p1 of None \<Rightarrow> None | Some r \<Rightarrow> Some (map_sum (\<lambda>e. e) snd r)) else Some (Inr p1))"
    using False r(1) by (simp add: truncatePending_def sp_def)
  have cfg: "p_config p1 = p_config p" using r(5) by (simp add: apart_def)
  show ?thesis
  proof (cases "c1 > pc_GlobalSlots (p_config p1)")
    case below: False
    then have "pending_bounded p1" using r(3) by (simp add: pending_bounded_def counted_def not_less)
    then show ?thesis using red r(2,4) cfg below by auto
  next
    case above_limit: True
    then have lv: "leveled p1 offs m" "set offs = set sp" using r(7) by auto
    show ?thesis
    proof (cases "offs = []")
      case True
      then have "leveled p1 sp 0" using lv(2) by (simp add: leveled_def)
      from pending_bounded_intro [OF r(2,5) this _ S(3)] have "pending_bounded p1" by simp
      then show ?thesis using red r(2,4) cfg True by auto
    next
      case ne: False
      have "\<not> ?over 0" by simp
      from cap_rounds_ok [OF assms(1) r(2,6) ne lv(1) r(3), of ?over, OF this] obtain c2 p2 k
        where t: "cap_rounds L Os ?over offs c1 p1 = Some (Inr (c2, p2))" "pool_ok L U p2" "counted p2 c2" "apart offs p1 p2" "leveled p2 offs k"
          "c2 \<le> pc_GlobalSlots (p_config p2) \<or> \<not> ?over k" "k = m \<or> ?over (Suc k)" by blast
      have "last offs \<in> set offs" using ne by simp
      then have "0 < m" using lv(1) full_len [OF r(4)] by (auto simp: leveled_def)
      moreover have "\<not> ?over (Suc 0)" using assms(5) cfg by (simp add: word_less_nat_alt unat_eq_zero)
      ultimately have "0 < k" using t(7) by (cases k) auto
      then have fl: "full L p2" by (rule full_leveled [OF r(4) t(2,4,5)])
      have cfg2: "p_config p2 = p_config p1" using t(4) by (simp add: apart_def)
      have ap: "apart sp p p2" by (rule apart_trans [OF r(5) t(4)]) (use lv(2) in auto)
      have lk: "leveled p2 sp k" using t(5) lv(2) by (simp add: leveled_def)
      have "pending_bounded p2"
      proof (cases "c2 \<le> pc_GlobalSlots (p_config p2)")
        case True
        then show ?thesis using t(3) by (simp add: pending_bounded_def counted_def)
      next
        case False
        then show ?thesis using pending_bounded_intro [OF t(2) ap lk _ S(3)] t(6) cfg2 by simp
      qed
      then show ?thesis using red above_limit ne t(1,2) fl cfg cfg2 by simp
    qed
  qed
qed

end
