(* ===== verification/Pool_Reorg.thy ===== *)
theory Pool_Reorg
  imports Pool_Limits Evm_Module "HOL-Library.Log_Nat"
begin

text \<open>
  The reorganisation of the transaction pool (\<open>reset\<close> and \<open>runReorg\<close> of src/evmcore/tx_pool.go), the loop
  that schedules it, the batches of new transactions, and the views other components take. Whatever the
  sequence of operations, the pool does not panic and keeps its lists, its lookup table and its price
  heap together.
\<close>

section \<open>Creation\<close>

record pool_state =
  st_GetNonce :: "bytes \<Rightarrow> u64"
  st_GetBalance :: "bytes \<Rightarrow> int"

text \<open>
  The chain as \<open>reset\<close> reads it: \<open>StateAt\<close> fails with \<open>None\<close>, \<open>IsBerlin\<close> belongs to the chain configuration in
  force, and \<open>TxDifference\<close> is go-ethereum's.
\<close>

record head_chain =
  hc_CurrentBlock :: evm_block
  hc_GetBlock :: "bytes \<Rightarrow> u64 \<Rightarrow> evm_block option"
  hc_StateAt :: "bytes \<Rightarrow> pool_state option"
  hc_MaxGasLimit :: u64
  hc_IsBerlin :: "int \<Rightarrow> bool"
  hc_TxDifference :: "transaction list \<Rightarrow> transaction list \<Rightarrow> transaction list"

definition NumberU64 :: "evm_block \<Rightarrow> u64" where
  "NumberU64 b = word_of_int (eh_Number (eb_Header b))"

text \<open>
  \<open>float64\<close> of an unsigned integer rounds to 53 significant bits, ties to the even one. The difference of
  two such values is rounded again, which cannot move it across 64.
\<close>

definition float64_of :: "nat \<Rightarrow> nat" where
  "float64_of n =
     (let e = floorlog 2 n - 53; q = n div 2 ^ e; r = n mod 2 ^ e
      in (if 2 * r > 2 ^ e \<or> (2 * r = 2 ^ e \<and> odd q \<and> e > 0) then q + 1 else q) * 2 ^ e)"

definition reorg_depth :: "u64 \<Rightarrow> u64 \<Rightarrow> nat" where
  "reorg_depth oldNum newNum =
     (let a = float64_of (unat oldNum); b = float64_of (unat newNum) in float64_of (if a \<ge> b then a - b else b - a))"

section \<open>Reset\<close>

text \<open>Walking back along the parents; \<open>Some None\<close> is an unrooted chain.\<close>

partial_function (option) walk_down ::
  "(bytes \<Rightarrow> u64 \<Rightarrow> evm_block option) \<Rightarrow> u64 \<Rightarrow> evm_block \<Rightarrow> transaction list \<Rightarrow> (transaction list \<times> evm_block) option option" where
  [code]: "walk_down get_block num b txs =
     (if NumberU64 b > num
      then (case get_block (eh_ParentHash (eb_Header b)) (NumberU64 b - 1) of
              None \<Rightarrow> Some None
            | Some parent \<Rightarrow> walk_down get_block num parent (txs @ eb_Transactions b))
      else Some (Some (txs, b)))"

partial_function (option) walk_both ::
  "(bytes \<Rightarrow> u64 \<Rightarrow> evm_block option) \<Rightarrow> evm_block \<Rightarrow> evm_block \<Rightarrow> transaction list \<Rightarrow> transaction list \<Rightarrow>
     (transaction list \<times> transaction list) option option" where
  [code]: "walk_both get_block rem_b add_b discarded included =
     (if eh_Hash (eb_Header rem_b) \<noteq> eh_Hash (eb_Header add_b)
      then (case get_block (eh_ParentHash (eb_Header rem_b)) (NumberU64 rem_b - 1) of
              None \<Rightarrow> Some None
            | Some rem_p \<Rightarrow>
                (case get_block (eh_ParentHash (eb_Header add_b)) (NumberU64 add_b - 1) of
                   None \<Rightarrow> Some None
                 | Some add_p \<Rightarrow>
                     walk_both get_block rem_p add_p (discarded @ eb_Transactions rem_b) (included @ eb_Transactions add_b)))
      else Some (Some (discarded, included)))"

text \<open>
  The transactions to inject again. The outer \<open>None\<close> is a walk that does not end, the inner one the early
  return that leaves the pool as it is.
\<close>

definition reinjected :: "head_chain \<Rightarrow> evm_header \<Rightarrow> evm_header \<Rightarrow> transaction list option res option" where
  "reinjected R oldHead newHead =
     (let oldNum = word_of_int (eh_Number oldHead) :: u64; newNum = word_of_int (eh_Number newHead) :: u64
      in if reorg_depth oldNum newNum > 64 then Some (Inr (Some []))
         else case hc_GetBlock R (eh_Hash oldHead) oldNum of
           None \<Rightarrow> Some (Inr (if newNum \<ge> oldNum then None else Some []))
         | Some rem_b \<Rightarrow>
             (case hc_GetBlock R (eh_Hash newHead) newNum of
                None \<Rightarrow> Some (Inl (Panic NilDereference))
              | Some add_b \<Rightarrow>
                  Option.bind (walk_down (hc_GetBlock R) (NumberU64 add_b) rem_b []) (\<lambda>r.
                  case r of None \<Rightarrow> Some (Inr None)
                  | Some (discarded, rem_b) \<Rightarrow>
                      Option.bind (walk_down (hc_GetBlock R) (NumberU64 rem_b) add_b []) (\<lambda>r.
                      case r of None \<Rightarrow> Some (Inr None)
                      | Some (included, add_b) \<Rightarrow>
                          Option.bind (walk_both (hc_GetBlock R) rem_b add_b discarded included) (\<lambda>r.
                          case r of None \<Rightarrow> Some (Inr None)
                          | Some (discarded, included) \<Rightarrow> Some (Inr (Some (hc_TxDifference R discarded included))))))))"

definition reset_state :: "pool_lib \<Rightarrow> chain \<Rightarrow> head_chain \<Rightarrow> orders \<Rightarrow> int \<Rightarrow> evm_header option \<Rightarrow> transaction list \<Rightarrow> tx_pool \<Rightarrow> tx_pool res" where
  "reset_state L C R Os now newHead reinject p =
     (let newHead = (case newHead of None \<Rightarrow> eb_Header (hc_CurrentBlock R) | Some h \<Rightarrow> h)
      in case hc_StateAt R (eh_Root newHead) of
           None \<Rightarrow> Inr p
         | Some st \<Rightarrow>
             let p = p\<lparr>p_GetNonce := st_GetNonce st, p_GetBalance := st_GetBalance st,
                       p_noncer := newTxNoncer (st_GetNonce st), p_maxGas := hc_MaxGasLimit R\<rparr>
             in bind_res (addTxsLocked L C Os now reinject False p) (\<lambda>(_, p).
                Inr (p\<lparr>p_eip2718 := hc_IsBerlin R (eh_Number newHead + 1)\<rparr>)))"

definition reset ::
  "pool_lib \<Rightarrow> chain \<Rightarrow> head_chain \<Rightarrow> orders \<Rightarrow> int \<Rightarrow> evm_header option \<Rightarrow> evm_header option \<Rightarrow> tx_pool \<Rightarrow> tx_pool res option" where
  "reset L C R Os now oldHead newHead p =
     (case oldHead of
        None \<Rightarrow> Some (reset_state L C R Os now newHead [] p)
      | Some oh \<Rightarrow>
          (case newHead of
             None \<Rightarrow> Some (Inl (Panic NilDereference))
           | Some nh \<Rightarrow>
               if eh_Hash oh = eh_ParentHash nh then Some (reset_state L C R Os now newHead [] p)
               else Option.bind (reinjected R oh nh) (\<lambda>r.
                    Some (bind_res r (\<lambda>reinject. case reinject of None \<Rightarrow> Inr p | Some txs \<Rightarrow> reset_state L C R Os now newHead txs p)))))"

definition NewTxPool ::
  "pool_lib \<Rightarrow> chain \<Rightarrow> head_chain \<Rightarrow> orders \<Rightarrow> int \<Rightarrow> pool_config \<Rightarrow> bytes list \<Rightarrow> bool \<Rightarrow> pool_state \<Rightarrow> tx_pool res option" where
  "NewTxPool L C R Os now cf local_accounts journaled st =
     (let cf = sanitize cf;
          p = \<lparr>p_config = cf, p_gasPrice = uint (pc_PriceLimit cf), p_eip2718 = False, p_GetNonce = st_GetNonce st,
               p_GetBalance = st_GetBalance st, p_noncer = newTxNoncer (st_GetNonce st), p_maxGas = 0, p_locals = fold as_add local_accounts [],
               p_journal = (if journaled \<and> \<not> pc_NoLocals cf then Some [] else None), p_pending = [], p_queue = [], p_beats = [],
               p_all = newTxLookup, p_priced = newTxPricedList, p_events = []\<rparr>
      in reset L C R Os now None (Some (eb_Header (hc_CurrentBlock R))) p)"

section \<open>Reorganisation\<close>

type_synonym tx_events = "(bytes \<times> sorted_map) list"

definition queue_event :: "pool_lib \<Rightarrow> transaction \<Rightarrow> tx_events \<Rightarrow> tx_events" where
  "queue_event L tx events =
     (let addr = sender L tx
      in AList.update addr (sm_Put tx (case map_of events addr of None \<Rightarrow> newTxSortedMap | Some m \<Rightarrow> m)) events)"

fun forward_events :: "tx_events \<Rightarrow> tx_noncer \<Rightarrow> (tx_events \<times> tx_noncer) res" where
  "forward_events [] nn = Inr ([], nn)"
| "forward_events ((addr, m) # events) nn =
     (let (nonce, nn) = noncer_get addr nn
      in bind_res (sm_Forward nonce m) (\<lambda>(_, m).
         bind_res (forward_events events nn) (\<lambda>(events, nn).
         Inr (if sm_Len m = 0 then events else (addr, m) # events, nn))))"

fun update_nonces :: "orders \<Rightarrow> bytes list \<Rightarrow> tx_pool \<Rightarrow> tx_pool res" where
  "update_nonces Os [] p = Inr p"
| "update_nonces Os (addr # addrs) p =
     (case map_of (p_pending p) addr of
        None \<Rightarrow> Inl (Panic NilDereference)
      | Some l \<Rightarrow> bind_res (tl_LastElement (o_list Os 0) l) (\<lambda>(highestPending, l).
          update_nonces Os addrs (put_pending addr l (p\<lparr>p_noncer := noncer_set addr (tx_Nonce highestPending + 1) (p_noncer p)\<rparr>))))"

text \<open>
  One run on behalf of the scheduling loop: \<open>request\<close> is the reset to perform and \<open>dirty\<close> the accounts to
  promote, in the order they are read. The result carries the transactions announced, if any.
\<close>

definition reorg_reset ::
  "pool_lib \<Rightarrow> chain \<Rightarrow> head_chain \<Rightarrow> orders \<Rightarrow> int \<Rightarrow> (evm_header option \<times> evm_header option) option \<Rightarrow> bytes list option \<Rightarrow>
     tx_events \<Rightarrow> tx_pool \<Rightarrow> (bytes list \<times> tx_events \<times> tx_pool) run" where
  "reorg_reset L C R Os now request dirty events p =
     (case request of
        None \<Rightarrow> Some (Inr (case dirty of None \<Rightarrow> [] | Some addrs \<Rightarrow> addrs, events, p))
      | Some (oldHead, newHead) \<Rightarrow>
          bind_run (reset L C R Os now oldHead newHead p) (\<lambda>p.
          Some (bind_res (forward_events events (p_noncer p)) (\<lambda>(events, nn).
          let p = p\<lparr>p_noncer := nn\<rparr> in Inr (map fst (o_accts Os (p_queue p)), events, p)))))"

definition announced :: "orders \<Rightarrow> tx_events \<Rightarrow> transaction list option" where
  "announced Os events = (if events = [] then None else Some (concat (map (\<lambda>(_, m). fst (sm_Flatten (o_list Os 0) m)) events)))"

definition runReorg ::
  "pool_lib \<Rightarrow> chain \<Rightarrow> head_chain \<Rightarrow> orders \<Rightarrow> ((bytes \<times> nat) list \<Rightarrow> (bytes \<times> nat) list) \<Rightarrow> int \<Rightarrow>
     (evm_header option \<times> evm_header option) option \<Rightarrow> bytes list option \<Rightarrow> tx_events \<Rightarrow> tx_pool \<Rightarrow> (transaction list option \<times> tx_pool) run" where
  "runReorg L C R Os pops now request dirty events p =
     bind_run (reorg_reset L C R Os now request dirty events p) (\<lambda>(promoteAddrs, events, p).
     bind_run (Some (promoteExecutables L Os now promoteAddrs [] p)) (\<lambda>(promoted, p).
     bind_run (Some (if request \<noteq> None then demoteUnexecutables L Os now p else Inr p)) (\<lambda>p.
     bind_run (truncatePending L Os pops p) (\<lambda>p.
     bind_run (Some (truncateQueue L Os now p)) (\<lambda>p.
     bind_run (Some (update_nonces Os (map fst (o_accts Os (p_pending p))) p)) (\<lambda>p.
     Some (Inr (announced Os (fold (queue_event L) promoted events), p))))))))"

section \<open>Batches of new transactions\<close>

fun split_known :: "pool_lib \<Rightarrow> transaction list \<Rightarrow> tx_pool \<Rightarrow> go_error option list \<times> transaction list" where
  "split_known L [] p = ([], [])"
| "split_known L (tx # txs) p =
     (let (errs, news) = split_known L txs p
      in if lk_Get (pl_Hash L tx) (p_all p) \<noteq> None then (Some ErrAlreadyKnown # errs, news)
         else if pl_Sender L tx = None then (Some ErrInvalidSender # errs, news)
         else (None # errs, tx # news))"

function next_slot :: "go_error option list \<Rightarrow> nat \<Rightarrow> nat res" where
  "next_slot errs i =
     (if i \<ge> length errs then Inl (Panic IndexOutOfRange)
      else if errs ! i \<noteq> None then next_slot errs (i + 1) else Inr i)"
  by pat_completeness auto
termination by (relation "measure (\<lambda>(errs, i). length errs - i)") auto

declare next_slot.simps [simp del]

fun merge_errs :: "go_error option list \<Rightarrow> go_error option list \<Rightarrow> nat \<Rightarrow> go_error option list res" where
  "merge_errs [] errs nilSlot = Inr errs"
| "merge_errs (err # newErrs) errs nilSlot =
     bind_res (next_slot errs nilSlot) (\<lambda>i. merge_errs newErrs (errs[i := err]) (i + 1))"

text \<open>The accounts to promote are handed to the scheduling loop; without new transactions there are none.\<close>

definition addTxs ::
  "pool_lib \<Rightarrow> chain \<Rightarrow> orders \<Rightarrow> int \<Rightarrow> transaction list \<Rightarrow> bool \<Rightarrow> tx_pool \<Rightarrow> ((go_error option list \<times> account_set option) \<times> tx_pool) res" where
  "addTxs L C Os now txs local p =
     (let (errs, news) = split_known L txs p
      in if news = [] then Inr ((errs, None), p)
         else bind_res (addTxsLocked L C Os now news local p) (\<lambda>((newErrs, dirty), p).
              bind_res (merge_errs newErrs errs 0) (\<lambda>errs. Inr ((errs, Some dirty), p))))"

definition AddLocals ::
  "pool_lib \<Rightarrow> chain \<Rightarrow> orders \<Rightarrow> int \<Rightarrow> transaction list \<Rightarrow> tx_pool \<Rightarrow> ((go_error option list \<times> account_set option) \<times> tx_pool) res" where
  "AddLocals L C Os now txs p = addTxs L C Os now txs (\<not> pc_NoLocals (p_config p)) p"

definition AddRemotes ::
  "pool_lib \<Rightarrow> chain \<Rightarrow> orders \<Rightarrow> int \<Rightarrow> transaction list \<Rightarrow> tx_pool \<Rightarrow> ((go_error option list \<times> account_set option) \<times> tx_pool) res" where
  "AddRemotes L C Os now txs p = addTxs L C Os now txs False p"

section \<open>Views\<close>

datatype TxStatus = TxStatusUnknown | TxStatusQueued | TxStatusPending | TxStatusIncluded

definition has_nonce :: "u64 \<Rightarrow> tx_list option \<Rightarrow> bool" where
  "has_nonce n l = (case l of None \<Rightarrow> False | Some l \<Rightarrow> sm_Get n (tl_txs l) \<noteq> None)"

definition Status :: "pool_lib \<Rightarrow> bytes list \<Rightarrow> tx_pool \<Rightarrow> TxStatus list" where
  "Status L hashes p = map (\<lambda>h. case lk_Get h (p_all p) of
       None \<Rightarrow> TxStatusUnknown
     | Some tx \<Rightarrow>
         let from_addr = sender L tx
         in if has_nonce (tx_Nonce tx) (map_of (p_pending p) from_addr) then TxStatusPending
            else if has_nonce (tx_Nonce tx) (map_of (p_queue p) from_addr) then TxStatusQueued
            else TxStatusUnknown) hashes"

definition pool_stats :: "tx_pool \<Rightarrow> nat \<times> nat" where
  "pool_stats p = (sum_list (map (\<lambda>(_, l). tl_Len l) (p_pending p)), sum_list (map (\<lambda>(_, l). tl_Len l) (p_queue p)))"

definition flatten_lists :: "visit \<Rightarrow> lists \<Rightarrow> (bytes \<times> transaction list) list \<times> lists" where
  "flatten_lists it ls = (map (\<lambda>(a, l). (a, fst (tl_Flatten it l))) ls, map (\<lambda>(a, l). (a, snd (tl_Flatten it l))) ls)"

definition Content :: "orders \<Rightarrow> tx_pool \<Rightarrow> ((bytes \<times> transaction list) list \<times> (bytes \<times> transaction list) list) \<times> tx_pool" where
  "Content Os p =
     (let (pending, ls) = flatten_lists (o_list Os 0) (p_pending p); (queued, ms) = flatten_lists (o_list Os 0) (p_queue p)
      in ((pending, queued), p\<lparr>p_pending := ls, p_queue := ms\<rparr>))"

definition Pending :: "orders \<Rightarrow> tx_pool \<Rightarrow> (bytes \<times> transaction list) list \<times> tx_pool" where
  "Pending Os p = (let (pending, ls) = flatten_lists (o_list Os 0) (p_pending p) in (pending, p\<lparr>p_pending := ls\<rparr>))"

definition local_txs :: "orders \<Rightarrow> tx_pool \<Rightarrow> (bytes \<times> transaction list) list" where
  "local_txs Os p =
     (let flat = (\<lambda>l. case l of None \<Rightarrow> [] | Some l \<Rightarrow> fst (tl_Flatten (o_list Os 0) l))
      in map (\<lambda>a. (a, flat (map_of (p_pending p) a) @ flat (map_of (p_queue p) a)))
           (filter (\<lambda>a. map_of (p_pending p) a \<noteq> None \<or> map_of (p_queue p) a \<noteq> None) (p_locals p)))"

definition pool_Nonce :: "bytes \<Rightarrow> tx_pool \<Rightarrow> u64 \<times> tx_pool" where
  "pool_Nonce addr p = (let (n, nn) = noncer_get addr (p_noncer p) in (n, p\<lparr>p_noncer := nn\<rparr>))"

text \<open>The price the pool asks for follows the recommendation of the chain, which may be missing.\<close>

definition gas_price_update :: "pool_lib \<Rightarrow> orders \<Rightarrow> int \<Rightarrow> int option \<Rightarrow> int \<Rightarrow> tx_pool \<Rightarrow> tx_pool res" where
  "gas_price_update L Os now recommended minGasPrice p =
     (case recommended of
        None \<Rightarrow> Inr p
      | Some newPrice \<Rightarrow>
          let cfgLimit = uint (pc_PriceLimit (p_config p)); newPrice = (if newPrice < cfgLimit then cfgLimit else newPrice)
          in if p_gasPrice p \<noteq> newPrice then SetGasPriceWithCap L Os now newPrice minGasPrice p else Inr p)"

section \<open>Scheduling\<close>

text \<open>
  The loop that collects requests while a run is under way; a run is handed what was collected since the
  one before.
\<close>

record sched =
  sc_running :: bool
  sc_launchNextRun :: bool
  sc_reset :: "(evm_header option \<times> evm_header option) option"
  sc_dirtyAccounts :: "account_set option"
  sc_queuedEvents :: tx_events

datatype sched_msg =
    ReqReset "evm_header option" "evm_header option"
  | ReqPromote account_set
  | QueueTxEvent transaction
  | RunDone

definition sched_start :: sched where
  "sched_start = \<lparr>sc_running = False, sc_launchNextRun = False, sc_reset = None, sc_dirtyAccounts = None, sc_queuedEvents = []\<rparr>"

type_synonym reorg_run = "(evm_header option \<times> evm_header option) option \<times> account_set option \<times> tx_events"

definition sched_launch :: "sched \<Rightarrow> reorg_run list \<times> sched" where
  "sched_launch s =
     (if \<not> sc_running s \<and> sc_launchNextRun s
      then ([(sc_reset s, sc_dirtyAccounts s, sc_queuedEvents s)],
            \<lparr>sc_running = True, sc_launchNextRun = False, sc_reset = None, sc_dirtyAccounts = None, sc_queuedEvents = []\<rparr>)
      else ([], s))"

fun sched_receive :: "pool_lib \<Rightarrow> sched_msg \<Rightarrow> sched \<Rightarrow> sched" where
  "sched_receive L (ReqReset oldHead newHead) s =
     s\<lparr>sc_reset := Some (case sc_reset s of None \<Rightarrow> (oldHead, newHead) | Some (oh, _) \<Rightarrow> (oh, newHead)), sc_launchNextRun := True\<rparr>"
| "sched_receive L (ReqPromote req) s =
     s\<lparr>sc_dirtyAccounts := Some (case sc_dirtyAccounts s of None \<Rightarrow> req | Some d \<Rightarrow> as_merge req d), sc_launchNextRun := True\<rparr>"
| "sched_receive L (QueueTxEvent tx) s = s\<lparr>sc_queuedEvents := queue_event L tx (sc_queuedEvents s)\<rparr>"
| "sched_receive L RunDone s = s\<lparr>sc_running := False\<rparr>"

fun scheduleReorgLoop :: "pool_lib \<Rightarrow> sched_msg list \<Rightarrow> sched \<Rightarrow> reorg_run list \<times> sched" where
  "scheduleReorgLoop L [] s = sched_launch s"
| "scheduleReorgLoop L (m # ms) s =
     (let (runs, s) = sched_launch s; (later, s) = scheduleReorgLoop L ms (sched_receive L m s) in (runs @ later, s))"

section \<open>What an operation keeps\<close>

text \<open>
  The configuration after \<open>sanitize\<close> keeps at least one slot per account. An \<open>AccountQueue\<close> of $2^{63}$ or more
  is negative as the \<open>int\<close> that the capping of a queued list takes.
\<close>

definition config_ok :: "pool_config \<Rightarrow> bool" where
  "config_ok cf \<longleftrightarrow> pc_AccountSlots cf \<noteq> 0 \<and> 0 \<le> sint (pc_AccountQueue cf)"

definition pool_good :: "pool_lib \<Rightarrow> transaction set \<Rightarrow> tx_pool \<Rightarrow> bool" where
  "pool_good L U p \<longleftrightarrow> pool_ok L U p \<and> full L p \<and> config_ok (p_config p)"

lemma pool_good_same:
  assumes "pool_good L U p" "p_all p' = p_all p" "p_pending p' = p_pending p" "p_queue p' = p_queue p" "p_priced p' = p_priced p" "p_config p' = p_config p"
  shows "pool_good L U p'"
  using assms full_same [of L p p'] by (simp add: pool_good_def pool_ok_def pool_inv_def)

lemma addTxs_loop_good:
  assumes "pool_env L U Os" "pool_good L U p" "set ts \<subseteq> U"
  shows "\<exists>errs d p'. addTxs_loop L C Os now ts local dirty p = Inr ((errs, d), p') \<and> pool_good L U p' \<and> length errs = length ts"
  using assms(2,3)
proof (induction ts arbitrary: p dirty)
  case (Cons t ts)
  obtain r p1 where p1: "add L C Os now t local p = Inr (r, p1)" "pool_ok L U p1" "p_config p1 = p_config p"
    using add_ok [OF assms(1), of p t C now local] Cons.prems by (auto simp: pool_good_def)
  then have "pool_good L U p1" using full_add [of Os L p] assms(1) Cons.prems(1) by (auto simp: pool_good_def)
  from Cons.IH [OF this, of "if r = Inr False then as_addTx L t dirty else dirty"] Cons.prems(2)
  obtain errs d p' where "addTxs_loop L C Os now ts local (if r = Inr False then as_addTx L t dirty else dirty) p1 = Inr ((errs, d), p')"
      "pool_good L U p'" "length errs = length ts" by auto
  then show ?case using p1(1) by (simp add: Let_def)
qed simp

lemma addTxsLocked_good:
  assumes "pool_env L U Os" "pool_good L U p" "set ts \<subseteq> U"
  shows "\<exists>errs d p'. addTxsLocked L C Os now ts local p = Inr ((errs, d), p') \<and> pool_good L U p' \<and> length errs = length ts"
  using addTxs_loop_good [OF assms] by (simp add: addTxsLocked_def)

section \<open>Resets end\<close>

text \<open>
  What \<open>reset\<close> relies on: a block is found under its own number, none is stored under the greatest one, and
  \<open>TxDifference\<close> returns transactions of its first argument. \<open>U\<close> holds the transactions of the blocks.
\<close>

definition head_chain_ok :: "transaction set \<Rightarrow> head_chain \<Rightarrow> bool" where
  "head_chain_ok U R \<longleftrightarrow> (\<forall>h n b. hc_GetBlock R h n = Some b \<longrightarrow> NumberU64 b = n \<and> set (eb_Transactions b) \<subseteq> U) \<and>
     (\<forall>h. hc_GetBlock R h (- 1) = None) \<and> (\<forall>xs ys. set (hc_TxDifference R xs ys) \<subseteq> set xs)"

lemma unat_pred: "(n :: u64) \<noteq> 0 \<Longrightarrow> unat (n - 1) < unat n"
  by (simp add: unat_minus_one word_gt_0 unat_gt_0)

lemma walk_down_ends:
  assumes "head_chain_ok U R" "set (eb_Transactions b) \<subseteq> U" "set txs \<subseteq> U"
  shows "\<exists>r. walk_down (hc_GetBlock R) num b txs = Some r \<and> (\<forall>txs' b'. r = Some (txs', b') \<longrightarrow> set txs' \<subseteq> U \<and> set (eb_Transactions b') \<subseteq> U)"
  using assms(2,3)
proof (induction "unat (NumberU64 b)" arbitrary: b txs rule: less_induct)
  case less
  show ?case
  proof (cases "NumberU64 b > num")
    case True
    then have nz: "NumberU64 b \<noteq> 0" by auto
    show ?thesis
    proof (cases "hc_GetBlock R (eh_ParentHash (eb_Header b)) (NumberU64 b - 1)")
      case (Some parent)
      then have par: "NumberU64 parent = NumberU64 b - 1" "set (eb_Transactions parent) \<subseteq> U" using assms(1) by (auto simp: head_chain_ok_def)
      have "unat (NumberU64 parent) < unat (NumberU64 b)" using par(1) unat_pred [OF nz] by simp
      from less.hyps [OF this par(2), of "txs @ eb_Transactions b"] less.prems obtain r
        where r: "walk_down (hc_GetBlock R) num parent (txs @ eb_Transactions b) = Some r"
          "\<forall>txs' b'. r = Some (txs', b') \<longrightarrow> set txs' \<subseteq> U \<and> set (eb_Transactions b') \<subseteq> U" by auto
      have "walk_down (hc_GetBlock R) num b txs = Some r" using True Some r(1) by (subst walk_down.simps) simp
      then show ?thesis using r(2) by blast
    qed (use True in \<open>simp add: walk_down.simps\<close>)
  qed (use less.prems in \<open>simp add: walk_down.simps\<close>)
qed

lemma walk_both_ends:
  assumes "head_chain_ok U R" "set (eb_Transactions b) \<subseteq> U" "set ds \<subseteq> U"
  shows "\<exists>r. walk_both (hc_GetBlock R) b b2 ds is = Some r \<and> (\<forall>ds' is'. r = Some (ds', is') \<longrightarrow> set ds' \<subseteq> U)"
  using assms(2,3)
proof (induction "unat (NumberU64 b)" arbitrary: b b2 ds "is" rule: less_induct)
  case less
  let ?get = "hc_GetBlock R" and ?pb = "eh_ParentHash (eb_Header b)" and ?p2 = "eh_ParentHash (eb_Header b2)"
  show ?case
  proof (cases "eh_Hash (eb_Header b) = eh_Hash (eb_Header b2)")
    case True
    then show ?thesis using less.prems by (simp add: walk_both.simps)
  next
    case ne: False
    show ?thesis
    proof (cases "?get ?pb (NumberU64 b - 1) = None \<or> ?get ?p2 (NumberU64 b2 - 1) = None")
      case True
      then show ?thesis using ne by (subst walk_both.simps) (auto split: option.splits)
    next
      case False
      then obtain par par2 where par: "?get ?pb (NumberU64 b - 1) = Some par" "?get ?p2 (NumberU64 b2 - 1) = Some par2" by auto
      have nz: "NumberU64 b \<noteq> 0" using par(1) assms(1) by (auto simp: head_chain_ok_def)
      have num: "NumberU64 par = NumberU64 b - 1" "set (eb_Transactions par) \<subseteq> U" using par(1) assms(1) by (auto simp: head_chain_ok_def)
      have "unat (NumberU64 par) < unat (NumberU64 b)" using num(1) unat_pred [OF nz] by simp
      from less.hyps [OF this num(2), of "ds @ eb_Transactions b" par2 "is @ eb_Transactions b2"] less.prems
      show ?thesis using ne par by (subst walk_both.simps) auto
    qed
  qed
qed

lemma reinjected_ends:
  assumes "head_chain_ok U R" "hc_GetBlock R (eh_Hash nh) (word_of_int (eh_Number nh)) \<noteq> None"
  shows "\<exists>r. reinjected R oh nh = Some (Inr r) \<and> (\<forall>txs. r = Some txs \<longrightarrow> set txs \<subseteq> U)"
proof -
  let ?get = "hc_GetBlock R" and ?old = "word_of_int (eh_Number oh) :: u64" and ?new = "word_of_int (eh_Number nh) :: u64"
  show ?thesis
  proof (cases "reorg_depth ?old ?new > 64 \<or> ?get (eh_Hash oh) ?old = None")
    case True
    then show ?thesis by (auto simp: reinjected_def Let_def)
  next
    case False
    then obtain rb ab where b: "?get (eh_Hash oh) ?old = Some rb" "?get (eh_Hash nh) ?new = Some ab" using assms(2) by auto
    have sub: "set (eb_Transactions rb) \<subseteq> U" "set (eb_Transactions ab) \<subseteq> U" "\<And>xs ys. set (hc_TxDifference R xs ys) \<subseteq> set xs"
      using b assms(1) by (auto simp: head_chain_ok_def)
    obtain r1 where r1: "walk_down ?get (NumberU64 ab) rb [] = Some r1" "\<forall>ts b'. r1 = Some (ts, b') \<longrightarrow> set ts \<subseteq> U \<and> set (eb_Transactions b') \<subseteq> U"
      using walk_down_ends [OF assms(1) sub(1), of "[]" "NumberU64 ab"] by auto
    show ?thesis
    proof (cases r1)
      case None
      then show ?thesis using False b r1(1) by (simp add: reinjected_def Let_def)
    next
      case (Some x)
      obtain ds rb' where x: "r1 = Some (ds, rb')" using Some by (cases x) simp
      obtain r2 where r2: "walk_down ?get (NumberU64 rb') ab [] = Some r2" using walk_down_ends [OF assms(1) sub(2), of "[]" "NumberU64 rb'"] by auto
      show ?thesis
      proof (cases r2)
        case None
        then show ?thesis using False b r1(1) x r2 by (simp add: reinjected_def Let_def)
      next
        case (Some y)
        obtain ic ab' where y: "r2 = Some (ic, ab')" using Some by (cases y) simp
        obtain r3 where r3: "walk_both ?get rb' ab' ds ic = Some r3" "\<forall>d i. r3 = Some (d, i) \<longrightarrow> set d \<subseteq> U"
          using walk_both_ends [OF assms(1), of rb' ds ab' ic] r1(2) x by auto
        show ?thesis using False b r1(1) x r2 y r3 sub(3) by (cases r3) (auto simp: reinjected_def Let_def dest: subsetD [OF sub(3)])
      qed
    qed
  qed
qed

lemma reset_state_good:
  assumes "pool_env L U Os" "pool_good L U p" "set ts \<subseteq> U"
  shows "\<exists>p'. reset_state L C R Os now nh ts p = Inr p' \<and> pool_good L U p'"
proof -
  define h where "h = (case nh of None \<Rightarrow> eb_Header (hc_CurrentBlock R) | Some h \<Rightarrow> h)"
  show ?thesis
  proof (cases "hc_StateAt R (eh_Root h)")
    case None
    then show ?thesis using assms(2) by (simp add: reset_state_def h_def)
  next
    case (Some st)
    let ?p = "p\<lparr>p_GetNonce := st_GetNonce st, p_GetBalance := st_GetBalance st, p_noncer := newTxNoncer (st_GetNonce st), p_maxGas := hc_MaxGasLimit R\<rparr>"
    have "pool_good L U ?p" by (rule pool_good_same [OF assms(2)]) simp_all
    from addTxsLocked_good [OF assms(1) this assms(3)] obtain e d q
      where q: "addTxsLocked L C Os now ts False ?p = Inr ((e, d), q)" "pool_good L U q" by blast
    have "pool_good L U (q\<lparr>p_eip2718 := hc_IsBerlin R (eh_Number h + 1)\<rparr>)" by (rule pool_good_same [OF q(2)]) simp_all
    then show ?thesis using Some q(1) by (simp add: reset_state_def h_def)
  qed
qed

text \<open>A request names the new head whenever it names the old one, and the new head is a stored block.\<close>

definition request_ok :: "head_chain \<Rightarrow> (evm_header option \<times> evm_header option) option \<Rightarrow> bool" where
  "request_ok R request = (case request of None \<Rightarrow> True
     | Some (oh, nh) \<Rightarrow> oh = None \<or> (case nh of None \<Rightarrow> False | Some h \<Rightarrow> hc_GetBlock R (eh_Hash h) (word_of_int (eh_Number h)) \<noteq> None))"

lemma reset_good:
  assumes "pool_env L U Os" "pool_good L U p" "head_chain_ok U R" "request_ok R (Some (oh, nh))"
  shows "\<exists>p'. reset L C R Os now oh nh p = Some (Inr p') \<and> pool_good L U p'"
proof -
  have plain: "\<exists>p'. reset_state L C R Os now nh [] p = Inr p' \<and> pool_good L U p'" using reset_state_good [OF assms(1,2), of "[]"] by simp
  show ?thesis
  proof (cases oh)
    case None
    then show ?thesis using plain by (simp add: reset_def)
  next
    case (Some o_head)
    then obtain n_head where nh: "nh = Some n_head" "hc_GetBlock R (eh_Hash n_head) (word_of_int (eh_Number n_head)) \<noteq> None"
      using assms(4) by (auto simp: request_ok_def split: option.splits)
    obtain r where r: "reinjected R o_head n_head = Some (Inr r)" "\<forall>txs. r = Some txs \<longrightarrow> set txs \<subseteq> U"
      using reinjected_ends [OF assms(3) nh(2)] by blast
    show ?thesis
    proof (cases r)
      case None
      then show ?thesis using plain Some nh(1) r(1) assms(2) by (simp add: reset_def)
    next
      case (Some txs)
      then show ?thesis using plain \<open>oh = Some o_head\<close> nh(1) r reset_state_good [OF assms(1,2), of txs C R now nh] by (simp add: reset_def)
    qed
  qed
qed

section \<open>Reorganisations\<close>

definition events_ok :: "tx_events \<Rightarrow> bool" where
  "events_ok events \<longleftrightarrow> (\<forall>(a, m) \<in> set events. sm_ok m)"

lemma forward_events_ok: "events_ok events \<Longrightarrow> \<exists>ev' nn'. forward_events events nn = Inr (ev', nn')"
proof (induction events arbitrary: nn)
  case (Cons x events)
  obtain a m where x: "x = (a, m)" by force
  obtain n nn1 where n: "noncer_get a nn = (n, nn1)" by force
  obtain ds m' where m': "sm_Forward n m = Inr (ds, m')" using sm_Forward_ok [of m n] Cons.prems x by (auto simp: events_ok_def)
  obtain ev' nn' where "forward_events events nn1 = Inr (ev', nn')" using Cons.IH [of nn1] Cons.prems by (auto simp: events_ok_def)
  then show ?case using x n m' by simp
qed simp

lemma tl_LastElement_ok:
  assumes "tl_ok cost strict l" "sm_txs (tl_txs l) \<noteq> []" "visit_ok it"
  shows "\<exists>l'. tl_LastElement it l = Inr (last (sm_txs (tl_txs l)), l') \<and> tl_ok cost strict l' \<and> sm_txs (tl_txs l') = sm_txs (tl_txs l)"
proof -
  obtain m where m: "sm_flatten it (tl_txs l) = (sm_txs (tl_txs l), m)" "sm_ok m" "sm_txs m = sm_txs (tl_txs l)"
    using sm_flatten_ok [OF tl_okD(1) [OF assms(1)] assms(3)] by blast
  then have "tl_ok cost strict (l\<lparr>tl_txs := m\<rparr>)" using tl_ok_shrink [OF assms(1) m(2)] by simp
  then show ?thesis using m assms(2) by (simp add: tl_LastElement_def sm_LastElement_def last_conv_nth)
qed

lemma update_nonces_good:
  assumes "pool_env L U Os" "pool_good L U p" "\<forall>a \<in> set as. map_of (p_pending p) a \<noteq> None"
  shows "\<exists>p'. update_nonces Os as p = Inr p' \<and> pool_good L U p'"
  using assms(2,3)
proof (induction as arbitrary: p)
  case (Cons a as)
  obtain l where l: "map_of (p_pending p) a = Some l" using Cons.prems(2) by auto
  have ok: "pool_ok L U p" and fl: "full L p" and cf: "config_ok (p_config p)" using Cons.prems(1) by (auto simp: pool_good_def)
  note fa = full_at [OF fl l]
  have v: "visit_ok (o_list Os 0)" using assms(1) by (simp add: orders_ok_def)
  obtain l' where l': "tl_LastElement (o_list Os 0) l = Inr (last (sm_txs (tl_txs l)), l')" "tl_ok (pl_Cost L) True l'" "sm_txs (tl_txs l') = sm_txs (tl_txs l)"
    using tl_LastElement_ok [OF conjunct1 [OF fa] conjunct2 [OF fa] v] by blast
  define q where "q = p\<lparr>p_noncer := noncer_set a (tx_Nonce (last (sm_txs (tl_txs l))) + 1) (p_noncer p)\<rparr>"
  have "pool_ok L U q" using ok by (simp add: q_def pool_ok_def pool_inv_def)
  then have pi: "pool_inv L U (known (p_all q)) {} {} q" by (simp add: pool_ok_def)
  have at: "txs_at (p_pending q) a = sm_txs (tl_txs l)" using l by (simp add: txs_at_def q_def)
  have "{} \<union> (set (txs_at (p_pending q) a) - set (sm_txs (tl_txs l'))) = {}" using at l'(3) by simp
  then have "pool_ok L U (put_pending a l' q)" using pool_inv_shrink_pending [OF pi l'(2), of a] at l'(3) by (simp add: pool_ok_def)
  moreover have "full L (put_pending a l' q)" by (rule full_put [OF fl l'(2), of _ a]) (use fa l'(3) in \<open>simp_all add: put_pending_def q_def\<close>)
  ultimately have g: "pool_good L U (put_pending a l' q)" using cf by (simp add: pool_good_def q_def)
  have "\<forall>b \<in> set as. map_of (p_pending (put_pending a l' q)) b \<noteq> None" using Cons.prems(2) by (simp add: put_pending_def q_def update_conv)
  from Cons.IH [OF g this] show ?case using l l'(1) by (simp add: q_def)
qed simp

lemma runReorg_good:
  assumes "pool_env L U Os" "pool_good L U p" "head_chain_ok U R" "request_ok R request" "pops_ok pops" "events_ok events"
  shows "\<exists>r p'. runReorg L C R Os pops now request dirty events p = Some (Inr (r, p')) \<and> pool_good L U p'"
proof -
  have o: "orders_ok Os" using assms(1) by simp
  obtain addrs ev p1 where p1: "reorg_reset L C R Os now request dirty events p = Some (Inr (addrs, ev, p1))" "pool_good L U p1"
  proof (cases request)
    case None
    then show ?thesis using assms(2) that by (simp add: reorg_reset_def)
  next
    case (Some r)
    obtain oh nh where r: "r = (oh, nh)" by force
    obtain q where q: "reset L C R Os now oh nh p = Some (Inr q)" "pool_good L U q" using reset_good [OF assms(1-3), of oh nh C now] assms(4) Some r by auto
    obtain ev nn where "forward_events events (p_noncer q) = Inr (ev, nn)" using forward_events_ok [OF assms(6)] by blast
    moreover have "pool_good L U (q\<lparr>p_noncer := nn\<rparr>)" by (rule pool_good_same [OF q(2)]) simp_all
    ultimately show ?thesis using that Some r q(1) by (simp add: reorg_reset_def)
  qed
  obtain pr p2 where p2: "promoteExecutables L Os now addrs [] p1 = Inr (pr, p2)" "pool_ok L U p2" "p_config p2 = p_config p1"
    using promoteExecutables_ok [OF assms(1), of p1 now addrs "[]"] p1(2) by (auto simp: pool_good_def config_ok_def)
  have g2: "pool_good L U p2" using p2 full_promoteExecutables [OF _ p2(1)] p1(2) by (simp add: pool_good_def)
  obtain p3 where p3: "(if request \<noteq> None then demoteUnexecutables L Os now p2 else Inr p2) = Inr p3" "pool_good L U p3"
  proof (cases request)
    case None
    then show ?thesis using g2 that by simp
  next
    case (Some r)
    obtain q where "demoteUnexecutables L Os now p2 = Inr q" "pool_ok L U q" "p_config q = p_config p2" using demoteUnexecutables_ok [OF assms(1) p2(2)] by blast
    then show ?thesis using that Some g2 full_demoteUnexecutables [OF o, of L p2] by (simp add: pool_good_def)
  qed
  obtain p4 where p4: "truncatePending L Os pops p3 = Some (Inr p4)" "pool_ok L U p4" "full L p4" "p_config p4 = p_config p3"
    using truncatePending_ok [OF assms(1) _ assms(5), of p3] p3(2) by (auto simp: pool_good_def config_ok_def)
  obtain p5 where p5: "truncateQueue L Os now p4 = Inr p5" "pool_ok L U p5" "p_config p5 = p_config p4" using truncateQueue_ok [OF assms(1) p4(2)] by blast
  have g5: "pool_good L U p5" using p5 full_truncateQueue [OF o p4(3) p5(1)] p4(4) p3(2) by (simp add: pool_good_def)
  obtain p6 where "update_nonces Os (map fst (o_accts Os (p_pending p5))) p5 = Inr p6" "pool_good L U p6"
    using update_nonces_good [OF assms(1) g5] range_accounts(4) [OF o p5(2)] by blast
  then show ?thesis using p1(1) p2(1) p3(1) p4(1) p5(1) by (simp add: runReorg_def)
qed

section \<open>Errors of a batch\<close>

text \<open>What the errors of a batch should be: those found before the lock stay, the others fill the gaps in order.\<close>

fun fill_errs :: "go_error option list \<Rightarrow> go_error option list \<Rightarrow> go_error option list" where
  "fill_errs [] es = []"
| "fill_errs (Some e # errs) es = Some e # fill_errs errs es"
| "fill_errs (None # errs) [] = None # fill_errs errs []"
| "fill_errs (None # errs) (e # es) = e # fill_errs errs es"

lemma next_slot_skip:
  "list_all (\<lambda>e. e \<noteq> None) mid \<Longrightarrow> next_slot (pre @ mid @ None # post) (length pre) = Inr (length pre + length mid)"
proof (induction mid arbitrary: pre)
  case (Cons e mid)
  have "next_slot (pre @ (e # mid) @ None # post) (length pre) = next_slot ((pre @ [e]) @ mid @ None # post) (length (pre @ [e]))"
    using Cons.prems by (subst next_slot.simps) (simp add: nth_append)
  then show ?case using Cons.IH [of "pre @ [e]"] Cons.prems by simp
qed (simp add: next_slot.simps nth_append)

lemma first_gap: "None \<in> set errs \<Longrightarrow> \<exists>mid post. errs = mid @ None # post \<and> list_all (\<lambda>e. e \<noteq> None) mid"
  by (metis (mono_tags, lifting) list_all_iff split_list_first)

lemma fill_errs_gap: "list_all (\<lambda>e. e \<noteq> None) mid \<Longrightarrow> fill_errs (mid @ None # post) (e # es) = mid @ e # fill_errs post es"
  by (induction mid) auto

lemma fill_errs_full: "None \<notin> set errs \<Longrightarrow> fill_errs errs [] = errs"
proof (induction errs)
  case (Cons e errs)
  then show ?case by (cases e) auto
qed simp

lemma gaps_split: "list_all (\<lambda>e. e \<noteq> None) mid \<Longrightarrow> count_list (mid @ None # post) None = Suc (count_list post None)"
  by (induction mid) auto

lemma merge_errs_fill:
  "length newErrs = count_list errs None \<Longrightarrow> merge_errs newErrs (pre @ errs) (length pre) = Inr (pre @ fill_errs errs newErrs)"
proof (induction newErrs arbitrary: pre errs)
  case Nil
  then have "None \<notin> set errs" by (simp add: count_list_0_iff)
  then show ?case by (simp add: fill_errs_full)
next
  case (Cons e es)
  then have "None \<in> set errs" by (metis count_list_0_iff length_0_conv list.distinct(1))
  then obtain mid post where m: "errs = mid @ None # post" "list_all (\<lambda>e. e \<noteq> None) mid" using first_gap by blast
  have "length es = count_list post None" using Cons.prems gaps_split [OF m(2)] m(1) by simp
  from Cons.IH [OF this, of "pre @ mid @ [e]"]
  have "merge_errs es ((pre @ mid @ [e]) @ post) (length (pre @ mid @ [e])) = Inr ((pre @ mid @ [e]) @ fill_errs post es)" .
  moreover have "(pre @ errs)[length pre + length mid := e] = (pre @ mid @ [e]) @ post" by (simp add: m(1) list_update_append)
  ultimately show ?case using next_slot_skip [OF m(2), of pre post] fill_errs_gap [OF m(2)] m(1) by simp
qed

lemma split_known_parts:
  "split_known L ts p = (errs, news) \<Longrightarrow> length news = count_list errs None \<and> set news \<subseteq> set ts \<and> length errs = length ts"
  by (induction ts arbitrary: errs news) (auto split: prod.splits if_splits)

lemma addTxs_good:
  assumes "pool_env L U Os" "pool_good L U p" "set ts \<subseteq> U"
  shows "\<exists>errs d p'. addTxs L C Os now ts local p = Inr ((errs, d), p') \<and> pool_good L U p' \<and> length errs = length ts"
proof -
  obtain errs news where sp: "split_known L ts p = (errs, news)" by force
  note P = split_known_parts [OF sp]
  have "set news \<subseteq> U" using P assms(3) by blast
  from addTxsLocked_good [OF assms(1,2) this] obtain es d p'
    where a: "addTxsLocked L C Os now news local p = Inr ((es, d), p')" "pool_good L U p'" "length es = length news" by blast
  have m: "merge_errs es errs 0 = Inr (fill_errs errs es)" using merge_errs_fill [of es errs "[]"] a(3) P by simp
  have "length (fill_errs errs es) = length errs" by (induction errs es rule: fill_errs.induct) auto
  then show ?thesis using sp a(1,2) m P assms(2) by (simp add: addTxs_def)
qed

section \<open>Runs of the pool\<close>

text \<open>
  The operations other goroutines perform on the pool, one at a time under its lock, each with the chain
  it finds, its map orders and the time.
\<close>

record call_env =
  ce_chain :: chain
  ce_head :: head_chain
  ce_orders :: orders
  ce_pops :: "(bytes \<times> nat) list \<Rightarrow> (bytes \<times> nat) list"
  ce_now :: int

datatype pool_call =
    CallAddLocals "transaction list"
  | CallAddRemotes "transaction list"
  | CallReorg "(evm_header option \<times> evm_header option) option" "bytes list option" tx_events
  | CallSetGasPrice int int
  | CallGasPriceUpdate "int option" int
  | CallEvict

fun pool_step :: "pool_lib \<Rightarrow> call_env \<Rightarrow> pool_call \<Rightarrow> tx_pool \<Rightarrow> tx_pool run" where
  "pool_step L e (CallAddLocals txs) p = Some (map_sum (\<lambda>x. x) snd (AddLocals L (ce_chain e) (ce_orders e) (ce_now e) txs p))"
| "pool_step L e (CallAddRemotes txs) p = Some (map_sum (\<lambda>x. x) snd (AddRemotes L (ce_chain e) (ce_orders e) (ce_now e) txs p))"
| "pool_step L e (CallReorg request dirty events) p =
     map_option (map_sum (\<lambda>x. x) snd)
       (runReorg L (ce_chain e) (ce_head e) (ce_orders e) (ce_pops e) (ce_now e) request dirty events p)"
| "pool_step L e (CallSetGasPrice price cap) p = Some (SetGasPriceWithCap L (ce_orders e) (ce_now e) price cap p)"
| "pool_step L e (CallGasPriceUpdate recommended minGasPrice) p =
     Some (gas_price_update L (ce_orders e) (ce_now e) recommended minGasPrice p)"
| "pool_step L e CallEvict p = Some (evict L (ce_orders e) (ce_now e) p)"

fun pool_run :: "pool_lib \<Rightarrow> (call_env \<times> pool_call) list \<Rightarrow> tx_pool \<Rightarrow> tx_pool run" where
  "pool_run L [] p = Some (Inr p)"
| "pool_run L ((e, c) # calls) p = bind_run (pool_step L e c p) (pool_run L calls)"

definition call_env_ok :: "transaction set \<Rightarrow> call_env \<Rightarrow> bool" where
  "call_env_ok U e \<longleftrightarrow> head_chain_ok U (ce_head e) \<and> orders_ok (ce_orders e) \<and> pops_ok (ce_pops e)"

fun call_ok :: "transaction set \<Rightarrow> call_env \<Rightarrow> pool_call \<Rightarrow> bool" where
  "call_ok U e (CallAddLocals txs) \<longleftrightarrow> set txs \<subseteq> U"
| "call_ok U e (CallAddRemotes txs) \<longleftrightarrow> set txs \<subseteq> U"
| "call_ok U e (CallReorg request dirty events) \<longleftrightarrow> request_ok (ce_head e) request \<and> events_ok events"
| "call_ok U e (CallSetGasPrice price cap) \<longleftrightarrow> True"
| "call_ok U e (CallGasPriceUpdate recommended minGasPrice) \<longleftrightarrow> True"
| "call_ok U e CallEvict \<longleftrightarrow> True"

lemma SetGasPriceWithCap_good:
  assumes "pool_env L U Os" "pool_good L U p"
  shows "\<exists>p'. SetGasPriceWithCap L Os now price cap p = Inr p' \<and> pool_good L U p'"
proof -
  obtain p' where p': "SetGasPriceWithCap L Os now price cap p = Inr p'" "pool_ok L U p'" "p_config p' = p_config p"
    using SetGasPriceWithCap_ok [OF assms(1), of p now price cap] assms(2) by (auto simp: pool_good_def)
  then show ?thesis using full_SetGasPriceWithCap [OF _ _ p'(1)] assms by (simp add: pool_good_def)
qed

lemma pool_step_good:
  assumes "universe L U" "call_env_ok U e" "call_ok U e c" "pool_good L U p"
  shows "\<exists>p'. pool_step L e c p = Some (Inr p') \<and> pool_good L U p'"
proof -
  have o: "orders_ok (ce_orders e)" and E: "pool_env L U (ce_orders e)" and g: "pool_ok L U p" "full L p" "config_ok (p_config p)"
    using assms by (auto simp: call_env_ok_def pool_good_def)
  show ?thesis
  proof (cases c)
    case (CallAddLocals txs)
    then show ?thesis using addTxs_good [OF E assms(4), of txs "ce_chain e" "ce_now e" "\<not> pc_NoLocals (p_config p)"] assms(3) by (auto simp: AddLocals_def)
  next
    case (CallAddRemotes txs)
    then show ?thesis using addTxs_good [OF E assms(4), of txs "ce_chain e" "ce_now e" False] assms(3) by (auto simp: AddRemotes_def)
  next
    case (CallReorg request dirty events)
    then show ?thesis
      using runReorg_good [OF E assms(4), of "ce_head e" request "ce_pops e" events "ce_chain e" "ce_now e" dirty] assms(2,3) by (auto simp: call_env_ok_def)
  next
    case (CallSetGasPrice price cap)
    then show ?thesis using SetGasPriceWithCap_good [OF E assms(4)] by simp
  next
    case (CallGasPriceUpdate recommended minGasPrice)
    then show ?thesis using SetGasPriceWithCap_good [OF E assms(4)] assms(4) by (simp add: gas_price_update_def Let_def split: option.splits)
  next
    case CallEvict
    obtain p' where p': "evict L (ce_orders e) (ce_now e) p = Inr p'" "pool_ok L U p'" "p_config p' = p_config p" using evict_ok [OF E g(1)] by blast
    then show ?thesis using CallEvict full_evict [OF o g(2) p'(1)] g(3) by (simp add: pool_good_def)
  qed
qed

lemma pool_run_good:
  assumes "universe L U" "\<forall>(e, c) \<in> set calls. call_env_ok U e \<and> call_ok U e c" "pool_good L U p"
  shows "\<exists>p'. pool_run L calls p = Some (Inr p') \<and> pool_good L U p'"
  using assms(2,3)
proof (induction calls arbitrary: p)
  case (Cons x calls)
  obtain e c where x: "x = (e, c)" by force
  obtain p1 where "pool_step L e c p = Some (Inr p1)" "pool_good L U p1" using pool_step_good [OF assms(1) _ _ Cons.prems(2), of e c] Cons.prems(1) x by auto
  then show ?case using Cons.IH [of p1] Cons.prems(1) x by auto
qed simp

lemma pool_created:
  assumes "universe L U" "call_env_ok U e" "config_ok (sanitize cf)"
  shows "\<exists>p. NewTxPool L (ce_chain e) (ce_head e) (ce_orders e) (ce_now e) cf accts journaled st = Some (Inr p) \<and> pool_good L U p"
proof -
  have E: "pool_env L U (ce_orders e)" using assms(1,2) by (simp add: call_env_ok_def)
  have empty: "lk_ok L U newTxLookup" "pr_covers U {} newTxPricedList"
    by (simp_all add: lk_ok_def newTxLookup_def table_ok_def locals_set_def remotes_set_def pr_covers_def newTxPricedList_def heap_ok_def)
  have lists: "parts L U True False {} {} [] []" by (auto simp: parts_def lists_ok_def held_def txs_at_def)
  have none: "known newTxLookup = {}" "remotes_set newTxLookup = {}" by (simp_all add: newTxLookup_def locals_set_def remotes_set_def)
  show ?thesis unfolding NewTxPool_def Let_def
    by (rule reset_good [OF E]) (use assms(2,3) empty lists none in
      \<open>simp_all add: pool_good_def pool_ok_def pool_inv_def full_def call_env_ok_def request_ok_def\<close>)
qed

section \<open>Properties of runs\<close>

definition pool_session ::
  "pool_lib \<Rightarrow> call_env \<Rightarrow> pool_config \<Rightarrow> bytes list \<Rightarrow> bool \<Rightarrow> pool_state \<Rightarrow> (call_env \<times> pool_call) list \<Rightarrow> tx_pool run" where
  "pool_session L e cf accts journaled st calls =
     bind_run (NewTxPool L (ce_chain e) (ce_head e) (ce_orders e) (ce_now e) cf accts journaled st) (pool_run L calls)"

lemma pool_session_good:
  assumes "universe L U" "config_ok (sanitize cf)" "call_env_ok U e" "\<forall>(e, c) \<in> set calls. call_env_ok U e \<and> call_ok U e c"
  shows "\<exists>p. pool_session L e cf accts journaled st calls = Some (Inr p) \<and> pool_good L U p"
proof -
  obtain p0 where "NewTxPool L (ce_chain e) (ce_head e) (ce_orders e) (ce_now e) cf accts journaled st = Some (Inr p0)" "pool_good L U p0"
    using pool_created [OF assms(1,3,2)] by blast
  then show ?thesis using pool_run_good [OF assms(1,4)] by (simp add: pool_session_def)
qed


lemma has_nonce_txs:
  assumes "lists_ok L U strict ls"
  shows "has_nonce n (map_of ls a) \<longleftrightarrow> (\<exists>t \<in> set (txs_at ls a). tx_Nonce t = n)"
proof (cases "map_of ls a")
  case (Some l)
  then have "items_ok (sm_items (tl_txs l))" using lists_ok_at [OF assms Some] tl_okD(2) by blast
  then show ?thesis using Some sm_Get_txs [of "tl_txs l" n] by (auto simp: has_nonce_def txs_at_def find_None_iff)
qed (simp add: has_nonce_def txs_at_def)

lemma Status_at:
  assumes "universe L U" "pool_ok L U p" "t \<in> U"
  shows "Status L [pl_Hash L t] p = [if t \<in> set (txs_at (p_pending p) (sender L t)) then TxStatusPending
    else if t \<in> set (txs_at (p_queue p) (sender L t)) then TxStatusQueued else TxStatusUnknown]"
proof -
  have pi: "pool_inv L U (known (p_all p)) {} {} p" and lk: "lk_ok L U (p_all p)" using assms(2) by (auto simp: pool_ok_def pool_inv_def)
  note I = pool_inv_lists [OF pi]
  have K: "t \<in> known (p_all p) \<longleftrightarrow> t \<in> held (p_pending p) (p_queue p)" using I(5) by simp
  show ?thesis
  proof (cases "t \<in> known (p_all p)")
    case False
    then have "\<forall>u \<in> known (p_all p). pl_Hash L u \<noteq> pl_Hash L t"
      using lk assms(1,3) unfolding lk_ok_def universe_def by (metis inj_onD subsetD)
    then have "lk_Get (pl_Hash L t) (p_all p) = None" using lk_Get_None [OF lk assms(1)] by blast
    then show ?thesis using False K by (auto simp: Status_def held_def)
  next
    case True
    then have get: "lk_Get (pl_Hash L t) (p_all p) = Some t" using lk_Get_iff [OF lk assms(1)] by simp
    obtain a where a: "pl_Sender L t = Some a" "t \<in> set (txs_at (p_pending p) a) \<or> t \<in> set (txs_at (p_queue p) a)"
      using True K held_iff [OF I(1,2)] by blast
    have sa: "sender L t = a" using a(1) by (rule sender_Some)
    have "(\<exists>u \<in> set (txs_at (p_pending p) a). tx_Nonce u = tx_Nonce t) \<longleftrightarrow> t \<in> set (txs_at (p_pending p) a)" using a(2) I(3) by blast
    then show ?thesis using get a(2) has_nonce_txs [OF I(1)] has_nonce_txs [OF I(2)] by (auto simp: Status_def sa)
  qed
qed

text \<open>
  C33. Transaction pool: after any such run the status reported for the hash of a transaction is where
  that very transaction is: pending or queued in the lists of its sender, unknown when it is in neither.
\<close>

theorem Status_exact:
  assumes "universe L U" "config_ok (sanitize cf)" "call_env_ok U e" "\<forall>(e, c) \<in> set calls. call_env_ok U e \<and> call_ok U e c" "t \<in> U"
  shows "\<exists>p. pool_session L e cf accts journaled st calls = Some (Inr p) \<and>
    Status L [pl_Hash L t] p = [if t \<in> set (txs_at (p_pending p) (sender L t)) then TxStatusPending
      else if t \<in> set (txs_at (p_queue p) (sender L t)) then TxStatusQueued else TxStatusUnknown]"
proof -
  obtain p where p: "pool_session L e cf accts journaled st calls = Some (Inr p)" "pool_good L U p" using pool_session_good [OF assms(1-4)] by blast
  then show ?thesis using Status_at [OF assms(1) _ assms(5), of p] by (auto simp: pool_good_def)
qed

text \<open>
  C17. Transaction pool: truncating the pending lists of such a pool ends, and after it the pending
  transactions fit into the global limit or no remote account holds more than its own slots; what it
  drops leaves the parts of the pool in agreement.
\<close>

theorem truncatePending_bounded:
  assumes "universe L U" "config_ok (sanitize cf)" "call_env_ok U e" "\<forall>(e, c) \<in> set calls. call_env_ok U e \<and> call_ok U e c"
    "orders_ok Os" "pops_ok pops"
  shows "\<exists>p p'. pool_session L e cf accts journaled st calls = Some (Inr p) \<and> truncatePending L Os pops p = Some (Inr p') \<and>
    (queued_total (p_pending p') \<le> pc_GlobalSlots (p_config p') \<or>
     (\<forall>(a, l) \<in> set (p_pending p'). as_contains (p_locals p') a \<or> word_of_nat (tl_Len l) \<le> pc_AccountSlots (p_config p'))) \<and>
    known (p_all p') = held (p_pending p') (p_queue p') \<and> p_config p' = p_config p"
proof -
  obtain p where p: "pool_session L e cf accts journaled st calls = Some (Inr p)" "pool_good L U p" using pool_session_good [OF assms(1-4)] by blast
  obtain p' where p': "truncatePending L Os pops p = Some (Inr p')" "pool_ok L U p'" "p_config p' = p_config p" "pending_bounded p'"
    using truncatePending_ok [of L U Os p pops] p(2) assms(1,5,6) by (auto simp: pool_good_def config_ok_def)
  have "known (p_all p') = held (p_pending p') (p_queue p')" using p'(2) by (simp add: pool_ok_def pool_inv_def parts_def)
  then show ?thesis using p(1) p' unfolding pending_bounded_def by blast
qed

text \<open>
  C31. Transaction pool: a transaction the pool accepts is known to it afterwards, and one that it refuses
  leaves what it knows as it was. The one exception is a replacement refused for its price: room has
  been made for it by then.
\<close>

theorem add_outcome:
  assumes "universe L U" "config_ok (sanitize cf)" "call_env_ok U e" "\<forall>(e, c) \<in> set calls. call_env_ok U e \<and> call_ok U e c"
    "orders_ok Os" "t \<in> U"
  shows "\<exists>p r p'. pool_session L e cf accts journaled st calls = Some (Inr p) \<and> add L C Os now t local p = Inr (r, p') \<and>
    known (p_all p') = held (p_pending p') (p_queue p') \<and>
    (case r of Inl err \<Rightarrow> err = ErrReplaceUnderpriced \<or> known (p_all p') = known (p_all p) | Inr _ \<Rightarrow> t \<in> known (p_all p'))"
proof -
  obtain p where p: "pool_session L e cf accts journaled st calls = Some (Inr p)" "pool_good L U p" using pool_session_good [OF assms(1-4)] by blast
  obtain r p' where r: "add L C Os now t local p = Inr (r, p')" "pool_ok L U p'"
      "case r of Inl err \<Rightarrow> err = ErrReplaceUnderpriced \<or> known (p_all p') = known (p_all p) | Inr _ \<Rightarrow> t \<in> known (p_all p')"
    using add_ok [of L U Os p t C now local] p(2) assms(1,5,6) unfolding pool_good_def by blast
  have "known (p_all p') = held (p_pending p') (p_queue p')" using r(2) by (simp add: pool_ok_def pool_inv_def parts_def)
  then show ?thesis using p(1) r(1,3) by blast
qed

text \<open>
  C32. Transaction pool: raising the price drops exactly the remote transactions whose gas price is below
  the cap; local transactions and those that pay the cap stay, in the pending list or back in the queue.
\<close>

theorem SetGasPriceWithCap_exact:
  assumes "universe L U" "config_ok (sanitize cf)" "call_env_ok U e" "\<forall>(e, c) \<in> set calls. call_env_ok U e \<and> call_ok U e c"
    "orders_ok Os"
  shows "\<exists>p p'. pool_session L e cf accts journaled st calls = Some (Inr p) \<and> SetGasPriceWithCap L Os now price cap p = Inr p' \<and>
    held (p_pending p') (p_queue p') = held (p_pending p) (p_queue p) - {t \<in> remotes_set (p_all p). tx_GasPrice t < cap}"
proof -
  obtain p where p: "pool_session L e cf accts journaled st calls = Some (Inr p)" "pool_good L U p" using pool_session_good [OF assms(1-4)] by blast
  obtain p' where p': "SetGasPriceWithCap L Os now price cap p = Inr p'" "pool_ok L U p'"
      "known (p_all p') = known (p_all p) - {t \<in> remotes_set (p_all p). tx_GasPrice t < cap}"
    using SetGasPriceWithCap_ok [of L U Os p now price cap] p(2) assms(1,5) unfolding pool_good_def by blast
  have "known (p_all p) = held (p_pending p) (p_queue p)" "known (p_all p') = held (p_pending p') (p_queue p')"
    using p(2) p'(2) by (simp_all add: pool_good_def pool_ok_def pool_inv_def parts_def)
  then show ?thesis using p(1) p'(1,3) by auto
qed

section \<open>Scheduled runs\<close>

definition run_accounts :: "reorg_run \<Rightarrow> bytes set" where
  "run_accounts r = (case fst (snd r) of None \<Rightarrow> {} | Some d \<Rightarrow> set d)"

definition requested :: "sched_msg list \<Rightarrow> bytes set" where
  "requested ms = (\<Union>m \<in> set ms. case m of ReqPromote d \<Rightarrow> set d | _ \<Rightarrow> {})"

definition waiting :: "sched \<Rightarrow> bytes set" where
  "waiting s = (case sc_dirtyAccounts s of None \<Rightarrow> {} | Some d \<Rightarrow> set d)"

definition sched_inv :: "sched \<Rightarrow> bool" where
  "sched_inv s \<longleftrightarrow> sc_launchNextRun s \<or> sc_reset s = None \<and> sc_dirtyAccounts s = None"

text \<open>The new head a list of runs ends on, the last reset among them deciding.\<close>

fun last_head :: "(evm_header option \<times> evm_header option) option list \<Rightarrow> evm_header option option" where
  "last_head [] = None"
| "last_head (r # rs) = (case last_head rs of None \<Rightarrow> map_option snd r | Some h \<Rightarrow> Some h)"

fun head_after :: "evm_header option option \<Rightarrow> sched_msg list \<Rightarrow> evm_header option option" where
  "head_after h [] = h"
| "head_after h (ReqReset _ nh # ms) = head_after (Some nh) ms"
| "head_after h (ReqPromote _ # ms) = head_after h ms"
| "head_after h (QueueTxEvent _ # ms) = head_after h ms"
| "head_after h (RunDone # ms) = head_after h ms"

lemma as_merge_set: "set (as_merge other as) = set other \<union> set as"
proof -
  have "set (fold as_add other as) = set other \<union> set as" by (induction other arbitrary: as) (auto simp: as_add_def)
  then show ?thesis by (simp add: as_merge_def)
qed

lemma last_head_append: "last_head (rs @ ss) = (case last_head ss of None \<Rightarrow> last_head rs | Some h \<Rightarrow> Some h)"
  by (induction rs) (auto split: option.splits)

lemma sched_launch_parts:
  assumes "sched_launch s = (runs, s')" "sched_inv s"
  shows "(\<Union>r \<in> set runs. run_accounts r) \<union> waiting s' = waiting s" "sched_inv s'"
    "last_head (map fst runs @ [sc_reset s']) = last_head [sc_reset s]" "\<not> sc_launchNextRun s' \<or> sc_running s'"
  using assms by (auto simp: sched_launch_def run_accounts_def waiting_def sched_inv_def split: if_splits option.splits)

lemma sched_receive_parts:
  assumes "sched_inv s"
  shows "waiting (sched_receive L m s) = waiting s \<union> requested [m]" "sched_inv (sched_receive L m s)"
  using assms by (cases m; auto simp: waiting_def requested_def sched_inv_def as_merge_set split: option.splits)+

lemma sched_receive_head:
  "last_head (rs @ [sc_reset (sched_receive L m s)]) = head_after (last_head (rs @ [sc_reset s])) [m]"
  by (cases m) (auto simp: last_head_append split: option.splits)

lemma head_after_append: "head_after h (ms @ ns) = head_after (head_after h ms) ns"
  by (induction h ms rule: head_after.induct) auto

lemma sched_runs:
  assumes "sched_inv s" "scheduleReorgLoop L ms s = (runs, s')"
  shows "(\<Union>r \<in> set runs. run_accounts r) \<union> waiting s' = waiting s \<union> requested ms \<and> sched_inv s' \<and> (\<not> sc_launchNextRun s' \<or> sc_running s') \<and>
    (\<forall>rs. last_head (rs @ map fst runs @ [sc_reset s']) = head_after (last_head (rs @ [sc_reset s])) ms)"
  using assms
proof (induction ms arbitrary: s runs)
  case Nil
  note P = sched_launch_parts [OF _ Nil.prems(1), of runs s']
  have "last_head (rs @ map fst runs @ [sc_reset s']) = last_head (rs @ [sc_reset s])" for rs
    using P(3) Nil.prems(2) by (simp add: last_head_append [of rs])
  then show ?case using P Nil.prems(2) by (simp add: requested_def)
next
  case (Cons m ms)
  obtain r1 s1 where l: "sched_launch s = (r1, s1)" by force
  obtain r2 where r2: "scheduleReorgLoop L ms (sched_receive L m s1) = (r2, s')" "runs = r1 @ r2" using Cons.prems(2) l by (auto split: prod.splits)
  note P = sched_launch_parts [OF l Cons.prems(1)]
  note Q = sched_receive_parts [OF P(2), of L m]
  note IH = Cons.IH [OF Q(2) r2(1)]
  have "last_head (rs @ map fst runs @ [sc_reset s']) = head_after (last_head (rs @ [sc_reset s])) (m # ms)" for rs
  proof -
    have "last_head (rs @ map fst runs @ [sc_reset s']) = head_after (last_head ((rs @ map fst r1) @ [sc_reset (sched_receive L m s1)])) ms"
      using IH [THEN conjunct2, THEN conjunct2, THEN conjunct2, rule_format, of "rs @ map fst r1"] r2(2) by simp
    also have "\<dots> = head_after (head_after (last_head ((rs @ map fst r1) @ [sc_reset s1])) [m]) ms" by (simp only: sched_receive_head)
    also have "last_head ((rs @ map fst r1) @ [sc_reset s1]) = last_head (rs @ [sc_reset s])" using P(3) by (simp add: last_head_append [of rs])
    finally show ?thesis using head_after_append [of _ "[m]" ms] by simp
  qed
  moreover have "(\<Union>r \<in> set runs. run_accounts r) \<union> waiting s' = waiting s \<union> requested (m # ms)"
  proof -
    have "(\<Union>r \<in> set runs. run_accounts r) \<union> waiting s' = (\<Union>r \<in> set r1. run_accounts r) \<union> ((\<Union>r \<in> set r2. run_accounts r) \<union> waiting s')"
      by (auto simp: r2(2))
    also have "\<dots> = ((\<Union>r \<in> set r1. run_accounts r) \<union> waiting s1) \<union> (requested [m] \<union> requested ms)" unfolding conjunct1 [OF IH] Q(1) by blast
    finally show ?thesis unfolding P(1) by (simp add: requested_def)
  qed
  ultimately show ?case using IH by blast
qed


text \<open>A pool with one transaction of one account, with the maps read in the order they are kept.\<close>

definition sample_tx :: transaction where
  "sample_tx = \<lparr>tx_Type = LegacyTxType, tx_Nonce = 0, tx_Gas = 21000, tx_GasPrice = 5, tx_Value = 0, tx_To = Some (replicate 20 1), tx_Data = [],
     tx_V = 27, tx_R = 1, tx_S = 1, tx_ChainId = 0, tx_AccessList = []\<rparr>"

definition sample_lib :: pool_lib where
  "sample_lib = \<lparr>pl_Hash = (\<lambda>t. replicate 32 (ucast (tx_Nonce t))), pl_Size = (\<lambda>_. 110), pl_Cost = (\<lambda>t. uint (tx_Gas t) * tx_GasPrice t),
     pl_Sender = (\<lambda>_. Some (replicate 20 7))\<rparr>"

definition sample_env :: call_env where
  "sample_env = \<lparr>ce_chain = \<lparr>ch_params = \<lparr>TxGas = 21000, TxGasContractCreation = 53000, TxDataNonZeroGas = 16, TxDataZeroGas = 4,
       TxAccessListAddressGas = 2400, TxAccessListStorageKeyGas = 1900\<rparr>, ch_MinGasPrice = 1, ch_TxExists = (\<lambda>_. False)\<rparr>,
     ce_head = \<lparr>hc_CurrentBlock = \<lparr>eb_Header = \<lparr>eh_Number = 1, eh_Hash = replicate 32 1, eh_ParentHash = replicate 32 0, eh_Root = replicate 32 2,
         eh_TxHash = replicate 32 3, eh_Time = 0, eh_Coinbase = replicate 20 0, eh_GasLimit = 1000000, eh_GasUsed = 0\<rparr>, eb_Transactions = []\<rparr>,
       hc_GetBlock = (\<lambda>_ _. None), hc_StateAt = (\<lambda>_. Some \<lparr>st_GetNonce = (\<lambda>_. 0), st_GetBalance = (\<lambda>_. 1000000)\<rparr>), hc_MaxGasLimit = 1000000,
       hc_IsBerlin = (\<lambda>_. True), hc_TxDifference = (\<lambda>xs ys. filter (\<lambda>x. x \<notin> set ys) xs)\<rparr>,
     ce_orders = \<lparr>o_list = (\<lambda>_ l. l), o_table = (\<lambda>t. t), o_accts = (\<lambda>l. l)\<rparr>, ce_pops = (\<lambda>xs. rev (sort_key snd xs)), ce_now = 1\<rparr>"

definition sample_state :: pool_state where
  "sample_state = \<lparr>st_GetNonce = (\<lambda>_. 0), st_GetBalance = (\<lambda>_. 1000000)\<rparr>"

definition sample_calls :: "(call_env \<times> pool_call) list" where
  "sample_calls = [(sample_env, CallAddRemotes [sample_tx]), (sample_env, CallReorg None (Some [replicate 20 7]) []), (sample_env, CallEvict)]"

lemma sample_ok: "universe sample_lib {sample_tx}" "config_ok (sanitize DefaultTxPoolConfig)" "call_env_ok {sample_tx} sample_env"
  "\<forall>(e, c) \<in> set sample_calls. call_env_ok {sample_tx} e \<and> call_ok {sample_tx} e c"
proof -
  show "universe sample_lib {sample_tx}" by (simp add: universe_def sample_lib_def)
  show "config_ok (sanitize DefaultTxPoolConfig)" by code_simp
  have p: "sorted_wrt (\<lambda>x y. snd x \<ge> snd y) (rev (sort_key snd xs))" for xs :: "(bytes \<times> nat) list"
    using sorted_sort_key [of snd xs] by (simp add: sorted_wrt_rev sorted_wrt_map)
  have "pops_ok (ce_pops sample_env)" using p by (simp add: pops_ok_def sample_env_def)
  then show e: "call_env_ok {sample_tx} sample_env"
    by (simp add: call_env_ok_def head_chain_ok_def orders_ok_def sample_env_def visit_ok_def table_visit_ok_def)
  show "\<forall>(e, c) \<in> set sample_calls. call_env_ok {sample_tx} e \<and> call_ok {sample_tx} e c"
    using e by (simp add: sample_calls_def request_ok_def events_ok_def)
qed


theorem Status_exact_witness:
  "\<exists>p. pool_session sample_lib sample_env DefaultTxPoolConfig [] False sample_state sample_calls = Some (Inr p) \<and>
    Status sample_lib [replicate 32 0] p = [if sample_tx \<in> set (txs_at (p_pending p) (replicate 20 7)) then TxStatusPending
      else if sample_tx \<in> set (txs_at (p_queue p) (replicate 20 7)) then TxStatusQueued else TxStatusUnknown]"
proof -
  have e: "pl_Hash sample_lib sample_tx = replicate 32 0" "sender sample_lib sample_tx = replicate 20 7"
    by (simp_all add: sender_def sample_lib_def sample_tx_def)
  show ?thesis
    using Status_exact [OF sample_ok singletonI, of "[]" False sample_state] unfolding e .
qed

theorem truncatePending_bounded_witness:
  "\<exists>p p'. truncatePending sample_lib (ce_orders sample_env) (ce_pops sample_env) p = Some (Inr p') \<and> p_config p' = p_config p"
  using truncatePending_bounded [OF sample_ok, of "ce_orders sample_env" "ce_pops sample_env"] sample_ok(3) unfolding call_env_ok_def by blast


theorem add_outcome_witness:
  "\<exists>p r p'. add sample_lib (ce_chain sample_env) (ce_orders sample_env) 2 sample_tx False p = Inr (r, p') \<and>
    known (p_all p') = held (p_pending p') (p_queue p')"
  using add_outcome [OF sample_ok, of "ce_orders sample_env" sample_tx "[]" False sample_state "ce_chain sample_env" 2 False] sample_ok(3)
  unfolding call_env_ok_def by blast

theorem SetGasPriceWithCap_exact_witness:
  "\<exists>p p'. SetGasPriceWithCap sample_lib (ce_orders sample_env) 2 9 7 p = Inr p' \<and>
    held (p_pending p') (p_queue p') = held (p_pending p) (p_queue p) - {t \<in> remotes_set (p_all p). tx_GasPrice t < 7}"
  using SetGasPriceWithCap_exact [OF sample_ok, of "ce_orders sample_env" "[]" False sample_state 2 9 7] sample_ok(3)
  unfolding call_env_ok_def by blast

end
