(* ===== verification/Spec2Isabelle.thy ===== *)
theory Spec2Isabelle
  imports Heavycheck Event_Callbacks Pool_Reorg
begin

text \<open>
  A verification library of the SkyHigh node (directory src/), a proof-of-stake blockchain node: a
  fork of go-opera that runs the EVM on blocks ordered by a DAG consensus.

  \<^bold>\<open>The program.\<close> Validators emit events (src/inter) that point at parent events. A received event passes
  the checks of src/eventcheck, is stored and indexed (src/gossip/c_event_callbacks.go) and given to the
  consensus engine of the library lachesis-base, which is not part of the sources. The engine
  orders events and calls back with blocks; src/gossip/c_block_callbacks.go turns a block of confirmed
  events into an executed EVM block: it accounts the events to their validators, runs the
  transactions of the driver module and of the events through the EVM (src/evmcore,
  src/gossip/blockproc), seals epochs and stores the result (src/gossip/store*.go,
  src/gossip/evmstore). Events and transactions travel in a canonical bit-packed encoding
  (src/utils/cser). src/evmcore/state_*.go and src/gossip/evm_state_reader.go give blocks back to the
  EVM and to clients. Transactions of users wait in the transaction pool
  (src/evmcore/tx_pool.go) until an event includes them.

  \<^bold>\<open>Theories, from the bottom up\<close>
  \<^item> Sky_Prelude: Go's integers, slices, errors and panics as values; lemmas on words and bits.
  \<^item> Bits (src/utils/bits), Fast_Buffer (src/utils/fast), Cser (src/utils/cser): bit array, byte buffer
    and canonical serializer. Writers and readers are state transformers; \<open>rt\<close> says that a writer and a
    reader match, and its rules compose the round trips of all messages above.
  \<^item> Inter (src/inter): events, blocks, gas power, transactions, validators; \<open>FilterSkippedTxs\<close>.
    Tx_Serializer and Event_Serializer: their encodings, with round trips and the inputs that are refused.
  \<^item> Rules (src/skyhigh): network rules, their RLP form and updates.
  \<^item> Evm_Core (src/evmcore/state_transition.go, state_processor.go, gaspool.go): messages, intrinsic gas,
    the processing of a list of transactions. The EVM itself and the state database are parameters.
    Evm_Module (src/gossip/blockproc/evmmodule, src/evmcore/dummy_block.go): portions of a block.
  \<^item> Eventcheck (src/eventcheck): basic, epoch, parents, gas power and heavy checks. Heavycheck: the
    concurrent checker pool as a step relation, and the parentless check before it.
  \<^item> Blockproc (src/gossip/blockproc): decided state, confirmed events, sealing of epochs. Its heap of big
    integers shows the sharing of the originated fees. Driver_Module: driver logs and transactions.
    Log_Watchers: the logs of the version and staking contracts.
  \<^item> Refinement: the interface \<open>functional_refinement\<close> between an implementation with errors and a plain
    specification, and runs of operations over it. Gossip_Store: the key-value tables and caches of
    the node. State_Reader: blocks rebuilt from the tables, and the BLOCKHASH walk.
  \<^item> Block_Callbacks: the processing of one block of the consensus, from \<open>BeginBlock\<close> to the stored block.
  \<^item> Vecmt (src/vecmt): vector clocks with creation times, and the median time.
  \<^item> Event_Callbacks: processing of a received event and building of an own one.
  \<^item> Go_Heap: \<open>container/heap\<close> over the interface \<open>less_order\<close>. Tx_List: the nonce-sorted map
    and the account lists. Tx_Priced: the lookup table and the price heap of the pool. Tx_Pool: admission,
    promotion, demotion and removal, with the invariant that every known transaction is in one list.
    Pool_Full: no pending list is left empty. Pool_Limits: truncation and eviction. Pool_Reorg: resets,
    reorganisations and their scheduling, batches and views, and runs of all operations.

  \<^bold>\<open>Correspondence.\<close> A struct is a record, a method a definition that takes and returns the record; names
  are those of the source with a prefix where they clash. An error is \<open>Inl (Err e)\<close>, a run-time
  panic \<open>Inl (Panic p)\<close>. Machine integers keep their width; lengths and loop counters are naturals;
  big integers are \<open>int\<close>. A Go map is a partial function, or an association list where its size
  or the order of \<open>range\<close> matters; that order, the eviction of cache entries and random numbers are
  arguments, and the theorems hold for all of them. Goroutines that a wait group or a lock
  serialises are run in that order; the checker pool is an inductive relation on all
  interleavings. Code of other modules (go-ethereum, lachesis-base) appears only as arguments, with what
  is documented of it as named hypotheses (\<open>evm_ok\<close>, \<open>ids_ok\<close>, \<open>seq_lib_ok\<close>, \<open>store_lib_ok\<close>, \<open>pops_ok\<close>, \<dots>), and
  every property that assumes one has a witness with concrete functions.

  \<^bold>\<open>What is shown.\<close> Encodings: whatever is written is read back, decoding never panics, malformed input
  is refused, and where a second encoding is taken this is proved as well. Checks: what a valid event
  guarantees, the bound on gas along a chain of events, and that the pool neither loses nor
  duplicates work and can always finish. Execution: gas is conserved, receipts, kept and skipped
  transactions stay aligned over the portions of a block, a refused message leaves no trace. Blocks:
  every block of the consensus is skipped or becomes exactly the next block, later than the
  last, and the block rebuilt from the store is the one that was executed. Epochs: sealing keeps the
  decided state well-formed, uptime stays within the epoch, cheaters are reported once. Store:
  caches never show, a commit survives a restart. Events: heads and last events are those of the
  connected events, a refused event leaves no trace, own events pass the node's checks. Time: a
  minority of weight cannot move the median time. Account lists: heap index, cached order and
  cached caps never show. Pool: under any sequence of operations it neither panics nor hangs, its table,
  lists and price heap agree, its limits are met, and no scheduled request is lost.

  \<^bold>\<open>Loops and fuel.\<close> Loops are structural recursion or \<open>function\<close>s with a proved measure; no fuel is used.
  The BLOCKHASH walk, the walks of a pool reset and the rounds of the truncation, which have no bound of
  their own, are \<open>partial_function\<close>s, and that they return is part of the properties. An index or
  slice out of range is a panic of the model as it is in Go.

  \<^bold>\<open>Not modelled.\<close> Peer-to-peer messages, RPC, command line, metrics, logging and key files, which are I/O
  around the core; generated contract bindings; genesis, migrations and pruning of the databases;
  the log index and the gas price oracle, which only serve the RPC interface; the emitter, which is
  driven by wall-clock timers; the goroutines and the journal file of the transaction pool. The manifest lists them by file.
\<close>

end
